(* ===== verification/Mars_Prelude.thy ===== *)
theory Mars_Prelude
  imports Main "HOL-Library.Word"
begin

text \<open>
  Shared vocabulary of the development: the machine integers of the source as words, checked
  arithmetic as in \<open>core::num\<close>, results that may be an error or a panic, and generic lemmas on
  lists and words that the component theories use.
\<close>

unbundle bit_operations_syntax

type_synonym u8 = "8 word"
type_synonym u16 = "16 word"
type_synonym u32 = "32 word"
type_synonym u64 = "64 word"
type_synonym usize = "64 word"

named_theorems word_nat_simps \<open>reading word arithmetic as arithmetic on natural numbers\<close>
named_theorems rust_simps \<open>unfolding of checked arithmetic and of the result combinators\<close>

section \<open>Results\<close>

text \<open>
  \<open>Result<T, E>\<close> of the source is the sum type \<open>'e + 'a\<close> with \<open>Inl\<close> for \<open>Err\<close>; the operator
  \<open>?\<close> is \<open>sbind\<close>. A function that can panic (\<open>assert!\<close>, \<open>expect\<close>, \<open>unwrap\<close>, an index out of
  range) returns an \<open>option\<close> where \<open>None\<close> is the panic.
\<close>

fun sbind :: "'e + 'a \<Rightarrow> ('a \<Rightarrow> 'e + 'b) \<Rightarrow> 'e + 'b" where
  "sbind (Inl e) f = Inl e"
| "sbind (Inr x) f = f x"

definition ok_or :: "'a option \<Rightarrow> 'e \<Rightarrow> 'e + 'a" where
  "ok_or x e = (case x of None \<Rightarrow> Inl e | Some v \<Rightarrow> Inr v)"

lemma sbind_Inr_iff [simp]:
  "sbind m f = Inr y \<longleftrightarrow> (\<exists>x. m = Inr x \<and> f x = Inr y)"
  by (cases m) auto

lemma sbind_Inl_iff [simp]:
  "sbind m f = Inl e \<longleftrightarrow> m = Inl e \<or> (\<exists>x. m = Inr x \<and> f x = Inl e)"
  by (cases m) auto

lemma ok_or_simps [simp]:
  "ok_or (Some v) e = Inr v" "ok_or None e = Inl e"
  by (simp_all add: ok_or_def)

lemma ok_or_Inr_iff [simp]: "ok_or x e = Inr v \<longleftrightarrow> x = Some v"
  by (cases x) auto

lemma ok_or_Inl_iff [simp]: "ok_or x e = Inl e' \<longleftrightarrow> x = None \<and> e' = e"
  by (cases x) auto

section \<open>Checked arithmetic\<close>

definition checked_add :: "'a::len word \<Rightarrow> 'a word \<Rightarrow> 'a word option" where
  "checked_add a b = (if unat a + unat b < 2 ^ LENGTH('a) then Some (a + b) else None)"

definition checked_sub :: "'a::len word \<Rightarrow> 'a word \<Rightarrow> 'a word option" where
  "checked_sub a b = (if b \<le> a then Some (a - b) else None)"

definition checked_mul :: "'a::len word \<Rightarrow> 'a word \<Rightarrow> 'a word option" where
  "checked_mul a b = (if unat a * unat b < 2 ^ LENGTH('a) then Some (a * b) else None)"

lemma checked_add_Some_iff [rust_simps]:
  "checked_add a b = Some (c :: 'a::len word) \<longleftrightarrow> unat c = unat a + unat b"
proof
  assume "checked_add a b = Some c"
  then show "unat c = unat a + unat b"
    by (auto simp: checked_add_def unat_word_ariths split: if_splits)
next
  assume c: "unat c = unat a + unat b"
  then have "unat a + unat b < 2 ^ LENGTH('a)"
    using unsigned_less [of c, where ?'a = nat] by simp
  moreover from this have "unat (a + b) = unat c"
    by (simp add: c unat_word_ariths)
  ultimately show "checked_add a b = Some c"
    by (simp add: checked_add_def word_unat_eq_iff)
qed

lemma checked_add_None_iff [rust_simps]:
  "checked_add a (b :: 'a::len word) = None \<longleftrightarrow> 2 ^ LENGTH('a) \<le> unat a + unat b"
  by (simp add: checked_add_def)

lemma checked_sub_Some_iff [rust_simps]:
  "checked_sub a b = Some (c :: 'a::len word) \<longleftrightarrow> unat a = unat b + unat c"
proof
  assume "checked_sub a b = Some c"
  then show "unat a = unat b + unat c"
    by (auto simp: checked_sub_def word_le_nat_alt unat_sub split: if_splits)
next
  assume h: "unat a = unat b + unat c"
  then have le: "b \<le> a" by (simp add: word_le_nat_alt)
  then have "unat (a - b) = unat c" using h by (simp add: unat_sub word_le_nat_alt)
  with le show "checked_sub a b = Some c" by (simp add: checked_sub_def word_unat_eq_iff)
qed

lemma checked_mul_Some_iff [rust_simps]:
  "checked_mul a b = Some (c :: 'a::len word) \<longleftrightarrow> unat c = unat a * unat b"
proof
  assume "checked_mul a b = Some c"
  then show "unat c = unat a * unat b"
    by (auto simp: checked_mul_def unat_word_ariths split: if_splits)
next
  assume c: "unat c = unat a * unat b"
  then have "unat a * unat b < 2 ^ LENGTH('a)"
    using unsigned_less [of c, where ?'a = nat] by simp
  moreover from this have "unat (a * b) = unat c"
    by (simp add: c unat_word_ariths)
  ultimately show "checked_mul a b = Some c"
    by (simp add: checked_mul_def word_unat_eq_iff)
qed

section \<open>Words\<close>

text \<open>A mask of low bits is a remainder, and clearing low bits is rounding down.\<close>

lemma unat_and_mask [word_nat_simps]: "unat (w AND mask k :: 'a::len word) = unat w mod 2 ^ k"
  by (metis take_bit_eq_mask take_bit_eq_mod unsigned_take_bit_eq)

lemma unat_and_not_mask [word_nat_simps]: "unat (w AND NOT (mask k) :: 'a::len word) = unat w div 2 ^ k * 2 ^ k"
proof -
  have "w AND NOT (mask k) = w - (w AND mask k)"
  proof -
    have "NOT w AND (w AND mask k) = 0" by (simp add: bit_eq_iff bit_simps)
    from disjunctive_diff_eq_and_not [OF this]
    show ?thesis by (simp add: bit_eq_iff bit_simps) blast
  qed
  moreover have "w AND mask k \<le> w" by (rule word_and_le2)
  ultimately have "unat (w AND NOT (mask k)) = unat w - unat w mod 2 ^ k"
    by (simp add: unat_sub unat_and_mask)
  then show ?thesis by (simp add: minus_mod_eq_div_mult)
qed

lemma unat_drop_bit [word_nat_simps]: "unat (drop_bit n w :: 'a::len word) = unat w div 2 ^ n"
proof -
  have "take_bit LENGTH('a) (unat w) = unat w"
    by (simp add: take_bit_nat_eq_self_iff)
  then show ?thesis
    by (subst unsigned_drop_bit_eq) (simp add: drop_bit_eq_div)
qed

lemma byte_mask: "(0xFF :: 'a::len word) = mask 8"
  by (simp add: mask_eq_exp_minus_1)

text \<open>A word below a power of two has no bit from there on.\<close>

lemma lt_pow2_bit:
  fixes n :: "'a::len word"
  assumes "n < 2 ^ k" and "k \<le> m"
  shows "\<not> bit n m"
  using less_mask_eq [OF assms(1)] assms(2) by (metis bit_and_iff bit_mask_iff linorder_not_le)

lemma bit_lt_pow2: "(n :: 'a::len word) < 2 ^ k \<Longrightarrow> bit n m \<Longrightarrow> m < k"
  using lt_pow2_bit not_le_imp_less by blast

lemma pow2_minus_1_eq_mask: "(2 ^ k - 1 :: 'a::len word) = mask k"
  by (simp add: mask_eq_exp_minus_1)

lemma unat_mask: "k \<le> LENGTH('a) \<Longrightarrow> unat (mask k :: 'a::len word) = 2 ^ k - 1"
proof -
  assume k: "k \<le> LENGTH('a)"
  have "unat (mask k :: 'a word) = unat (take_bit k (- 1 :: 'a word))" by simp
  also have "\<dots> = take_bit k (mask LENGTH('a))"
    by (simp only: unsigned_take_bit_eq unsigned_minus_1_eq_mask)
  also have "\<dots> = 2 ^ k - 1"
    using k by (simp add: take_bit_of_mask min_def mask_eq_exp_minus_1 [symmetric]
        del: take_bit_minus_one_eq_mask) (simp add: mask_eq_exp_minus_1)
  finally show ?thesis .
qed

section \<open>Counting zeros\<close>

text \<open>\<open>trailing_zeros\<close> of \<open>core::num\<close>: the index of the lowest set bit, the width if there is none.\<close>

definition trailing_zeros :: "'a::len word \<Rightarrow> nat" where
  "trailing_zeros w = length (takeWhile (\<lambda>n. \<not> bit w n) [0..<LENGTH('a)])"

lemma trailing_zeros_bit:
  assumes "w \<noteq> (0 :: 'a::len word)"
  shows "trailing_zeros w < LENGTH('a)" and "bit w (trailing_zeros w)"
    and "m < trailing_zeros w \<Longrightarrow> \<not> bit w m"
proof -
  let ?xs = "[0..<LENGTH('a)]"
  have "\<exists>n. bit w n" using assms by (auto intro: bit_word_eqI)
  then have ex: "\<exists>n\<in>set ?xs. bit w n" using bit_imp_le_length by force
  have "takeWhile (\<lambda>n. \<not> bit w n) ?xs \<noteq> ?xs"
    using ex by (metis (full_types) set_takeWhileD)
  then have lt: "length (takeWhile (\<lambda>n. \<not> bit w n) ?xs) < length ?xs"
    by (metis length_takeWhile_le linorder_not_le order_antisym_conv takeWhile_eq_take take_all_iff)
  then show "trailing_zeros w < LENGTH('a)" by (simp add: trailing_zeros_def)
  have "bit w (?xs ! length (takeWhile (\<lambda>n. \<not> bit w n) ?xs))"
    using nth_length_takeWhile [OF lt] by simp
  then show "bit w (trailing_zeros w)" using lt by (simp add: trailing_zeros_def)
  show "\<not> bit w m" if "m < trailing_zeros w"
  proof -
    have "takeWhile (\<lambda>n. \<not> bit w n) ?xs ! m \<in> set (takeWhile (\<lambda>n. \<not> bit w n) ?xs)"
      using that by (simp add: trailing_zeros_def)
    moreover have "takeWhile (\<lambda>n. \<not> bit w n) ?xs ! m = m"
      using that lt by (simp add: takeWhile_nth trailing_zeros_def)
    ultimately show ?thesis by (metis (full_types) set_takeWhileD)
  qed
qed

section \<open>Counting list elements\<close>

lemma filter_length_update:
  "i < length xs \<Longrightarrow>
   length (filter P (xs[i := x])) + (if P (xs ! i) then 1 else 0) =
   length (filter P xs) + (if P x then 1 else 0)"
proof (induction xs arbitrary: i)
  case (Cons y ys)
  then show ?case by (cases i) auto
qed simp

lemma filter_length_0: "length (filter P xs) = 0 \<longleftrightarrow> (\<forall>i < length xs. \<not> P (xs ! i))"
  by (simp add: filter_empty_conv all_set_conv_all_nth)

lemma filter_length_unique:
  assumes "length (filter P xs) \<le> 1" and "i < length xs" and "j < length xs" and "P (xs ! i)" and "P (xs ! j)"
  shows "i = j"
proof (rule ccontr)
  assume ij: "i \<noteq> j"
  have "{i, j} \<subseteq> {k. k < length xs \<and> P (xs ! k)}" using assms by auto
  then have "card {i, j} \<le> card {k. k < length xs \<and> P (xs ! k)}" by (intro card_mono) simp_all
  then show False using ij assms(1) by (simp add: length_filter_conv_card)
qed

end
