(* ===== verification/Registers.thy ===== *)
theory Registers
  imports Mars_Prelude
begin

text \<open>
  \<open>klib/models/src/memory/registers\<close>: bit fields of memory-mapped registers (\<open>field.rs\<close>), the
  register access kinds (\<open>volatile.rs\<close>) and the layout check that \<open>declare_register!\<close> runs at
  compile time (\<open>mod.rs\<close>). A register value is a word of the register's width; a field is its
  offset and its width, which the source has as const generics.
\<close>

section \<open>Fields\<close>

record reg_field =
  OFFSET :: nat
  WIDTH :: nat

text \<open>\<open>Field::new\<close> asserts that the field lies in the register.\<close>

definition field_new :: "nat \<Rightarrow> nat \<Rightarrow> nat \<Rightarrow> reg_field option" where
  "field_new bits offset width =
     (if offset + width \<le> bits then Some \<lparr>OFFSET = offset, WIDTH = width\<rparr> else None)"

text \<open>A shift takes its amount modulo the width of the register.\<close>

definition low_mask :: "reg_field \<Rightarrow> 'a::len word" where
  "low_mask f =
     (if WIDTH f = LENGTH('a) then - 1 else drop_bit ((LENGTH('a) - WIDTH f) mod LENGTH('a)) (- 1))"

definition field_mask :: "reg_field \<Rightarrow> 'a::len word" where
  "field_mask f = push_bit (OFFSET f mod LENGTH('a)) (low_mask f)"

definition field_lift :: "('a::len word \<Rightarrow> 'v) \<Rightarrow> reg_field \<Rightarrow> 'a word \<Rightarrow> 'v" where
  "field_lift from_bits f raw = from_bits (drop_bit (OFFSET f mod LENGTH('a)) raw AND low_mask f)"

definition field_lower :: "('v \<Rightarrow> 'a::len word) \<Rightarrow> reg_field \<Rightarrow> 'v \<Rightarrow> 'a word" where
  "field_lower into_bits f v = push_bit (OFFSET f mod LENGTH('a)) (into_bits v AND low_mask f)"

section \<open>Field types\<close>

text \<open>The integer types narrower than the register (\<open>impl_fieldtype_widen\<close>) and the register's own.\<close>

definition widen_from_bits :: "'a::len word \<Rightarrow> 'b::len word" where
  "widen_from_bits bits = ucast bits"

definition widen_into_bits :: "'b::len word \<Rightarrow> 'a::len word" where
  "widen_into_bits v = ucast v"

definition bool_from_bits :: "'a::len word \<Rightarrow> bool" where
  "bool_from_bits bits \<longleftrightarrow> bits \<noteq> 0"

definition bool_into_bits :: "bool \<Rightarrow> 'a::len word" where
  "bool_into_bits b = (if b then 1 else 0)"

text \<open>The arrays \<open>[bool; N]\<close>: bit \<open>i\<close> is element \<open>i\<close>, by a loop over \<open>0..N\<close>.\<close>

definition bools_from_bits :: "nat \<Rightarrow> 'a::len word \<Rightarrow> bool list" where
  "bools_from_bits n bits = map (\<lambda>i. bits AND push_bit i 1 \<noteq> 0) [0..<n]"

definition bools_into_bits :: "bool list \<Rightarrow> 'a::len word" where
  "bools_into_bits bs =
     fold (\<lambda>i acc. if bs ! i then acc OR push_bit i 1 else acc) [0..<length bs] 0"

section \<open>Modifying a register\<close>

text \<open>\<open>RegisterModifier::set\<close> and \<open>Volatile::modify_field\<close> compute the same new value.\<close>

definition modifier_set :: "('v \<Rightarrow> 'a::len word) \<Rightarrow> reg_field \<Rightarrow> 'v \<Rightarrow> 'a word \<Rightarrow> 'a word" where
  "modifier_set into_bits f v old = (old AND NOT (field_mask f)) OR field_lower into_bits f v"

text \<open>The access kinds of \<open>volatile.rs\<close>, and which traits each implements.\<close>

datatype reg_kind =
    RReadOnly | RPureReadOnly | RWriteOnly | RPureWriteOnly
  | RPureReadPureWrite | RPureReadWrite | RReadWrite

fun kind_readable :: "reg_kind \<Rightarrow> bool" where
  "kind_readable RWriteOnly = False"
| "kind_readable RPureWriteOnly = False"
| "kind_readable _ = True"

fun kind_pure_readable :: "reg_kind \<Rightarrow> bool" where
  "kind_pure_readable RPureReadOnly = True"
| "kind_pure_readable RPureReadPureWrite = True"
| "kind_pure_readable RPureReadWrite = True"
| "kind_pure_readable _ = False"

fun kind_writeable :: "reg_kind \<Rightarrow> bool" where
  "kind_writeable RReadOnly = False"
| "kind_writeable RPureReadOnly = False"
| "kind_writeable _ = True"

fun kind_pure_writeable :: "reg_kind \<Rightarrow> bool" where
  "kind_pure_writeable RPureWriteOnly = True"
| "kind_pure_writeable RPureReadPureWrite = True"
| "kind_pure_writeable _ = False"

text \<open>
  A register cell as \<open>Volatile\<close>/\<open>DirtyVolatile\<close> hold it. \<open>None\<close> stands for a method the kind's
  traits do not offer. The write-only kinds cannot read the old value, so their \<open>modify_field\<close>
  writes the lowered field alone.
\<close>

definition reg_read :: "reg_kind \<Rightarrow> 'a::len word \<Rightarrow> 'a word option" where
  "reg_read k cell = (if kind_readable k then Some cell else None)"

definition reg_read_field ::
  "reg_kind \<Rightarrow> ('a::len word \<Rightarrow> 'v) \<Rightarrow> reg_field \<Rightarrow> 'a word \<Rightarrow> 'v option" where
  "reg_read_field k from_bits f cell = map_option (field_lift from_bits f) (reg_read k cell)"

definition reg_write :: "reg_kind \<Rightarrow> 'a::len word \<Rightarrow> 'a word \<Rightarrow> 'a word option" where
  "reg_write k v cell = (if kind_writeable k then Some v else None)"

fun reg_modify_field ::
  "reg_kind \<Rightarrow> ('v \<Rightarrow> 'a::len word) \<Rightarrow> reg_field \<Rightarrow> 'v \<Rightarrow> 'a word \<Rightarrow> 'a word option" where
  "reg_modify_field RWriteOnly into_bits f v cell =
     reg_write RWriteOnly (field_lower into_bits f v) cell"
| "reg_modify_field RPureWriteOnly into_bits f v cell =
     reg_write RPureWriteOnly (field_lower into_bits f v) cell"
| "reg_modify_field k into_bits f v cell =
     (case reg_read k cell of None \<Rightarrow> None
      | Some old \<Rightarrow> reg_write k (modifier_set into_bits f v old) cell)"

section \<open>The compile-time layout check\<close>

text \<open>
  \<open>declare_register!\<close> accumulates the masks of the fields in a \<open>u128\<close> and refuses a field that
  leaves the register or overlaps an earlier one; a shift by the width of the \<open>u128\<close> is an error too.
\<close>

definition layout_mask :: "reg_field \<Rightarrow> 128 word" where
  "layout_mask f =
     (if WIDTH f = 128 then - 1 else push_bit (OFFSET f) (push_bit (WIDTH f) 1 - 1))"

fun layout_check :: "nat \<Rightarrow> 128 word \<Rightarrow> reg_field list \<Rightarrow> bool" where
  "layout_check max_bits acc [] = True"
| "layout_check max_bits acc (f # fs) =
     (if OFFSET f + WIDTH f > max_bits then False
      else if WIDTH f \<noteq> 128 \<and> 128 \<le> OFFSET f then False
      else if acc AND layout_mask f \<noteq> 0 then False
      else layout_check max_bits (acc OR layout_mask f) fs)"

text \<open>A field of at least one bit that lies in the register.\<close>

definition field_in :: "nat \<Rightarrow> reg_field \<Rightarrow> bool" where
  "field_in bits f \<longleftrightarrow> 0 < WIDTH f \<and> OFFSET f + WIDTH f \<le> bits"

definition fields_disjoint :: "reg_field \<Rightarrow> reg_field \<Rightarrow> bool" where
  "fields_disjoint f g \<longleftrightarrow>
     {OFFSET f ..< OFFSET f + WIDTH f} \<inter> {OFFSET g ..< OFFSET g + WIDTH g} = {}"

section \<open>Lemmas on masks\<close>

lemma low_mask_eq: "0 < WIDTH f \<Longrightarrow> WIDTH f \<le> LENGTH('a) \<Longrightarrow> (low_mask f :: 'a::len word) = mask (WIDTH f)"
  by (rule bit_word_eqI) (auto simp: low_mask_def bit_simps)

lemma bit_field_mask:
  "field_in LENGTH('a) f \<Longrightarrow>
   bit (field_mask f :: 'a::len word) n \<longleftrightarrow> OFFSET f \<le> n \<and> n < OFFSET f + WIDTH f"
  by (auto simp: field_mask_def field_in_def low_mask_eq bit_simps)

lemma bit_field_lower:
  "field_in LENGTH('a) f \<Longrightarrow>
   bit (field_lower into f v :: 'a::len word) n \<longleftrightarrow>
     OFFSET f \<le> n \<and> n < OFFSET f + WIDTH f \<and> bit (into v) (n - OFFSET f)"
  by (auto simp: field_lower_def field_in_def low_mask_eq bit_simps)

lemma bit_modifier_set:
  "field_in LENGTH('a) f \<Longrightarrow>
   bit (modifier_set into f v old :: 'a::len word) n \<longleftrightarrow>
     (if OFFSET f \<le> n \<and> n < OFFSET f + WIDTH f then bit (into v) (n - OFFSET f) else bit old n)"
  by (auto simp: modifier_set_def bit_field_mask bit_field_lower bit_simps
      dest: bit_imp_le_length)

lemma field_lift_bits:
  "field_in LENGTH('a) f \<Longrightarrow>
   field_lift fromb f raw = fromb (take_bit (WIDTH f) (drop_bit (OFFSET f) (raw :: 'a::len word)))"
  by (simp add: field_lift_def field_in_def low_mask_eq take_bit_eq_mask)

lemma lift_modifier_same:
  assumes "field_in LENGTH('a) f" and "take_bit (WIDTH f) (into v) = into v"
  shows "field_lift fromb f (modifier_set into f v old :: 'a::len word) = fromb (into v)"
proof -
  have b: "bit (into v) n \<longleftrightarrow> n < WIDTH f \<and> bit (into v) n" for n
    using assms(2) by (metis bit_take_bit_iff)
  have "take_bit (WIDTH f) (drop_bit (OFFSET f) (modifier_set into f v old)) = into v"
  proof (rule bit_word_eqI)
    fix n
    show "bit (take_bit (WIDTH f) (drop_bit (OFFSET f) (modifier_set into f v old))) n =
      bit (into v) n"
      using b [of n] by (auto simp: bit_take_bit_iff bit_drop_bit_eq bit_modifier_set [OF assms(1)])
  qed
  then show ?thesis by (simp add: field_lift_bits [OF assms(1)])
qed

lemma lift_modifier_other:
  assumes "field_in LENGTH('a) f" and "field_in LENGTH('a) g" and "fields_disjoint f g"
  shows "field_lift fromb g (modifier_set into f v old :: 'a::len word) = field_lift fromb g old"
proof -
  have d: "\<not> (OFFSET f \<le> OFFSET g + n \<and> OFFSET g + n < OFFSET f + WIDTH f)" if "n < WIDTH g" for n
    using assms(3) that by (auto simp: fields_disjoint_def disjoint_iff)
  have "take_bit (WIDTH g) (drop_bit (OFFSET g) (modifier_set into f v old)) =
    take_bit (WIDTH g) (drop_bit (OFFSET g) old)"
    by (rule bit_word_eqI)
      (use d in \<open>auto simp: bit_take_bit_iff bit_drop_bit_eq bit_modifier_set [OF assms(1)]\<close>)
  then show ?thesis by (simp add: field_lift_bits [OF assms(2)])
qed

section \<open>What the layout check establishes\<close>

lemma bit_layout_mask:
  assumes "OFFSET f + WIDTH f \<le> 128"
  shows "bit (layout_mask f) n \<longleftrightarrow> OFFSET f \<le> n \<and> n < OFFSET f + WIDTH f"
proof (cases "WIDTH f = 128")
  case True
  with assms show ?thesis by (auto simp: layout_mask_def)
next
  case False
  then have "layout_mask f = push_bit (OFFSET f) (mask (WIDTH f))"
    by (simp add: layout_mask_def push_bit_eq_mult mask_eq_exp_minus_1)
  with assms show ?thesis by (auto simp: bit_push_bit_iff Word.bit_mask_iff)
qed

lemma layout_mask_disjoint:
  assumes "OFFSET f + WIDTH f \<le> 128" and "OFFSET g + WIDTH g \<le> 128"
    and "layout_mask f AND layout_mask g = 0"
  shows "fields_disjoint f g"
proof -
  have "\<not> (bit (layout_mask f) n \<and> bit (layout_mask g) n)" for n
    using assms(3) by (metis bit_and_iff bit_0_eq bot_apply bot_bool_def)
  then show ?thesis
    unfolding fields_disjoint_def disjoint_iff
    using assms(1,2) by (auto simp: bit_layout_mask)
qed

lemma layout_check_sound:
  assumes "layout_check mb acc fs" and "mb \<le> 128"
  shows "(\<forall>f \<in> set fs. OFFSET f + WIDTH f \<le> mb \<and> acc AND layout_mask f = 0) \<and>
    (\<forall>i j. i < j \<longrightarrow> j < length fs \<longrightarrow> fields_disjoint (fs ! i) (fs ! j))"
  using assms(1)
proof (induction fs arbitrary: acc)
  case Nil
  then show ?case by simp
next
  case (Cons f fs)
  from Cons.prems have f: "OFFSET f + WIDTH f \<le> mb" "acc AND layout_mask f = 0"
    and rest: "layout_check mb (acc OR layout_mask f) fs"
    by (auto split: if_splits)
  note IH = Cons.IH [OF rest]
  have fs: "acc AND layout_mask g = 0 \<and> layout_mask f AND layout_mask g = 0" if "g \<in> set fs" for g
  proof -
    have "(acc AND layout_mask g) OR (layout_mask f AND layout_mask g) = 0"
      using IH that by (simp add: bit.conj_disj_distrib2)
    then show ?thesis by (simp add: or_eq_0_iff)
  qed
  have head: "fields_disjoint f g" if "g \<in> set fs" for g
    using layout_mask_disjoint [of f g] f(1) IH fs [OF that] that assms(2)
    by (meson le_trans)
  have "fields_disjoint ((f # fs) ! i) ((f # fs) ! j)" if "i < j" "j < length (f # fs)" for i j
    using that head IH by (cases i; cases j) auto
  then show ?case using f fs IH by auto
qed

lemma fields_disjoint_sym: "fields_disjoint f g \<longleftrightarrow> fields_disjoint g f"
  by (auto simp: fields_disjoint_def)

lemma layout_check_fields:
  assumes "layout_check mb acc fs" and "mb \<le> 128" and "i < length fs" and "j < length fs"
    and "i \<noteq> j" and "0 < WIDTH (fs ! i)" and "0 < WIDTH (fs ! j)"
  shows "field_in mb (fs ! i)" and "field_in mb (fs ! j)" and "fields_disjoint (fs ! i) (fs ! j)"
proof -
  note h = layout_check_sound [OF assms(1,2)]
  show "field_in mb (fs ! i)" and "field_in mb (fs ! j)"
    using h assms(3,4,6,7) by (simp_all add: field_in_def)
  from assms(5) consider "i < j" | "j < i" by linarith
  then show "fields_disjoint (fs ! i) (fs ! j)"
    using h assms(3,4) fields_disjoint_sym by cases blast+
qed

section \<open>The field type interface\<close>

text \<open>
  What \<open>FieldType\<close> promises its users: the value written is the value read back. \<open>valid\<close> singles
  out the values a type is meant for, where the type is wider than what its users may store.
\<close>

locale field_type =
  fixes from_bits :: "'a::len word \<Rightarrow> 'v"
    and into_bits :: "'v \<Rightarrow> 'a word"
    and valid :: "'v \<Rightarrow> bool"
  assumes from_into: "valid v \<Longrightarrow> from_bits (into_bits v) = v"
begin

lemma read_back:
  assumes "field_in LENGTH('a) f" and "valid v" and "take_bit (WIDTH f) (into_bits v) = into_bits v"
  shows "field_lift from_bits f (modifier_set into_bits f v old) = v"
  using lift_modifier_same [of f into_bits v from_bits old] assms from_into by simp

lemma modify_then_read:
  assumes "kind_readable k" and "kind_writeable k" and "field_in LENGTH('a) f" and "valid v"
    and "take_bit (WIDTH f) (into_bits v) = into_bits v"
  shows "Option.bind (reg_modify_field k into_bits f v cell) (reg_read_field k from_bits f) = Some v"
  using assms read_back by (cases k) (simp_all add: reg_read_def reg_write_def reg_read_field_def)

end

lemma bit_bools_fold:
  "m \<le> length bs \<Longrightarrow>
   bit (fold (\<lambda>i acc. if bs ! i then acc OR push_bit i 1 else acc) [0..<m] 0 :: 'a::len word) n
   \<longleftrightarrow> n < m \<and> n < LENGTH('a) \<and> bs ! n"
  by (induction m arbitrary: n) (auto simp: bit_simps less_Suc_eq)

lemma bools_from_into:
  "length bs = n \<Longrightarrow> n \<le> LENGTH('a) \<Longrightarrow>
   bools_from_bits n (bools_into_bits bs :: 'a::len word) = bs"
proof -
  assume h: "length bs = n" "n \<le> LENGTH('a)"
  have "(w AND push_bit i 1 \<noteq> 0) = bit w i" if "i < LENGTH('a)" for w :: "'a word" and i
    using that by (simp add: bit_iff_and_push_bit_not_eq_0)
  with h show ?thesis
    by (auto simp: bools_from_bits_def bools_into_bits_def bit_bools_fold intro!: nth_equalityI)
qed

lemma widen_from_into:
  "LENGTH('b) \<le> LENGTH('a) \<Longrightarrow>
   widen_from_bits (widen_into_bits v :: 'a::len word) = (v :: 'b::len word)"
  by (rule bit_word_eqI)
    (auto simp: widen_from_bits_def widen_into_bits_def bit_ucast_iff dest: bit_imp_le_length)

interpretation own_ft: field_type "id :: 'a::len word \<Rightarrow> 'a word" id "\<lambda>_. True"
  by unfold_locales simp

interpretation bool_ft: field_type "bool_from_bits :: 'a::len word \<Rightarrow> bool" bool_into_bits "\<lambda>_. True"
  by unfold_locales (auto simp: bool_from_bits_def bool_into_bits_def)

interpretation bools_ft: field_type "bools_from_bits n :: 'a::len word \<Rightarrow> bool list" bools_into_bits
    "\<lambda>bs. length bs = n \<and> n \<le> LENGTH('a)" for n
  by unfold_locales (auto simp: bools_from_into)

interpretation u8_u16_ft: field_type "widen_from_bits :: u16 \<Rightarrow> u8" widen_into_bits "\<lambda>_. True"
  by unfold_locales (simp add: widen_from_into)

interpretation u8_u32_ft: field_type "widen_from_bits :: u32 \<Rightarrow> u8" widen_into_bits "\<lambda>_. True"
  by unfold_locales (simp add: widen_from_into)

interpretation u16_u32_ft: field_type "widen_from_bits :: u32 \<Rightarrow> u16" widen_into_bits "\<lambda>_. True"
  by unfold_locales (simp add: widen_from_into)

interpretation u8_u64_ft: field_type "widen_from_bits :: u64 \<Rightarrow> u8" widen_into_bits "\<lambda>_. True"
  by unfold_locales (simp add: widen_from_into)

interpretation u16_u64_ft: field_type "widen_from_bits :: u64 \<Rightarrow> u16" widen_into_bits "\<lambda>_. True"
  by unfold_locales (simp add: widen_from_into)

interpretation u32_u64_ft: field_type "widen_from_bits :: u64 \<Rightarrow> u32" widen_into_bits "\<lambda>_. True"
  by unfold_locales (simp add: widen_from_into)

section \<open>Properties\<close>

text \<open>C36: The compile-time check of \<open>declare_register!\<close> makes the fields of a register that have at
  least one bit independent: in a register that passes it, setting such a field leaves every other
  such field as it was, and a value that fits the field's width is what the field holds afterwards.\<close>

theorem declare_register_independent:
  fixes old :: "'a::len word"
  assumes "layout_check LENGTH('a) 0 fs" and "LENGTH('a) \<le> 128"
    and "i < length fs" and "j < length fs" and "i \<noteq> j" and "0 < WIDTH (fs ! i)" and "0 < WIDTH (fs ! j)"
    and "unat (into v) < 2 ^ WIDTH (fs ! i)"
  shows "field_lift fromb (fs ! j) (modifier_set into (fs ! i) v old) = field_lift fromb (fs ! j) old \<and>
    field_lift id (fs ! i) (modifier_set into (fs ! i) v old) = into v"
proof
  note f = layout_check_fields [OF assms(1-7)]
  show "field_lift fromb (fs ! j) (modifier_set into (fs ! i) v old) = field_lift fromb (fs ! j) old"
    by (rule lift_modifier_other [OF f])
  have "unat (take_bit (WIDTH (fs ! i)) (into v)) = unat (into v)"
    using assms(8) by (simp add: unsigned_take_bit_eq take_bit_nat_eq_self_iff)
  then have "take_bit (WIDTH (fs ! i)) (into v) = into v"
    by (rule unsigned_word_eqI)
  then show "field_lift id (fs ! i) (modifier_set into (fs ! i) v old) = into v"
    by (simp add: lift_modifier_same [OF f(1)])
qed

theorem declare_register_independent_witness:
  "field_lift bool_from_bits \<lparr>OFFSET = 31, WIDTH = 1\<rparr>
     (modifier_set id \<lparr>OFFSET = 0, WIDTH = 5\<rparr> 9 (0x80000001 :: u32)) = True \<and>
   field_lift id \<lparr>OFFSET = 0, WIDTH = 5\<rparr>
     (modifier_set id \<lparr>OFFSET = 0, WIDTH = 5\<rparr> 9 (0x80000001 :: u32)) = 9"
proof -
  let ?fs = "[\<lparr>OFFSET = 0, WIDTH = 5\<rparr>, \<lparr>OFFSET = 31, WIDTH = 1\<rparr>]"
  have "layout_check 32 0 ?fs" by (simp add: layout_mask_def)
  from declare_register_independent [where 'a = 32 and fs = ?fs and i = 0 and j = 1 and into = id
      and v = 9 and fromb = bool_from_bits and old = "0x80000001"] this
  show ?thesis by (simp add: field_lift_def low_mask_def bool_from_bits_def)
qed

text \<open>A field of no bits passes the check, but its mask is all ones: the shift by the width of the register is
  a shift by 0. Setting it overwrites every bit from its offset on.\<close>

theorem zero_width_field_clobbers:
  fixes old :: "'a::len word"
  assumes "WIDTH f = 0" and "OFFSET f < LENGTH('a)"
  shows "modifier_set into f v old = take_bit (OFFSET f) old OR push_bit (OFFSET f) (into v)"
  by (rule bit_word_eqI)
    (use assms in \<open>auto simp: modifier_set_def field_mask_def field_lower_def low_mask_def bit_simps\<close>)

theorem zero_width_field_clobbers_witness:
  "layout_check 32 0 [\<lparr>OFFSET = 0, WIDTH = 0\<rparr>, \<lparr>OFFSET = 4, WIDTH = 4\<rparr>] \<and>
   modifier_set id \<lparr>OFFSET = 0, WIDTH = 0\<rparr> 0 (0xF0 :: u32) = 0"
  using zero_width_field_clobbers [of "\<lparr>OFFSET = 0, WIDTH = 0\<rparr>" id 0 "0xF0 :: u32"] by (simp add: layout_mask_def)

text \<open>On a write-only register \<open>modify_field\<close> writes the field alone: every other field of the
  register, whatever it held, reads as zero bits in the value written.\<close>

theorem write_only_modify_zeroes:
  fixes cell :: "'a::len word"
  assumes "field_in LENGTH('a) f" and "field_in LENGTH('a) g" and "fields_disjoint f g"
    and "k = RWriteOnly \<or> k = RPureWriteOnly"
  shows "\<exists>w. reg_modify_field k into f v cell = Some w \<and> field_lift fromb g w = fromb 0"
proof -
  have "reg_modify_field k into f v cell = Some (field_lower into f v)"
    using assms(4) by (auto simp: reg_write_def)
  moreover have "modifier_set into f v 0 = field_lower into f v"
    by (simp add: modifier_set_def)
  then have "field_lift fromb g (field_lower into f v) = field_lift fromb g 0"
    using lift_modifier_other [OF assms(1-3), of fromb into v 0] by simp
  ultimately show ?thesis by (simp add: field_lift_def)
qed

theorem write_only_modify_zeroes_witness:
  "\<exists>w. reg_modify_field RWriteOnly bool_into_bits \<lparr>OFFSET = 1, WIDTH = 1\<rparr> True (0xFF :: u32) = Some w \<and>
     field_lift id \<lparr>OFFSET = 4, WIDTH = 4\<rparr> w = id 0"
  by (rule write_only_modify_zeroes) (auto simp: field_in_def fields_disjoint_def)

end
