(* ===== verification/Gic_Registers.thy ===== *)
theory Gic_Registers
  imports Registers
begin

text \<open>
  The registers of the interrupt controller as declared in
  \<open>klib/src/interrupt/gicv3/registers/gic.rs\<close> and the three register blocks of
  \<open>klib/src/interrupt/mod.rs\<close>, as data: for every register its width and its fields with offset,
  width and value type, for every block its members with offset, element size and count. The
  compile-time checks of the declaring macros are run on this data.
\<close>

section \<open>Declarations\<close>

text \<open>The value type of a field: a boolean, an integer of some width, or an array of trigger modes.\<close>

datatype field_ty = TBool | TInt nat | TIcfgr nat

record register_decl =
  rd_bits :: nat
  rd_fields :: "(string \<times> reg_field \<times> field_ty) list"

definition decl_fields :: "register_decl \<Rightarrow> reg_field list" where
  "decl_fields d = map (\<lambda>(_, f, _). f) (rd_fields d)"

text \<open>Bits a value type can carry.\<close>

fun field_ty_bits :: "field_ty \<Rightarrow> nat" where
  "field_ty_bits TBool = 1"
| "field_ty_bits (TInt n) = n"
| "field_ty_bits (TIcfgr n) = 2 * n"

text \<open>A register accepted by \<open>declare_register!\<close>.\<close>

definition register_ok :: "register_decl \<Rightarrow> bool" where
  "register_ok d \<longleftrightarrow> layout_check (rd_bits d) 0 (decl_fields d)"

text \<open>
  A field's type is adequate when every value of the field's bits has a place in the type, and a
  boolean or an array has exactly the field's bits.
\<close>

fun field_ty_fits :: "field_ty \<Rightarrow> reg_field \<Rightarrow> bool" where
  "field_ty_fits TBool f = (WIDTH f = 1)"
| "field_ty_fits (TInt n) f = (WIDTH f \<le> n)"
| "field_ty_fits (TIcfgr n) f = (2 * n = WIDTH f)"

definition register_types_fit :: "register_decl \<Rightarrow> bool" where
  "register_types_fit d \<longleftrightarrow> list_all (\<lambda>(_, f, t). field_ty_fits t f) (rd_fields d)"

section \<open>Registers\<close>

definition GicdCtlr :: register_decl where
  "GicdCtlr = \<lparr>rd_bits = 32, rd_fields =
      [(''EnableGroup1'', \<lparr>OFFSET = 1, WIDTH = 1\<rparr>, TBool),
       (''Are'', \<lparr>OFFSET = 4, WIDTH = 1\<rparr>, TBool),
       (''RegisterWritePending'', \<lparr>OFFSET = 31, WIDTH = 1\<rparr>, TBool)]\<rparr>"

definition GicdIPriorityr :: register_decl where
  "GicdIPriorityr = \<lparr>rd_bits = 32, rd_fields =
      [(''Priority0'', \<lparr>OFFSET = 0, WIDTH = 8\<rparr>, TInt 8)]\<rparr>"

definition GicdTyper :: register_decl where
  "GicdTyper = \<lparr>rd_bits = 32, rd_fields =
      [(''ITLinesNumber'', \<lparr>OFFSET = 0, WIDTH = 5\<rparr>, TInt 8),
       (''CPUNumber'', \<lparr>OFFSET = 5, WIDTH = 3\<rparr>, TInt 8),
       (''SecurityExtension'', \<lparr>OFFSET = 10, WIDTH = 1\<rparr>, TBool),
       (''LPISupport'', \<lparr>OFFSET = 17, WIDTH = 1\<rparr>, TBool)]\<rparr>"

definition GicIcfgr :: register_decl where
  "GicIcfgr = \<lparr>rd_bits = 32, rd_fields =
      [(''Interrupts'', \<lparr>OFFSET = 0, WIDTH = 32\<rparr>, TIcfgr 32)]\<rparr>"

definition GicBitfield8 :: register_decl where
  "GicBitfield8 = \<lparr>rd_bits = 8, rd_fields =
      [(''Field'', \<lparr>OFFSET = 0, WIDTH = 8\<rparr>, TInt 8)]\<rparr>"

definition GicBitfield32 :: register_decl where
  "GicBitfield32 = \<lparr>rd_bits = 32, rd_fields =
      [(''Field'', \<lparr>OFFSET = 0, WIDTH = 32\<rparr>, TInt 32)]\<rparr>"

definition GicBitfield64 :: register_decl where
  "GicBitfield64 = \<lparr>rd_bits = 64, rd_fields =
      [(''Field'', \<lparr>OFFSET = 0, WIDTH = 64\<rparr>, TInt 64)]\<rparr>"

definition GicdIRouter :: register_decl where
  "GicdIRouter = \<lparr>rd_bits = 64, rd_fields =
      [(''Aff0'', \<lparr>OFFSET = 0, WIDTH = 8\<rparr>, TInt 8),
       (''Aff1'', \<lparr>OFFSET = 8, WIDTH = 8\<rparr>, TInt 8),
       (''Aff2'', \<lparr>OFFSET = 16, WIDTH = 8\<rparr>, TInt 8),
       (''RouteToAny'', \<lparr>OFFSET = 31, WIDTH = 1\<rparr>, TBool),
       (''Aff3'', \<lparr>OFFSET = 32, WIDTH = 8\<rparr>, TInt 8)]\<rparr>"

definition GicrWaker :: register_decl where
  "GicrWaker = \<lparr>rd_bits = 32, rd_fields =
      [(''ProcessorSleep'', \<lparr>OFFSET = 1, WIDTH = 1\<rparr>, TBool),
       (''ChildrenAsleep'', \<lparr>OFFSET = 2, WIDTH = 1\<rparr>, TBool)]\<rparr>"

definition GicrCtlr :: register_decl where
  "GicrCtlr = \<lparr>rd_bits = 32, rd_fields =
      [(''EnableLPIs'', \<lparr>OFFSET = 0, WIDTH = 1\<rparr>, TBool),
       (''RegisterWritePending'', \<lparr>OFFSET = 3, WIDTH = 1\<rparr>, TBool),
       (''DisableProcessorSelection'', \<lparr>OFFSET = 25, WIDTH = 1\<rparr>, TBool),
       (''UpstreamWritePending'', \<lparr>OFFSET = 31, WIDTH = 1\<rparr>, TBool)]\<rparr>"

definition GicrTyper :: register_decl where
  "GicrTyper = \<lparr>rd_bits = 64, rd_fields =
      [(''PhysicalLPISupport'', \<lparr>OFFSET = 0, WIDTH = 1\<rparr>, TBool),
       (''DirectLPISupport'', \<lparr>OFFSET = 3, WIDTH = 1\<rparr>, TBool),
       (''LastRedistributor'', \<lparr>OFFSET = 4, WIDTH = 1\<rparr>, TBool),
       (''ProcessorNumber'', \<lparr>OFFSET = 8, WIDTH = 16\<rparr>, TInt 16),
       (''CommonLPIAffinity'', \<lparr>OFFSET = 24, WIDTH = 2\<rparr>, TInt 8),
       (''AffinityValue'', \<lparr>OFFSET = 32, WIDTH = 32\<rparr>, TInt 32)]\<rparr>"

definition GicrPropBar :: register_decl where
  "GicrPropBar = \<lparr>rd_bits = 64, rd_fields =
      [(''IDBits'', \<lparr>OFFSET = 0, WIDTH = 5\<rparr>, TInt 8),
       (''InnerCacheability'', \<lparr>OFFSET = 7, WIDTH = 3\<rparr>, TInt 8),
       (''Shareability'', \<lparr>OFFSET = 10, WIDTH = 2\<rparr>, TInt 8),
       (''PhysicalAddress'', \<lparr>OFFSET = 12, WIDTH = 40\<rparr>, TInt 64),
       (''OuterCacheability'', \<lparr>OFFSET = 56, WIDTH = 3\<rparr>, TInt 8)]\<rparr>"

definition GitsCtlr :: register_decl where
  "GitsCtlr = \<lparr>rd_bits = 32, rd_fields =
      [(''Enabled'', \<lparr>OFFSET = 0, WIDTH = 1\<rparr>, TBool),
       (''Quiescent'', \<lparr>OFFSET = 31, WIDTH = 1\<rparr>, TBool)]\<rparr>"

definition GitsTyper :: register_decl where
  "GitsTyper = \<lparr>rd_bits = 64, rd_fields =
      [(''PhysicalLpiCapable'', \<lparr>OFFSET = 0, WIDTH = 1\<rparr>, TBool),
       (''ITTEntrySize'', \<lparr>OFFSET = 4, WIDTH = 4\<rparr>, TInt 8),
       (''IDbits'', \<lparr>OFFSET = 8, WIDTH = 5\<rparr>, TInt 8),
       (''Devbits'', \<lparr>OFFSET = 13, WIDTH = 5\<rparr>, TInt 8),
       (''PTA'', \<lparr>OFFSET = 19, WIDTH = 1\<rparr>, TBool),
       (''HCC'', \<lparr>OFFSET = 24, WIDTH = 8\<rparr>, TInt 8)]\<rparr>"

definition GitsCbasER :: register_decl where
  "GitsCbasER = \<lparr>rd_bits = 64, rd_fields =
      [(''Size'', \<lparr>OFFSET = 0, WIDTH = 8\<rparr>, TInt 8),
       (''Shareability'', \<lparr>OFFSET = 10, WIDTH = 2\<rparr>, TInt 8),
       (''PhysicalAddress'', \<lparr>OFFSET = 12, WIDTH = 40\<rparr>, TInt 64),
       (''OuterCacheability'', \<lparr>OFFSET = 53, WIDTH = 3\<rparr>, TInt 8),
       (''InnerCacheability'', \<lparr>OFFSET = 59, WIDTH = 3\<rparr>, TInt 8),
       (''Valid'', \<lparr>OFFSET = 63, WIDTH = 1\<rparr>, TBool)]\<rparr>"

definition GitsCwriter :: register_decl where
  "GitsCwriter = \<lparr>rd_bits = 64, rd_fields =
      [(''Offset'', \<lparr>OFFSET = 5, WIDTH = 15\<rparr>, TInt 16),
       (''Retry'', \<lparr>OFFSET = 0, WIDTH = 1\<rparr>, TBool)]\<rparr>"

definition GitsCreadr :: register_decl where
  "GitsCreadr = \<lparr>rd_bits = 64, rd_fields =
      [(''Offset'', \<lparr>OFFSET = 5, WIDTH = 15\<rparr>, TInt 16),
       (''Stalled'', \<lparr>OFFSET = 0, WIDTH = 1\<rparr>, TBool)]\<rparr>"

definition GitsBaser :: register_decl where
  "GitsBaser = \<lparr>rd_bits = 64, rd_fields =
      [(''Size'', \<lparr>OFFSET = 0, WIDTH = 8\<rparr>, TInt 8),
       (''PageSize'', \<lparr>OFFSET = 8, WIDTH = 2\<rparr>, TInt 8),
       (''Shareability'', \<lparr>OFFSET = 10, WIDTH = 2\<rparr>, TInt 8),
       (''PhysicalAddress'', \<lparr>OFFSET = 12, WIDTH = 36\<rparr>, TInt 64),
       (''OuterCacheability'', \<lparr>OFFSET = 53, WIDTH = 3\<rparr>, TInt 8),
       (''Type'', \<lparr>OFFSET = 56, WIDTH = 3\<rparr>, TInt 8),
       (''InnerCacheability'', \<lparr>OFFSET = 59, WIDTH = 3\<rparr>, TInt 8),
       (''Indirect'', \<lparr>OFFSET = 62, WIDTH = 1\<rparr>, TBool),
       (''Valid'', \<lparr>OFFSET = 63, WIDTH = 1\<rparr>, TBool)]\<rparr>"

definition LpiProp :: register_decl where
  "LpiProp = \<lparr>rd_bits = 8, rd_fields =
      [(''Enabled'', \<lparr>OFFSET = 0, WIDTH = 1\<rparr>, TBool),
       (''Priority'', \<lparr>OFFSET = 2, WIDTH = 6\<rparr>, TInt 8)]\<rparr>"

definition ItsCmdWord0 :: register_decl where
  "ItsCmdWord0 = \<lparr>rd_bits = 64, rd_fields =
      [(''Cmd'', \<lparr>OFFSET = 0, WIDTH = 8\<rparr>, TInt 8),
       (''DeviceId'', \<lparr>OFFSET = 32, WIDTH = 32\<rparr>, TInt 32)]\<rparr>"

definition ItsMapdWord1 :: register_decl where
  "ItsMapdWord1 = \<lparr>rd_bits = 64, rd_fields =
      [(''Size'', \<lparr>OFFSET = 0, WIDTH = 5\<rparr>, TInt 8)]\<rparr>"

definition ItsMapdWord2 :: register_decl where
  "ItsMapdWord2 = \<lparr>rd_bits = 64, rd_fields =
      [(''IttAddr'', \<lparr>OFFSET = 8, WIDTH = 44\<rparr>, TInt 64),
       (''Valid'', \<lparr>OFFSET = 63, WIDTH = 1\<rparr>, TBool)]\<rparr>"

definition ItsMapcWord2 :: register_decl where
  "ItsMapcWord2 = \<lparr>rd_bits = 64, rd_fields =
      [(''Icid'', \<lparr>OFFSET = 0, WIDTH = 16\<rparr>, TInt 16),
       (''RdBase'', \<lparr>OFFSET = 16, WIDTH = 36\<rparr>, TInt 64),
       (''Valid'', \<lparr>OFFSET = 63, WIDTH = 1\<rparr>, TBool)]\<rparr>"

definition ItsMaptiWord1 :: register_decl where
  "ItsMaptiWord1 = \<lparr>rd_bits = 64, rd_fields =
      [(''EventId'', \<lparr>OFFSET = 0, WIDTH = 32\<rparr>, TInt 32),
       (''pIntId'', \<lparr>OFFSET = 32, WIDTH = 32\<rparr>, TInt 32)]\<rparr>"

definition ItsMaptiWord2 :: register_decl where
  "ItsMaptiWord2 = \<lparr>rd_bits = 64, rd_fields =
      [(''Icid'', \<lparr>OFFSET = 0, WIDTH = 16\<rparr>, TInt 16)]\<rparr>"

definition ItsInvallWord2 :: register_decl where
  "ItsInvallWord2 = \<lparr>rd_bits = 64, rd_fields =
      [(''Icid'', \<lparr>OFFSET = 0, WIDTH = 16\<rparr>, TInt 16)]\<rparr>"

definition ItsSyncWord2 :: register_decl where
  "ItsSyncWord2 = \<lparr>rd_bits = 64, rd_fields =
      [(''RdBase'', \<lparr>OFFSET = 16, WIDTH = 36\<rparr>, TInt 64)]\<rparr>"

definition ItsDiscardWord1 :: register_decl where
  "ItsDiscardWord1 = \<lparr>rd_bits = 64, rd_fields =
      [(''EventId'', \<lparr>OFFSET = 0, WIDTH = 32\<rparr>, TInt 32)]\<rparr>"

definition ItsInvWord1 :: register_decl where
  "ItsInvWord1 = \<lparr>rd_bits = 64, rd_fields =
      [(''EventId'', \<lparr>OFFSET = 0, WIDTH = 32\<rparr>, TInt 32)]\<rparr>"

definition gic_registers :: "register_decl list" where
  "gic_registers =
     [GicdCtlr, GicdIPriorityr, GicdTyper, GicIcfgr, GicBitfield8, GicBitfield32, GicBitfield64,
      GicdIRouter, GicrWaker, GicrCtlr, GicrTyper, GicrPropBar, GitsCtlr, GitsTyper, GitsCbasER,
      GitsCwriter, GitsCreadr, GitsBaser, LpiProp, ItsCmdWord0, ItsMapdWord1, ItsMapdWord2,
      ItsMapcWord2, ItsMaptiWord1, ItsMaptiWord2, ItsInvallWord2, ItsSyncWord2, ItsDiscardWord1,
      ItsInvWord1]"

lemmas gic_register_defs = GicdCtlr_def GicdIPriorityr_def GicdTyper_def GicIcfgr_def
      GicBitfield8_def GicBitfield32_def GicBitfield64_def GicdIRouter_def GicrWaker_def
      GicrCtlr_def GicrTyper_def GicrPropBar_def GitsCtlr_def GitsTyper_def GitsCbasER_def
      GitsCwriter_def GitsCreadr_def GitsBaser_def LpiProp_def ItsCmdWord0_def ItsMapdWord1_def
      ItsMapdWord2_def ItsMapcWord2_def ItsMaptiWord1_def ItsMaptiWord2_def ItsInvallWord2_def
      ItsSyncWord2_def ItsDiscardWord1_def ItsInvWord1_def


section \<open>Value types of their own\<close>

datatype icfgr_value = LevelSensitive | EdgeTriggered

text \<open>
  Trigger modes, two bits each. The shift amount is \<open>i * 2\<close> on a register of the given width; where
  it reaches the width, the release build takes it modulo the width.
\<close>

definition icfgr_from_bits :: "nat \<Rightarrow> 'a::len word \<Rightarrow> icfgr_value list" where
  "icfgr_from_bits n bits =
     map (\<lambda>i. if drop_bit ((i * 2) mod LENGTH('a)) bits AND 3 = 2 then EdgeTriggered
              else LevelSensitive) [0..<n]"

fun icfgr_code :: "icfgr_value \<Rightarrow> 'a::len word" where
  "icfgr_code LevelSensitive = 0"
| "icfgr_code EdgeTriggered = 2"

definition icfgr_into_bits :: "icfgr_value list \<Rightarrow> 'a::len word" where
  "icfgr_into_bits vs =
     fold (\<lambda>i acc. acc OR push_bit ((i * 2) mod LENGTH('a)) (icfgr_code (vs ! i)))
       [0..<length vs] 0"

datatype baser_type = Unallocated | DeviceTable | VpeTable | CollectionTable

definition baser_type_from_bits :: "'a::len word \<Rightarrow> baser_type" where
  "baser_type_from_bits bits =
     (if bits = 1 then DeviceTable else if bits = 2 then VpeTable
      else if bits = 4 then CollectionTable else Unallocated)"

fun baser_type_into_bits :: "baser_type \<Rightarrow> 'a::len word" where
  "baser_type_into_bits DeviceTable = 1"
| "baser_type_into_bits VpeTable = 2"
| "baser_type_into_bits CollectionTable = 4"
| "baser_type_into_bits Unallocated = 0"

section \<open>Register blocks\<close>

text \<open>
  \<open>declare_structs!\<close> pads every member up to its offset (\<open>offset - end of the previous member\<close>) and
  asserts that offsets do not go backwards and that the block ends after its last member. A member
  is its name, offset, element size in bytes and element count.
\<close>

record struct_decl =
  sd_end :: nat
  sd_fields :: "(string \<times> nat \<times> nat \<times> nat) list"

fun struct_check :: "nat \<Rightarrow> nat \<Rightarrow> (string \<times> nat \<times> nat \<times> nat) list \<Rightarrow> bool" where
  "struct_check end_off cur [] = (cur \<le> end_off)"
| "struct_check end_off cur ((n, off, sz, cnt) # fs) =
     (cur \<le> off \<and> struct_check end_off (off + sz * cnt) fs)"

definition struct_ok :: "struct_decl \<Rightarrow> bool" where
  "struct_ok d \<longleftrightarrow> struct_check (sd_end d) 0 (sd_fields d)"

text \<open>
  Where \<open>repr(C)\<close> really puts the members of the generated struct: each member after its
  \<open>_reserved_\<close> byte array, at the next multiple of its alignment (the size of its element).
\<close>

definition round_up :: "nat \<Rightarrow> nat \<Rightarrow> nat" where
  "round_up x a = (x + a - 1) div a * a"

fun repr_c_layout :: "nat \<Rightarrow> nat \<Rightarrow> (string \<times> nat \<times> nat \<times> nat) list \<Rightarrow> (string \<times> nat) list" where
  "repr_c_layout pos cur [] = []"
| "repr_c_layout pos cur ((n, off, sz, cnt) # fs) =
     (let start = round_up (pos + (off - cur)) sz in
      (n, start) # repr_c_layout (start + sz * cnt) (off + sz * cnt) fs)"

definition struct_layout :: "struct_decl \<Rightarrow> (string \<times> nat) list" where
  "struct_layout d = repr_c_layout 0 0 (sd_fields d)"

definition struct_aligned :: "struct_decl \<Rightarrow> bool" where
  "struct_aligned d \<longleftrightarrow> list_all (\<lambda>(_, off, sz, _). 0 < sz \<and> off mod sz = 0) (sd_fields d)"

definition declared_layout :: "struct_decl \<Rightarrow> (string \<times> nat) list" where
  "declared_layout d = map (\<lambda>(n, off, _). (n, off)) (sd_fields d)"

definition GicdRegisters :: struct_decl where
  "GicdRegisters = \<lparr>sd_end = 0x10000, sd_fields =
      [(''ctl'', 0x0, 4, 1),
       (''type_'', 0x4, 4, 1),
       (''igroup'', 0x80, 4, 32),
       (''iset_enable'', 0x100, 4, 32),
       (''iclear_enable'', 0x180, 4, 32),
       (''iset_pend'', 0x200, 4, 32),
       (''iclear_pend'', 0x280, 4, 32),
       (''iset_active'', 0x300, 4, 32),
       (''iclear_active'', 0x380, 4, 32),
       (''ipriority'', 0x400, 1, 1024),
       (''icfg'', 0xc00, 4, 64),
       (''irouter'', 0x6100, 8, 992)]\<rparr>"

definition GicrRegisters :: struct_decl where
  "GicrRegisters = \<lparr>sd_end = 0x20000, sd_fields =
      [(''ctl'', 0x0, 4, 1),
       (''type_'', 0x8, 8, 1),
       (''wake'', 0x14, 4, 1),
       (''set_lpi'', 0x40, 8, 1),
       (''clear_lpi'', 0x48, 8, 1),
       (''property_bar'', 0x70, 8, 1),
       (''pending_bar'', 0x78, 8, 1),
       (''igroup0'', 0x10080, 4, 1),
       (''iset_enable0'', 0x10100, 4, 1),
       (''iclear_enable0'', 0x10180, 4, 1),
       (''iset_pend0'', 0x10200, 4, 1),
       (''iclear_pend0'', 0x10280, 4, 1),
       (''iset_active0'', 0x10300, 4, 1),
       (''iclear_active0'', 0x10380, 4, 1),
       (''ipriority'', 0x10400, 1, 32),
       (''icfg0'', 0x10c00, 4, 1),
       (''icfg1'', 0x10c04, 4, 1),
       (''igroup_mod'', 0x10d00, 4, 1)]\<rparr>"

definition GitsRegisters :: struct_decl where
  "GitsRegisters = \<lparr>sd_end = 0x20000, sd_fields =
      [(''ctl'', 0x0, 4, 1),
       (''iidr'', 0x4, 4, 1),
       (''type_'', 0x8, 8, 1),
       (''cbaser'', 0x80, 8, 1),
       (''cwriter'', 0x88, 8, 1),
       (''creadr'', 0x90, 8, 1),
       (''baser'', 0x100, 8, 8),
       (''translator'', 0x10040, 4, 1)]\<rparr>"

section \<open>Lemmas\<close>

lemma round_up_multiple: "0 < a \<Longrightarrow> x mod a = 0 \<Longrightarrow> round_up x a = x"
proof -
  assume a: "0 < a" and "x mod a = 0"
  then obtain k where x: "x = k * a" by (metis add.right_neutral div_mult_mod_eq)
  have e: "x + a - 1 = (a - 1) + k * a" using a x by simp
  have "((a - 1) + k * a) div a = k"
    using a by (subst div_mult_self1) simp_all
  then show ?thesis unfolding round_up_def e using x by simp
qed

lemma repr_c_layout_declared:
  "struct_check e cur fs \<Longrightarrow> list_all (\<lambda>(_, off, sz, _). 0 < sz \<and> off mod sz = 0) fs \<Longrightarrow>
   repr_c_layout cur cur fs = map (\<lambda>(n, off, _). (n, off)) fs"
  by (induction e cur fs rule: struct_check.induct) (auto simp: round_up_multiple Let_def)

lemma bit_icfgr_code:
  "bit (icfgr_code v :: 'a::len word) j \<longleftrightarrow> j = 1 \<and> 1 < LENGTH('a) \<and> v = EdgeTriggered"
  by (cases v) (auto simp: bit_2_iff)

lemma bit_icfgr_fold:
  assumes "2 * m \<le> LENGTH('a)"
  shows "bit (fold (\<lambda>i acc. acc OR push_bit ((i * 2) mod LENGTH('a)) (icfgr_code (vs ! i)))
      [0..<m] 0 :: 'a::len word) n \<longleftrightarrow> odd n \<and> n < 2 * m \<and> vs ! (n div 2) = EdgeTriggered"
  using assms
proof (induction m)
  case (Suc m)
  then have lt: "2 * m < LENGTH('a)" "2 * m + 1 < LENGTH('a)" by simp_all
  then have mod: "m * 2 mod LENGTH('a) = 2 * m" by simp
  have "bit (push_bit (2 * m) (icfgr_code (vs ! m) :: 'a word)) n
      \<longleftrightarrow> n = 2 * m + 1 \<and> vs ! m = EdgeTriggered"
    using lt by (auto simp: bit_push_bit_iff bit_icfgr_code)
  then show ?case
    using Suc lt by (auto simp: mod bit_or_iff elim!: oddE) (auto simp: less_Suc_eq)
qed simp

lemma and_3_eq_2:
  assumes "1 < LENGTH('a)"
  shows "(w :: 'a::len word) AND 3 = 2 \<longleftrightarrow> \<not> bit w 0 \<and> bit w 1"
proof -
  have m: "bit (3 :: 'a word) j \<longleftrightarrow> j = 0 \<or> j = 1" for j
  proof -
    have "(3 :: 'a word) = mask 2" by (simp add: mask_eq_exp_minus_1)
    then have "bit (3 :: 'a word) j \<longleftrightarrow> j < LENGTH('a) \<and> j < 2"
      by (simp only: bit_mask_iff possible_bit_word)
    then show ?thesis using assms by auto
  qed
  have two: "bit (2 :: 'a word) j \<longleftrightarrow> j = 1" for j
    using assms by (auto simp: bit_2_iff)
  have b: "bit (w AND 3) j \<longleftrightarrow> bit w j \<and> (j = 0 \<or> j = 1)" for j
    by (simp only: bit_and_iff m)
  show ?thesis
  proof
    assume e: "w AND 3 = 2"
    show "\<not> bit w 0 \<and> bit w 1"
      using b [of 0] b [of 1] two [of 0] two [of 1] zero_neq_one unfolding e by blast
  next
    assume "\<not> bit w 0 \<and> bit w 1"
    then have "bit (w AND 3) j \<longleftrightarrow> bit (2 :: 'a word) j" for j
      unfolding b two by metis
    then show "w AND 3 = 2" by (rule bit_word_eqI)
  qed
qed

lemma icfgr_roundtrip:
  assumes "2 * length vs \<le> LENGTH('a)"
  shows "icfgr_from_bits (length vs) (icfgr_into_bits vs :: 'a::len word) = vs"
proof (rule nth_equalityI)
  show "length (icfgr_from_bits (length vs) (icfgr_into_bits vs :: 'a word)) = length vs"
    by (simp add: icfgr_from_bits_def)
next
  fix i assume "i < length (icfgr_from_bits (length vs) (icfgr_into_bits vs :: 'a word))"
  then have i: "i < length vs" by (simp add: icfgr_from_bits_def)
  with assms have l: "i * 2 < LENGTH('a)" "1 < LENGTH('a)" by simp_all
  have "bit (icfgr_into_bits vs :: 'a word) n \<longleftrightarrow>
      odd n \<and> n < 2 * length vs \<and> vs ! (n div 2) = EdgeTriggered" for n
    unfolding icfgr_into_bits_def by (rule bit_icfgr_fold [OF assms])
  then have "drop_bit (i * 2) (icfgr_into_bits vs :: 'a word) AND 3 = 2 \<longleftrightarrow> vs ! i = EdgeTriggered"
    using i l by (simp add: and_3_eq_2 bit_drop_bit_eq)
  then show "icfgr_from_bits (length vs) (icfgr_into_bits vs :: 'a word) ! i = vs ! i"
    using i l by (cases "vs ! i") (simp_all add: icfgr_from_bits_def)
qed

interpretation icfgr_ft: field_type "icfgr_from_bits n :: 'a::len word \<Rightarrow> icfgr_value list"
    icfgr_into_bits "\<lambda>vs. length vs = n \<and> 2 * n \<le> LENGTH('a)" for n
  by unfold_locales (auto simp: icfgr_roundtrip)

interpretation baser_ft: field_type "baser_type_from_bits :: u64 \<Rightarrow> baser_type" baser_type_into_bits
    "\<lambda>_. True"
proof unfold_locales
  show "baser_type_from_bits (baser_type_into_bits v :: u64) = v" for v
    by (cases v) (simp_all add: baser_type_from_bits_def)
qed

lemma icfgr_from_bits_nth:
  "i < n \<Longrightarrow> icfgr_from_bits n (w :: 'a::len word) ! i =
     (if drop_bit ((i * 2) mod LENGTH('a)) w AND 3 = 2 then EdgeTriggered else LevelSensitive)"
  by (simp add: icfgr_from_bits_def)

lemma icfgr_from_bits_alias:
  assumes "i < 16"
  shows "icfgr_from_bits 32 (w :: u32) ! (i + 16) = icfgr_from_bits 32 w ! i"
proof -
  have "(i + 16) * 2 mod 32 = i * 2 mod 32" by (simp add: mod_simps)
  then show ?thesis using assms by (simp add: icfgr_from_bits_nth)
qed

section \<open>Properties\<close>

text \<open>Every register of the interrupt controller passes the layout check of \<open>declare_register!\<close>
  (fields inside the register, pairwise disjoint), and \<open>GicIcfgr\<close> is the only one with a field whose
  value type does not have the field's size.\<close>

theorem gic_registers_layout:
  "list_all register_ok gic_registers \<and>
   filter (\<lambda>d. \<not> register_types_fit d) gic_registers = [GicIcfgr]"
  by (simp add: gic_registers_def gic_register_defs register_ok_def register_types_fit_def
      decl_fields_def layout_mask_def)

text \<open>An array of at most half as many trigger modes as the register has bits is read back as it
  was written.\<close>

theorem icfgr_read_back:
  assumes "2 * length vs \<le> LENGTH('a::len)"
  shows "icfgr_from_bits (length vs) (icfgr_into_bits vs :: 'a word) = vs"
  by (rule icfgr_roundtrip [OF assms])

theorem icfgr_read_back_witness:
  "icfgr_from_bits 2 (icfgr_into_bits [EdgeTriggered, LevelSensitive] :: u32)
     = [EdgeTriggered, LevelSensitive]"
  using icfgr_read_back [of "[EdgeTriggered, LevelSensitive]", where 'a = 32]
  by (simp add: numeral_2_eq_2)

text \<open>The 32 trigger modes that \<open>GicIcfgr\<close> declares on its 32 bits alias: whatever the register
  holds, entry \<open>i + 16\<close> reads as entry \<open>i\<close>, so an array whose two halves differ is never read back.\<close>

theorem icfgr_32_aliases:
  "(\<forall>i. i < 16 \<longrightarrow> icfgr_from_bits 32 (w :: u32) ! (i + 16) = icfgr_from_bits 32 w ! i) \<and>
   (\<forall>vs i. i < 16 \<longrightarrow> vs ! (i + 16) \<noteq> vs ! i \<longrightarrow> icfgr_from_bits 32 (icfgr_into_bits vs :: u32) \<noteq> vs)"
  using icfgr_from_bits_alias by metis

theorem icfgr_32_aliases_witness:
  "icfgr_from_bits 32 (2 :: u32) ! 16 = EdgeTriggered \<and>
   icfgr_from_bits 32 (icfgr_into_bits (EdgeTriggered # replicate 31 LevelSensitive) :: u32)
     \<noteq> EdgeTriggered # replicate 31 LevelSensitive"
proof
  have "icfgr_from_bits 32 (2 :: u32) ! 0 = EdgeTriggered" by (simp add: icfgr_from_bits_def)
  then show "icfgr_from_bits 32 (2 :: u32) ! 16 = EdgeTriggered"
    using icfgr_32_aliases [of 2] by (metis add_0 zero_less_numeral)
  have "(EdgeTriggered # replicate 31 LevelSensitive) ! (0 + 16) = LevelSensitive" by simp
  then show "icfgr_from_bits 32 (icfgr_into_bits (EdgeTriggered # replicate 31 LevelSensitive) :: u32)
     \<noteq> EdgeTriggered # replicate 31 LevelSensitive"
    using icfgr_32_aliases [of 0] by (metis icfgr_value.distinct(1) nth_Cons_0 zero_less_numeral)
qed

text \<open>The register blocks have their members at the declared offsets: \<open>declare_structs!\<close> accepts
  the three blocks, and \<open>repr(C)\<close> adds no padding of its own between the members.\<close>

theorem gic_blocks_layout:
  "list_all (\<lambda>d. struct_ok d \<and> struct_layout d = declared_layout d)
     [GicdRegisters, GicrRegisters, GitsRegisters]"
proof -
  have "struct_layout d = declared_layout d" if "struct_ok d" "struct_aligned d" for d
    using that repr_c_layout_declared
    by (simp add: struct_layout_def declared_layout_def struct_ok_def struct_aligned_def)
  moreover have "struct_ok GicdRegisters" "struct_aligned GicdRegisters"
    by (simp_all add: struct_ok_def struct_aligned_def GicdRegisters_def)
  moreover have "struct_ok GicrRegisters" "struct_aligned GicrRegisters"
    by (simp_all add: struct_ok_def struct_aligned_def GicrRegisters_def)
  moreover have "struct_ok GitsRegisters" "struct_aligned GitsRegisters"
    by (simp_all add: struct_ok_def struct_aligned_def GitsRegisters_def)
  ultimately show ?thesis by simp
qed

end
