(* ===== verification/Lpi_Alloc.thy ===== *)
theory Lpi_Alloc
  imports Mars_Prelude
begin

text \<open>
  The allocator of LPI interrupt numbers of \<open>klib/src/interrupt/gicv3/lpi_alloc.rs\<close>: a bitmap of
  64-bit words with a search hint. The abstraction is the set of allocated numbers; the invariant
  says that every word below the hint is full, which is what makes the search find a free number
  whenever there is one.
\<close>

section \<open>Model\<close>

record lpi_allocator =
  bitmap :: "u64 list"
  base_id :: u32
  max_id :: u32
  hint :: nat

definition lpi_new :: "u32 \<Rightarrow> u32 \<Rightarrow> lpi_allocator" where
  "lpi_new base mx =
     (let count = mx - base + 1; words = unat ((count + 63) div 64) in
      \<lparr>bitmap = replicate words 0, base_id = base, max_id = mx, hint = 0\<rparr>)"

fun lpi_alloc_loop :: "nat list \<Rightarrow> lpi_allocator \<Rightarrow> u32 option \<times> lpi_allocator" where
  "lpi_alloc_loop [] a = (None, a)"
| "lpi_alloc_loop (k # ks) a =
     (let words = length (bitmap a); i = (hint a + k) mod words; word = bitmap a ! i in
      if word \<noteq> NOT 0 then
        let bt = trailing_zeros (NOT word);
            a1 = a\<lparr>bitmap := (bitmap a)[i := word OR push_bit bt 1], hint := i\<rparr>;
            iid = base_id a + of_nat i * 64 + of_nat bt in
        if iid > max_id a
        then lpi_alloc_loop ks
               (a1\<lparr>bitmap := (bitmap a1)[i := bitmap a1 ! i AND NOT (push_bit bt 1)]\<rparr>)
        else (Some iid, a1)
      else lpi_alloc_loop ks a)"

definition lpi_alloc :: "lpi_allocator \<Rightarrow> u32 option \<times> lpi_allocator" where
  "lpi_alloc a = lpi_alloc_loop [0..<length (bitmap a)] a"

text \<open>\<open>reserve\<close> and \<open>free\<close>. The index into the bitmap panics (\<open>None\<close>) out of range.\<close>

definition lpi_in_range :: "lpi_allocator \<Rightarrow> u32 \<Rightarrow> bool" where
  "lpi_in_range a iid \<longleftrightarrow> base_id a \<le> iid \<and> iid \<le> max_id a"

definition lpi_reserve :: "lpi_allocator \<Rightarrow> u32 \<Rightarrow> ((unit + unit) \<times> lpi_allocator) option" where
  "lpi_reserve a iid =
     (if \<not> lpi_in_range a iid then Some (Inl (), a)
      else
        let offset = iid - base_id a; i = unat (offset div 64); bt = unat (offset mod 64) in
        if i \<ge> length (bitmap a) then None
        else if bitmap a ! i AND push_bit bt 1 \<noteq> 0 then Some (Inl (), a)
        else Some (Inr (), a\<lparr>bitmap := (bitmap a)[i := bitmap a ! i OR push_bit bt 1]\<rparr>))"

definition lpi_free :: "lpi_allocator \<Rightarrow> u32 \<Rightarrow> lpi_allocator option" where
  "lpi_free a iid =
     (if \<not> lpi_in_range a iid then Some a
      else
        let offset = iid - base_id a; i = unat (offset div 64); bt = unat (offset mod 64) in
        if i \<ge> length (bitmap a) then None
        else
          let a1 = a\<lparr>bitmap := (bitmap a)[i := bitmap a ! i AND NOT (push_bit bt 1)]\<rparr> in
          Some (if i < hint a1 then a1\<lparr>hint := i\<rparr> else a1))"

text \<open>
  The states an allocator for the ids from \<open>base\<close> to \<open>mx\<close> can be in: a new one, and whatever
  any sequence of calls makes of it.
\<close>

inductive lpi_reachable :: "u32 \<Rightarrow> u32 \<Rightarrow> lpi_allocator \<Rightarrow> bool" for base mx where
  new: "lpi_reachable base mx (lpi_new base mx)"
| alloc: "lpi_reachable base mx a \<Longrightarrow> lpi_reachable base mx (snd (lpi_alloc a))"
| reserve: "lpi_reachable base mx a \<Longrightarrow> lpi_reserve a iid = Some (r, a') \<Longrightarrow> lpi_reachable base mx a'"
| free: "lpi_reachable base mx a \<Longrightarrow> lpi_free a iid = Some a' \<Longrightarrow> lpi_reachable base mx a'"

section \<open>Abstraction and invariant\<close>

text \<open>Bit \<open>n\<close> of the whole bitmap, the number of interrupt ids, and the set of allocated ids.\<close>

definition lpi_bit :: "lpi_allocator \<Rightarrow> nat \<Rightarrow> bool" where
  "lpi_bit a n \<longleftrightarrow> bit (bitmap a ! (n div 64)) (n mod 64)"

definition lpi_count :: "lpi_allocator \<Rightarrow> nat" where
  "lpi_count a = unat (max_id a) - unat (base_id a) + 1"

definition lpi_used :: "lpi_allocator \<Rightarrow> u32 \<Rightarrow> bool" where
  "lpi_used a iid \<longleftrightarrow> lpi_in_range a iid \<and> lpi_bit a (unat iid - unat (base_id a))"

definition lpi_inv :: "lpi_allocator \<Rightarrow> bool" where
  "lpi_inv a \<longleftrightarrow>
     base_id a \<le> max_id a \<and> length (bitmap a) = (lpi_count a + 63) div 64 \<and>
     unat (base_id a) + 64 * length (bitmap a) \<le> 2 ^ 32 \<and> hint a < length (bitmap a) \<and>
     (\<forall>n < 64 * length (bitmap a). lpi_count a \<le> n \<longrightarrow> \<not> lpi_bit a n) \<and>
     (\<forall>n < 64 * hint a. lpi_bit a n)"

section \<open>Lemmas\<close>

lemma lpi_id_unat:
  assumes "lpi_inv a" and "i < length (bitmap a)" and "b < 64"
  shows "unat (base_id a + of_nat i * 64 + of_nat b) = unat (base_id a) + (64 * i + b)"
proof -
  have lt: "unat (base_id a) + (64 * i + b) < 2 ^ 32" using assms unfolding lpi_inv_def by linarith
  have "base_id a + of_nat i * 64 + of_nat b = of_nat (unat (base_id a) + (64 * i + b))"
    by (simp add: algebra_simps)
  then show ?thesis using lt by (simp only: unat_of_nat take_bit_nat_def) simp
qed

lemma lpi_bit_set:
  assumes "i < length (bitmap a)" and "b < 64"
  shows "lpi_bit (a\<lparr>bitmap := (bitmap a)[i := bitmap a ! i OR push_bit b 1]\<rparr>) n \<longleftrightarrow>
    n = 64 * i + b \<or> lpi_bit a n"
proof -
  have "bit (push_bit b 1 :: u64) m \<longleftrightarrow> m = b" for m
    using assms(2) by (auto simp: bit_simps)
  moreover have "n = 64 * i + b \<longleftrightarrow> n div 64 = i \<and> n mod 64 = b"
    using assms(2) by auto
  ultimately show ?thesis using assms(1)
    by (cases "n div 64 = i") (auto simp: lpi_bit_def bit_or_iff)
qed

lemma lpi_bit_clear:
  assumes "i < length (bitmap a)" and "b < 64"
  shows "lpi_bit (a\<lparr>bitmap := (bitmap a)[i := bitmap a ! i AND NOT (push_bit b 1)]\<rparr>) n \<longleftrightarrow>
    n \<noteq> 64 * i + b \<and> lpi_bit a n"
proof -
  have p: "bit (push_bit b 1 :: u64) m \<longleftrightarrow> m = b" for m
    using assms(2) by (auto simp: bit_simps)
  have "bit (NOT (push_bit b 1 :: u64)) m \<longleftrightarrow> m \<noteq> b" if "m < 64" for m
    using that unfolding bit_not_iff p by simp
  moreover have "n = 64 * i + b \<longleftrightarrow> n div 64 = i \<and> n mod 64 = b"
    using assms(2) by auto
  ultimately show ?thesis using assms(1)
    by (cases "n div 64 = i") (auto simp: lpi_bit_def bit_and_iff)
qed

lemma lpi_word_full:
  "bitmap a ! i = NOT 0 \<longleftrightarrow> (\<forall>b < 64. lpi_bit a (64 * i + b))"
proof
  assume "bitmap a ! i = NOT 0"
  then show "\<forall>b < 64. lpi_bit a (64 * i + b)" by (simp add: lpi_bit_def)
next
  assume h: "\<forall>b < 64. lpi_bit a (64 * i + b)"
  show "bitmap a ! i = NOT 0"
    by (rule bit_word_eqI) (use h in \<open>auto simp: lpi_bit_def\<close>)
qed

lemma lpi_first_zero:
  assumes "bitmap a ! i \<noteq> NOT 0" and "b = trailing_zeros (NOT (bitmap a ! i))"
  shows "b < 64" and "\<not> lpi_bit a (64 * i + b)" and "c < b \<Longrightarrow> lpi_bit a (64 * i + c)"
proof -
  let ?w = "bitmap a ! i"
  have "NOT ?w \<noteq> 0" using assms(1) by (metis bit.double_compl)
  note t = trailing_zeros_bit [OF this]
  show b: "b < 64" using t(1) assms(2) by simp
  show "\<not> lpi_bit a (64 * i + b)" using t(2) b by (simp add: assms(2) lpi_bit_def bit_not_iff)
  show "lpi_bit a (64 * i + c)" if "c < b"
    using t(3) [of c] that b by (simp add: assms(2) lpi_bit_def bit_not_iff)
qed

lemma lpi_used_nth:
  assumes "lpi_inv a"
  shows "lpi_used a iid \<longleftrightarrow> (\<exists>n < lpi_count a. unat iid = unat (base_id a) + n \<and> lpi_bit a n)"
proof
  assume "lpi_used a iid"
  then show "\<exists>n < lpi_count a. unat iid = unat (base_id a) + n \<and> lpi_bit a n"
    by (intro exI [of _ "unat iid - unat (base_id a)"])
      (auto simp: lpi_used_def lpi_in_range_def lpi_count_def word_le_nat_alt)
next
  assume "\<exists>n < lpi_count a. unat iid = unat (base_id a) + n \<and> lpi_bit a n"
  then show "lpi_used a iid" using assms
    by (auto simp: lpi_used_def lpi_in_range_def lpi_count_def word_le_nat_alt lpi_inv_def)
qed

lemma lpi_restore:
  assumes "i < length (bitmap a)" and "b < 64" and "\<not> lpi_bit a (64 * i + b)"
  shows "(bitmap a)[i := (bitmap a ! i OR push_bit b 1) AND NOT (push_bit b 1)] = bitmap a"
proof -
  have nb: "\<not> bit (bitmap a ! i) b" using assms by (simp add: lpi_bit_def)
  have "(bitmap a ! i OR push_bit b 1) AND NOT (push_bit b 1) = bitmap a ! i"
    by (rule bit_word_eqI) (use nb in \<open>auto simp: bit_simps\<close>)
  then show ?thesis by simp
qed

lemma lpi_bit_in_bitmap:
  assumes "lpi_inv a" and "n < lpi_count a"
  shows "n < 64 * length (bitmap a)" and "n div 64 < length (bitmap a)"
  using assms by (auto simp: lpi_inv_def)

lemma lpi_inv_hint:
  assumes "lpi_inv a" and "i < length (bitmap a)" and "\<forall>n < 64 * i. lpi_bit a n"
  shows "lpi_inv (a\<lparr>hint := i\<rparr>)"
  using assms by (simp add: lpi_inv_def lpi_bit_def lpi_count_def)

lemma lpi_inv_set:
  assumes "lpi_inv a" and "n < lpi_count a" and "n = 64 * i + b" and "b < 64"
  shows "lpi_inv (a\<lparr>bitmap := (bitmap a)[i := bitmap a ! i OR push_bit b 1]\<rparr>)"
proof -
  have i: "i < length (bitmap a)" using lpi_bit_in_bitmap [OF assms(1,2)] assms(3,4) by simp
  show ?thesis
    using assms(1-3) unfolding lpi_inv_def lpi_bit_set [OF i assms(4)] by (auto simp: lpi_count_def)
qed

text \<open>With every id in use the search finds nothing, and only the hint may have moved.\<close>

lemma lpi_loop_full:
  assumes "lpi_inv a" and "\<forall>n < lpi_count a. lpi_bit a n"
  shows "\<exists>h. lpi_alloc_loop ks a = (None, a\<lparr>hint := h\<rparr>) \<and> lpi_inv (a\<lparr>hint := h\<rparr>)"
  using assms
proof (induction ks arbitrary: a)
  case Nil
  then show ?case by (intro exI [of _ "hint a"]) simp
next
  case (Cons k ks)
  define i where "i = (hint a + k) mod length (bitmap a)"
  have len: "i < length (bitmap a)" using Cons.prems(1) by (auto simp: i_def lpi_inv_def)
  show ?case
  proof (cases "bitmap a ! i = NOT 0")
    case True
    then show ?thesis using Cons by (simp add: i_def [symmetric])
  next
    case False
    define b where "b = trailing_zeros (NOT (bitmap a ! i))"
    note z = lpi_first_zero [OF False b_def]
    have big: "lpi_count a \<le> 64 * i + b" using Cons.prems(2) z(2) by (meson not_le)
    have gt: "base_id a + of_nat i * 64 + of_nat b > max_id a"
      using big lpi_id_unat [OF Cons.prems(1) len z(1)]
      by (simp add: word_less_nat_alt lpi_count_def)
    have below: "\<forall>n < 64 * i. lpi_bit a n"
      using Cons.prems len by (auto simp: lpi_inv_def)
    have inv: "lpi_inv (a\<lparr>hint := i\<rparr>)" by (rule lpi_inv_hint [OF Cons.prems(1) len below])
    have all: "\<forall>n < lpi_count (a\<lparr>hint := i\<rparr>). lpi_bit (a\<lparr>hint := i\<rparr>) n"
      using Cons.prems(2) by (simp add: lpi_bit_def lpi_count_def)
    have "lpi_alloc_loop (k # ks) a = lpi_alloc_loop ks (a\<lparr>hint := i\<rparr>)"
      using False gt len lpi_restore [OF len z(1,2)]
      by (simp add: i_def [symmetric] b_def [symmetric] Let_def)
    then show ?thesis using Cons.IH [OF inv all] by simp
  qed
qed

text \<open>The state after the bit of id number \<open>n\<close> is taken by the search.\<close>

definition lpi_take :: "lpi_allocator \<Rightarrow> nat \<Rightarrow> lpi_allocator" where
  "lpi_take a n = a\<lparr>bitmap := (bitmap a)[n div 64 := bitmap a ! (n div 64) OR push_bit (n mod 64) 1],
     hint := n div 64\<rparr>"

lemma lpi_bit_take:
  assumes "lpi_inv a" and "n < lpi_count a"
  shows "lpi_bit (lpi_take a n) m \<longleftrightarrow> m = n \<or> lpi_bit a m"
  using lpi_bit_set [OF lpi_bit_in_bitmap(2) [OF assms], of "n mod 64" m]
  by (simp add: lpi_take_def lpi_bit_def)

lemma lpi_inv_take:
  assumes "lpi_inv a" and "n < lpi_count a" and "\<forall>m < n. lpi_bit a m"
  shows "lpi_inv (lpi_take a n)"
proof -
  let ?a = "a\<lparr>bitmap := (bitmap a)[n div 64 := bitmap a ! (n div 64) OR push_bit (n mod 64) 1]\<rparr>"
  have "lpi_inv ?a" by (rule lpi_inv_set [OF assms(1,2)]) simp_all
  moreover have "\<forall>m < 64 * (n div 64). lpi_bit ?a m"
    using assms(3) lpi_bit_set [OF lpi_bit_in_bitmap(2) [OF assms(1,2)], of "n mod 64"] by simp
  ultimately have "lpi_inv (?a\<lparr>hint := n div 64\<rparr>)"
    using lpi_bit_in_bitmap(2) [OF assms(1,2)] by (intro lpi_inv_hint) simp_all
  then show ?thesis by (simp add: lpi_take_def)
qed

lemma lpi_loop_scan:
  assumes "lpi_inv a" and "n < lpi_count a" and "\<not> lpi_bit a n" and "\<forall>m < n. lpi_bit a m"
    and "hint a + k \<le> n div 64"
  shows "lpi_alloc_loop [k..<length (bitmap a)] a =
    (Some (base_id a + of_nat n), lpi_take a n)"
  using assms
proof (induction "n div 64 - (hint a + k)" arbitrary: k)
  case 0
  define i where "i = n div 64"
  have len: "i < length (bitmap a)" unfolding i_def by (rule lpi_bit_in_bitmap(2) [OF 0(2,3)])
  have ix: "(hint a + k) mod length (bitmap a) = i" "k < length (bitmap a)"
    using 0 len by (simp_all add: i_def)
  have n: "n = 64 * i + n mod 64" by (simp add: i_def)
  have nf: "bitmap a ! i \<noteq> NOT 0"
    using 0(4) n lpi_word_full [of a i] by (metis mod_less_divisor zero_less_numeral)
  define b where "b = trailing_zeros (NOT (bitmap a ! i))"
  note z = lpi_first_zero [OF nf b_def]
  have b: "b = n mod 64"
  proof (rule linorder_cases)
    assume "b < n mod 64"
    then show ?thesis using z(2) 0(5) n by (metis add_less_cancel_left)
  next
    assume "n mod 64 < b"
    then show ?thesis using z(3) [of "n mod 64"] 0(4) n by simp
  qed
  have iid: "base_id a + of_nat i * 64 + of_nat b = base_id a + of_nat n"
  proof -
    have "(of_nat n :: u32) = of_nat (64 * i + b)" using n b by simp
    then show ?thesis by (simp add: algebra_simps)
  qed
  have "\<not> max_id a < base_id a + of_nat i * 64 + of_nat b"
    using lpi_id_unat [OF 0(2) len z(1)] 0(3) n b 0(2)
    by (simp add: word_less_nat_alt lpi_count_def lpi_inv_def word_le_nat_alt) linarith
  then show ?case
    using nf ix iid by (simp add: upt_conv_Cons b_def [symmetric] Let_def lpi_take_def i_def [symmetric] b)
next
  case (Suc x)
  then have lt: "hint a + k < n div 64" by linarith
  have len: "n div 64 < length (bitmap a)" by (rule lpi_bit_in_bitmap(2) [OF Suc(3,4)])
  have ix: "(hint a + k) mod length (bitmap a) = hint a + k" "k < length (bitmap a)"
    using lt len by simp_all
  have "lpi_bit a (64 * (hint a + k) + c)" if "c < 64" for c
    using Suc(6) lt that by (auto dest!: spec [of _ "64 * (hint a + k) + c"])
  then have "bitmap a ! (hint a + k) = NOT 0" by (simp only: lpi_word_full) blast
  then have "lpi_alloc_loop [k..<length (bitmap a)] a = lpi_alloc_loop [Suc k..<length (bitmap a)] a"
    using ix by (simp add: upt_conv_Cons)
  also have "\<dots> = (Some (base_id a + of_nat n), lpi_take a n)"
    using Suc(2) lt by (intro Suc(1) Suc.prems) simp_all
  finally show ?case .
qed

lemma lpi_in_range_nth:
  assumes "lpi_inv a"
  shows "lpi_in_range a iid \<longleftrightarrow> (\<exists>n < lpi_count a. unat iid = unat (base_id a) + n)"
proof
  assume "lpi_in_range a iid"
  then show "\<exists>n < lpi_count a. unat iid = unat (base_id a) + n"
    by (intro exI [of _ "unat iid - unat (base_id a)"])
      (auto simp: lpi_in_range_def lpi_count_def word_le_nat_alt)
qed (use assms in \<open>auto simp: lpi_in_range_def lpi_count_def word_le_nat_alt lpi_inv_def\<close>)

lemma lpi_nth_unat:
  assumes "lpi_inv a" and "n < lpi_count a"
  shows "unat (base_id a + of_nat n) = unat (base_id a) + n"
proof -
  have "(of_nat n :: u32) = of_nat (n div 64 * 64 + n mod 64)" by (simp only: div_mult_mod_eq)
  then have "(of_nat n :: u32) = of_nat (n div 64) * 64 + of_nat (n mod 64)"
    by (simp only: of_nat_add of_nat_mult of_nat_numeral)
  then show ?thesis
    using lpi_id_unat [OF assms(1) lpi_bit_in_bitmap(2) [OF assms], of "n mod 64"]
    by (simp add: add.assoc)
qed

lemma lpi_used_bit:
  assumes "lpi_inv a" and "n < lpi_count a" and "unat iid = unat (base_id a) + n"
  shows "lpi_used a iid \<longleftrightarrow> lpi_bit a n"
  using assms by (auto simp: lpi_used_nth)

text \<open>The search, in terms of the bits: the least clear bit below the count, if there is one.\<close>

lemma lpi_alloc_cases:
  assumes "lpi_inv a"
  obtains (full) h where "\<forall>n < lpi_count a. lpi_bit a n"
      and "lpi_alloc a = (None, a\<lparr>hint := h\<rparr>)" and "lpi_inv (a\<lparr>hint := h\<rparr>)"
    | (found) n where "n < lpi_count a" and "\<not> lpi_bit a n" and "\<forall>m < n. lpi_bit a m"
      and "lpi_alloc a = (Some (base_id a + of_nat n), lpi_take a n)" and "lpi_inv (lpi_take a n)"
proof (cases "\<forall>n < lpi_count a. lpi_bit a n")
  case True
  then show thesis using lpi_loop_full [OF assms True] full unfolding lpi_alloc_def by blast
next
  case False
  define n where "n = (LEAST n. \<not> lpi_bit a n)"
  obtain k where k: "k < lpi_count a" "\<not> lpi_bit a k" using False by blast
  have n: "\<not> lpi_bit a n" "n \<le> k" "\<forall>m < n. lpi_bit a m"
    using LeastI [of "\<lambda>n. \<not> lpi_bit a n", OF k(2)] Least_le [of "\<lambda>n. \<not> lpi_bit a n", OF k(2)]
      not_less_Least [of _ "\<lambda>n. \<not> lpi_bit a n"] unfolding n_def by blast+
  have "hint a \<le> n div 64"
  proof (rule ccontr)
    assume "\<not> hint a \<le> n div 64"
    then have "n < 64 * hint a" by (simp add: div_less_iff_less_mult mult.commute)
    then show False using n(1) assms unfolding lpi_inv_def by blast
  qed
  then show thesis
    using found [of n] lpi_loop_scan [OF assms, of n 0] lpi_inv_take [OF assms, of n] n k
    unfolding lpi_alloc_def by simp
qed

lemma lpi_new_inv:
  assumes "base \<le> mx" and "unat mx + 64 < 2 ^ 32"
  shows "lpi_inv (lpi_new base mx) \<and> (\<forall>j. \<not> lpi_used (lpi_new base mx) j)"
proof -
  define c where "c = unat mx - unat base"
  have le: "unat base \<le> unat mx" using assms(1) by (simp add: word_le_nat_alt)
  then have lt: "c + 64 < 2 ^ 32" using assms(2) by (simp add: c_def)
  have "64 * ((c + 64) div 64) \<le> c + 64" by simp
  then have fits: "unat base + 64 * ((c + 64) div 64) \<le> 2 ^ 32"
    using le assms(2) unfolding c_def by linarith
  have "unat (mx - base) = c" using assms(1) by (simp add: c_def unat_sub)
  then have "unat (mx - base + 1 + 63) = c + 64"
    using lt by (simp add: unat_word_ariths add.assoc)
  then have words: "unat ((mx - base + 1 + 63) div 64) = (c + 64) div 64"
    by (simp add: unat_div)
  have len: "length (bitmap (lpi_new base mx)) = (c + 64) div 64"
    unfolding lpi_new_def Let_def words by simp
  have zero: "\<not> lpi_bit (lpi_new base mx) n" if "n < 64 * ((c + 64) div 64)" for n
    using that unfolding lpi_bit_def lpi_new_def Let_def words
    by (simp add: div_less_iff_less_mult mult.commute)
  have count: "lpi_count (lpi_new base mx) = c + 1" "c + 1 \<le> 64 * ((c + 64) div 64)"
    by (simp_all add: lpi_count_def lpi_new_def c_def)
  have sel: "base_id (lpi_new base mx) = base" "max_id (lpi_new base mx) = mx"
      "hint (lpi_new base mx) = 0"
    by (simp_all add: lpi_new_def)
  have inv: "lpi_inv (lpi_new base mx)"
    unfolding lpi_inv_def len count sel using assms(1) fits zero
    by (simp add: add.commute div_greater_zero_iff)
  then show ?thesis using zero count by (auto simp: lpi_used_nth)
qed

text \<open>The word and the bit of an id of the range.\<close>

lemma lpi_index:
  assumes "lpi_inv a" and "lpi_in_range a iid"
  defines "n \<equiv> unat iid - unat (base_id a)"
  shows "unat ((iid - base_id a) div 64) = n div 64" and "unat ((iid - base_id a) mod 64) = n mod 64"
    and "n < lpi_count a" and "unat iid = unat (base_id a) + n"
proof -
  have le: "base_id a \<le> iid" "iid \<le> max_id a" using assms(2) by (simp_all add: lpi_in_range_def)
  then have "unat (iid - base_id a) = n" by (simp add: n_def unat_sub)
  then show "unat ((iid - base_id a) div 64) = n div 64" "unat ((iid - base_id a) mod 64) = n mod 64"
    by (simp_all only: unat_div unat_mod unsigned_numeral) simp_all
  show "n < lpi_count a" "unat iid = unat (base_id a) + n"
    using le by (simp_all add: n_def lpi_count_def word_le_nat_alt)
qed

lemma lpi_test_bit:
  "b < 64 \<Longrightarrow> bitmap a ! i AND push_bit b 1 \<noteq> 0 \<longleftrightarrow> lpi_bit a (64 * i + b)"
  by (simp add: lpi_bit_def bit_iff_and_push_bit_not_eq_0)

lemma lpi_reserve_cases:
  assumes "lpi_inv a"
  shows "if lpi_in_range a iid \<and> \<not> lpi_used a iid
    then \<exists>a'. lpi_reserve a iid = Some (Inr (), a') \<and> lpi_inv a' \<and>
      (\<forall>j. lpi_used a' j \<longleftrightarrow> j = iid \<or> lpi_used a j)
    else lpi_reserve a iid = Some (Inl (), a)"
proof (cases "lpi_in_range a iid")
  case False
  then show ?thesis by (simp add: lpi_reserve_def)
next
  case True
  define n where "n = unat iid - unat (base_id a)"
  note ix = lpi_index [OF assms True, folded n_def]
  define i b where "i = n div 64" and "b = n mod 64"
  have n: "n = 64 * i + b" "b < 64" by (simp_all add: i_def b_def)
  have len: "i < length (bitmap a)" unfolding i_def by (rule lpi_bit_in_bitmap(2) [OF assms ix(3)])
  define a' where "a' = a\<lparr>bitmap := (bitmap a)[i := bitmap a ! i OR push_bit b 1]\<rparr>"
  have r: "lpi_reserve a iid = (if lpi_bit a n then Some (Inl (), a) else Some (Inr (), a'))"
    using True len lpi_test_bit [OF n(2), of a i]
    by (simp add: lpi_reserve_def ix(1,2) a'_def n(1) [symmetric] i_def [symmetric] b_def [symmetric])
  have inv: "lpi_inv a'" unfolding a'_def by (rule lpi_inv_set [OF assms ix(3) n])
  have "lpi_bit a' m \<longleftrightarrow> m = n \<or> lpi_bit a m" for m
    unfolding a'_def n(1) by (rule lpi_bit_set [OF len n(2)])
  then have "lpi_used a' j \<longleftrightarrow> j = iid \<or> lpi_used a j" for j
    using ix(3,4) inv assms
    by (auto simp: lpi_used_nth a'_def lpi_count_def word_unat_eq_iff)
  then show ?thesis using r inv True lpi_used_bit [OF assms ix(3,4)] by auto
qed

lemma lpi_free_cases:
  assumes "lpi_inv a"
  shows "\<exists>a'. lpi_free a iid = Some a' \<and> lpi_inv a' \<and> (\<forall>j. lpi_used a' j \<longleftrightarrow> j \<noteq> iid \<and> lpi_used a j)"
proof (cases "lpi_in_range a iid")
  case False
  then show ?thesis using assms by (auto simp: lpi_free_def lpi_used_def)
next
  case True
  define n where "n = unat iid - unat (base_id a)"
  note ix = lpi_index [OF assms True, folded n_def]
  define i b where "i = n div 64" and "b = n mod 64"
  have n: "n = 64 * i + b" "b < 64" by (simp_all add: i_def b_def)
  have len: "i < length (bitmap a)" unfolding i_def by (rule lpi_bit_in_bitmap(2) [OF assms ix(3)])
  define a1 where "a1 = a\<lparr>bitmap := (bitmap a)[i := bitmap a ! i AND NOT (push_bit b 1)]\<rparr>"
  define a' where "a' = (if i < hint a1 then a1\<lparr>hint := i\<rparr> else a1)"
  have r: "lpi_free a iid = Some a'"
    using True len
    by (simp add: lpi_free_def ix(1,2) a'_def a1_def i_def [symmetric] b_def [symmetric])
  have bits: "lpi_bit a' m \<longleftrightarrow> m \<noteq> n \<and> lpi_bit a m" for m
    using lpi_bit_clear [OF len n(2), of m] n(1) by (simp add: a'_def a1_def lpi_bit_def)
  have sel: "base_id a' = base_id a" "max_id a' = max_id a" "lpi_count a' = lpi_count a"
      "length (bitmap a') = length (bitmap a)" "hint a' = min i (hint a)"
    by (auto simp: a'_def a1_def lpi_count_def)
  have "lpi_bit a' m" if "m < 64 * min i (hint a)" for m
  proof -
    have "m < 64 * hint a" "m < 64 * i" using that by auto
    then show ?thesis using assms n(1) by (simp add: bits lpi_inv_def)
  qed
  then have inv: "lpi_inv a'" using assms by (auto simp: lpi_inv_def sel bits)
  then have "lpi_used a' j \<longleftrightarrow> j \<noteq> iid \<and> lpi_used a j" for j
    using ix(3,4) assms by (auto simp: lpi_used_nth sel bits word_unat_eq_iff)
  then show ?thesis using r inv by blast
qed

lemma lpi_reachable_inv:
  assumes "lpi_reachable base mx a" and "base \<le> mx" and "unat mx + 64 < 2 ^ 32"
  shows "lpi_inv a"
  using assms(1)
proof induction
  case new
  show ?case using lpi_new_inv [OF assms(2,3)] by blast
next
  case (alloc a)
  from alloc.IH show ?case by (cases rule: lpi_alloc_cases) simp_all
next
  case (reserve a iid r a')
  then show ?case using lpi_reserve_cases [of a iid] by (auto split: if_splits)
next
  case (free a iid a')
  then show ?case using lpi_free_cases [of a iid] by auto
qed

section \<open>What a client may rely on\<close>

text \<open>A table whose entries own the ids they name.\<close>

definition owned :: "u32 set \<Rightarrow> ('k \<rightharpoonup> u32) \<Rightarrow> bool" where
  "owned ids m \<longleftrightarrow> inj_on m (dom m) \<and> ran m \<subseteq> ids"

locale id_source =
  fixes ok :: "'a \<Rightarrow> bool" and ids :: "'a \<Rightarrow> u32 set" and used :: "'a \<Rightarrow> u32 set"
    and take_any :: "'a \<Rightarrow> u32 option \<times> 'a"
    and take_id :: "'a \<Rightarrow> u32 \<Rightarrow> ((unit + unit) \<times> 'a) option"
    and give_back :: "'a \<Rightarrow> u32 \<Rightarrow> 'a option"
  assumes take_any_law: "ok a \<Longrightarrow> take_any a = (r, a') \<Longrightarrow>
      ok a' \<and> ids a' = ids a \<and>
      (case r of None \<Rightarrow> ids a \<subseteq> used a \<and> used a' = used a
       | Some i \<Rightarrow> i \<in> ids a - used a \<and> used a' = insert i (used a))"
    and take_id_law: "ok a \<Longrightarrow>
      \<exists>r a'. take_id a i = Some (r, a') \<and> ok a' \<and> ids a' = ids a \<and>
        (case r of Inl _ \<Rightarrow> i \<notin> ids a - used a \<and> used a' = used a
         | Inr _ \<Rightarrow> i \<in> ids a - used a \<and> used a' = insert i (used a))"
    and give_back_law: "ok a \<Longrightarrow>
      \<exists>a'. give_back a i = Some a' \<and> ok a' \<and> ids a' = ids a \<and> used a' = used a - {i}"
begin

lemma owned_take_any:
  assumes "ok a" and "owned (used a) m" and "take_any a = (Some i, a')"
  shows "owned (used a') (m(k \<mapsto> i))"
  using take_any_law [OF assms(1,3)] assms(2)
  by (auto simp: owned_def inj_on_def ran_def split: if_splits)

lemma owned_take_id:
  assumes "ok a" and "owned (used a) m" and "take_id a i = Some (Inr u, a')"
  shows "owned (used a') (m(k \<mapsto> i))"
  using take_id_law [OF assms(1), of i] assms(2,3)
  by (auto simp: owned_def inj_on_def ran_def split: if_splits)

lemma owned_give_back:
  assumes "ok a" and "owned (used a) m" and "m k = Some i" and "give_back a i = Some a'"
  shows "owned (used a') (m(k := None))"
proof -
  have "x = k" if "m x = Some i" for x
    using that assms(2,3) inj_onD [of m "dom m" x k] by (simp add: owned_def domI)
  then show ?thesis
    using give_back_law [OF assms(1), of i] assms(2,4)
    by (auto simp: owned_def inj_on_def ran_def split: if_splits)
qed

end

text \<open>The allocator as such a source.\<close>

definition lpi_ids :: "lpi_allocator \<Rightarrow> u32 set" where
  "lpi_ids a = {base_id a .. max_id a}"

definition lpi_used_set :: "lpi_allocator \<Rightarrow> u32 set" where
  "lpi_used_set a = {i. lpi_used a i}"

lemma lpi_in_range_ids: "lpi_in_range a i \<longleftrightarrow> i \<in> lpi_ids a"
  by (simp add: lpi_in_range_def lpi_ids_def)

lemma lpi_reserve_range:
  "lpi_reserve a i = Some (r, a') \<Longrightarrow> base_id a' = base_id a \<and> max_id a' = max_id a"
  by (auto simp: lpi_reserve_def Let_def split: if_splits)

lemma lpi_free_range: "lpi_free a i = Some a' \<Longrightarrow> base_id a' = base_id a \<and> max_id a' = max_id a"
  by (auto simp: lpi_free_def Let_def split: if_splits)

lemma lpi_alloc_found:
  assumes inv: "lpi_inv a" and "n < lpi_count a" and "\<not> lpi_bit a n" and "lpi_inv (lpi_take a n)"
  shows "lpi_in_range a (base_id a + of_nat n)" and "\<not> lpi_used a (base_id a + of_nat n)"
    and "lpi_used (lpi_take a n) j \<longleftrightarrow> j = base_id a + of_nat n \<or> lpi_used a j"
proof -
  note u = lpi_nth_unat [OF assms(1,2)]
  have sel: "lpi_count (lpi_take a n) = lpi_count a" "base_id (lpi_take a n) = base_id a"
    by (simp_all add: lpi_take_def lpi_count_def)
  show "lpi_used (lpi_take a n) j \<longleftrightarrow> j = base_id a + of_nat n \<or> lpi_used a j"
    using assms(2) u
    by (auto simp: lpi_used_nth [OF inv] lpi_used_nth [OF assms(4)] sel
        lpi_bit_take [OF assms(1,2)] word_unat_eq_iff)
  show "lpi_in_range a (base_id a + of_nat n)"
    using assms(2) u by (auto simp: lpi_in_range_nth [OF inv])
  show "\<not> lpi_used a (base_id a + of_nat n)"
    using assms(3) lpi_used_bit [OF assms(1,2) u] by simp
qed

interpretation lpis: id_source lpi_inv lpi_ids lpi_used_set lpi_alloc lpi_reserve lpi_free
proof
  fix a r a'
  assume inv: "lpi_inv a" and run: "lpi_alloc a = (r, a')"
  from inv show "lpi_inv a' \<and> lpi_ids a' = lpi_ids a \<and>
      (case r of None \<Rightarrow> lpi_ids a \<subseteq> lpi_used_set a \<and> lpi_used_set a' = lpi_used_set a
       | Some i \<Rightarrow> i \<in> lpi_ids a - lpi_used_set a \<and> lpi_used_set a' = insert i (lpi_used_set a))"
  proof (cases rule: lpi_alloc_cases)
    case (full h)
    then show ?thesis using run inv
      by (auto simp: lpi_used_set_def lpi_ids_def lpi_used_nth lpi_in_range_nth lpi_count_def lpi_bit_def
          simp flip: lpi_in_range_def)
  next
    case (found n)
    have "lpi_ids (lpi_take a n) = lpi_ids a" by (simp add: lpi_ids_def lpi_take_def)
    with found run show ?thesis
      using lpi_alloc_found [OF inv found(1,2,5)] by (auto simp: lpi_used_set_def lpi_in_range_ids)
  qed
next
  fix a i
  assume inv: "lpi_inv a"
  show "\<exists>r a'. lpi_reserve a i = Some (r, a') \<and> lpi_inv a' \<and> lpi_ids a' = lpi_ids a \<and>
      (case r of Inl _ \<Rightarrow> i \<notin> lpi_ids a - lpi_used_set a \<and> lpi_used_set a' = lpi_used_set a
       | Inr _ \<Rightarrow> i \<in> lpi_ids a - lpi_used_set a \<and> lpi_used_set a' = insert i (lpi_used_set a))"
    using lpi_reserve_cases [OF inv, of i] inv
    by (auto simp: lpi_used_set_def lpi_in_range_ids split: if_splits dest: lpi_reserve_range)
      (simp_all add: lpi_ids_def lpi_reserve_range)
  show "\<exists>a'. lpi_free a i = Some a' \<and> lpi_inv a' \<and> lpi_ids a' = lpi_ids a \<and>
      lpi_used_set a' = lpi_used_set a - {i}"
    using lpi_free_cases [OF inv, of i] by (auto simp: lpi_used_set_def lpi_ids_def dest: lpi_free_range)
qed

section \<open>Properties\<close>

text \<open>C20: In every state that calls of the allocator can reach, \<open>alloc\<close> returns the least id of the
  range that is not in use and marks exactly that id; it returns \<open>None\<close> only when every id of the
  range is in use, and then changes nothing.\<close>

theorem lpi_alloc_least:
  assumes "lpi_reachable base mx a" and "base \<le> mx" and "unat mx + 64 < 2 ^ 32"
  shows "case lpi_alloc a of
      (Some i, a') \<Rightarrow> lpi_in_range a i \<and> \<not> lpi_used a i \<and>
        (\<forall>j. lpi_in_range a j \<and> j < i \<longrightarrow> lpi_used a j) \<and>
        (\<forall>j. lpi_used a' j \<longleftrightarrow> j = i \<or> lpi_used a j)
    | (None, a') \<Rightarrow> (\<forall>j. lpi_in_range a j \<longrightarrow> lpi_used a j) \<and> (\<forall>j. lpi_used a' j \<longleftrightarrow> lpi_used a j)"
proof -
  have inv: "lpi_inv a" by (rule lpi_reachable_inv [OF assms])
  then show ?thesis
  proof (cases rule: lpi_alloc_cases)
    case (full h)
    then show ?thesis using inv
      by (auto simp: lpi_used_nth lpi_in_range_nth lpi_count_def lpi_bit_def)
  next
    case (found n)
    note u = lpi_nth_unat [OF inv found(1)]
    have "lpi_used a j" if "lpi_in_range a j" "j < base_id a + of_nat n" for j
      using that found(3) u by (auto simp: lpi_used_nth [OF inv] lpi_in_range_nth [OF inv] word_less_nat_alt)
    then show ?thesis using found(4) lpi_alloc_found [OF inv found(1,2,5)] by simp
  qed
qed

theorem lpi_alloc_least_witness:
  "let a = lpi_new 8192 8193 in
   case lpi_alloc a of
      (Some i, a') \<Rightarrow> lpi_in_range a i \<and> \<not> lpi_used a i \<and>
        (\<forall>j. lpi_in_range a j \<and> j < i \<longrightarrow> lpi_used a j) \<and>
        (\<forall>j. lpi_used a' j \<longleftrightarrow> j = i \<or> lpi_used a j)
    | (None, a') \<Rightarrow> (\<forall>j. lpi_in_range a j \<longrightarrow> lpi_used a j) \<and> (\<forall>j. lpi_used a' j \<longleftrightarrow> lpi_used a j)"
  using lpi_alloc_least [OF lpi_reachable.new, of 8192 8193] by (simp add: Let_def)

text \<open>In every reachable state \<open>reserve\<close> and \<open>free\<close> stay inside the bitmap; \<open>reserve\<close> succeeds
  exactly on an id of the range that is not in use, and marks exactly that id; \<open>free\<close> takes exactly
  the given id out of use.\<close>

theorem lpi_reserve_free:
  assumes "lpi_reachable base mx a" and "base \<le> mx" and "unat mx + 64 < 2 ^ 32"
  shows "(if lpi_in_range a i \<and> \<not> lpi_used a i
      then \<exists>a'. lpi_reserve a i = Some (Inr (), a') \<and> (\<forall>j. lpi_used a' j \<longleftrightarrow> j = i \<or> lpi_used a j)
      else lpi_reserve a i = Some (Inl (), a)) \<and>
    (\<exists>a'. lpi_free a i = Some a' \<and> (\<forall>j. lpi_used a' j \<longleftrightarrow> j \<noteq> i \<and> lpi_used a j))"
  using lpi_reserve_cases [OF lpi_reachable_inv [OF assms], of i]
    lpi_free_cases [OF lpi_reachable_inv [OF assms], of i]
  by (auto split: if_splits)

theorem lpi_reserve_free_witness:
  "let a = lpi_new 8192 8193 in
   (if lpi_in_range a 8193 \<and> \<not> lpi_used a 8193
      then \<exists>a'. lpi_reserve a 8193 = Some (Inr (), a') \<and> (\<forall>j. lpi_used a' j \<longleftrightarrow> j = 8193 \<or> lpi_used a j)
      else lpi_reserve a 8193 = Some (Inl (), a)) \<and>
    (\<exists>a'. lpi_free a 8193 = Some a' \<and> (\<forall>j. lpi_used a' j \<longleftrightarrow> j \<noteq> 8193 \<and> lpi_used a j))"
  using lpi_reserve_free [OF lpi_reachable.new, of 8192 8193 8193] by (simp add: Let_def)

end
