(* ===== verification/Block_Io.thy ===== *)
theory Block_Io
  imports Mars_Prelude
begin

text \<open>
  The block layer of \<open>klib/src/block/mod.rs\<close>: requests, hardware adapters, partitions and the
  consumers that connect them. Providers are shared (\<open>Arc<SleepingMutex<dyn Provider>>\<close>), so they
  live in a store, the list of providers in order of creation, and a consumer holds an index into
  it. A device driver is not part of the layer: its methods are a record of functions that every
  operation takes.
\<close>

section \<open>Requests\<close>

type_synonym isize = "64 word"

datatype block_error =
  OutOfBounds | UnalignedBuffer | HardwareError | ReadOnly | NotReady | InUse
| InvalidPartition | InvalidBlockSize | AccessUnderflow | NotSupported

type_synonym bresult = "block_error + unit"

datatype command = Read "u8 list" | Write "u8 list" | Flush | Delete u64

record io_request =
  cmd :: command
  lba :: u64

text \<open>The buffer of a command, whose final contents every request returns.\<close>

fun cmd_buf :: "command \<Rightarrow> u8 list" where
  "cmd_buf (Read buf) = buf"
| "cmd_buf (Write buf) = buf"
| "cmd_buf Flush = []"
| "cmd_buf (Delete _) = []"

definition io_blocks :: "io_request \<Rightarrow> usize \<Rightarrow> block_error + u64" where
  "io_blocks req block_size =
     (if block_size = 0 then Inl InvalidBlockSize
      else
        let buf_len = of_nat (length (cmd_buf (cmd req))) :: usize in
        if 0 < buf_len \<and> buf_len mod block_size \<noteq> 0 then Inl UnalignedBuffer
        else Inr (case cmd req of Read _ \<Rightarrow> buf_len div block_size
                  | Write _ \<Rightarrow> buf_len div block_size
                  | Flush \<Rightarrow> 0
                  | Delete blocks \<Rightarrow> blocks))"

section \<open>Devices and adapters\<close>

text \<open>
  \<open>BlockDevice\<close>. A read gets the caller's buffer and returns what it left in it; \<open>flush\<close> and
  \<open>delete_blocks\<close> have default implementations.
\<close>

record 'd block_device =
  dev_flush :: "'d \<Rightarrow> bresult \<times> 'd"
  dev_read_blocks :: "'d \<Rightarrow> u64 \<Rightarrow> u8 list \<Rightarrow> bresult \<times> u8 list \<times> 'd"
  dev_write_blocks :: "'d \<Rightarrow> u64 \<Rightarrow> u8 list \<Rightarrow> bresult \<times> 'd"
  dev_delete_blocks :: "'d \<Rightarrow> u64 \<Rightarrow> u64 \<Rightarrow> bresult \<times> 'd"
  dev_block_size :: "'d \<Rightarrow> usize"
  dev_block_count :: "'d \<Rightarrow> u64"

definition default_flush :: "'d \<Rightarrow> bresult \<times> 'd" where
  "default_flush d = (Inr (), d)"

definition default_delete_blocks :: "'d \<Rightarrow> u64 \<Rightarrow> u64 \<Rightarrow> bresult \<times> 'd" where
  "default_delete_blocks d _ _ = (Inl NotSupported, d)"

record 'd adapter =
  a_name :: string
  a_device :: 'd
  a_read :: isize
  a_write :: isize
  a_exclusive :: isize

definition adapter_new :: "string \<Rightarrow> 'd \<Rightarrow> 'd adapter" where
  "adapter_new name d =
     \<lparr>a_name = name, a_device = d, a_read = 0, a_write = 0, a_exclusive = 0\<rparr>"

definition adapter_access ::
  "'d block_device \<Rightarrow> 'd adapter \<Rightarrow> isize \<Rightarrow> isize \<Rightarrow> isize \<Rightarrow> bresult \<times> 'd adapter" where
  "adapter_access dev a r w e =
     (let new_r = a_read a + r; new_w = a_write a + w; new_e = a_exclusive a + e in
      if new_r <s 0 \<or> new_w <s 0 \<or> new_e <s 0 then (Inl AccessUnderflow, a)
      else if 0 <s e \<and> (0 <s a_read a \<or> 0 <s a_write a \<or> 0 <s a_exclusive a) then (Inl InUse, a)
      else if 0 <s a_exclusive a \<and> (0 <s r \<or> 0 <s w \<or> 0 <s e) then (Inl InUse, a)
      else
        let (res, d) = (if 0 <s a_write a \<and> new_w \<le>s 0 then dev_flush dev (a_device a)
                        else (Inr (), a_device a)) in
        case res of
          Inl err \<Rightarrow> (Inl err, a\<lparr>a_device := d\<rparr>)
        | Inr _ \<Rightarrow> (Inr (), a\<lparr>a_device := d, a_read := new_r, a_write := new_w, a_exclusive := new_e\<rparr>))"

definition adapter_request ::
  "'d block_device \<Rightarrow> 'd adapter \<Rightarrow> io_request \<Rightarrow> bresult \<times> u8 list \<times> 'd adapter" where
  "adapter_request dev a req =
     (case cmd req of
        Read buf \<Rightarrow> (let (res, buf', d) = dev_read_blocks dev (a_device a) (lba req) buf in
                    (res, buf', a\<lparr>a_device := d\<rparr>))
      | Write buf \<Rightarrow> (let (res, d) = dev_write_blocks dev (a_device a) (lba req) buf in
                    (res, buf, a\<lparr>a_device := d\<rparr>))
      | Flush \<Rightarrow> (let (res, d) = dev_flush dev (a_device a) in (res, [], a\<lparr>a_device := d\<rparr>))
      | Delete blocks \<Rightarrow> (let (res, d) = dev_delete_blocks dev (a_device a) (lba req) blocks in
                    (res, [], a\<lparr>a_device := d\<rparr>)))"

definition adapter_drop :: "'d block_device \<Rightarrow> 'd adapter \<Rightarrow> 'd" where
  "adapter_drop dev a =
     (if 0 <s a_write a then snd (dev_flush dev (a_device a)) else a_device a)"

section \<open>Consumers, partitions and the store of providers\<close>

record consumer =
  c_provider :: nat
  c_read :: isize
  c_write :: isize
  c_exclusive :: isize

record partition =
  p_name :: string
  p_parent :: consumer
  p_start_lba :: u64
  p_block_count :: u64

text \<open>A provider that was dropped leaves its slot behind, with the device of an adapter as the drop left it.\<close>

datatype 'd provider = Adapter "'d adapter" | Part partition | Gone "'d option"

type_synonym 'd store = "'d provider list"

definition consumer_attach :: "nat \<Rightarrow> consumer" where
  "consumer_attach p = \<lparr>c_provider = p, c_read = 0, c_write = 0, c_exclusive = 0\<rparr>"

text \<open>
  The operations of a consumer take the provider's operation; \<open>None\<close> says that the provider's
  operation did not return a value.
\<close>

definition consumer_access ::
  "('d store \<Rightarrow> nat \<Rightarrow> isize \<Rightarrow> isize \<Rightarrow> isize \<Rightarrow> (bresult \<times> 'd store) option) \<Rightarrow>
   'd store \<Rightarrow> consumer \<Rightarrow> isize \<Rightarrow> isize \<Rightarrow> isize \<Rightarrow> (bresult \<times> consumer \<times> 'd store) option" where
  "consumer_access pacc s c r w e =
     (let new_r = c_read c + r; new_w = c_write c + w; new_e = c_exclusive c + e in
      if new_r <s 0 \<or> new_w <s 0 \<or> new_e <s 0 then Some (Inl AccessUnderflow, c, s)
      else
        case pacc s (c_provider c) r w e of
          None \<Rightarrow> None
        | Some (Inl err, s') \<Rightarrow> Some (Inl err, c, s')
        | Some (Inr _, s') \<Rightarrow>
            Some (Inr (), c\<lparr>c_read := new_r, c_write := new_w, c_exclusive := new_e\<rparr>, s'))"

text \<open>The checks of \<open>Consumer::request\<close>, with the block size and the capacity of the provider.\<close>

definition consumer_check :: "consumer \<Rightarrow> io_request \<Rightarrow> usize \<Rightarrow> u64 \<Rightarrow> bresult" where
  "consumer_check c req block_size cap =
     sbind (io_blocks req block_size) (\<lambda>blocks.
     sbind (if cmd req \<noteq> Flush then
              if cap = 0 \<or> lba req > cap then Inl OutOfBounds
              else sbind (ok_or (checked_add (lba req) blocks) OutOfBounds)
                     (\<lambda>last. if last > cap then Inl OutOfBounds else Inr ())
            else Inr ()) (\<lambda>_.
     case cmd req of
       Read buf \<Rightarrow>
         if of_nat (length buf) mod block_size \<noteq> 0 then Inl UnalignedBuffer
         else if c_read c \<le>s 0 then Inl NotReady else Inr ()
     | Write buf \<Rightarrow>
         if of_nat (length buf) mod block_size \<noteq> 0 then Inl UnalignedBuffer
         else if c_write c \<le>s 0 then Inl ReadOnly else Inr ()
     | Delete _ \<Rightarrow> if c_write c \<le>s 0 then Inl ReadOnly else Inr ()
     | Flush \<Rightarrow> Inr ()))"

definition consumer_request ::
  "('d store \<Rightarrow> nat \<Rightarrow> usize option) \<Rightarrow> ('d store \<Rightarrow> nat \<Rightarrow> u64 option) \<Rightarrow>
   ('d store \<Rightarrow> nat \<Rightarrow> io_request \<Rightarrow> (bresult \<times> u8 list \<times> 'd store) option) \<Rightarrow>
   'd store \<Rightarrow> consumer \<Rightarrow> io_request \<Rightarrow> (bresult \<times> u8 list \<times> 'd store) option" where
  "consumer_request psize pcount preq s c req =
     (case (psize s (c_provider c), pcount s (c_provider c)) of
        (Some block_size, Some cap) \<Rightarrow>
          (case consumer_check c req block_size cap of
             Inl err \<Rightarrow> Some (Inl err, cmd_buf (cmd req), s)
           | Inr _ \<Rightarrow> preq s (c_provider c) req)
      | _ \<Rightarrow> None)"

text \<open>\<open>Partition::request\<close> before it passes the request to the parent.\<close>

definition partition_translate :: "partition \<Rightarrow> io_request \<Rightarrow> usize \<Rightarrow> block_error + io_request" where
  "partition_translate p req block_size =
     (if cmd req = Flush then Inr req
      else
        sbind (io_blocks req block_size) (\<lambda>blocks.
        sbind (if lba req > p_block_count p then Inl OutOfBounds
               else sbind (ok_or (checked_add (lba req) blocks) OutOfBounds)
                      (\<lambda>last. if last > p_block_count p then Inl OutOfBounds else Inr ())) (\<lambda>_.
        sbind (ok_or (checked_add (lba req) (p_start_lba p)) OutOfBounds) (\<lambda>l.
        Inr (req\<lparr>lba := l\<rparr>)))))"

definition provider_block_count :: "'d block_device \<Rightarrow> 'd store \<Rightarrow> nat \<Rightarrow> u64 option" where
  "provider_block_count dev s pid =
     (if pid < length s
      then (case s ! pid of Adapter a \<Rightarrow> Some (dev_block_count dev (a_device a))
            | Part p \<Rightarrow> Some (p_block_count p)
            | Gone _ \<Rightarrow> None)
      else None)"

text \<open>
  A partition calls its parent, so the provider operations recurse. The first argument bounds the
  depth; \<open>None\<close> stands for a chain that is longer, or for an index that is no provider. A partition is
  created after its parent, so the length of the store is always enough (\<open>depth_enough\<close> below).
\<close>

primrec provider_block_size ::
  "'d block_device \<Rightarrow> nat \<Rightarrow> 'd store \<Rightarrow> nat \<Rightarrow> usize option" where
  "provider_block_size dev 0 = (\<lambda>s pid. None)"
| "provider_block_size dev (Suc n) = (\<lambda>s pid.
     if pid < length s then
       case s ! pid of
         Adapter a \<Rightarrow> Some (dev_block_size dev (a_device a))
       | Part p \<Rightarrow> provider_block_size dev n s (c_provider (p_parent p))
       | Gone _ \<Rightarrow> None
     else None)"

primrec provider_access ::
  "'d block_device \<Rightarrow> nat \<Rightarrow> 'd store \<Rightarrow> nat \<Rightarrow> isize \<Rightarrow> isize \<Rightarrow> isize \<Rightarrow> (bresult \<times> 'd store) option"
  where
  "provider_access dev 0 = (\<lambda>s pid r w e. None)"
| "provider_access dev (Suc n) = (\<lambda>s pid r w e.
     if pid < length s then
       case s ! pid of
         Adapter a \<Rightarrow> (let (res, a') = adapter_access dev a r w e in Some (res, s[pid := Adapter a']))
       | Part p \<Rightarrow>
           (case consumer_access (provider_access dev n) s (p_parent p) r w e of
              None \<Rightarrow> None
            | Some (res, c', s') \<Rightarrow> Some (res, s'[pid := Part (p\<lparr>p_parent := c'\<rparr>)]))
       | Gone _ \<Rightarrow> None
     else None)"

primrec provider_request ::
  "'d block_device \<Rightarrow> nat \<Rightarrow> 'd store \<Rightarrow> nat \<Rightarrow> io_request \<Rightarrow> (bresult \<times> u8 list \<times> 'd store) option"
  where
  "provider_request dev 0 = (\<lambda>s pid req. None)"
| "provider_request dev (Suc n) = (\<lambda>s pid req.
     if pid < length s then
       case s ! pid of
         Adapter a \<Rightarrow>
           (let (res, buf, a') = adapter_request dev a req in Some (res, buf, s[pid := Adapter a']))
       | Part p \<Rightarrow>
           (case provider_block_size dev n s (c_provider (p_parent p)) of
              None \<Rightarrow> None
            | Some block_size \<Rightarrow>
                (case partition_translate p req block_size of
                   Inl err \<Rightarrow> Some (Inl err, cmd_buf (cmd req), s)
                 | Inr req' \<Rightarrow>
                     consumer_request (provider_block_size dev n) (provider_block_count dev)
                       (provider_request dev n) s (p_parent p) req'))
       | Gone _ \<Rightarrow> None
     else None)"

definition partition_new ::
  "'d block_device \<Rightarrow> 'd store \<Rightarrow> string \<Rightarrow> consumer \<Rightarrow> u64 \<Rightarrow> u64 \<Rightarrow> (block_error + partition) option"
  where
  "partition_new dev s name parent start_lba block_count =
     (case provider_block_count dev s (c_provider parent) of
        None \<Rightarrow> None
      | Some parent_cap \<Rightarrow>
          Some (if start_lba > parent_cap then Inl InvalidPartition
                else sbind (ok_or (checked_add start_lba block_count) InvalidPartition)
                  (\<lambda>last. if last > parent_cap then Inl InvalidPartition
                     else Inr \<lparr>p_name = name, p_parent = parent, p_start_lba = start_lba,
                            p_block_count = block_count\<rparr>)))"

definition consumer_drop ::
  "'d block_device \<Rightarrow> nat \<Rightarrow> 'd store \<Rightarrow> consumer \<Rightarrow> 'd store option" where
  "consumer_drop dev n s c =
     (if 0 <s c_read c \<or> 0 <s c_write c \<or> 0 <s c_exclusive c
      then map_option snd (provider_access dev n s (c_provider c)
             (- c_read c) (- c_write c) (- c_exclusive c))
      else Some s)"

text \<open>
  The last reference to a provider goes away: an adapter flushes what was written, a partition drops its
  consumer.
\<close>

definition provider_drop :: "'d block_device \<Rightarrow> nat \<Rightarrow> 'd store \<Rightarrow> nat \<Rightarrow> 'd store option" where
  "provider_drop dev n s pid =
     (if pid < length s then
        case s ! pid of
          Adapter a \<Rightarrow> Some (s[pid := Gone (Some (adapter_drop dev a))])
        | Part p \<Rightarrow> map_option (\<lambda>s'. s'[pid := Gone None]) (consumer_drop dev n s (p_parent p))
        | Gone _ \<Rightarrow> None
      else None)"

text \<open>
  A memory device with blocks of two bytes, and a partition of its blocks 1 and 2 that is open for
  writing: the instance on which the properties are shown to apply.
\<close>

definition ram_disk :: "u8 list block_device" where
  "ram_disk = \<lparr>dev_flush = default_flush,
     dev_read_blocks = (\<lambda>d l buf. (Inr (), take (length buf) (drop (2 * unat l) d), d)),
     dev_write_blocks = (\<lambda>d l buf.
       (Inr (), take (2 * unat l) d @ buf @ drop (2 * unat l + length buf) d)),
     dev_delete_blocks = default_delete_blocks,
     dev_block_size = (\<lambda>d. 2), dev_block_count = (\<lambda>d. of_nat (length d div 2))\<rparr>"

definition ram_store :: "u8 list store" where
  "ram_store =
     [Adapter \<lparr>a_name = ''ram'', a_device = [0, 0, 0, 0, 0, 0, 0, 0], a_read = 0,
        a_write = 1, a_exclusive = 0\<rparr>,
      Part \<lparr>p_name = ''part'',
        p_parent = \<lparr>c_provider = 0, c_read = 0, c_write = 1, c_exclusive = 0\<rparr>,
        p_start_lba = 1, p_block_count = 2\<rparr>]"

section \<open>Counting open references\<close>

text \<open>
  The three reference counts as integers, for a consumer and for a provider; a partition's counts
  are those of its consumer on the parent. \<open>attached\<close> adds up the counts of the consumers that
  partitions hold on a provider, and \<open>balance\<close> is what the provider counts beyond them.
\<close>

datatype access_kind = KRead | KWrite | KExclusive

fun consumer_count :: "access_kind \<Rightarrow> consumer \<Rightarrow> int" where
  "consumer_count KRead c = sint (c_read c)"
| "consumer_count KWrite c = sint (c_write c)"
| "consumer_count KExclusive c = sint (c_exclusive c)"

fun adapter_count :: "access_kind \<Rightarrow> 'd adapter \<Rightarrow> int" where
  "adapter_count KRead a = sint (a_read a)"
| "adapter_count KWrite a = sint (a_write a)"
| "adapter_count KExclusive a = sint (a_exclusive a)"

fun delta_of :: "access_kind \<Rightarrow> isize \<Rightarrow> isize \<Rightarrow> isize \<Rightarrow> int" where
  "delta_of KRead r w e = sint r"
| "delta_of KWrite r w e = sint w"
| "delta_of KExclusive r w e = sint e"

fun node_count :: "access_kind \<Rightarrow> 'd provider \<Rightarrow> int" where
  "node_count k (Adapter a) = adapter_count k a"
| "node_count k (Part p) = consumer_count k (p_parent p)"
| "node_count k (Gone _) = 0"

definition held :: "access_kind \<Rightarrow> nat \<Rightarrow> consumer \<Rightarrow> int" where
  "held k pid c = (if c_provider c = pid then consumer_count k c else 0)"

fun part_held :: "access_kind \<Rightarrow> nat \<Rightarrow> 'd provider \<Rightarrow> int" where
  "part_held k pid (Adapter a) = 0"
| "part_held k pid (Part p) = held k pid (p_parent p)"
| "part_held k pid (Gone _) = 0"

definition attached :: "access_kind \<Rightarrow> 'd store \<Rightarrow> nat \<Rightarrow> int" where
  "attached k s pid = sum_list (map (part_held k pid) s)"

definition balance :: "access_kind \<Rightarrow> 'd store \<Rightarrow> nat \<Rightarrow> int" where
  "balance k s pid = node_count k (s ! pid) - attached k s pid"

fun parent_below :: "nat \<Rightarrow> 'd provider \<Rightarrow> bool" where
  "parent_below q (Adapter a) = True"
| "parent_below q (Part p) = (c_provider (p_parent p) < q)"
| "parent_below q (Gone _) = True"

text \<open>What no operation but a drop changes: the kind of a provider and the parent of a partition.\<close>

fun shape :: "'d provider \<Rightarrow> nat option option" where
  "shape (Adapter a) = Some None"
| "shape (Part p) = Some (Some (c_provider (p_parent p)))"
| "shape (Gone _) = None"

definition alive :: "'d store \<Rightarrow> nat \<Rightarrow> bool" where
  "alive s pid \<longleftrightarrow> pid < length s \<and> shape (s ! pid) \<noteq> None"

definition linked :: "'d store \<Rightarrow> consumer list \<Rightarrow> bool" where
  "linked s cs \<longleftrightarrow> (\<forall>q < length s. \<forall>r. shape (s ! q) = Some (Some r) \<longrightarrow> alive s r) \<and>
     list_all (\<lambda>c. alive s (c_provider c)) cs"

text \<open>Some consumer refers to the provider.\<close>

definition in_use :: "'d store \<Rightarrow> consumer list \<Rightarrow> nat \<Rightarrow> bool" where
  "in_use s cs pid \<longleftrightarrow> pid \<in> set (map c_provider cs) \<or> Some (Some pid) \<in> set (map shape s)"

definition store_ok :: "'d store \<Rightarrow> bool" where
  "store_ok s \<longleftrightarrow> (\<forall>q < length s. parent_below q (s ! q) \<and> (\<forall>k. 0 \<le> node_count k (s ! q)))"

definition consumer_ok :: "consumer \<Rightarrow> bool" where
  "consumer_ok c \<longleftrightarrow> (\<forall>k. 0 \<le> consumer_count k c)"

section \<open>The states of the block layer\<close>

text \<open>
  A state is the store of providers and the consumers that are not owned by a partition. It grows
  by new adapters, by attaching consumers, by the operations of a consumer, by turning a consumer
  into a partition, by dropping a consumer (which a failed \<open>Partition::new\<close> does with the
  consumer it was given), and by dropping an adapter or a partition that no consumer refers to.
\<close>

definition remove_nth :: "nat \<Rightarrow> 'a list \<Rightarrow> 'a list" where
  "remove_nth i xs = take i xs @ drop (Suc i) xs"

inductive block_reach :: "'d block_device \<Rightarrow> 'd store \<Rightarrow> consumer list \<Rightarrow> bool" for dev where
  start: "block_reach dev [] []"
| adapter: "block_reach dev s cs \<Longrightarrow> block_reach dev (s @ [Adapter (adapter_new name d)]) cs"
| attach: "block_reach dev s cs \<Longrightarrow> alive s pid \<Longrightarrow> block_reach dev s (cs @ [consumer_attach pid])"
| access: "block_reach dev s cs \<Longrightarrow> i < length cs \<Longrightarrow>
    consumer_access (provider_access dev n) s (cs ! i) r w e = Some (res, c', s') \<Longrightarrow>
    block_reach dev s' (cs[i := c'])"
| request: "block_reach dev s cs \<Longrightarrow> i < length cs \<Longrightarrow>
    consumer_request (provider_block_size dev n) (provider_block_count dev) (provider_request dev n)
      s (cs ! i) req = Some (res, buf, s') \<Longrightarrow> block_reach dev s' cs"
| partition: "block_reach dev s cs \<Longrightarrow> i < length cs \<Longrightarrow>
    partition_new dev s name (cs ! i) start_lba count = Some (Inr p) \<Longrightarrow>
    block_reach dev (s @ [Part p]) (remove_nth i cs)"
| partition_error: "block_reach dev s cs \<Longrightarrow> i < length cs \<Longrightarrow>
    partition_new dev s name (cs ! i) start_lba count = Some (Inl err) \<Longrightarrow>
    consumer_drop dev n s (cs ! i) = Some s' \<Longrightarrow> block_reach dev s' (remove_nth i cs)"
| drop: "block_reach dev s cs \<Longrightarrow> i < length cs \<Longrightarrow>
    consumer_drop dev n s (cs ! i) = Some s' \<Longrightarrow> block_reach dev s' (remove_nth i cs)"
| drop_provider: "block_reach dev s cs \<Longrightarrow> \<not> in_use s cs pid \<Longrightarrow>
    provider_drop dev n s pid = Some s' \<Longrightarrow> block_reach dev s' cs"

text \<open>A provider lies on the device of an adapter, at an offset in blocks.\<close>

inductive placed :: "'d store \<Rightarrow> nat \<Rightarrow> nat \<Rightarrow> nat \<Rightarrow> bool" for s root where
  adapter: "root < length s \<Longrightarrow> s ! root = Adapter a \<Longrightarrow> placed s root 0 root"
| partition: "placed s root off (c_provider (p_parent p)) \<Longrightarrow> pid < length s \<Longrightarrow> s ! pid = Part p \<Longrightarrow>
    placed s root (off + unat (p_start_lba p)) pid"

definition clients_held :: "access_kind \<Rightarrow> nat \<Rightarrow> consumer list \<Rightarrow> int" where
  "clients_held k pid cs = sum_list (map (held k pid) cs)"

definition block_inv :: "'d store \<Rightarrow> consumer list \<Rightarrow> bool" where
  "block_inv s cs \<longleftrightarrow> store_ok s \<and> list_all consumer_ok cs \<and>
     list_all (\<lambda>c. c_provider c < length s) cs \<and>
     (\<forall>p < length s. \<forall>k. clients_held k p cs \<le> balance k s p)"

section \<open>Lemmas on the counts\<close>

lemma sum_list_update_int:
  "i < length xs \<Longrightarrow> sum_list (xs[i := x]) = sum_list xs + x - (xs ! i :: int)"
proof (induction xs arbitrary: i)
  case (Cons y ys)
  then show ?case by (cases i) simp_all
qed simp

lemma sint_add_nonneg:
  assumes "0 \<le> sint (a :: isize)" and "\<not> a + r <s 0"
  shows "sint (a + r) = sint a + sint r" and "0 \<le> sint (a + r)"
proof -
  have rng: "sint a < 2 ^ 63" "- (2 ^ 63) \<le> sint r" "sint r < 2 ^ 63"
    using sint_lt [of a] sint_ge [of r] sint_lt [of r] by simp_all
  have nn: "0 \<le> sint (a + r)" using assms(2) by (simp add: word_sless_alt)
  have e: "sint (a + r) = (sint a + sint r + 2 ^ 63) mod 2 ^ 64 - 2 ^ 63"
    by (simp add: sint_word_ariths signed_take_bit_eq_take_bit_shift take_bit_eq_mod)
  have "sint a + sint r + 2 ^ 63 < 2 ^ 64"
  proof (rule ccontr)
    assume big: "\<not> sint a + sint r + 2 ^ 63 < 2 ^ 64"
    have "(sint a + sint r + 2 ^ 63) mod 2 ^ 64 = (sint a + sint r + 2 ^ 63 - 2 ^ 64) mod 2 ^ 64"
      by (rule minus_mod_self2 [symmetric])
    also have "\<dots> = sint a + sint r + 2 ^ 63 - 2 ^ 64"
      using big rng by (intro mod_pos_pos_trivial) simp_all
    finally show False using nn rng unfolding e by simp
  qed
  then have "(sint a + sint r + 2 ^ 63) mod 2 ^ 64 = sint a + sint r + 2 ^ 63"
    using assms(1) rng by (intro mod_pos_pos_trivial) simp_all
  then show "sint (a + r) = sint a + sint r" unfolding e by simp
  show "0 \<le> sint (a + r)" by (rule nn)
qed

lemma attached_update:
  "i < length s \<Longrightarrow>
   attached k (s[i := x]) pid = attached k s pid + part_held k pid x - part_held k pid (s ! i)"
  by (simp add: attached_def map_update sum_list_update_int)

lemma consumer_step_counts:
  assumes "consumer_ok c"
    and "\<not> (c_read c + r <s 0 \<or> c_write c + w <s 0 \<or> c_exclusive c + e <s 0)"
    and "c' = c\<lparr>c_read := c_read c + r, c_write := c_write c + w, c_exclusive := c_exclusive c + e\<rparr>"
  shows "consumer_count k c' = consumer_count k c + delta_of k r w e" and "consumer_ok c'"
proof -
  have nn: "0 \<le> sint (c_read c)" "0 \<le> sint (c_write c)" "0 \<le> sint (c_exclusive c)"
    using assms(1) consumer_count.simps unfolding consumer_ok_def by metis+
  note r = sint_add_nonneg [OF nn(1), of r] sint_add_nonneg [OF nn(2), of w]
    sint_add_nonneg [OF nn(3), of e]
  show "consumer_count k c' = consumer_count k c + delta_of k r w e"
    using assms(2,3) r by (cases k) simp_all
  have "0 \<le> consumer_count j c'" for j
    using assms(2,3) r by (cases j) simp_all
  then show "consumer_ok c'" by (simp add: consumer_ok_def)
qed

text \<open>The three ways a call of \<open>Consumer::access\<close> ends.\<close>

lemma consumer_access_cases:
  assumes "consumer_access pacc s c r w e = Some (res, c', s')"
  obtains (neg) "c_read c + r <s 0 \<or> c_write c + w <s 0 \<or> c_exclusive c + e <s 0"
      "res = Inl AccessUnderflow" "c' = c" "s' = s"
    | (err) x where "\<not> (c_read c + r <s 0 \<or> c_write c + w <s 0 \<or> c_exclusive c + e <s 0)"
      "pacc s (c_provider c) r w e = Some (Inl x, s')" "res = Inl x" "c' = c"
    | (ok) "\<not> (c_read c + r <s 0 \<or> c_write c + w <s 0 \<or> c_exclusive c + e <s 0)"
      "pacc s (c_provider c) r w e = Some (Inr (), s')" "res = Inr ()"
      "c' = c\<lparr>c_read := c_read c + r, c_write := c_write c + w, c_exclusive := c_exclusive c + e\<rparr>"
proof (cases "c_read c + r <s 0 \<or> c_write c + w <s 0 \<or> c_exclusive c + e <s 0")
  case True
  then have "consumer_access pacc s c r w e = Some (Inl AccessUnderflow, c, s)"
    unfolding consumer_access_def by (simp only: Let_def if_True)
  then show thesis using neg [OF True] assms by force
next
  case False
  then have c: "consumer_access pacc s c r w e =
      (case pacc s (c_provider c) r w e of
          None \<Rightarrow> None
        | Some (Inl err, s') \<Rightarrow> Some (Inl err, c, s')
        | Some (Inr _, s') \<Rightarrow>
            Some (Inr (), c\<lparr>c_read := c_read c + r, c_write := c_write c + w,
              c_exclusive := c_exclusive c + e\<rparr>, s'))"
    unfolding consumer_access_def by (simp only: Let_def if_False)
  from assms obtain x t where p: "pacc s (c_provider c) r w e = Some (x, t)"
    unfolding c by (fastforce split: option.splits)
  show thesis
  proof (cases x)
    case (Inl z)
    have "res = Inl z" "c' = c" "s' = t" using assms unfolding c p Inl by simp_all
    then show thesis using err [OF False, of z] p Inl by blast
  next
    case (Inr z)
    have "res = Inr ()" "s' = t" "c' = c\<lparr>c_read := c_read c + r, c_write := c_write c + w,
        c_exclusive := c_exclusive c + e\<rparr>"
      using assms unfolding c p Inr by simp_all
    then show thesis using ok [OF False] p Inr by (metis (full_types) unit.exhaust)
  qed
qed

text \<open>What an adapter does on every call: an error changes no count, success adds the deltas.\<close>

lemma adapter_access_counts:
  assumes "adapter_access dev a r w e = (res, a')" and "\<forall>k. 0 \<le> adapter_count k a"
  shows "adapter_count k a' = adapter_count k a + (if res = Inr () then delta_of k r w e else 0)"
    and "0 \<le> adapter_count k a'"
proof -
  have nn: "0 \<le> sint (a_read a)" "0 \<le> sint (a_write a)" "0 \<le> sint (a_exclusive a)"
    using assms(2) adapter_count.simps by metis+
  note r = sint_add_nonneg [OF nn(1), of r] sint_add_nonneg [OF nn(2), of w]
    sint_add_nonneg [OF nn(3), of e]
  show "adapter_count k a' = adapter_count k a + (if res = Inr () then delta_of k r w e else 0)"
    using assms(1) r unfolding adapter_access_def
    by (cases k) (auto simp: Let_def split: if_splits prod.splits sum.splits)
  show "0 \<le> adapter_count k a'"
    using assms(1) r nn unfolding adapter_access_def
    by (cases k) (auto simp: Let_def split: if_splits prod.splits sum.splits)
qed

section \<open>The contract between a consumer and its provider\<close>

text \<open>
  What \<open>Consumer\<close> relies on in \<open>Provider::access\<close>: the call keeps the store well formed, leaves
  the providers created later alone, and moves the balance of the called provider, and of no
  other, by the deltas, on success only.
\<close>

locale provider_contract =
  fixes pacc :: "'d store \<Rightarrow> nat \<Rightarrow> isize \<Rightarrow> isize \<Rightarrow> isize \<Rightarrow> (bresult \<times> 'd store) option"
  assumes keeps: "store_ok s \<Longrightarrow> pacc s pid r w e = Some (res, s') \<Longrightarrow>
      pid < length s \<and> length s' = length s \<and> store_ok s' \<and>
      (\<forall>q < length s. pid < q \<longrightarrow> s' ! q = s ! q) \<and> (\<forall>q < length s. shape (s' ! q) = shape (s ! q))"
    and moves: "store_ok s \<Longrightarrow> pacc s pid r w e = Some (res, s') \<Longrightarrow> p < length s \<Longrightarrow>
      balance k s' p = balance k s p + (if p = pid \<and> res = Inr () then delta_of k r w e else 0)"
begin

lemma consumer_access_keeps:
  assumes "store_ok s" and "consumer_ok c" and "consumer_access pacc s c r w e = Some (res, c', s')"
  shows "length s' = length s" and "store_ok s'" and "consumer_ok c'"
    and "c_provider c' = c_provider c"
    and "q < length s \<Longrightarrow> c_provider c < q \<Longrightarrow> s' ! q = s ! q"
    and "consumer_count k c' = consumer_count k c + (if res = Inr () then delta_of k r w e else 0)"
    and "q < length s \<Longrightarrow> shape (s' ! q) = shape (s ! q)"
proof -
  have "length s' = length s \<and> store_ok s' \<and> consumer_ok c' \<and> c_provider c' = c_provider c \<and>
    (q < length s \<longrightarrow> shape (s' ! q) = shape (s ! q)) \<and>
    (q < length s \<longrightarrow> c_provider c < q \<longrightarrow> s' ! q = s ! q) \<and>
    consumer_count k c' = consumer_count k c + (if res = Inr () then delta_of k r w e else 0)"
    using assms(3)
  proof (cases rule: consumer_access_cases)
    case neg
    then show ?thesis using assms by simp
  next
    case (err x)
    then show ?thesis using assms keeps [OF assms(1) err(2)] by simp
  next
    case ok
    then show ?thesis
      using keeps [OF assms(1) ok(2)] consumer_step_counts [OF assms(2) ok(1) ok(4)] by simp
  qed
  then show "length s' = length s" "store_ok s'" "consumer_ok c'" "c_provider c' = c_provider c"
    "q < length s \<Longrightarrow> c_provider c < q \<Longrightarrow> s' ! q = s ! q"
    "consumer_count k c' = consumer_count k c + (if res = Inr () then delta_of k r w e else 0)"
    "q < length s \<Longrightarrow> shape (s' ! q) = shape (s ! q)"
    by blast+
qed

text \<open>The consumer and its provider move together.\<close>

lemma consumer_access_balance:
  assumes "store_ok s" and "consumer_ok c" and "consumer_access pacc s c r w e = Some (res, c', s')"
    and "p < length s"
  shows "balance k s' p - held k p c' = balance k s p - held k p c"
proof -
  note kp = consumer_access_keeps [OF assms(1-3)]
  have "balance k s' p = balance k s p + (if p = c_provider c \<and> res = Inr () then delta_of k r w e else 0)"
    using assms(3)
  proof (cases rule: consumer_access_cases)
    case (err x)
    then show ?thesis using moves [OF assms(1) err(2) assms(4)] by simp
  next
    case ok
    then show ?thesis using moves [OF assms(1) ok(2) assms(4)] by simp
  qed simp
  then show ?thesis using kp(4) kp(6) [of k] by (simp add: held_def)
qed

end

lemma store_ok_update:
  assumes "store_ok s" and "parent_below i x" and "\<forall>k. 0 \<le> node_count k x"
  shows "store_ok (s[i := x])"
  using assms unfolding store_ok_def
  by (metis length_list_update nth_list_update_eq nth_list_update_neq)

lemma balance_update:
  "i < length s \<Longrightarrow> p < length s \<Longrightarrow>
   balance k (s[i := x]) p = balance k s p + (if p = i then node_count k x - node_count k (s ! i) else 0)
     - part_held k p x + part_held k p (s ! i)"
  by (simp add: balance_def attached_update nth_list_update)

lemma provider_access_adapter:
  assumes "store_ok s" and "pid < length s" and "s ! pid = Adapter a"
    and "adapter_access dev a r w e = (res, a')" and "s' = s[pid := Adapter a']"
  shows "store_ok s'" and "p < length s \<Longrightarrow>
    balance k s' p = balance k s p + (if p = pid \<and> res = Inr () then delta_of k r w e else 0)"
proof -
  have nn: "\<forall>k. 0 \<le> adapter_count k a"
    using assms(1-3) unfolding store_ok_def by (metis node_count.simps(1))
  note c = adapter_access_counts [OF assms(4) nn]
  show "store_ok s'" using assms(1,5) c(2) by (simp add: store_ok_update)
  show "balance k s' p = balance k s p + (if p = pid \<and> res = Inr () then delta_of k r w e else 0)"
    if "p < length s"
    using assms(2,3,5) c(1) [of k] that by (simp add: balance_update)
qed

lemma provider_access_partition:
  assumes "provider_contract pacc" and "store_ok s" and "pid < length s" and "s ! pid = Part p"
    and "consumer_access pacc s (p_parent p) r w e = Some (res, c', s1)"
    and "s' = s1[pid := Part (p\<lparr>p_parent := c'\<rparr>)]"
  shows "length s' = length s" and "store_ok s'"
    and "q < length s \<Longrightarrow> pid < q \<Longrightarrow> s' ! q = s ! q"
    and "x < length s \<Longrightarrow>
      balance k s' x = balance k s x + (if x = pid \<and> res = Inr () then delta_of k r w e else 0)"
    and "y < length s \<Longrightarrow> shape (s' ! y) = shape (s ! y)"
proof -
  have below: "c_provider (p_parent p) < pid"
    using assms(2-4) unfolding store_ok_def by (metis parent_below.simps(2))
  have ok: "consumer_ok (p_parent p)"
    using assms(2-4) unfolding store_ok_def consumer_ok_def by (metis node_count.simps(2))
  note kp = provider_contract.consumer_access_keeps [OF assms(1,2) ok assms(5)]
  have same: "s1 ! pid = Part p" using kp(5) [OF assms(3) below] assms(4) by simp
  show "length s' = length s" using kp(1) assms(6) by simp
  show "store_ok s'" unfolding assms(6)
    using kp(2-4) below by (intro store_ok_update) (simp_all add: consumer_ok_def)
  show "shape (s' ! y) = shape (s ! y)" if "y < length s"
    using kp(1,4) kp(7) [OF that] assms(3,4,6) by (cases "y = pid") simp_all
  show "s' ! q = s ! q" if "q < length s" "pid < q"
    using kp(5) [OF that(1)] below that assms(6) by simp
  show "balance k s' x = balance k s x + (if x = pid \<and> res = Inr () then delta_of k r w e else 0)"
    if "x < length s"
    using provider_contract.consumer_access_balance [OF assms(1,2) ok assms(5) that, of k]
      kp(1) kp(6) [of k] assms(3,6) same that
    by (auto simp: balance_update)
qed

lemma provider_access_contract: "provider_contract (provider_access dev n)"
proof (induction n)
  case 0
  show ?case by unfold_locales simp_all
next
  case (Suc n)
  show ?case
  proof unfold_locales
    fix s pid r w e res and s' :: "'a store" and p k
    assume ok: "store_ok s" and acc: "provider_access dev (Suc n) s pid r w e = Some (res, s')"
    then have pid: "pid < length s" by (simp split: if_splits)
    have "length s' = length s \<and> store_ok s' \<and> (\<forall>q < length s. pid < q \<longrightarrow> s' ! q = s ! q) \<and>
      (\<forall>q < length s. shape (s' ! q) = shape (s ! q)) \<and>
      (p < length s \<longrightarrow>
       balance k s' p = balance k s p + (if p = pid \<and> res = Inr () then delta_of k r w e else 0))"
    proof (cases "s ! pid")
      case (Adapter a)
      obtain a' where "adapter_access dev a r w e = (res, a')" and s': "s' = s[pid := Adapter a']"
        using acc pid Adapter by (auto split: prod.splits)
      then show ?thesis
        using provider_access_adapter [OF ok pid Adapter, of dev r w e res a' s'] pid Adapter
        by (simp add: s' nth_list_update)
    next
      case (Part q)
      obtain c' s1 where "consumer_access (provider_access dev n) s (p_parent q) r w e
          = Some (res, c', s1)" "s' = s1[pid := Part (q\<lparr>p_parent := c'\<rparr>)]"
        using acc pid Part by (auto split: option.splits)
      then show ?thesis using provider_access_partition [OF Suc ok pid Part] by simp
    next
      case (Gone d)
      then show ?thesis using acc pid by simp
    qed
    then show "pid < length s \<and> length s' = length s \<and> store_ok s' \<and>
        (\<forall>q < length s. pid < q \<longrightarrow> s' ! q = s ! q) \<and> (\<forall>q < length s. shape (s' ! q) = shape (s ! q))"
      and "p < length s \<Longrightarrow>
        balance k s' p = balance k s p + (if p = pid \<and> res = Inr () then delta_of k r w e else 0)"
      using pid by simp_all
  qed
qed

interpretation prov: provider_contract "provider_access dev n" for dev :: "'d block_device" and n
  by (rule provider_access_contract)

section \<open>The invariant\<close>

lemma sum_list_remove_nth:
  "i < length xs \<Longrightarrow> sum_list (remove_nth i xs) = sum_list xs - (xs ! i :: int)"
proof -
  assume i: "i < length xs"
  have "xs = take i xs @ xs ! i # drop (Suc i) xs" using i by (rule id_take_nth_drop)
  then have "sum_list xs = sum_list (take i xs) + xs ! i + sum_list (drop (Suc i) xs)"
    by (metis (no_types) add.assoc sum_list.Cons sum_list_append)
  then show ?thesis by (simp add: remove_nth_def)
qed

lemma clients_held_remove:
  "i < length cs \<Longrightarrow> clients_held k p (remove_nth i cs) = clients_held k p cs - held k p (cs ! i)"
proof -
  assume i: "i < length cs"
  have "map f (remove_nth i cs) = remove_nth i (map f cs)" for f :: "consumer \<Rightarrow> int"
    by (simp add: remove_nth_def take_map drop_map)
  then show ?thesis using i by (simp add: clients_held_def sum_list_remove_nth)
qed

lemma list_all_remove_nth: "list_all P xs \<Longrightarrow> list_all P (remove_nth i xs)"
  by (auto simp: remove_nth_def list_all_iff dest: in_set_takeD in_set_dropD)

lemma list_all_update: "list_all P xs \<Longrightarrow> P x \<Longrightarrow> list_all P (xs[i := x])"
  using set_update_subset_insert [of xs i x] by (auto simp: list_all_iff)

lemma clients_held_update:
  "i < length cs \<Longrightarrow> clients_held k p (cs[i := c]) = clients_held k p cs + held k p c - held k p (cs ! i)"
  by (simp add: clients_held_def map_update sum_list_update_int)

lemma held_nonneg: "consumer_ok c \<Longrightarrow> 0 \<le> held k p c"
  by (simp add: held_def consumer_ok_def)

lemma clients_held_nonneg: "list_all consumer_ok cs \<Longrightarrow> 0 \<le> clients_held k p cs"
  by (induction cs) (simp_all add: clients_held_def held_nonneg)

lemma sint_neg_nonneg: "0 \<le> sint (x :: isize) \<Longrightarrow> sint (- x) = - sint x"
proof -
  assume nn: "0 \<le> sint x"
  have "sint x < 2 ^ 63" using sint_lt [of x] by simp
  moreover have "sint (- x) = (- sint x + 2 ^ 63) mod 2 ^ 64 - 2 ^ 63"
    by (simp add: sint_word_ariths signed_take_bit_eq_take_bit_shift take_bit_eq_mod)
  moreover have "(- sint x + 2 ^ 63) mod 2 ^ 64 = - sint x + 2 ^ 63"
    using nn calculation(1) by (intro mod_pos_pos_trivial) simp_all
  ultimately show ?thesis by simp
qed

lemma delta_of_neg:
  "consumer_ok c \<Longrightarrow> delta_of k (- c_read c) (- c_write c) (- c_exclusive c) = - consumer_count k c"
  unfolding consumer_ok_def using sint_neg_nonneg consumer_count.simps
  by (cases k) (metis delta_of.simps)+

text \<open>A request reaches the device of the adapter at the bottom, at the translated address, or it
  is refused and nothing happens.\<close>

lemma partition_translate_Inr:
  assumes "partition_translate p req bs = Inr req'" and "cmd req \<noteq> Flush"
  obtains blocks where "io_blocks req bs = Inr blocks" and "cmd req' = cmd req"
    and "unat (lba req) + unat blocks \<le> unat (p_block_count p)"
    and "unat (lba req') = unat (lba req) + unat (p_start_lba p)"
  using assms that unfolding partition_translate_def
  by (auto simp: rust_simps word_less_nat_alt not_less split: if_splits)

lemma consumer_request_cases:
  assumes "consumer_request psize pcount preq s c req = Some (res, buf, s')"
  obtains (refused) err bs cap where "psize s (c_provider c) = Some bs"
      and "pcount s (c_provider c) = Some cap" and "consumer_check c req bs cap = Inl err"
      and "res = Inl err" and "buf = cmd_buf (cmd req)" and "s' = s"
    | (passed) bs cap where "psize s (c_provider c) = Some bs" and "pcount s (c_provider c) = Some cap"
      and "consumer_check c req bs cap = Inr ()" and "preq s (c_provider c) req = Some (res, buf, s')"
proof -
  obtain bs cap where bc: "psize s (c_provider c) = Some bs" "pcount s (c_provider c) = Some cap"
    using assms by (auto simp: consumer_request_def split: option.splits)
  show thesis
  proof (cases "consumer_check c req bs cap")
    case (Inl err)
    then show thesis using assms bc refused [OF bc Inl] by (auto simp: consumer_request_def)
  next
    case (Inr u)
    then show thesis using assms bc passed [OF bc] by (auto simp: consumer_request_def)
  qed
qed

lemma consumer_check_Inr:
  assumes "consumer_check c req bs cap = Inr ()" and "cmd req \<noteq> Flush"
  obtains blocks where "io_blocks req bs = Inr blocks"
    and "unat (lba req) + unat blocks \<le> unat cap"
  using assms that unfolding consumer_check_def
  by (auto simp: rust_simps word_less_nat_alt not_less split: if_splits)

inductive_cases placed_elim: "placed s root off pid"

lemma placed_same_root:
  assumes "placed s root off pid"
  shows "pid < length s" and "root < length s" and "\<exists>a. s ! root = Adapter a"
  using assms by (induction) auto

lemma provider_block_size_placed:
  assumes "placed s root off pid" and "provider_block_size dev n s pid = Some bs"
    and "s ! root = Adapter a"
  shows "bs = dev_block_size dev (a_device a)"
  using assms
proof (induction arbitrary: n)
  case (adapter a')
  then show ?case by (cases n) (simp_all split: if_splits)
next
  case (partition off p pid)
  then show ?case by (cases n) (simp_all split: if_splits)
qed

text \<open>
  Where a request that reaches a device goes: to the adapter below, at the translated address, and,
  if it came through a partition, within the capacity of the device.
\<close>

definition reaches_device ::
  "'d block_device \<Rightarrow> 'd store \<Rightarrow> nat \<Rightarrow> io_request \<Rightarrow> bresult \<Rightarrow> u8 list \<Rightarrow> 'd store \<Rightarrow> bool" where
  "reaches_device dev s pid req res buf s' \<longleftrightarrow>
     (\<exists>root off a a' l. placed s root off pid \<and> s ! root = Adapter a \<and>
        adapter_request dev a (req\<lparr>lba := l\<rparr>) = (res, buf, a') \<and> s' = s[root := Adapter a'] \<and>
        (cmd req \<noteq> Flush \<longrightarrow> unat l = unat (lba req) + off \<and>
          (root \<noteq> pid \<longrightarrow> (\<exists>blocks. io_blocks req (dev_block_size dev (a_device a)) = Inr blocks \<and>
             unat l + unat blocks \<le> unat (dev_block_count dev (a_device a))))))"

lemma io_blocks_lba [simp]: "io_blocks (req\<lparr>lba := l\<rparr>) bs = io_blocks req bs"
  by (simp add: io_blocks_def Let_def)

lemma reaches_device_partition:
  assumes "reaches_device dev s (c_provider (p_parent p)) req1 res buf s'"
    and "partition_translate p req bs = Inr req1" and "pid < length s" and "s ! pid = Part p"
    and "provider_block_size dev n s (c_provider (p_parent p)) = Some bs"
    and "provider_block_count dev s (c_provider (p_parent p)) = Some cap"
    and "consumer_check (p_parent p) req1 bs cap = Inr ()"
  shows "reaches_device dev s pid req res buf s'"
proof -
  have r1: "\<exists>l. req1 = req\<lparr>lba := l\<rparr>"
    using assms(2) by (cases req) (auto simp: partition_translate_def split: if_splits)
  then have cmd: "cmd req1 = cmd req" by auto
  from assms(1) obtain root off a a' l where h: "placed s root off (c_provider (p_parent p))"
    "s ! root = Adapter a" "adapter_request dev a (req1\<lparr>lba := l\<rparr>) = (res, buf, a')"
    "s' = s[root := Adapter a']"
    "cmd req1 \<noteq> Flush \<longrightarrow> unat l = unat (lba req1) + off \<and>
       (root \<noteq> c_provider (p_parent p) \<longrightarrow>
         (\<exists>blocks. io_blocks req1 (dev_block_size dev (a_device a)) = Inr blocks \<and>
           unat l + unat blocks \<le> unat (dev_block_count dev (a_device a))))"
    unfolding reaches_device_def by blast
  have bs: "bs = dev_block_size dev (a_device a)"
    by (rule provider_block_size_placed [OF h(1) assms(5) h(2)])
  have "unat l = unat (lba req) + (off + unat (p_start_lba p)) \<and>
    (\<exists>blocks. io_blocks req (dev_block_size dev (a_device a)) = Inr blocks \<and>
       unat l + unat blocks \<le> unat (dev_block_count dev (a_device a)))" if nf: "cmd req \<noteq> Flush"
  proof -
    from nf cmd have nf1: "cmd req1 \<noteq> Flush" by simp
    obtain blocks where t: "io_blocks req bs = Inr blocks"
      "unat (lba req1) = unat (lba req) + unat (p_start_lba p)"
      using partition_translate_Inr [OF assms(2) nf] by blast
    have same: "io_blocks req1 x = io_blocks req x" for x using r1 by auto
    have l: "unat l = unat (lba req1) + off" using h(5) nf1 by blast
    have "unat l + unat blocks \<le> unat (dev_block_count dev (a_device a))"
    proof (cases "root = c_provider (p_parent p)")
      case True
      have "off = 0" using h(1,2) True by (auto elim: placed_elim)
      moreover have "cap = dev_block_count dev (a_device a)"
        using assms(6) h(2) True by (simp add: provider_block_count_def split: if_splits)
      ultimately show ?thesis
        using consumer_check_Inr [OF assms(7) nf1] l t(1) same by auto
    next
      case False
      then show ?thesis using h(5) nf1 t(1) same bs by auto
    qed
    then show ?thesis using l t bs by simp
  qed
  moreover have "adapter_request dev a (req\<lparr>lba := l\<rparr>) = (res, buf, a')" using h(3) r1 by auto
  ultimately show ?thesis
    unfolding reaches_device_def using h(2,4) placed.partition [OF h(1) assms(3,4)] by blast
qed

lemma provider_request_cases:
  assumes "provider_request dev n s pid req = Some (res, buf, s')"
  shows "(\<exists>err. res = Inl err) \<and> buf = cmd_buf (cmd req) \<and> s' = s \<or>
    reaches_device dev s pid req res buf s'"
  using assms
proof (induction n arbitrary: pid req)
  case (Suc n)
  then have pid: "pid < length s" by (simp split: if_splits)
  show ?case
  proof (cases "s ! pid")
    case (Adapter a)
    then obtain a' where "adapter_request dev a req = (res, buf, a')" "s' = s[pid := Adapter a']"
      using Suc.prems pid by (auto split: prod.splits)
    then have "reaches_device dev s pid req res buf s'"
      unfolding reaches_device_def using Adapter placed.adapter [OF pid Adapter]
      by (intro exI [of _ pid] exI [of _ 0] exI [of _ a] exI [of _ a'] exI [of _ "lba req"]) simp
    then show ?thesis by blast
  next
    case (Part p)
    then obtain bs where bs: "provider_block_size dev n s (c_provider (p_parent p)) = Some bs"
      using Suc.prems pid by (auto split: option.splits)
    show ?thesis
    proof (cases "partition_translate p req bs")
      case (Inl err)
      then show ?thesis using Suc.prems pid Part bs by auto
    next
      case (Inr req1)
      have cmd: "cmd req1 = cmd req"
        using Inr by (auto simp: partition_translate_def split: if_splits)
      have "consumer_request (provider_block_size dev n) (provider_block_count dev)
          (provider_request dev n) s (p_parent p) req1 = Some (res, buf, s')"
        using Suc.prems pid Part bs Inr by simp
      then show ?thesis
      proof (cases rule: consumer_request_cases)
        case refused
        then show ?thesis using cmd by simp
      next
        case (passed bs' cap)
        then show ?thesis
          using Suc.IH [OF passed(4)] cmd bs reaches_device_partition [OF _ Inr pid Part bs passed(2)]
          by auto
      qed
    qed
  next
    case (Gone d)
    then show ?thesis using Suc.prems pid by simp
  qed
qed simp

lemma adapter_request_device:
  "adapter_request dev a req = (res, buf, a') \<Longrightarrow> \<exists>d. a' = a\<lparr>a_device := d\<rparr>"
  by (auto simp: adapter_request_def split: command.splits prod.splits)

lemma block_inv_request:
  assumes "block_inv s cs" and "provider_request dev n s pid req = Some (res, buf, s')"
  shows "block_inv s' cs"
proof -
  have "s' = s \<or> (\<exists>root a d. root < length s \<and> s ! root = Adapter a \<and>
      s' = s[root := Adapter (a\<lparr>a_device := d\<rparr>)])"
    using provider_request_cases [OF assms(2)] adapter_request_device placed_same_root(2)
    unfolding reaches_device_def by metis
  then show ?thesis
  proof (elim disjE exE conjE)
    fix root a d
    assume h: "root < length s" "s ! root = Adapter a" "s' = s[root := Adapter (a\<lparr>a_device := d\<rparr>)]"
    have same: "node_count k (Adapter (a\<lparr>a_device := d\<rparr>)) = node_count k (s ! root)" for k
      using h(2) by (cases k) simp_all
    then have "store_ok s'"
      using assms(1) h(1,3) unfolding block_inv_def store_ok_def
      by (intro allI impI) (metis length_list_update nth_list_update_eq nth_list_update_neq
          parent_below.simps(1))
    moreover have "balance k s' p = balance k s p" if "p < length s" for k p
      using h that same [of k] by (simp add: balance_update)
    ultimately show ?thesis using assms(1) h(3) by (simp add: block_inv_def)
  qed (use assms in simp)
qed

lemma block_inv_access:
  assumes "block_inv s cs" and "i < length cs"
    and "consumer_access (provider_access dev n) s (cs ! i) r w e = Some (res, c', s')"
  shows "block_inv s' (cs[i := c'])"
proof -
  have ok: "store_ok s" "consumer_ok (cs ! i)" "c_provider (cs ! i) < length s"
    using assms(1,2) by (auto simp: block_inv_def list_all_length)
  note kp = prov.consumer_access_keeps [OF ok(1,2) assms(3)]
  have "clients_held k p (cs[i := c']) \<le> balance k s' p" if "p < length s" for k p
  proof -
    have "clients_held k p cs \<le> balance k s p" using assms(1) that by (simp add: block_inv_def)
    then show ?thesis
      using prov.consumer_access_balance [OF ok(1,2) assms(3) that, of k]
      by (simp add: clients_held_update [OF assms(2)])
  qed
  moreover have "list_all consumer_ok (cs[i := c'])" "list_all (\<lambda>c. c_provider c < length s) (cs[i := c'])"
    using assms(1) kp(3,4) ok(3)
    by (simp_all add: block_inv_def list_all_update)
  ultimately show ?thesis using kp(1,2) by (simp add: block_inv_def)
qed

lemma block_inv_drop:
  assumes "block_inv s cs" and "i < length cs" and "consumer_drop dev n s (cs ! i) = Some s'"
  shows "block_inv s' (remove_nth i cs)"
proof -
  have ok: "store_ok s" "consumer_ok (cs ! i)"
    using assms(1,2) by (auto simp: block_inv_def list_all_length)
  have le: "clients_held k p cs \<le> balance k s p" if "p < length s" for k p
    using assms(1) that by (simp add: block_inv_def)
  have lists: "list_all consumer_ok (remove_nth i cs)"
      "list_all (\<lambda>c. c_provider c < length s) (remove_nth i cs)"
    using assms(1) by (simp_all add: block_inv_def list_all_remove_nth)
  have "length s' = length s \<and> store_ok s' \<and>
    (\<forall>p < length s. \<forall>k. clients_held k p (remove_nth i cs) \<le> balance k s' p)"
  proof (cases "0 <s c_read (cs ! i) \<or> 0 <s c_write (cs ! i) \<or> 0 <s c_exclusive (cs ! i)")
    case True
    then obtain res where acc: "provider_access dev n s (c_provider (cs ! i)) (- c_read (cs ! i))
        (- c_write (cs ! i)) (- c_exclusive (cs ! i)) = Some (res, s')"
      using assms(3) by (auto simp: consumer_drop_def)
    have "clients_held k p (remove_nth i cs) \<le> balance k s' p" if "p < length s" for k p
      using prov.moves [OF ok(1) acc that, of k] le [OF that, of k] held_nonneg [OF ok(2), of k p]
      by (auto simp: clients_held_remove [OF assms(2)] delta_of_neg [OF ok(2)] held_def)
    then show ?thesis using prov.keeps [OF ok(1) acc] by simp
  next
    case False
    then have "s' = s" using assms(3) unfolding consumer_drop_def by simp
    moreover have "clients_held k p (remove_nth i cs) \<le> balance k s p" if "p < length s" for k p
      using le [OF that, of k] held_nonneg [OF ok(2), of k p]
      by (simp add: clients_held_remove [OF assms(2)])
    ultimately show ?thesis using ok by simp
  qed
  then show ?thesis using lists by (simp add: block_inv_def)
qed

lemma attached_fresh:
  assumes "store_ok s" and "length s \<le> p"
  shows "attached k s p = 0"
proof -
  have "part_held k p (s ! q) = 0" if "q < length s" for q
  proof (cases "s ! q")
    case (Part x)
    then have "c_provider (p_parent x) < q"
      using assms(1) that unfolding store_ok_def by (metis parent_below.simps(2))
    then show ?thesis using Part that assms(2) by (simp add: held_def)
  qed simp_all
  then have "map (part_held k p) s = map (\<lambda>_. 0) s" by (intro nth_equalityI) simp_all
  then show ?thesis by (simp only: attached_def sum_list_0)
qed

lemma clients_held_fresh:
  "list_all (\<lambda>c. c_provider c < length s) cs \<Longrightarrow> length s \<le> p \<Longrightarrow> clients_held k p cs = 0"
  by (induction cs) (auto simp: clients_held_def held_def)

lemma store_ok_append:
  "store_ok s \<Longrightarrow> parent_below (length s) x \<Longrightarrow> \<forall>k. 0 \<le> node_count k x \<Longrightarrow> store_ok (s @ [x])"
  by (auto simp: store_ok_def nth_append less_Suc_eq)

lemma balance_append:
  "p \<le> length s \<Longrightarrow> balance k (s @ [x]) p =
    (if p = length s then node_count k x - attached k s p else balance k s p) - part_held k p x"
  by (auto simp: balance_def attached_def nth_append)

lemma list_all_provider_mono:
  "list_all (\<lambda>c. c_provider c < n) cs \<Longrightarrow> n \<le> m \<Longrightarrow> list_all (\<lambda>c. c_provider c < m) cs"
  by (auto simp: list_all_iff)

lemma block_inv_adapter:
  assumes "block_inv s cs"
  shows "block_inv (s @ [Adapter (adapter_new name d)]) cs"
proof -
  have ok: "store_ok s" "list_all (\<lambda>c. c_provider c < length s) cs"
    using assms by (simp_all add: block_inv_def)
  have zero: "node_count k (Adapter (adapter_new name d)) = 0" for k
    by (cases k) (simp_all add: adapter_new_def)
  have "clients_held k p cs \<le> balance k (s @ [Adapter (adapter_new name d)]) p"
    if "p < Suc (length s)" for k p
    using assms that zero [of k] attached_fresh [OF ok(1), of p k] clients_held_fresh [OF ok(2), of p k]
    by (auto simp: block_inv_def balance_append less_Suc_eq)
  then show ?thesis
    using assms zero ok by (simp add: block_inv_def store_ok_append list_all_provider_mono)
qed

lemma block_inv_attach:
  assumes "block_inv s cs" and "pid < length s"
  shows "block_inv s (cs @ [consumer_attach pid])"
proof -
  have zero: "consumer_count k (consumer_attach pid) = 0" for k
    by (cases k) (simp_all add: consumer_attach_def)
  then have "clients_held k p (cs @ [consumer_attach pid]) = clients_held k p cs" for k p
    by (simp add: clients_held_def held_def)
  then show ?thesis using assms zero
    by (simp add: block_inv_def consumer_ok_def consumer_attach_def)
qed

lemma block_inv_partition:
  assumes "block_inv s cs" and "i < length cs" and "p_parent p = cs ! i"
  shows "block_inv (s @ [Part p]) (remove_nth i cs)"
proof -
  have ok: "store_ok s" "list_all consumer_ok cs" "list_all (\<lambda>c. c_provider c < length s) cs"
    using assms by (simp_all add: block_inv_def)
  then have c: "consumer_ok (cs ! i)" "c_provider (cs ! i) < length s"
    using assms(2) by (simp_all add: list_all_length)
  have "store_ok (s @ [Part p])"
    using ok(1) c assms(3) by (intro store_ok_append) (simp_all add: consumer_ok_def)
  moreover have "clients_held k x (remove_nth i cs) \<le> balance k (s @ [Part p]) x"
    if "x < Suc (length s)" for k x
  proof (cases "x = length s")
    case True
    then show ?thesis
      using attached_fresh [OF ok(1), of x k] clients_held_fresh [OF ok(3), of x k] c assms(3)
      by (simp add: balance_append clients_held_remove [OF assms(2)] held_def consumer_ok_def)
  next
    case False
    then show ?thesis using assms(1,3) that
      by (auto simp: block_inv_def balance_append clients_held_remove [OF assms(2)] less_Suc_eq)
  qed
  ultimately show ?thesis
    using ok list_all_provider_mono [OF list_all_remove_nth [OF ok(3)], of "Suc (length s)" i]
    by (simp add: block_inv_def list_all_remove_nth)
qed

lemma partition_new_parent:
  "partition_new dev s name c start_lba count = Some (Inr p) \<Longrightarrow> p_parent p = c"
  by (auto simp: partition_new_def split: option.splits if_splits)

text \<open>Dropping a provider that nobody refers to.\<close>

lemma unused_counts:
  assumes "\<not> in_use s cs pid"
  shows "clients_held k pid cs = 0" and "attached k s pid = 0"
proof -
  have "held k pid c = 0" if "c \<in> set cs" for c using assms that by (auto simp: in_use_def held_def)
  then have "map (held k pid) cs = map (\<lambda>_. 0) cs" by simp
  then show "clients_held k pid cs = 0" by (simp only: clients_held_def sum_list_0)
  have "part_held k pid x = 0" if "x \<in> set s" for x
    using assms that by (cases x) (auto simp: in_use_def held_def image_iff dest: bspec)
  then have "map (part_held k pid) s = map (\<lambda>_. 0) s" by simp
  then show "attached k s pid = 0" by (simp only: attached_def sum_list_0)
qed

lemma consumer_drop_keeps:
  assumes "store_ok s" and "consumer_ok c" and "consumer_drop dev n s c = Some s'"
  shows "length s' = length s" and "store_ok s'" and "q < length s \<Longrightarrow> c_provider c < q \<Longrightarrow> s' ! q = s ! q"
    and "q < length s \<Longrightarrow> shape (s' ! q) = shape (s ! q)"
    and "p < length s \<Longrightarrow> balance k s p - held k p c \<le> balance k s' p"
    and "p < length s \<Longrightarrow> c_provider c \<noteq> p \<Longrightarrow> balance k s' p = balance k s p"
proof -
  have "s' = s \<or> (\<exists>res. provider_access dev n s (c_provider c) (- c_read c) (- c_write c) (- c_exclusive c) = Some (res, s'))"
    using assms(3) by (auto simp: consumer_drop_def split: if_splits)
  then have *: "length s' = length s \<and> store_ok s' \<and> (\<forall>q < length s. c_provider c < q \<longrightarrow> s' ! q = s ! q) \<and>
    (\<forall>q < length s. shape (s' ! q) = shape (s ! q)) \<and>
    (\<forall>p < length s. balance k s p - held k p c \<le> balance k s' p \<and> (c_provider c \<noteq> p \<longrightarrow> balance k s' p = balance k s p))"
  proof (elim disjE exE)
    assume "s' = s"
    then show ?thesis using assms(1) held_nonneg [OF assms(2)] by simp
  next
    fix res
    assume acc: "provider_access dev n s (c_provider c) (- c_read c) (- c_write c) (- c_exclusive c) = Some (res, s')"
    show ?thesis
      using prov.keeps [OF assms(1) acc] prov.moves [OF assms(1) acc, of _ k] held_nonneg [OF assms(2)]
      by (simp add: delta_of_neg [OF assms(2)] held_def)
  qed
  then show "length s' = length s" "store_ok s'" "q < length s \<Longrightarrow> c_provider c < q \<Longrightarrow> s' ! q = s ! q"
    "q < length s \<Longrightarrow> shape (s' ! q) = shape (s ! q)" "p < length s \<Longrightarrow> balance k s p - held k p c \<le> balance k s' p"
    "p < length s \<Longrightarrow> c_provider c \<noteq> p \<Longrightarrow> balance k s' p = balance k s p" by blast+
qed

lemma block_inv_drop_provider:
  assumes inv: "block_inv s cs" and free: "\<not> in_use s cs pid" and drop: "provider_drop dev n s pid = Some s'"
  shows "block_inv s' cs"
proof -
  have ok: "store_ok s" and le: "\<And>p k. p < length s \<Longrightarrow> clients_held k p cs \<le> balance k s p"
    using inv by (simp_all add: block_inv_def)
  have pid: "pid < length s" using drop by (simp add: provider_drop_def split: if_splits)
  have "length s' = length s \<and> store_ok s' \<and> (\<forall>p < length s. \<forall>k. clients_held k p cs \<le> balance k s' p)"
  proof (cases "s ! pid")
    case (Adapter a)
    then have s': "s' = s[pid := Gone (Some (adapter_drop dev a))]" using drop pid by (simp add: provider_drop_def)
    have "clients_held k p cs \<le> balance k s' p" if "p < length s" for p k
      using le [OF that, of k] unused_counts [OF free, of k] that pid Adapter
      by (simp add: s' balance_update) (simp add: balance_def)
    then show ?thesis using ok by (simp add: s' store_ok_update)
  next
    case (Part p)
    then obtain s1 where s1: "consumer_drop dev n s (p_parent p) = Some s1" "s' = s1[pid := Gone None]"
      using drop pid by (auto simp: provider_drop_def)
    have below: "c_provider (p_parent p) < pid"
      using ok pid Part unfolding store_ok_def by (metis parent_below.simps(2))
    have cok: "consumer_ok (p_parent p)"
      using ok pid Part unfolding store_ok_def consumer_ok_def by (metis node_count.simps(2))
    note keeps = consumer_drop_keeps [OF ok cok s1(1)]
    have at: "s1 ! pid = Part p" using keeps(3) [OF pid below] Part by simp
    have "clients_held k x cs \<le> balance k s' x" if x: "x < length s" for x k
    proof (cases "x = pid")
      case True
      have "balance k s1 pid = balance k s pid" using keeps(6) [OF pid] below by simp
      then show ?thesis using unused_counts [OF free, of k] True pid keeps(1) below Part at
        by (simp add: s1(2) balance_update) (simp add: balance_def held_def)
    next
      case False
      then show ?thesis using keeps(1) keeps(5) [OF x, of k] le [OF x, of k] pid x at by (simp add: s1(2) balance_update)
    qed
    then show ?thesis using keeps(1,2) by (simp add: s1(2) store_ok_update)
  next
    case (Gone d)
    then show ?thesis using drop pid by (simp add: provider_drop_def)
  qed
  then show ?thesis using inv by (simp add: block_inv_def)
qed

lemma block_reach_inv: "block_reach dev s cs \<Longrightarrow> block_inv s cs"
proof (induction rule: block_reach.induct)
  case start
  show ?case by (simp add: block_inv_def store_ok_def)
next
  case (request s cs i n req res buf s')
  from request(3) show ?case
    by (cases rule: consumer_request_cases) (use request.IH block_inv_request in auto)
qed (simp_all add: block_inv_adapter block_inv_attach block_inv_access block_inv_drop alive_def
    block_inv_partition partition_new_parent block_inv_drop_provider)

text \<open>Exclusive access is granted by an idle adapter only.\<close>

lemma adapter_exclusive_idle:
  assumes "adapter_access dev a r w e = (Inr (), a')" and "0 <s e" and "\<forall>k. 0 \<le> adapter_count k a"
  shows "adapter_count k a = 0"
proof -
  have "\<not> (0 <s a_read a \<or> 0 <s a_write a \<or> 0 <s a_exclusive a)"
    using assms(1,2) unfolding adapter_access_def Let_def by (simp split: if_splits)
  moreover have "0 \<le> adapter_count k a" using assms(3) by simp
  ultimately show ?thesis by (cases k) (auto simp: word_sless_alt)
qed

lemma provider_exclusive_idle:
  assumes "placed s root off pid" and "provider_access dev n s pid r w e = Some (Inr (), s')"
    and "0 <s e" and "store_ok s"
  shows "node_count k (s ! root) = 0"
  using assms(1,2)
proof (induction arbitrary: n s')
  case (adapter a)
  then obtain m where n: "n = Suc m" by (cases n) simp_all
  have "\<forall>k. 0 \<le> adapter_count k a"
    using adapter(1,2) assms(4) unfolding store_ok_def by (metis node_count.simps(1))
  then show ?case
    using adapter adapter_exclusive_idle [of dev a r w e _ k] assms(3)
    by (auto simp: n split: prod.splits)
next
  case (partition off p pid)
  then obtain m where n: "n = Suc m" by (cases n) simp_all
  obtain c' s1 where "consumer_access (provider_access dev m) s (p_parent p) r w e
      = Some (Inr (), c', s1)"
    using partition by (auto simp: n split: option.splits)
  then show ?case by (cases rule: consumer_access_cases) (use partition.IH in auto)
qed

lemma part_held_nonneg:
  assumes "store_ok s" and "y \<in> set (map (part_held k x) s)"
  shows "0 \<le> y"
proof -
  obtain j where j: "j < length s" "y = part_held k x (s ! j)"
    using assms(2) by (auto simp: in_set_conv_nth)
  show ?thesis
  proof (cases "s ! j")
    case (Part z)
    then have "consumer_ok (p_parent z)"
      using assms(1) j(1) unfolding store_ok_def consumer_ok_def by (metis node_count.simps(2))
    then show ?thesis using Part j(2) by (simp add: held_nonneg)
  qed (simp_all add: j(2))
qed

lemma attached_member:
  assumes "store_ok s" and "q < length s" and "s ! q = Part p"
  shows "held k x (p_parent p) \<le> attached k s x"
proof -
  have "part_held k x (s ! q) \<in> set (map (part_held k x) s)" using assms(2) by simp
  then have "part_held k x (s ! q) \<le> attached k s x"
    unfolding attached_def using part_held_nonneg [OF assms(1)] by (meson member_le_sum_list)
  then show ?thesis using assms(3) by simp
qed

lemma clients_held_member:
  assumes "list_all consumer_ok cs" and "c \<in> set cs"
  shows "held k x c \<le> clients_held k x cs"
  using assms
proof (induction cs)
  case (Cons c' cs)
  have "0 \<le> clients_held k x cs" "0 \<le> held k x c'"
    using Cons.prems by (simp_all add: clients_held_nonneg held_nonneg)
  then show ?case using Cons by (auto simp: clients_held_def)
qed simp

text \<open>A provider that counts nothing has no consumer with a count.\<close>

lemma idle_provider:
  assumes "block_inv s cs" and "pid < length s" and "node_count k (s ! pid) = 0"
  shows "q < length s \<Longrightarrow> s ! q = Part p \<Longrightarrow> c_provider (p_parent p) = pid \<Longrightarrow>
      node_count k (s ! q) = 0"
    and "c \<in> set cs \<Longrightarrow> c_provider c = pid \<Longrightarrow> consumer_count k c = 0"
proof -
  have ok: "store_ok s" "list_all consumer_ok cs" "clients_held k pid cs \<le> balance k s pid"
    using assms(1,2) by (simp_all add: block_inv_def)
  have sum: "clients_held k pid cs + attached k s pid \<le> 0" "0 \<le> clients_held k pid cs"
    using ok assms(3) clients_held_nonneg by (simp_all add: balance_def)
  show "node_count k (s ! q) = 0"
    if "q < length s" "s ! q = Part p" "c_provider (p_parent p) = pid"
  proof -
    have "node_count k (s ! q) \<le> 0"
      using attached_member [OF ok(1) that(1,2), of k pid] that(2,3) sum by (simp add: held_def)
    moreover have "0 \<le> node_count k (s ! q)" using ok(1) that(1) unfolding store_ok_def by blast
    ultimately show ?thesis by simp
  qed
  show "consumer_count k c = 0" if "c \<in> set cs" "c_provider c = pid"
  proof -
    have at: "0 \<le> attached k s pid"
      unfolding attached_def by (rule sum_list_nonneg) (rule part_held_nonneg [OF ok(1)])
    have "consumer_count k c \<le> 0"
      using clients_held_member [OF ok(2) that(1), of k pid] that(2) sum at by (simp add: held_def)
    moreover have "0 \<le> consumer_count k c"
      using ok(2) that(1) by (auto simp: list_all_iff consumer_ok_def)
    ultimately show ?thesis by simp
  qed
qed

section \<open>Calls return\<close>

text \<open>The kinds of providers stay, so a consumer and a partition always have a provider.\<close>

lemma linked_shapes:
  assumes "linked s cs" and "length s' = length s" and "\<And>q. q < length s \<Longrightarrow> shape (s' ! q) = shape (s ! q)"
    and "map c_provider cs' = map c_provider cs"
  shows "linked s' cs'"
proof -
  have "alive s' q = alive s q" for q using assms(2,3) by (auto simp: alive_def)
  moreover have "list_all (\<lambda>c. P (c_provider c)) cs' = list_all (\<lambda>c. P (c_provider c)) cs" for P
    using assms(4) list.pred_map [of P c_provider cs] list.pred_map [of P c_provider cs'] by (simp add: comp_def)
  ultimately show ?thesis using assms(1-3) by (simp add: linked_def)
qed

lemma linked_append:
  assumes "linked s cs" and "shape x \<noteq> Some (Some (length s))" and "\<And>r. shape x = Some (Some r) \<Longrightarrow> alive s r"
  shows "linked (s @ [x]) cs"
proof -
  have up: "alive (s @ [x]) q" if "alive s q" for q using that by (auto simp: alive_def nth_append)
  have "alive (s @ [x]) r" if "q < Suc (length s)" "shape ((s @ [x]) ! q) = Some (Some r)" for q r
    using that assms(1,3) by (intro up) (auto simp: linked_def nth_append split: if_splits)
  moreover have "list_all (\<lambda>c. alive (s @ [x]) (c_provider c)) cs"
    using assms(1) up by (auto simp: linked_def list_all_iff)
  ultimately show ?thesis by (simp add: linked_def)
qed

lemma linked_gone:
  assumes "linked s cs" and "\<not> in_use s cs pid" and "length s' = length s"
    and "\<And>q. q < length s \<Longrightarrow> shape (s' ! q) = (if q = pid then None else shape (s ! q))"
  shows "linked s' cs"
proof -
  have "alive s' q" if "alive s q" "q \<noteq> pid" for q using that assms(3,4) by (auto simp: alive_def)
  moreover have "r \<noteq> pid" if "q < length s" "shape (s ! q) = Some (Some r)" for q r
    using assms(2) that nth_mem [of q s] unfolding in_use_def by (metis imageI list.set_map)
  moreover have "c_provider c \<noteq> pid" if "c \<in> set cs" for c using assms(2) that by (auto simp: in_use_def)
  ultimately show ?thesis using assms(1,3,4) by (auto simp: linked_def list_all_iff split: if_splits)
qed

lemma request_shapes:
  assumes "provider_request dev n s pid req = Some (res, buf, s')"
  shows "length s' = length s" and "q < length s \<Longrightarrow> shape (s' ! q) = shape (s ! q)"
proof -
  consider "s' = s" | root a a' where "s ! root = Adapter a" "s' = s[root := Adapter a']"
    using provider_request_cases [OF assms] unfolding reaches_device_def by blast
  then have "length s' = length s \<and> (q < length s \<longrightarrow> shape (s' ! q) = shape (s ! q))"
  proof cases
    case (2 root a a')
    then show ?thesis by (cases "q = root") simp_all
  qed simp
  then show "length s' = length s" "q < length s \<Longrightarrow> shape (s' ! q) = shape (s ! q)" by blast+
qed

lemma provider_drop_shapes:
  assumes "store_ok s" and "provider_drop dev n s pid = Some s'"
  shows "length s' = length s" and "q < length s \<Longrightarrow> shape (s' ! q) = (if q = pid then None else shape (s ! q))"
proof -
  have pid: "pid < length s" using assms(2) by (simp add: provider_drop_def split: if_splits)
  have "length s' = length s \<and> (q < length s \<longrightarrow> shape (s' ! q) = (if q = pid then None else shape (s ! q)))"
  proof (cases "s ! pid")
    case (Part p)
    then obtain s1 where s1: "consumer_drop dev n s (p_parent p) = Some s1" "s' = s1[pid := Gone None]"
      using assms(2) pid by (auto simp: provider_drop_def)
    have cok: "consumer_ok (p_parent p)"
      using assms(1) pid Part unfolding store_ok_def consumer_ok_def by (metis node_count.simps(2))
    show ?thesis using consumer_drop_keeps(1,4) [OF assms(1) cok s1(1)] pid by (simp add: s1(2) nth_list_update)
  qed (use assms(2) pid in \<open>auto simp: provider_drop_def nth_list_update\<close>)
  then show "length s' = length s" "q < length s \<Longrightarrow> shape (s' ! q) = (if q = pid then None else shape (s ! q))" by blast+
qed

lemma linked_remove: "linked s cs \<Longrightarrow> linked s (remove_nth i cs)"
  by (simp add: linked_def list_all_remove_nth)

lemma block_reach_linked: "block_reach dev s cs \<Longrightarrow> linked s cs"
proof (induction rule: block_reach.induct)
  case start
  show ?case by (simp add: linked_def)
next
  case (adapter s cs name d)
  then show ?case by (intro linked_append) simp_all
next
  case (attach s cs pid)
  then show ?case by (simp add: linked_def consumer_attach_def)
next
  case (access s cs i n r w e res c' s')
  have ok: "store_ok s" "consumer_ok (cs ! i)"
    using block_reach_inv [OF access(1)] access(2) by (simp_all add: block_inv_def list_all_length)
  note keeps = prov.consumer_access_keeps [OF ok access(3)]
  have "(map c_provider cs)[i := c_provider c'] = map c_provider cs"
    using keeps(4) access(2) by (metis list_update_id nth_map)
  then show ?case using keeps(1,7) by (intro linked_shapes [OF access.IH]) (simp_all add: map_update)
next
  case (request s cs i n req res buf s')
  from request(3) show ?case
  proof (cases rule: consumer_request_cases)
    case refused
    then show ?thesis using request.IH by simp
  next
    case (passed bs cap)
    show ?thesis by (rule linked_shapes [OF request.IH]) (use request_shapes [OF passed(4)] in simp_all)
  qed
next
  case (partition s cs i name start_lba count p)
  have al: "alive s (c_provider (p_parent p))"
    using partition(2) partition.IH partition_new_parent [OF partition(3)] by (simp add: linked_def list_all_length)
  show ?case by (rule linked_append [OF linked_remove [OF partition.IH]]) (use al in \<open>auto simp: alive_def\<close>)
next
  case (partition_error s cs i name start_lba count err n s')
  have ok: "store_ok s" "consumer_ok (cs ! i)"
    using block_reach_inv [OF partition_error(1)] partition_error(2) by (simp_all add: block_inv_def list_all_length)
  show ?case
    by (rule linked_shapes [OF linked_remove [OF partition_error.IH]])
      (use consumer_drop_keeps(1,4) [OF ok partition_error(4)] in simp_all)
next
  case (drop s cs i n s')
  have ok: "store_ok s" "consumer_ok (cs ! i)"
    using block_reach_inv [OF drop(1)] drop(2) by (simp_all add: block_inv_def list_all_length)
  show ?case
    by (rule linked_shapes [OF linked_remove [OF drop.IH]]) (use consumer_drop_keeps(1,4) [OF ok drop(3)] in simp_all)
next
  case (drop_provider s cs pid n s')
  have "store_ok s" using block_reach_inv [OF drop_provider(1)] by (simp add: block_inv_def)
  from provider_drop_shapes [OF this drop_provider(3)] show ?case
    by (intro linked_gone [OF drop_provider.IH drop_provider(2)]) simp_all
qed

text \<open>A parent was created before its partition, so the index of a provider bounds the depth of its chain.\<close>

lemma depth_enough:
  assumes "store_ok s" and "linked s cs" and "alive s pid" and "pid < n"
  shows "\<exists>bs. provider_block_size dev n s pid = Some bs" and "\<exists>cap. provider_block_count dev s pid = Some cap"
    and "\<exists>res buf s'. provider_request dev n s pid req = Some (res, buf, s')"
    and "\<exists>res s'. provider_access dev n s pid r w e = Some (res, s')"
proof -
  have up: "alive s (c_provider (p_parent p)) \<and> c_provider (p_parent p) < q" if "alive s q" "s ! q = Part p" for p q
    using assms(1,2) that unfolding store_ok_def linked_def alive_def by (metis parent_below.simps(2) shape.simps(2))
  have count: "\<exists>cap. provider_block_count dev s q = Some cap" if "alive s q" for q
    using that by (cases "s ! q") (simp_all add: alive_def provider_block_count_def)
  show "\<exists>cap. provider_block_count dev s pid = Some cap" by (rule count [OF assms(3)])
  have size: "\<exists>bs. provider_block_size dev n s pid = Some bs" if "alive s pid" "pid < n" for n pid
    using that
  proof (induction n arbitrary: pid)
    case (Suc n)
    then show ?case using up [of pid] by (cases "s ! pid") (auto simp: alive_def)
  qed simp
  show "\<exists>bs. provider_block_size dev n s pid = Some bs" by (rule size [OF assms(3,4)])
  show "\<exists>res buf s'. provider_request dev n s pid req = Some (res, buf, s')" using assms(3,4)
  proof (induction n arbitrary: pid req)
    case (Suc n)
    show ?case
    proof (cases "s ! pid")
      case (Part p)
      have u: "alive s (c_provider (p_parent p))" "c_provider (p_parent p) < n"
        using up [OF Suc.prems(1) Part] Suc.prems(2) by simp_all
      obtain bs cap where "provider_block_size dev n s (c_provider (p_parent p)) = Some bs"
          "provider_block_count dev s (c_provider (p_parent p)) = Some cap"
        using size [OF u] count [OF u(1)] by blast
      then show ?thesis using Part Suc.prems(1) Suc.IH [OF u]
        by (auto simp: alive_def consumer_request_def split: sum.splits)
    qed (use Suc.prems in \<open>auto simp: alive_def split: prod.splits\<close>)
  qed simp
  show "\<exists>res s'. provider_access dev n s pid r w e = Some (res, s')" using assms(3,4)
  proof (induction n arbitrary: pid)
    case (Suc n)
    show ?case
    proof (cases "s ! pid")
      case (Part p)
      have u: "alive s (c_provider (p_parent p))" "c_provider (p_parent p) < n"
        using up [OF Suc.prems(1) Part] Suc.prems(2) by simp_all
      have "\<exists>x. consumer_access (provider_access dev n) s (p_parent p) r w e = Some x"
        using Suc.IH [OF u] by (auto simp: consumer_access_def Let_def split: sum.splits)
      then show ?thesis using Part Suc.prems(1) by (auto simp: alive_def)
    qed (use Suc.prems in \<open>auto simp: alive_def split: prod.splits\<close>)
  qed simp
qed

text \<open>Where a request goes.\<close>

lemma request_confined:
  assumes "consumer_request (provider_block_size dev n) (provider_block_count dev)
      (provider_request dev n) s c req = Some (res, buf, s')"
  shows "(\<exists>err. res = Inl err) \<and> buf = cmd_buf (cmd req) \<and> s' = s \<or>
    (\<exists>root off a a' l. placed s root off (c_provider c) \<and> s ! root = Adapter a \<and>
       adapter_request dev a (req\<lparr>lba := l\<rparr>) = (res, buf, a') \<and> s' = s[root := Adapter a'] \<and>
       (cmd req \<noteq> Flush \<longrightarrow>
         (\<exists>blocks. io_blocks req (dev_block_size dev (a_device a)) = Inr blocks \<and>
            unat l = unat (lba req) + off \<and>
            unat l + unat blocks \<le> unat (dev_block_count dev (a_device a)) \<and>
            (\<forall>p. s ! c_provider c = Part p \<longrightarrow> unat (lba req) + unat blocks \<le> unat (p_block_count p)))))"
  using assms(1)
proof (cases rule: consumer_request_cases)
  case (refused err bs cap)
  then show ?thesis by simp
next
  case (passed bs cap)
  consider (no) "(\<exists>err. res = Inl err) \<and> buf = cmd_buf (cmd req) \<and> s' = s"
    | (dev) "reaches_device dev s (c_provider c) req res buf s'"
    using provider_request_cases [OF passed(4)] by blast
  then show ?thesis
  proof cases
    case dev
    then obtain root off a a' l where h: "placed s root off (c_provider c)" "s ! root = Adapter a"
      "adapter_request dev a (req\<lparr>lba := l\<rparr>) = (res, buf, a')" "s' = s[root := Adapter a']"
      "cmd req \<noteq> Flush \<longrightarrow> unat l = unat (lba req) + off \<and>
         (root \<noteq> c_provider c \<longrightarrow> (\<exists>blocks. io_blocks req (dev_block_size dev (a_device a)) = Inr blocks \<and>
         unat l + unat blocks \<le> unat (dev_block_count dev (a_device a))))"
      unfolding reaches_device_def by blast
    have bs: "bs = dev_block_size dev (a_device a)"
      by (rule provider_block_size_placed [OF h(1) passed(1) h(2)])
    have "\<exists>blocks. io_blocks req bs = Inr blocks \<and> unat l = unat (lba req) + off \<and>
        unat l + unat blocks \<le> unat (dev_block_count dev (a_device a)) \<and>
        (\<forall>p. s ! c_provider c = Part p \<longrightarrow> unat (lba req) + unat blocks \<le> unat (p_block_count p))" if nf: "cmd req \<noteq> Flush"
    proof -
      obtain blocks where b: "io_blocks req bs = Inr blocks" "unat (lba req) + unat blocks \<le> unat cap"
        using consumer_check_Inr [OF passed(3) nf] by blast
      have "unat l + unat blocks \<le> unat (dev_block_count dev (a_device a))"
      proof (cases "root = c_provider c")
        case True
        have "off = 0" using h(1,2) True by (auto elim: placed_elim)
        then show ?thesis using h(2,5) b(2) passed(2) True nf by (simp add: provider_block_count_def split: if_splits)
      qed (use h(5) b(1) bs nf in auto)
      moreover have "cap = p_block_count p" if "s ! c_provider c = Part p" for p
        using passed(2) that by (simp add: provider_block_count_def split: if_splits)
      ultimately show ?thesis using b h(5) nf by auto
    qed
    then show ?thesis using h(1-4) bs by blast
  qed blast
qed

section \<open>Properties\<close>

text \<open>C13: In every reachable state a request that a consumer sends returns, at any depth bound from the
  number of providers on. It is refused with nothing changed, or it reaches the one device below the provider and
  only that device changes. Unless it is a flush it arrives at the address translated by the offsets of the
  partitions on the way, inside the partition it was sent to and inside the device.\<close>

theorem block_request_confined:
  assumes "block_reach dev s cs" and "c \<in> set cs" and "length s \<le> n"
  shows "\<exists>res buf s'. consumer_request (provider_block_size dev n) (provider_block_count dev)
      (provider_request dev n) s c req = Some (res, buf, s') \<and>
    ((\<exists>err. res = Inl err) \<and> buf = cmd_buf (cmd req) \<and> s' = s \<or>
     (\<exists>root off a a' l. placed s root off (c_provider c) \<and> s ! root = Adapter a \<and>
        adapter_request dev a (req\<lparr>lba := l\<rparr>) = (res, buf, a') \<and> s' = s[root := Adapter a'] \<and>
        (cmd req \<noteq> Flush \<longrightarrow>
          (\<exists>blocks. io_blocks req (dev_block_size dev (a_device a)) = Inr blocks \<and>
             unat l = unat (lba req) + off \<and>
             unat l + unat blocks \<le> unat (dev_block_count dev (a_device a)) \<and>
             (\<forall>p. s ! c_provider c = Part p \<longrightarrow> unat (lba req) + unat blocks \<le> unat (p_block_count p))))))"
proof -
  have inv: "store_ok s" "linked s cs" using block_reach_inv [OF assms(1)] block_reach_linked [OF assms(1)]
    by (simp_all add: block_inv_def)
  have al: "alive s (c_provider c)" using inv(2) assms(2) by (simp add: linked_def list_all_iff)
  then have lt: "c_provider c < n" using assms(3) by (simp add: alive_def)
  obtain res buf s' where run: "consumer_request (provider_block_size dev n) (provider_block_count dev)
      (provider_request dev n) s c req = Some (res, buf, s')"
    using depth_enough(1,2) [OF inv al lt, of dev] depth_enough(3) [OF inv al lt, of dev req]
    by (cases "consumer_check c req (the (provider_block_size dev n s (c_provider c)))
        (the (provider_block_count dev s (c_provider c)))") (auto simp: consumer_request_def)
  show ?thesis using run request_confined [OF run] by blast
qed

lemma ram_write:
  "consumer_request (provider_block_size ram_disk (Suc (Suc 0))) (provider_block_count ram_disk)
      (provider_request ram_disk (Suc (Suc 0))) ram_store
      \<lparr>c_provider = 1, c_read = 0, c_write = 1, c_exclusive = 0\<rparr> \<lparr>cmd = Write [5, 6], lba = 1\<rparr> =
   Some (Inr (), [5, 6], [Adapter \<lparr>a_name = ''ram'', a_device = [0, 0, 0, 0, 5, 6, 0, 0], a_read = 0,
     a_write = 1, a_exclusive = 0\<rparr>, ram_store ! 1])"
proof -
  let ?c0 = "\<lparr>c_provider = 0, c_read = 0, c_write = 1, c_exclusive = 0\<rparr>"
  let ?c1 = "\<lparr>c_provider = Suc 0, c_read = 0, c_write = 1, c_exclusive = 0\<rparr>"
  let ?p = "\<lparr>p_name = ''part'', p_parent = ?c0, p_start_lba = 1, p_block_count = 2\<rparr>"
  let ?d = "[0, 0, 0, 0, 0, 0, 0, 0]"
  have s: "length ram_store = 2" "ram_store ! Suc 0 = Part ?p" "ram_store ! 0 = Adapter
      \<lparr>a_name = ''ram'', a_device = ?d, a_read = 0, a_write = 1, a_exclusive = 0\<rparr>"
      "ram_store[0 := x] = [x, ram_store ! Suc 0]" for x
    by (simp_all add: ram_store_def)
  have "consumer_check ?c1 \<lparr>cmd = Write [5, 6], lba = 1\<rparr> 2 2 = Inr ()"
    "consumer_check ?c0 \<lparr>cmd = Write [5, 6], lba = 2\<rparr> 2 4 = Inr ()"
    by (simp_all add: consumer_check_def io_blocks_def checked_add_def word_sle_eq)
  moreover have "partition_translate ?p \<lparr>cmd = Write [5, 6], lba = 1\<rparr> 2 =
      Inr \<lparr>cmd = Write [5, 6], lba = 2\<rparr>"
    by (simp add: partition_translate_def io_blocks_def checked_add_def)
  moreover have "dev_block_size ram_disk x = 2" "dev_block_count ram_disk ?d = 4"
    "dev_write_blocks ram_disk ?d 2 [5, 6] = (Inr (), [0, 0, 0, 0, 5, 6, 0, 0])" for x
    by (simp_all add: ram_disk_def)
  ultimately show ?thesis
    by (simp add: consumer_request_def s provider_block_count_def adapter_request_def)
qed

lemma ram_store_reach:
  "block_reach ram_disk ram_store [\<lparr>c_provider = 1, c_read = 0, c_write = 1, c_exclusive = 0\<rparr>]"
proof -
  let ?a = "adapter_new ''ram'' [0, 0, 0, 0, 0, 0, 0, 0]"
  let ?p = "\<lparr>p_name = ''part'', p_parent = consumer_attach 0, p_start_lba = 1, p_block_count = 2\<rparr>"
  have "block_reach ram_disk [Adapter ?a] [consumer_attach 0]"
    using block_reach.attach [of ram_disk "[Adapter ?a]" "[]" 0] block_reach.adapter [OF block_reach.start]
    by (force simp: alive_def)
  moreover have "partition_new ram_disk [Adapter ?a] ''part'' (consumer_attach 0) 1 2 = Some (Inr ?p)"
    by (simp add: partition_new_def consumer_attach_def provider_block_count_def adapter_new_def ram_disk_def
        checked_add_def)
  ultimately have "block_reach ram_disk [Adapter ?a, Part ?p] []"
    using block_reach.partition [of ram_disk "[Adapter ?a]" "[consumer_attach 0]" 0 "''part''" 1 2 ?p]
    by (simp add: remove_nth_def)
  then have "block_reach ram_disk [Adapter ?a, Part ?p] [consumer_attach 1]"
    using block_reach.attach [of ram_disk "[Adapter ?a, Part ?p]" "[]" 1] by (simp add: alive_def)
  moreover have "consumer_access (provider_access ram_disk (Suc (Suc 0))) [Adapter ?a, Part ?p] (consumer_attach 1) 0 1 0
      = Some (Inr (), \<lparr>c_provider = 1, c_read = 0, c_write = 1, c_exclusive = 0\<rparr>, ram_store)"
    by (simp add: consumer_access_def consumer_attach_def adapter_access_def adapter_new_def ram_store_def
        word_sless_alt word_sle_eq)
  ultimately show ?thesis
    using block_reach.access [of ram_disk "[Adapter ?a, Part ?p]" "[consumer_attach 1]" 0 "Suc (Suc 0)" 0 1 0] by simp
qed

theorem block_request_confined_witness:
  "\<exists>root off a a' l blocks. placed ram_store root off 1 \<and> ram_store ! root = Adapter a \<and>
     unat (l :: u64) = 1 + off \<and> unat l + unat (blocks :: u64) \<le> 4 \<and>
     adapter_request ram_disk a \<lparr>cmd = Write [5, 6], lba = l\<rparr> = (Inr (), [5, 6], a')"
proof -
  have d: "dev_block_count ram_disk (a_device a) = 4"
    if "ram_store ! root = Adapter a" "placed ram_store root off 1" for root off a
  proof -
    have "root < 2" using placed_same_root(2) [OF that(2)] by (simp add: ram_store_def)
    then have "root = 0 \<or> root = 1" by auto
    then show ?thesis using that(1) by (auto simp: ram_store_def ram_disk_def)
  qed
  have "length ram_store = Suc (Suc 0)" by (simp add: ram_store_def)
  from block_request_confined [OF ram_store_reach list.set_intros(1) eq_refl [OF this],
      of "\<lparr>cmd = Write [5, 6], lba = 1\<rparr>"] d
  show ?thesis unfolding ram_write by fastforce
qed

lemma consumer_drop_returns:
  assumes "block_reach dev s cs" and "c \<in> set cs" and "length s \<le> n"
  shows "\<exists>s'. consumer_drop dev n s c = Some s'"
proof -
  have inv: "store_ok s" "linked s cs" using block_reach_inv [OF assms(1)] block_reach_linked [OF assms(1)]
    by (simp_all add: block_inv_def)
  have al: "alive s (c_provider c)" using inv(2) assms(2) by (simp add: linked_def list_all_iff)
  then have "c_provider c < n" using assms(3) by (simp add: alive_def)
  from depth_enough(4) [OF inv al this, of dev] show ?thesis by (force simp: consumer_drop_def)
qed

text \<open>C14: However adapters, partitions and consumers were created, opened, used, closed and dropped, a
  dropped provider having no consumers left, no count is negative and a provider counts at least the
  references its consumers hold, for reads, writes and exclusive access alike; a provider that was
  dropped counts none and has no consumers.\<close>

theorem block_counts_covered:
  assumes "block_reach dev s cs" and "pid < length s"
  shows "0 \<le> node_count k (s ! pid) \<and>
    clients_held k pid cs + attached k s pid \<le> node_count k (s ! pid) \<and>
    (shape (s ! pid) = None \<longrightarrow> node_count k (s ! pid) = 0 \<and> \<not> in_use s cs pid)"
proof -
  have "node_count k (s ! pid) = 0 \<and> \<not> in_use s cs pid" if "shape (s ! pid) = None"
  proof
    show "node_count k (s ! pid) = 0" using that by (cases "s ! pid") simp_all
    have "\<not> alive s pid" using that by (simp add: alive_def)
    then show "\<not> in_use s cs pid"
      using block_reach_linked [OF assms(1)] unfolding in_use_def linked_def list_all_iff
      by (auto simp: in_set_conv_nth)
  qed
  then show ?thesis using block_reach_inv [OF assms(1)] assms(2)
    by (auto simp: block_inv_def store_ok_def balance_def le_diff_eq)
qed

definition ram_idle :: "u8 list store" where
  "ram_idle = [Adapter (adapter_new ''ram'' [0, 0])]"

lemma ram_exclusive:
  "block_reach ram_disk ram_idle [consumer_attach 0] \<and>
   consumer_access (provider_access ram_disk (Suc 0)) ram_idle (consumer_attach 0) 0 0 1 =
     Some (Inr (), \<lparr>c_provider = 0, c_read = 0, c_write = 0, c_exclusive = 1\<rparr>,
       [Adapter \<lparr>a_name = ''ram'', a_device = [0, 0], a_read = 0, a_write = 0, a_exclusive = 1\<rparr>])"
proof
  have "block_reach ram_disk ram_idle []"
    using block_reach.adapter [OF block_reach.start, of ram_disk "''ram''" "[0, 0]"]
    by (simp add: ram_idle_def)
  then show "block_reach ram_disk ram_idle [consumer_attach 0]"
    using block_reach.attach [of ram_disk ram_idle "[]" 0] by (simp add: ram_idle_def alive_def)
qed (simp add: consumer_access_def consumer_attach_def ram_idle_def adapter_access_def
    adapter_new_def word_sless_alt word_sle_eq)

theorem block_counts_covered_witness:
  "let s = [Adapter \<lparr>a_name = ''ram'', a_device = [0, 0], a_read = 0, a_write = 0, a_exclusive = 1\<rparr>];
       cs = [\<lparr>c_provider = 0, c_read = 0, c_write = 0, c_exclusive = 1\<rparr>] in
   block_reach ram_disk s cs \<and>
   clients_held KExclusive 0 cs + attached KExclusive s 0 \<le> node_count KExclusive (s ! 0)"
proof -
  have "block_reach ram_disk
      [Adapter \<lparr>a_name = ''ram'', a_device = [0, 0], a_read = 0, a_write = 0, a_exclusive = 1\<rparr>]
      [\<lparr>c_provider = 0, c_read = 0, c_write = 0, c_exclusive = 1\<rparr>]"
    using block_reach.access [of ram_disk ram_idle "[consumer_attach 0]" 0 "Suc 0" 0 0 1] ram_exclusive
    by simp
  from this block_counts_covered [OF this, of 0 KExclusive] show ?thesis by simp
qed

text \<open>C21: When exclusive access to a provider is granted, no consumer of any provider on the same
  device, at any depth of partitions, held a reference.\<close>

theorem block_exclusive_alone:
  assumes "block_reach dev s cs" and "i < length cs"
    and "consumer_access (provider_access dev n) s (cs ! i) r w e = Some (Inr (), c', s')"
    and "0 <s e" and "placed s root off (c_provider (cs ! i))"
    and "placed s root off' pid" and "c \<in> set cs" and "c_provider c = pid"
  shows "node_count k (s ! pid) = 0 \<and> consumer_count k c = 0"
proof -
  have inv: "block_inv s cs" by (rule block_reach_inv [OF assms(1)])
  have acc: "provider_access dev n s (c_provider (cs ! i)) r w e = Some (Inr (), s')"
    using assms(3) by (cases rule: consumer_access_cases) simp_all
  have root: "node_count k (s ! root) = 0"
    using provider_exclusive_idle [OF assms(5) acc assms(4)] inv by (simp add: block_inv_def)
  from assms(6) have "node_count k (s ! pid) = 0"
  proof (induction rule: placed.induct)
    case (partition off p q)
    then show ?case using idle_provider(1) [OF inv placed_same_root(1)] by blast
  qed (rule root)
  then show ?thesis
    using idle_provider(2) [OF inv placed_same_root(1) [OF assms(6)] _ assms(7,8)] by simp
qed

theorem block_exclusive_alone_witness:
  "node_count KWrite (ram_idle ! 0) = 0 \<and> consumer_count KWrite (consumer_attach 0) = 0"
proof -
  have "placed ram_idle 0 0 0" by (rule placed.adapter) (simp_all add: ram_idle_def)
  then show ?thesis
    using block_exclusive_alone [of ram_disk ram_idle "[consumer_attach 0]" 0 "Suc 0" 0 0 1 _ _ 0 0 0 0
        "consumer_attach 0" KWrite] ram_exclusive
    by (simp add: consumer_attach_def word_sless_alt)
qed

text \<open>A consumer is dropped by returning its counts; if the device then fails to flush, the error
  is ignored and the adapter keeps the counts of a consumer that no longer exists: exclusive access
  is refused from then on.\<close>

theorem drop_flush_error_leaks:
  assumes "pid < length s" and "s ! pid = Adapter a" and "c_provider c = pid" and "consumer_ok c"
    and "a_read a = c_read c" and "a_write a = c_write c" and "a_exclusive a = c_exclusive c"
    and "0 <s c_write c" and "dev_flush dev (a_device a) = (Inl err, d)"
  shows "consumer_drop dev (Suc n) s c = Some (s[pid := Adapter (a\<lparr>a_device := d\<rparr>)]) \<and>
    (\<exists>err'. adapter_access dev (a\<lparr>a_device := d\<rparr>) 0 0 1 = (Inl err', a\<lparr>a_device := d\<rparr>))"
proof -
  have nn: "0 \<le> sint (c_read c)" "0 \<le> sint (c_write c)" "0 \<le> sint (c_exclusive c)"
    using assms(4) consumer_count.simps unfolding consumer_ok_def by metis+
  have "\<not> 0 <s - c_read c" "\<not> 0 <s - c_write c" "\<not> 0 <s - c_exclusive c"
    using nn by (simp_all add: word_sless_alt sint_neg_nonneg)
  then have "adapter_access dev a (- c_read c) (- c_write c) (- c_exclusive c)
      = (Inl err, a\<lparr>a_device := d\<rparr>)"
    using assms(5-9) unfolding adapter_access_def by (simp add: Let_def)
  then have "consumer_drop dev (Suc n) s c = Some (s[pid := Adapter (a\<lparr>a_device := d\<rparr>)])"
    using assms(1-3,8) by (simp add: consumer_drop_def)
  moreover have "\<exists>err'. adapter_access dev (a\<lparr>a_device := d\<rparr>) 0 0 1 = (Inl err', a\<lparr>a_device := d\<rparr>)"
    using assms(6,8) unfolding adapter_access_def Let_def by (auto simp: word_sless_alt)
  ultimately show ?thesis ..
qed

theorem drop_flush_error_leaks_witness:
  "let dev = ram_disk\<lparr>dev_flush := (\<lambda>d. (Inl HardwareError, d))\<rparr>;
       c = \<lparr>c_provider = 0, c_read = 0, c_write = 1, c_exclusive = 0\<rparr> in
   consumer_drop dev (Suc 0) (take 1 ram_store) c = Some (take 1 ram_store)"
proof -
  let ?dev = "ram_disk\<lparr>dev_flush := (\<lambda>d. (Inl HardwareError, d))\<rparr>"
  let ?c = "\<lparr>c_provider = 0, c_read = 0, c_write = 1, c_exclusive = 0\<rparr>"
  let ?a = "\<lparr>a_name = ''ram'', a_device = [0, 0, 0, 0, 0, 0, 0, 0], a_read = 0, a_write = 1,
      a_exclusive = 0\<rparr>"
  have "0 \<le> consumer_count k ?c" for k by (cases k) simp_all
  then have "consumer_ok ?c" by (simp add: consumer_ok_def)
  then show ?thesis
    using drop_flush_error_leaks [of 0 "take 1 ram_store" ?a ?c ?dev HardwareError
        "[0, 0, 0, 0, 0, 0, 0, 0]" 0]
    by (simp add: ram_store_def word_sless_alt)
qed

end
