(* ===== verification/Sync_Locks.thy ===== *)
theory Sync_Locks
  imports Mars_Prelude
begin

text \<open>
  The spinning locks of \<open>klib/src/sync.rs\<close>: the ticket lock behind \<open>FairSpinlock\<close>, the
  compare-and-swap \<open>UnfairSpinlock\<close> and the reader-writer lock. A state is the shared words of the
  lock and a program counter for each thread; every step is one atomic access of one thread, so the
  step relations interleave the threads in every order. Memory is sequentially consistent.
\<close>

section \<open>The contract of a mutual exclusion lock\<close>

locale exclusive_lock =
  fixes init :: "'s \<Rightarrow> bool"
    and step :: "'s \<Rightarrow> 's \<Rightarrow> bool"
    and holds :: "'s \<Rightarrow> nat \<Rightarrow> bool"
    and inv :: "'s \<Rightarrow> bool"
  assumes init_inv: "init s \<Longrightarrow> inv s"
    and step_inv: "inv s \<Longrightarrow> step s s' \<Longrightarrow> inv s'"
    and inv_exclusive: "inv s \<Longrightarrow> holds s t \<Longrightarrow> holds s u \<Longrightarrow> t = u"
begin

lemma reach_inv: "init s \<Longrightarrow> step\<^sup>*\<^sup>* s s' \<Longrightarrow> inv s'"
  by (rotate_tac, induction rule: rtranclp_induct) (auto intro: init_inv step_inv)

lemma reach_exclusive: "init s \<Longrightarrow> step\<^sup>*\<^sup>* s s' \<Longrightarrow> holds s' t \<Longrightarrow> holds s' u \<Longrightarrow> t = u"
  using reach_inv inv_exclusive by blast

end

section \<open>Ticket lock\<close>

text \<open>
  \<open>TicketLock::lock\<close> draws a ticket with \<open>fetch_add\<close> and then waits until \<open>users\<close> equals it;
  \<open>unlock\<close> advances \<open>users\<close>. Both counters wrap around.
\<close>

datatype ticket_pc = TIdle | TWait usize | THold

record ticket_lock =
  ticket :: usize
  users :: usize

record ticket_state =
  tlock :: ticket_lock
  tpcs :: "ticket_pc list"

definition ticket_new :: ticket_lock where
  "ticket_new = \<lparr>ticket = 0, users = 0\<rparr>"

definition ticket_draw :: "ticket_lock \<Rightarrow> usize \<times> ticket_lock" where
  "ticket_draw l = (ticket l, l\<lparr>ticket := ticket l + 1\<rparr>)"

definition ticket_unlock :: "ticket_lock \<Rightarrow> ticket_lock" where
  "ticket_unlock l = l\<lparr>users := users l + 1\<rparr>"

text \<open>\<open>FairSpinlock::steal\<close>: draws a ticket and makes it the one served.\<close>

definition fair_steal :: "ticket_lock \<Rightarrow> ticket_lock" where
  "fair_steal l = (let (t, l') = ticket_draw l in l'\<lparr>users := t\<rparr>)"

inductive ticket_step :: "ticket_state \<Rightarrow> ticket_state \<Rightarrow> bool" where
  draw: "t < length (tpcs s) \<Longrightarrow> tpcs s ! t = TIdle \<Longrightarrow> ticket_draw (tlock s) = (tk, l') \<Longrightarrow>
    ticket_step s (s\<lparr>tlock := l', tpcs := (tpcs s)[t := TWait tk]\<rparr>)"
| acquire: "t < length (tpcs s) \<Longrightarrow> tpcs s ! t = TWait tk \<Longrightarrow> users (tlock s) = tk \<Longrightarrow>
    ticket_step s (s\<lparr>tpcs := (tpcs s)[t := THold]\<rparr>)"
| wait: "t < length (tpcs s) \<Longrightarrow> tpcs s ! t = TWait tk \<Longrightarrow> users (tlock s) \<noteq> tk \<Longrightarrow> ticket_step s s"
| unlock: "t < length (tpcs s) \<Longrightarrow> tpcs s ! t = THold \<Longrightarrow>
    ticket_step s (s\<lparr>tlock := ticket_unlock (tlock s), tpcs := (tpcs s)[t := TIdle]\<rparr>)"

definition ticket_init :: "nat \<Rightarrow> ticket_state \<Rightarrow> bool" where
  "ticket_init n s \<longleftrightarrow> s = \<lparr>tlock = ticket_new, tpcs = replicate n TIdle\<rparr>"

definition ticket_holds :: "ticket_state \<Rightarrow> nat \<Rightarrow> bool" where
  "ticket_holds s t \<longleftrightarrow> t < length (tpcs s) \<and> tpcs s ! t = THold"

text \<open>
  The abstract lock is a queue of threads; its head holds the lock once it has noticed that it is
  its turn. \<open>queue_rel\<close> relates the queue to the counters and program counters.
\<close>

definition queue_rel :: "nat list \<Rightarrow> ticket_state \<Rightarrow> bool" where
  "queue_rel q s \<longleftrightarrow> distinct q \<and> ticket (tlock s) = users (tlock s) + of_nat (length q) \<and>
     (\<forall>t \<in> set q. t < length (tpcs s)) \<and>
     (\<forall>t < length (tpcs s). t \<notin> set q \<longrightarrow> tpcs s ! t = TIdle) \<and>
     (\<forall>i < length q. tpcs s ! (q ! i) = TWait (users (tlock s) + of_nat i) \<or>
        i = 0 \<and> tpcs s ! (q ! i) = THold)"

inductive queue_step :: "nat list \<Rightarrow> nat list \<Rightarrow> bool" where
  enter: "t \<notin> set q \<Longrightarrow> queue_step q (q @ [t])"
| stay: "queue_step q q"
| leave: "queue_step (t # q) q"

definition ticket_inv :: "ticket_state \<Rightarrow> bool" where
  "ticket_inv s \<longleftrightarrow> length (tpcs s) < 2 ^ 64 \<and> (\<exists>q. queue_rel q s)"

lemma queue_length: "queue_rel q s \<Longrightarrow> length q \<le> length (tpcs s)"
proof -
  assume r: "queue_rel q s"
  then have "set q \<subseteq> {..<length (tpcs s)}" by (auto simp: queue_rel_def)
  then have "card (set q) \<le> length (tpcs s)" using card_mono [of "{..<length (tpcs s)}"] by simp
  then show ?thesis using r by (simp add: queue_rel_def distinct_card)
qed

lemma offset_zero:
  assumes "i < (2 :: nat) ^ 64" and "(x :: usize) + of_nat i = x"
  shows "i = 0"
proof -
  have "(of_nat i :: usize) = 0" using assms(2) by simp
  then show ?thesis using assms(1) by (auto simp: word_of_nat_eq_0_iff dest: dvd_imp_le)
qed

lemma queue_draw:
  assumes "queue_rel q s" and "t < length (tpcs s)" and "tpcs s ! t = TIdle"
    and "ticket_draw (tlock s) = (tk, l')"
  shows "t \<notin> set q" and "queue_rel (q @ [t]) (s\<lparr>tlock := l', tpcs := (tpcs s)[t := TWait tk]\<rparr>)"
proof -
  have l': "l' = (tlock s)\<lparr>ticket := ticket (tlock s) + 1\<rparr>" "tk = ticket (tlock s)"
    using assms(4) by (auto simp: ticket_draw_def)
  show nt: "t \<notin> set q"
  proof
    assume "t \<in> set q"
    then obtain i where "i < length q" "q ! i = t" by (metis in_set_conv_nth)
    then show False using assms(1,3) unfolding queue_rel_def by (metis ticket_pc.distinct(1,3))
  qed
  have nth: "t \<noteq> q ! i" if "i < length q" for i using nt that by auto
  show "queue_rel (q @ [t]) (s\<lparr>tlock := l', tpcs := (tpcs s)[t := TWait tk]\<rparr>)"
    using assms(1,2) nt nth l' by (auto simp: queue_rel_def nth_append less_Suc_eq)
qed

lemma queue_head:
  assumes "queue_rel q s" and "length (tpcs s) < 2 ^ 64" and "t < length (tpcs s)"
    and "tpcs s ! t = TWait (users (tlock s)) \<or> tpcs s ! t = THold"
  shows "\<exists>q'. q = t # q'"
proof -
  have "t \<in> set q" using assms(1,3,4) unfolding queue_rel_def
    by (metis ticket_pc.distinct(1,3))
  then obtain i where i: "i < length q" "q ! i = t" by (metis in_set_conv_nth)
  have "i = 0"
  proof (rule ccontr)
    assume "i \<noteq> 0"
    then have "tpcs s ! t = TWait (users (tlock s) + of_nat i)"
      using assms(1) i unfolding queue_rel_def by metis
    then have "users (tlock s) + of_nat i = users (tlock s)" using assms(4) by auto
    then show False
      using offset_zero [of i "users (tlock s)"] \<open>i \<noteq> 0\<close> i(1) queue_length [OF assms(1)] assms(2) by simp
  qed
  then show ?thesis using i by (cases q) simp_all
qed

lemma queue_acquire:
  assumes "queue_rel (t # q) s"
  shows "queue_rel (t # q) (s\<lparr>tpcs := (tpcs s)[t := THold]\<rparr>)"
proof -
  have "t \<noteq> q ! i" if "i < length q" for i using assms that by (auto simp: queue_rel_def)
  then show ?thesis using assms
    by (auto simp: queue_rel_def nth_list_update nth_Cons less_Suc_eq_0_disj)
qed

lemma queue_unlock:
  assumes "queue_rel (t # q) s"
  shows "queue_rel q (s\<lparr>tlock := ticket_unlock (tlock s), tpcs := (tpcs s)[t := TIdle]\<rparr>)"
proof -
  have d: "t \<notin> set q" and nth: "t \<noteq> q ! i" if "i < length q" for i
    using assms that by (auto simp: queue_rel_def)
  have "tpcs s ! (q ! i) = TWait (users (tlock s) + of_nat (Suc i))" if "i < length q" for i
    using assms that unfolding queue_rel_def by (metis Suc_mono length_Cons nat.distinct(1) nth_Cons_Suc)
  then show ?thesis using assms nth
    by (auto simp: queue_rel_def ticket_unlock_def nth_list_update algebra_simps)
qed

text \<open>Every step of the lock is a step of the queue: the lock is first come, first served.\<close>

lemma ticket_simulates_queue:
  assumes "queue_rel q s" and "length (tpcs s) < 2 ^ 64" and "ticket_step s s'"
  shows "\<exists>q'. queue_step q q' \<and> queue_rel q' s'"
  using assms(3)
proof cases
  case (draw t tk l')
  then show ?thesis using queue_draw [OF assms(1) draw(2-4)] queue_step.enter by blast
next
  case (acquire t tk)
  then obtain q' where "q = t # q'" using queue_head [OF assms(1,2)] by blast
  then show ?thesis using queue_acquire [of t q' s] assms(1) acquire queue_step.stay by blast
next
  case (wait t tk)
  then show ?thesis using assms(1) queue_step.stay by blast
next
  case (unlock t)
  then obtain q' where "q = t # q'" using queue_head [OF assms(1,2)] by blast
  then show ?thesis using queue_unlock [of t q' s] assms(1) unlock queue_step.leave by blast
qed

lemma ticket_step_length: "ticket_step s s' \<Longrightarrow> length (tpcs s') = length (tpcs s)"
  by (auto elim!: ticket_step.cases)

interpretation tick: exclusive_lock "\<lambda>s. \<exists>n < 2 ^ 64. ticket_init n s" ticket_step ticket_holds ticket_inv
proof unfold_locales
  fix s
  assume "\<exists>n < 2 ^ 64. ticket_init n s"
  then have "length (tpcs s) < 2 ^ 64" "queue_rel [] s"
    by (auto simp: ticket_init_def queue_rel_def ticket_new_def)
  then show "ticket_inv s" by (auto simp: ticket_inv_def)
next
  fix s s'
  assume "ticket_inv s" and "ticket_step s s'"
  then show "ticket_inv s'"
    using ticket_simulates_queue ticket_step_length unfolding ticket_inv_def by metis
next
  fix s t u
  assume "ticket_inv s" and "ticket_holds s t" and "ticket_holds s u"
  then obtain q where "queue_rel q s" "\<exists>q'. q = t # q'" "\<exists>q'. q = u # q'"
    using queue_head unfolding ticket_inv_def ticket_holds_def by meson
  then show "t = u" by auto
qed

section \<open>Compare-and-swap spinlock\<close>

datatype spin_pc = SIdle | SSpin | SHold

record spin_state =
  slock :: bool
  spcs :: "spin_pc list"

text \<open>One \<open>compare_exchange(false, true)\<close>: whether it succeeded, and the new value.\<close>

definition spin_try :: "bool \<Rightarrow> bool \<times> bool" where
  "spin_try l = (if l then (False, l) else (True, True))"

definition spin_steal :: "bool \<Rightarrow> bool" where
  "spin_steal l = True"

definition spin_unlock :: "bool \<Rightarrow> bool" where
  "spin_unlock l = False"

inductive spin_step :: "spin_state \<Rightarrow> spin_state \<Rightarrow> bool" where
  call: "t < length (spcs s) \<Longrightarrow> spcs s ! t = SIdle \<Longrightarrow> spin_step s (s\<lparr>spcs := (spcs s)[t := SSpin]\<rparr>)"
| cas: "t < length (spcs s) \<Longrightarrow> spcs s ! t = SSpin \<Longrightarrow> spin_try (slock s) = (ok, l) \<Longrightarrow>
    spin_step s (s\<lparr>slock := l, spcs := (spcs s)[t := if ok then SHold else SSpin]\<rparr>)"
| unlock: "t < length (spcs s) \<Longrightarrow> spcs s ! t = SHold \<Longrightarrow>
    spin_step s (s\<lparr>slock := spin_unlock (slock s), spcs := (spcs s)[t := SIdle]\<rparr>)"

definition spin_init :: "spin_state \<Rightarrow> bool" where
  "spin_init s \<longleftrightarrow> (\<exists>n. s = \<lparr>slock = False, spcs = replicate n SIdle\<rparr>)"

definition spin_holds :: "spin_state \<Rightarrow> nat \<Rightarrow> bool" where
  "spin_holds s t \<longleftrightarrow> t < length (spcs s) \<and> spcs s ! t = SHold"

definition spin_inv :: "spin_state \<Rightarrow> bool" where
  "spin_inv s \<longleftrightarrow> (if slock s then \<exists>t. spin_holds s t \<and> (\<forall>u. spin_holds s u \<longrightarrow> u = t)
     else \<forall>u. \<not> spin_holds s u)"

lemma spin_holds_update:
  "t < length (spcs s) \<Longrightarrow>
   spin_holds (s\<lparr>spcs := (spcs s)[t := p]\<rparr>) u \<longleftrightarrow> (if u = t then p = SHold else spin_holds s u)"
  by (simp add: spin_holds_def nth_list_update)

lemma spin_holds_slock [simp]: "spin_holds (s\<lparr>slock := l, spcs := ps\<rparr>) u \<longleftrightarrow> spin_holds (s\<lparr>spcs := ps\<rparr>) u"
  by (simp add: spin_holds_def)

lemma spin_step_inv:
  assumes "spin_inv s" and "spin_step s s'"
  shows "spin_inv s'"
  using assms(2)
proof cases
  case (call t)
  have "\<not> spin_holds s t" using call by (simp add: spin_holds_def)
  then have "spin_holds s' u \<longleftrightarrow> spin_holds s u" for u using call by (auto simp: spin_holds_update)
  moreover have "slock s' = slock s" using call by simp
  ultimately show ?thesis using assms(1) by (simp add: spin_inv_def)
next
  case (cas t ok l)
  have nt: "\<not> spin_holds s t" using cas by (simp add: spin_holds_def)
  then have h: "spin_holds s' u \<longleftrightarrow> (if u = t then ok else spin_holds s u)" for u
    using cas by (auto simp: spin_holds_update)
  have l: "slock s' = l" using cas by simp
  show ?thesis
    using assms(1) cas(4) nt unfolding spin_inv_def h l
    by (auto simp: spin_try_def split: if_splits)
next
  case (unlock t)
  have "spin_holds s t" using unlock by (simp add: spin_holds_def)
  then have "\<forall>u. spin_holds s u \<longrightarrow> u = t" using assms(1) by (auto simp: spin_inv_def split: if_splits)
  moreover have "spin_holds s' u \<longleftrightarrow> (if u = t then False else spin_holds s u)" for u
    using unlock by (auto simp: spin_holds_update)
  ultimately show ?thesis using unlock by (auto simp: spin_inv_def spin_unlock_def)
qed

interpretation spin: exclusive_lock spin_init spin_step spin_holds spin_inv
proof unfold_locales
  show "spin_init s \<Longrightarrow> spin_inv s" for s
    by (auto simp: spin_init_def spin_inv_def spin_holds_def)
  show "spin_inv s \<Longrightarrow> spin_step s s' \<Longrightarrow> spin_inv s'" for s s' by (rule spin_step_inv)
  show "spin_inv s \<Longrightarrow> spin_holds s t \<Longrightarrow> spin_holds s u \<Longrightarrow> t = u" for s t u
    by (auto simp: spin_inv_def split: if_splits)
qed

section \<open>Reader-writer lock\<close>

text \<open>
  The state word holds the number of readers and, in its top bit, that a writer holds the lock or
  is waiting for the readers to leave. A weak compare-and-swap may fail although the word has the
  expected value; the flag \<open>weak\<close> of an attempt says that it does.
\<close>

type_synonym lock_state = "32 word"

definition WRITER :: lock_state where "WRITER = 0x80000000"

definition READERS :: lock_state where "READERS = 0x7FFFFFFF"

datatype rw_pc = RwIdle | RwRead lock_state | RwReading | RwWrite lock_state | RwDrain | RwWriting

record rw_lock =
  rstate :: lock_state
  rpcs :: "rw_pc list"

text \<open>One iteration of the loop of \<open>read\<close> and of \<open>write\<close> on the value last seen: the new word and
  where the thread goes.\<close>

definition rw_read_iter :: "bool \<Rightarrow> lock_state \<Rightarrow> lock_state \<Rightarrow> lock_state \<times> rw_pc" where
  "rw_read_iter weak cell seen =
     (if seen AND WRITER = 0 \<and> seen \<noteq> READERS then
        if cell = seen \<and> \<not> weak then (seen + 1, RwReading) else (cell, RwRead cell)
      else (cell, RwRead cell))"

definition rw_write_iter :: "bool \<Rightarrow> lock_state \<Rightarrow> lock_state \<Rightarrow> lock_state \<times> rw_pc" where
  "rw_write_iter weak cell seen =
     (if seen AND WRITER = 0 then
        if cell = seen \<and> \<not> weak then (seen OR WRITER, if seen = 0 then RwWriting else RwDrain)
        else (cell, RwWrite cell)
      else (cell, RwWrite cell))"

definition rw_drain_iter :: "lock_state \<Rightarrow> rw_pc" where
  "rw_drain_iter cell = (if cell \<noteq> WRITER then RwDrain else RwWriting)"

definition rw_read_drop :: "lock_state \<Rightarrow> lock_state" where
  "rw_read_drop cell = cell - 1"

definition rw_write_drop :: "lock_state \<Rightarrow> lock_state" where
  "rw_write_drop cell = 0"

inductive rw_step :: "rw_lock \<Rightarrow> rw_lock \<Rightarrow> bool" where
  read_call: "t < length (rpcs s) \<Longrightarrow> rpcs s ! t = RwIdle \<Longrightarrow>
    rw_step s (s\<lparr>rpcs := (rpcs s)[t := RwRead (rstate s)]\<rparr>)"
| read_iter: "t < length (rpcs s) \<Longrightarrow> rpcs s ! t = RwRead seen \<Longrightarrow>
    rw_read_iter weak (rstate s) seen = (cell, p) \<Longrightarrow>
    rw_step s (s\<lparr>rstate := cell, rpcs := (rpcs s)[t := p]\<rparr>)"
| read_drop: "t < length (rpcs s) \<Longrightarrow> rpcs s ! t = RwReading \<Longrightarrow>
    rw_step s (s\<lparr>rstate := rw_read_drop (rstate s), rpcs := (rpcs s)[t := RwIdle]\<rparr>)"
| write_call: "t < length (rpcs s) \<Longrightarrow> rpcs s ! t = RwIdle \<Longrightarrow>
    rw_step s (s\<lparr>rpcs := (rpcs s)[t := RwWrite (rstate s)]\<rparr>)"
| write_iter: "t < length (rpcs s) \<Longrightarrow> rpcs s ! t = RwWrite seen \<Longrightarrow>
    rw_write_iter weak (rstate s) seen = (cell, p) \<Longrightarrow>
    rw_step s (s\<lparr>rstate := cell, rpcs := (rpcs s)[t := p]\<rparr>)"
| drain: "t < length (rpcs s) \<Longrightarrow> rpcs s ! t = RwDrain \<Longrightarrow>
    rw_step s (s\<lparr>rpcs := (rpcs s)[t := rw_drain_iter (rstate s)]\<rparr>)"
| write_drop: "t < length (rpcs s) \<Longrightarrow> rpcs s ! t = RwWriting \<Longrightarrow>
    rw_step s (s\<lparr>rstate := rw_write_drop (rstate s), rpcs := (rpcs s)[t := RwIdle]\<rparr>)"

definition rw_init :: "rw_lock \<Rightarrow> bool" where
  "rw_init s \<longleftrightarrow> (\<exists>n. s = \<lparr>rstate = 0, rpcs = replicate n RwIdle\<rparr>)"

definition rw_readers :: "rw_lock \<Rightarrow> nat" where
  "rw_readers s = length (filter (\<lambda>p. p = RwReading) (rpcs s))"

definition rw_claims :: "rw_lock \<Rightarrow> nat" where
  "rw_claims s = length (filter (\<lambda>p. p = RwDrain \<or> p = RwWriting) (rpcs s))"

definition rw_writing :: "rw_lock \<Rightarrow> nat \<Rightarrow> bool" where
  "rw_writing s t \<longleftrightarrow> t < length (rpcs s) \<and> rpcs s ! t = RwWriting"

definition rw_reading :: "rw_lock \<Rightarrow> nat \<Rightarrow> bool" where
  "rw_reading s t \<longleftrightarrow> t < length (rpcs s) \<and> rpcs s ! t = RwReading"

definition rw_inv :: "rw_lock \<Rightarrow> bool" where
  "rw_inv s \<longleftrightarrow> unat (rstate s) = rw_readers s + 2 ^ 31 * rw_claims s \<and>
     rw_claims s \<le> 1 \<and> rw_readers s < 2 ^ 31 \<and>
     (\<forall>t. rw_writing s t \<longrightarrow> rw_readers s = 0)"

text \<open>The bit operations of the lock as arithmetic.\<close>

lemma WRITER_and: "(x :: lock_state) AND WRITER = 0 \<longleftrightarrow> unat x < 2 ^ 31"
proof -
  have w: "WRITER = push_bit 31 1" by (simp add: WRITER_def push_bit_eq_mult)
  have lt: "unat x div 2 ^ 31 < 2"
    using unsigned_less [of x, where ?'a = nat] by (intro less_mult_imp_div_less) simp
  have "x AND WRITER = 0 \<longleftrightarrow> \<not> bit x 31"
    unfolding w by (simp only: bit_iff_and_push_bit_not_eq_0 not_not)
  also have "\<dots> \<longleftrightarrow> \<not> bit (unat x) 31" by (simp only: bit_unsigned_iff possible_bit_nat simp_thms)
  also have "\<dots> \<longleftrightarrow> even (unat x div 2 ^ 31)" by (simp only: bit_iff_odd not_not)
  also have "\<dots> \<longleftrightarrow> unat x div 2 ^ 31 = 0" using lt by (auto simp: less_2_cases_iff)
  also have "\<dots> \<longleftrightarrow> unat x < 2 ^ 31" by (simp add: div_eq_0_iff)
  finally show ?thesis .
qed

lemma WRITER_or: "unat (x :: lock_state) < 2 ^ 31 \<Longrightarrow> unat (x OR WRITER) = unat x + 2 ^ 31"
proof -
  assume lt: "unat x < 2 ^ 31"
  then have "x OR WRITER = x + WRITER"
    by (simp only: WRITER_and disjunctive_add_eq_or)
  then show ?thesis using lt by (simp add: WRITER_def unat_word_ariths)
qed

lemma rw_counts:
  assumes "t < length (rpcs s)" and "s' = s\<lparr>rstate := c, rpcs := (rpcs s)[t := p]\<rparr>"
  shows "rw_readers s' + (if rpcs s ! t = RwReading then 1 else 0) =
      rw_readers s + (if p = RwReading then 1 else 0)"
    and "rw_claims s' + (if rpcs s ! t = RwDrain \<or> rpcs s ! t = RwWriting then 1 else 0) =
      rw_claims s + (if p = RwDrain \<or> p = RwWriting then 1 else 0)"
    and "rw_writing s' u \<longleftrightarrow> (if u = t then p = RwWriting else rw_writing s u)"
    and "rstate s' = c"
  using assms filter_length_update [OF assms(1), of "\<lambda>p. p = RwReading" p]
    filter_length_update [OF assms(1), of "\<lambda>p. p = RwDrain \<or> p = RwWriting" p]
  by (simp_all add: rw_readers_def rw_claims_def rw_writing_def nth_list_update)

text \<open>A step that leaves the word alone and neither enters nor leaves a critical section.\<close>

lemma rw_inv_quiet:
  assumes "rw_inv s" and "t < length (rpcs s)" and "s' = s\<lparr>rstate := rstate s, rpcs := (rpcs s)[t := p]\<rparr>"
    and "(rpcs s ! t = RwReading) = (p = RwReading)" and "p \<noteq> RwWriting"
    and "(rpcs s ! t = RwDrain \<or> rpcs s ! t = RwWriting) = (p = RwDrain)"
  shows "rw_inv s'"
  using rw_counts [OF assms(2,3)] assms(1,4-6) by (auto simp: rw_inv_def split: if_splits)

lemma rw_no_claims: "rw_claims s = 0 \<Longrightarrow> \<not> rw_writing s t"
  using filter_length_0 [of "\<lambda>p. p = RwDrain \<or> p = RwWriting" "rpcs s"]
  by (auto simp: rw_writing_def rw_claims_def)

lemma rw_inv_read_iter:
  assumes "rw_inv s" and "t < length (rpcs s)" and "rpcs s ! t = RwRead seen"
    and "rw_read_iter weak (rstate s) seen = (cell, p)"
    and "s' = s\<lparr>rstate := cell, rpcs := (rpcs s)[t := p]\<rparr>"
  shows "rw_inv s'"
proof (cases "p = RwReading")
  case True
  then have c: "seen AND WRITER = 0" "seen \<noteq> READERS" "rstate s = seen" "cell = seen + 1"
    using assms(4) by (auto simp: rw_read_iter_def split: if_splits)
  have lt: "unat seen < 2 ^ 31" using c(1) by (simp only: WRITER_and)
  moreover have "unat seen \<noteq> 2 ^ 31 - 1" using c(2) by (simp add: READERS_def word_unat_eq_iff)
  ultimately have cell: "unat cell = unat seen + 1" "unat seen + 1 < 2 ^ 31"
    using c(4) by (simp_all add: unat_word_ariths)
  have z: "rw_claims s = 0" "rw_readers s = unat seen" using assms(1) lt c(3) by (simp_all add: rw_inv_def)
  have "\<not> rw_writing s u" for u using rw_no_claims z(1) by blast
  then show ?thesis
    using rw_counts [OF assms(2,5)] assms(3) True cell z by (auto simp: rw_inv_def)
next
  case False
  then have "cell = rstate s" "\<exists>x. p = RwRead x"
    using assms(4) by (auto simp: rw_read_iter_def split: if_splits)
  then show ?thesis using rw_inv_quiet [OF assms(1,2), of s' p] assms(3,5) by auto
qed

lemma rw_inv_write_iter:
  assumes "rw_inv s" and "t < length (rpcs s)" and "rpcs s ! t = RwWrite seen"
    and "rw_write_iter weak (rstate s) seen = (cell, p)"
    and "s' = s\<lparr>rstate := cell, rpcs := (rpcs s)[t := p]\<rparr>"
  shows "rw_inv s'"
proof (cases "p = RwWriting \<or> p = RwDrain")
  case True
  then have c: "seen AND WRITER = 0" "rstate s = seen" "cell = seen OR WRITER"
      "p = (if seen = 0 then RwWriting else RwDrain)"
    using assms(4) by (auto simp: rw_write_iter_def split: if_splits)
  have lt: "unat seen < 2 ^ 31" using c(1) by (simp only: WRITER_and)
  then have cell: "unat cell = unat seen + 2 ^ 31" using c(3) by (simp add: WRITER_or)
  have z: "rw_claims s = 0" "rw_readers s = unat seen" using assms(1) lt c(2) by (simp_all add: rw_inv_def)
  have "\<not> rw_writing s u" for u using rw_no_claims z(1) by blast
  then show ?thesis
    using rw_counts [OF assms(2,5)] assms(3) c(4) True cell z lt
    by (auto simp: rw_inv_def split: if_splits)
next
  case False
  then have "cell = rstate s" "\<exists>x. p = RwWrite x"
    using assms(4) by (auto simp: rw_write_iter_def split: if_splits)
  then show ?thesis using rw_inv_quiet [OF assms(1,2), of s' p] assms(3,5) by auto
qed

lemma rw_inv_step:
  assumes "rw_inv s" and "rw_step s s'"
  shows "rw_inv s'"
  using assms(2)
proof cases
  case (read_call t)
  then show ?thesis by (intro rw_inv_quiet [OF assms(1), of t _ "RwRead (rstate s)"]) simp_all
next
  case (read_iter t seen weak cell p)
  then show ?thesis by (intro rw_inv_read_iter [OF assms(1)])
next
  case (read_drop t)
  have "0 < rw_readers s"
    using read_drop filter_length_0 [of "\<lambda>p. p = RwReading" "rpcs s"] by (auto simp: rw_readers_def)
  then have "unat (rstate s - 1) = unat (rstate s) - 1"
    using assms(1) by (intro unat_minus_one) (auto simp: rw_inv_def)
  then show ?thesis
    using rw_counts [OF read_drop(2,1)] read_drop(3) assms(1) \<open>0 < rw_readers s\<close>
    by (auto simp: rw_inv_def rw_read_drop_def)
next
  case (write_call t)
  then show ?thesis by (intro rw_inv_quiet [OF assms(1), of t _ "RwWrite (rstate s)"]) simp_all
next
  case (write_iter t seen weak cell p)
  then show ?thesis by (intro rw_inv_write_iter [OF assms(1)])
next
  case (drain t)
  have r: "s' = s\<lparr>rstate := rstate s, rpcs := (rpcs s)[t := rw_drain_iter (rstate s)]\<rparr>"
    using drain(1) by simp
  have "rw_readers s = 0" if "rstate s = WRITER"
  proof -
    have "unat (rstate s) = 2 ^ 31" using that by (simp add: WRITER_def)
    then show ?thesis using assms(1) by (cases "rw_claims s") (auto simp: rw_inv_def)
  qed
  then show ?thesis
    using rw_counts [OF drain(2) r] drain(3) assms(1) by (auto simp: rw_inv_def rw_drain_iter_def)
next
  case (write_drop t)
  have "rw_writing s t" using write_drop by (simp add: rw_writing_def)
  then have z: "rw_readers s = 0" "rw_claims s = 1"
    using assms(1) rw_no_claims [of s t] by (auto simp: rw_inv_def le_Suc_eq)
  then have "rw_claims s' = 0" "rw_readers s' = 0"
    using rw_counts(1,2) [OF write_drop(2,1)] write_drop(3) by simp_all
  then show ?thesis
    using rw_counts(4) [OF write_drop(2,1)] rw_no_claims by (auto simp: rw_inv_def rw_write_drop_def)
qed

interpretation rw: exclusive_lock rw_init rw_step rw_writing rw_inv
proof unfold_locales
  fix s
  assume "rw_init s"
  then have "rw_readers s = 0" "rw_claims s = 0" "rstate s = 0"
    by (auto simp: rw_init_def rw_readers_def rw_claims_def)
  then show "rw_inv s" using rw_no_claims by (auto simp: rw_inv_def)
next
  show "rw_inv s \<Longrightarrow> rw_step s s' \<Longrightarrow> rw_inv s'" for s s' by (rule rw_inv_step)
next
  fix s t u
  assume "rw_inv s" "rw_writing s t" "rw_writing s u"
  then show "t = u"
    using filter_length_unique [of "\<lambda>p. p = RwDrain \<or> p = RwWriting" "rpcs s" t u]
    by (simp add: rw_inv_def rw_claims_def rw_writing_def)
qed

lemma rw_step_shape:
  assumes "rw_step s s'"
  shows "\<exists>t p c. t < length (rpcs s) \<and> s' = s\<lparr>rstate := c, rpcs := (rpcs s)[t := p]\<rparr> \<and>
    (p = RwReading \<longrightarrow> rstate s AND WRITER = 0)"
  using assms
proof cases
  case (read_iter t seen weak cell p)
  then show ?thesis
    by (intro exI [of _ t] exI [of _ p] exI [of _ cell]) (auto simp: rw_read_iter_def split: if_splits)
next
  case (write_iter t seen weak cell p)
  then show ?thesis
    by (intro exI [of _ t] exI [of _ p] exI [of _ cell]) (auto simp: rw_write_iter_def split: if_splits)
next
  case (read_call t)
  then show ?thesis
    by (intro exI [of _ t] exI [of _ "RwRead (rstate s)"] exI [of _ "rstate s"]) simp
next
  case (write_call t)
  then show ?thesis
    by (intro exI [of _ t] exI [of _ "RwWrite (rstate s)"] exI [of _ "rstate s"]) simp
next
  case (drain t)
  then show ?thesis
    by (intro exI [of _ t] exI [of _ "rw_drain_iter (rstate s)"] exI [of _ "rstate s"])
      (simp add: rw_drain_iter_def)
next
  case (read_drop t)
  then show ?thesis by blast
next
  case (write_drop t)
  then show ?thesis by blast
qed

section \<open>Properties\<close>

text \<open>C11: For any number of threads below \<open>2 ^ 64\<close> the ticket lock refines a queue of threads, also
  across the wrap-around of its counters: threads enter the queue in the order of their
  \<open>fetch_add\<close>, only the head of the queue can hold the lock, so no two threads hold it.\<close>

theorem ticket_lock_fifo:
  assumes "ticket_init n s" and "n < 2 ^ 64" and "ticket_step\<^sup>*\<^sup>* s s'"
  shows "\<exists>q. queue_step\<^sup>*\<^sup>* [] q \<and> queue_rel q s' \<and> (\<forall>t. ticket_holds s' t \<longrightarrow> q \<noteq> [] \<and> hd q = t)"
proof -
  have "length (tpcs s') < 2 ^ 64 \<and> (\<exists>q. queue_step\<^sup>*\<^sup>* [] q \<and> queue_rel q s')"
    using assms(3)
  proof (induction rule: rtranclp_induct)
    case base
    have "queue_rel [] s" "length (tpcs s) = n"
      using assms(1) by (auto simp: ticket_init_def queue_rel_def ticket_new_def)
    then show ?case using assms(2) by blast
  next
    case (step s1 s2)
    then show ?case
      using ticket_simulates_queue [of _ s1 s2] ticket_step_length
      by (metis (no_types, lifting) rtranclp.rtrancl_into_rtrancl)
  qed
  then show ?thesis using queue_head unfolding ticket_holds_def by (metis list.distinct(1) list.sel(1))
qed

theorem ticket_lock_fifo_witness:
  "\<exists>q. queue_rel q \<lparr>tlock = \<lparr>ticket = 1, users = 0\<rparr>, tpcs = [TIdle, TWait 0]\<rparr>"
proof -
  let ?s = "\<lparr>tlock = ticket_new, tpcs = [TIdle, TIdle]\<rparr>"
  have "ticket_step ?s \<lparr>tlock = \<lparr>ticket = 1, users = 0\<rparr>, tpcs = [TIdle, TWait 0]\<rparr>"
    using ticket_step.draw [of 1 ?s 0 "\<lparr>ticket = 1, users = 0\<rparr>"]
    by (simp add: ticket_draw_def ticket_new_def)
  then have "ticket_step\<^sup>*\<^sup>* ?s \<lparr>tlock = \<lparr>ticket = 1, users = 0\<rparr>, tpcs = [TIdle, TWait 0]\<rparr>" by simp
  moreover have "ticket_init 2 ?s" by (simp add: ticket_init_def numeral_2_eq_2)
  ultimately show ?thesis using ticket_lock_fifo [of 2 ?s] by auto
qed

text \<open>No two threads hold a compare-and-swap spinlock.\<close>

theorem spinlock_mutual_exclusion:
  assumes "spin_init s" and "spin_step\<^sup>*\<^sup>* s s'" and "spin_holds s' t" and "spin_holds s' u"
  shows "t = u"
  by (rule spin.reach_exclusive [OF assms])

theorem spinlock_mutual_exclusion_witness:
  "{u. spin_holds \<lparr>slock = True, spcs = [SIdle, SHold]\<rparr> u} = {1}"
proof -
  let ?i = "\<lparr>slock = False, spcs = [SIdle, SIdle]\<rparr>" and ?m = "\<lparr>slock = False, spcs = [SIdle, SSpin]\<rparr>"
  let ?h = "\<lparr>slock = True, spcs = [SIdle, SHold]\<rparr>"
  have "spin_step ?i ?m" using spin_step.call [of 1 ?i] by simp
  moreover have "spin_step ?m ?h"
    using spin_step.cas [of 1 ?m True True] by (simp add: spin_try_def)
  ultimately have r: "spin_step\<^sup>*\<^sup>* ?i ?h" by simp
  have "spin_init ?i" unfolding spin_init_def by (rule exI [of _ 2]) (simp add: numeral_2_eq_2)
  moreover have "spin_holds ?h 1" by (simp add: spin_holds_def)
  ultimately show ?thesis using spinlock_mutual_exclusion [OF _ r, of _ 1] by blast
qed

text \<open>C12: In every reachable state of the reader-writer lock the state word is the number of readers
  plus the writer bit, at most one thread writes, and while a thread writes no thread reads.\<close>

theorem rwlock_exclusion:
  assumes "rw_init s" and "rw_step\<^sup>*\<^sup>* s s'"
  shows "unat (rstate s') = rw_readers s' + 2 ^ 31 * rw_claims s' \<and> rw_claims s' \<le> 1 \<and>
    (\<forall>t u. rw_writing s' t \<longrightarrow> \<not> rw_reading s' u \<and> (rw_writing s' u \<longrightarrow> u = t))"
proof -
  have inv: "rw_inv s'" by (rule rw.reach_inv [OF assms])
  have "\<not> rw_reading s' u" if "rw_writing s' t" for t u
    using inv that filter_length_0 [of "\<lambda>p. p = RwReading" "rpcs s'"]
    by (auto simp: rw_inv_def rw_readers_def rw_reading_def)
  moreover have "unat (rstate s') = rw_readers s' + 2 ^ 31 * rw_claims s'" "rw_claims s' \<le> 1"
    using inv unfolding rw_inv_def by blast+
  ultimately show ?thesis using rw.inv_exclusive [OF inv] by blast
qed

theorem rwlock_exclusion_witness:
  "unat (rstate \<lparr>rstate = 1, rpcs = [RwReading, RwIdle]\<rparr>) =
     rw_readers \<lparr>rstate = 1, rpcs = [RwReading, RwIdle]\<rparr> +
     2 ^ 31 * rw_claims \<lparr>rstate = 1, rpcs = [RwReading, RwIdle]\<rparr>"
proof -
  let ?i = "\<lparr>rstate = 0, rpcs = [RwIdle, RwIdle]\<rparr>" and ?m = "\<lparr>rstate = 0, rpcs = [RwRead 0, RwIdle]\<rparr>"
  let ?h = "\<lparr>rstate = 1, rpcs = [RwReading, RwIdle]\<rparr>"
  have "rw_step ?i ?m" using rw_step.read_call [of 0 ?i] by simp
  moreover have "rw_step ?m ?h"
    using rw_step.read_iter [of 0 ?m 0 False 1 RwReading]
    by (simp add: rw_read_iter_def READERS_def)
  ultimately have r: "rw_step\<^sup>*\<^sup>* ?i ?h"
    by (meson converse_rtranclp_into_rtranclp rtranclp.rtrancl_refl)
  have "rw_init ?i" unfolding rw_init_def by (rule exI [of _ 2]) (simp add: numeral_2_eq_2)
  from rwlock_exclusion [OF this r] show ?thesis by blast
qed

text \<open>A writer that has set the writer bit is not overtaken: while it waits no new reader enters,
  and as soon as the readers that were in have left, its next look at the word gives it the lock.\<close>

theorem rwlock_writer_preference:
  assumes "rw_init s" and "rw_step\<^sup>*\<^sup>* s s'" and "t < length (rpcs s')" and "rpcs s' ! t = RwDrain"
  shows "(\<forall>s''. rw_step s' s'' \<longrightarrow> rw_readers s'' \<le> rw_readers s') \<and>
    (rw_readers s' = 0 \<longrightarrow> rw_step s' (s'\<lparr>rpcs := (rpcs s')[t := RwWriting]\<rparr>))"
proof -
  have inv: "rw_inv s'" by (rule rw.reach_inv [OF assms(1,2)])
  have "rw_claims s' \<noteq> 0"
    using filter_length_0 [of "\<lambda>p. p = RwDrain \<or> p = RwWriting" "rpcs s'"] assms(3,4)
    by (auto simp: rw_claims_def)
  then have one: "rw_claims s' = 1" using inv by (simp add: rw_inv_def)
  then have big: "2 ^ 31 \<le> unat (rstate s')" using inv by (simp add: rw_inv_def)
  have "rw_readers s'' \<le> rw_readers s'" if st: "rw_step s' s''" for s''
  proof -
    obtain u p c where u: "u < length (rpcs s')"
      "s'' = s'\<lparr>rstate := c, rpcs := (rpcs s')[u := p]\<rparr>"
      "p = RwReading \<longrightarrow> rstate s' AND WRITER = 0"
      using rw_step_shape [OF st] by blast
    then have "p \<noteq> RwReading" using big by (auto simp: WRITER_and)
    then show ?thesis using rw_counts(1) [OF u(1,2)] by (simp split: if_splits)
  qed
  moreover have "rw_step s' (s'\<lparr>rpcs := (rpcs s')[t := RwWriting]\<rparr>)" if "rw_readers s' = 0"
  proof -
    have "unat (rstate s') = unat WRITER" using inv that one by (simp add: rw_inv_def WRITER_def)
    then have "rstate s' = WRITER" by (simp add: word_unat_eq_iff)
    then show ?thesis using rw_step.drain [OF assms(3,4)] by (simp add: rw_drain_iter_def)
  qed
  ultimately show ?thesis by blast
qed

theorem rwlock_writer_preference_witness:
  "let s = \<lparr>rstate = WRITER + 1, rpcs = [RwReading, RwDrain]\<rparr> in
   \<forall>s''. rw_step s s'' \<longrightarrow> rw_readers s'' \<le> rw_readers s"
proof -
  let ?s0 = "\<lparr>rstate = 0, rpcs = [RwIdle, RwIdle]\<rparr>" and ?s1 = "\<lparr>rstate = 0, rpcs = [RwRead 0, RwIdle]\<rparr>"
  let ?s2 = "\<lparr>rstate = 1, rpcs = [RwReading, RwIdle]\<rparr>" and ?s3 = "\<lparr>rstate = 1, rpcs = [RwReading, RwWrite 1]\<rparr>"
  let ?s4 = "\<lparr>rstate = WRITER + 1, rpcs = [RwReading, RwDrain]\<rparr>"
  have "rw_step ?s0 ?s1" using rw_step.read_call [of 0 ?s0] by simp
  moreover have "rw_step ?s1 ?s2"
    using rw_step.read_iter [of 0 ?s1 0 False 1 RwReading] by (simp add: rw_read_iter_def READERS_def)
  moreover have "rw_step ?s2 ?s3" using rw_step.write_call [of 1 ?s2] by simp
  moreover have "rw_step ?s3 ?s4"
    using rw_step.write_iter [of 1 ?s3 1 False "WRITER + 1" RwDrain]
    by (simp add: rw_write_iter_def WRITER_def)
  ultimately have r: "rw_step\<^sup>*\<^sup>* ?s0 ?s4"
    by (meson converse_rtranclp_into_rtranclp rtranclp.rtrancl_refl)
  have "rw_init ?s0" unfolding rw_init_def by (rule exI [of _ 2]) (simp add: numeral_2_eq_2)
  from rwlock_writer_preference [OF this r, of 1] show ?thesis by (simp add: Let_def)
qed

text \<open>Stealing a fair lock gives it to the thief at once, and every thread that was waiting stays
  behind: no sequence of fewer than \<open>2 ^ 64\<close> minus the queue length later unlocks serves its ticket.\<close>

theorem fair_steal_skips_waiters:
  assumes "queue_rel q s" and "i < length q" and "tpcs s ! (q ! i) = TWait tk"
    and "k + length q < 2 ^ 64"
  shows "users (fair_steal (tlock s)) = ticket (tlock s) \<and>
    users ((ticket_unlock ^^ k) (fair_steal (tlock s))) \<noteq> tk"
proof -
  have tk: "tk = users (tlock s) + of_nat i" using assms(1-3) unfolding queue_rel_def by fastforce
  have tick: "ticket (tlock s) = users (tlock s) + of_nat (length q)"
    using assms(1) by (simp add: queue_rel_def)
  have st: "users (fair_steal l) = ticket l" for l
    by (simp add: fair_steal_def ticket_draw_def)
  have un: "users ((ticket_unlock ^^ k) l) = users l + of_nat k" for l
    by (induction k) (simp_all add: ticket_unlock_def algebra_simps)
  have "users ((ticket_unlock ^^ k) (fair_steal (tlock s))) = tk + of_nat (length q - i + k)"
    using assms(2) by (simp add: st un tick tk of_nat_diff algebra_simps)
  moreover have "tk + of_nat (length q - i + k) \<noteq> tk"
    using offset_zero [of "length q - i + k" tk] assms(2,4) by linarith
  ultimately show ?thesis using st by simp
qed

theorem fair_steal_skips_waiters_witness:
  "users ((ticket_unlock ^^ 5) (fair_steal \<lparr>ticket = 2, users = 0\<rparr>)) \<noteq> 1"
proof -
  let ?s = "\<lparr>tlock = \<lparr>ticket = 2, users = 0\<rparr>, tpcs = [THold, TWait 1]\<rparr>"
  have "queue_rel [0, 1] ?s" by (auto simp: queue_rel_def less_Suc_eq nth_Cons')
  from fair_steal_skips_waiters [OF this, of 1 1 5] show ?thesis by simp
qed

end
