(* ===== verification/Sleeping_Mutex.thy ===== *)
theory Sleeping_Mutex
  imports Sync_Locks
begin

text \<open>
  \<open>SleepingMutex\<close> of \<open>klib/src/sync.rs\<close>, together with \<open>Scheduler::block_current\<close> of
  \<open>klib/src/scheduler.rs\<close> that its slow path calls. A state has the \<open>locked\<close> flag, the spinlock
  around the wait queue, the queue, and a program counter for each thread; every thread that calls
  \<open>lock\<close> runs as the current thread of its processor.
\<close>

datatype mutex_pc =
    MIdle
  | MTry          \<comment> \<open>first \<open>compare_exchange\<close> of the loop\<close>
  | MQueue        \<comment> \<open>\<open>self.wait_queue.lock()\<close> in \<open>lock\<close>\<close>
  | MRetry        \<comment> \<open>second \<open>compare_exchange\<close>, with the queue locked\<close>
  | MBlock        \<comment> \<open>\<open>wait_queue.lock()\<close> in \<open>block_current\<close>, the guard of \<open>MQueue\<close> still alive\<close>
  | MSleep        \<comment> \<open>enqueued, before the guard of \<open>MQueue\<close> is dropped\<close>
  | MHold
  | MUnlock       \<comment> \<open>\<open>self.wait_queue.lock()\<close> in \<open>unlock\<close>\<close>
  | MStore        \<comment> \<open>\<open>locked.store(false)\<close>, with the queue locked\<close>
  | MPop          \<comment> \<open>\<open>pop_front\<close>, with the queue locked\<close>

record mutex_state =
  mlocked :: bool
  wq_lock :: bool
  wait_queue :: "nat list"
  mpcs :: "mutex_pc list"

definition at_pc :: "mutex_state \<Rightarrow> nat \<Rightarrow> mutex_pc \<Rightarrow> bool" where
  "at_pc s t p \<longleftrightarrow> t < length (mpcs s) \<and> mpcs s ! t = p"

definition goto :: "mutex_state \<Rightarrow> nat \<Rightarrow> mutex_pc \<Rightarrow> mutex_state" where
  "goto s t p = s\<lparr>mpcs := (mpcs s)[t := p]\<rparr>"

inductive mutex_step :: "mutex_state \<Rightarrow> mutex_state \<Rightarrow> bool" where
  call: "at_pc s t MIdle \<Longrightarrow> mutex_step s (goto s t MTry)"
| try_ok: "at_pc s t MTry \<Longrightarrow> \<not> mlocked s \<Longrightarrow> mutex_step s (goto (s\<lparr>mlocked := True\<rparr>) t MHold)"
| try_fail: "at_pc s t MTry \<Longrightarrow> mlocked s \<Longrightarrow> mutex_step s (goto s t MQueue)"
| queue: "at_pc s t MQueue \<Longrightarrow> \<not> wq_lock s \<Longrightarrow> mutex_step s (goto (s\<lparr>wq_lock := True\<rparr>) t MRetry)"
| retry_ok: "at_pc s t MRetry \<Longrightarrow> \<not> mlocked s \<Longrightarrow>
    mutex_step s (goto (s\<lparr>mlocked := True, wq_lock := False\<rparr>) t MHold)"
| retry_fail: "at_pc s t MRetry \<Longrightarrow> mlocked s \<Longrightarrow> mutex_step s (goto s t MBlock)"
| block: "at_pc s t MBlock \<Longrightarrow> \<not> wq_lock s \<Longrightarrow>
    mutex_step s (goto (s\<lparr>wait_queue := wait_queue s @ [t]\<rparr>) t MSleep)"
| wake: "at_pc s t MSleep \<Longrightarrow> mutex_step s (goto (s\<lparr>wq_lock := False\<rparr>) t MTry)"
| unlock: "at_pc s t MHold \<Longrightarrow> mutex_step s (goto s t MUnlock)"
| unlock_queue: "at_pc s t MUnlock \<Longrightarrow> \<not> wq_lock s \<Longrightarrow>
    mutex_step s (goto (s\<lparr>wq_lock := True\<rparr>) t MStore)"
| store: "at_pc s t MStore \<Longrightarrow> mutex_step s (goto (s\<lparr>mlocked := False\<rparr>) t MPop)"
| pop: "at_pc s t MPop \<Longrightarrow>
    mutex_step s (goto (s\<lparr>wait_queue := drop 1 (wait_queue s), wq_lock := False\<rparr>) t MIdle)"

definition mutex_init :: "mutex_state \<Rightarrow> bool" where
  "mutex_init s \<longleftrightarrow>
     (\<exists>n. s = \<lparr>mlocked = False, wq_lock = False, wait_queue = [], mpcs = replicate n MIdle\<rparr>)"

definition mutex_holds :: "mutex_state \<Rightarrow> nat \<Rightarrow> bool" where
  "mutex_holds s t \<longleftrightarrow> at_pc s t MHold \<or> at_pc s t MUnlock \<or> at_pc s t MStore"

text \<open>Threads that own the mutex, and threads that own the spinlock around the queue.\<close>

definition owns_mutex :: "mutex_pc \<Rightarrow> bool" where
  "owns_mutex p \<longleftrightarrow> p = MHold \<or> p = MUnlock \<or> p = MStore"

definition owns_queue :: "mutex_pc \<Rightarrow> bool" where
  "owns_queue p \<longleftrightarrow> p = MRetry \<or> p = MBlock \<or> p = MSleep \<or> p = MStore \<or> p = MPop"

definition mutex_inv :: "mutex_state \<Rightarrow> bool" where
  "mutex_inv s \<longleftrightarrow>
     length (filter owns_mutex (mpcs s)) = (if mlocked s then 1 else 0) \<and>
     length (filter owns_queue (mpcs s)) = (if wq_lock s then 1 else 0)"

lemma goto_counts:
  assumes "at_pc s t p" and "mpcs s' = mpcs s"
  shows "length (filter P (mpcs (goto s' t q))) + (if P p then 1 else 0) =
    length (filter P (mpcs s)) + (if P q then 1 else 0)"
  using assms filter_length_update [of t "mpcs s" P q] by (auto simp: at_pc_def goto_def)

lemma goto_simps [simp]:
  "mlocked (goto s t p) = mlocked s" "wq_lock (goto s t p) = wq_lock s"
  "wait_queue (goto s t p) = wait_queue s" "length (mpcs (goto s t p)) = length (mpcs s)"
  by (simp_all add: goto_def)

lemma at_pc_goto:
  "at_pc s t r \<Longrightarrow> mpcs s1 = mpcs s \<Longrightarrow>
   at_pc (goto s1 t p) u q \<longleftrightarrow> (if u = t then p = q else at_pc s u q)"
  by (simp add: at_pc_def goto_def nth_list_update)

lemma at_pc_unique: "at_pc s t p \<Longrightarrow> at_pc s t q \<Longrightarrow> p = q"
  by (simp add: at_pc_def)

lemma owner_flags:
  assumes "mutex_inv s" and "at_pc s t p"
  shows "owns_mutex p \<Longrightarrow> mlocked s" and "owns_queue p \<Longrightarrow> wq_lock s"
proof -
  have "length (filter P (mpcs s)) \<noteq> 0" if "P p" for P
    using assms(2) that filter_length_0 [of P "mpcs s"] by (auto simp: at_pc_def)
  then show "owns_mutex p \<Longrightarrow> mlocked s" and "owns_queue p \<Longrightarrow> wq_lock s"
    using assms(1) unfolding mutex_inv_def by presburger+
qed

text \<open>A thread moves, and the flags change by what it gains and gives up.\<close>

lemma mutex_inv_goto:
  assumes "mutex_inv s" and "at_pc s t p" and "mpcs s1 = mpcs s"
    and "of_bool (mlocked s1) + of_bool (owns_mutex p) = of_bool (mlocked s) + (of_bool (owns_mutex q) :: nat)"
    and "of_bool (wq_lock s1) + of_bool (owns_queue p) = of_bool (wq_lock s) + (of_bool (owns_queue q) :: nat)"
  shows "mutex_inv (goto s1 t q)"
  using goto_counts [OF assms(2,3), of owns_mutex q] goto_counts [OF assms(2,3), of owns_queue q]
    assms(1,4,5) unfolding mutex_inv_def of_bool_def by auto

lemmas owner_defs = owns_mutex_def owns_queue_def

lemma mutex_inv_step:
  assumes "mutex_inv s" and "mutex_step s s'"
  shows "mutex_inv s'"
  using assms(2)
  by cases (auto dest: owner_flags [OF assms(1)] intro!: mutex_inv_goto [OF assms(1)] simp: owner_defs)

interpretation mutex: exclusive_lock mutex_init mutex_step mutex_holds mutex_inv
proof unfold_locales
  fix s
  assume "mutex_init s"
  then show "mutex_inv s" by (auto simp: mutex_init_def mutex_inv_def owner_defs)
next
  show "mutex_inv s \<Longrightarrow> mutex_step s s' \<Longrightarrow> mutex_inv s'" for s s' by (rule mutex_inv_step)
next
  fix s t u
  assume "mutex_inv s" "mutex_holds s t" "mutex_holds s u"
  then show "t = u"
    using filter_length_unique [of owns_mutex "mpcs s" t u]
    by (auto simp: mutex_holds_def at_pc_def mutex_inv_def owns_mutex_def split: if_splits)
qed

text \<open>The thread that owns the spinlock around the queue is the only one.\<close>

lemma queue_owner_unique:
  assumes "mutex_inv s" and "at_pc s t p" and "owns_queue p" and "at_pc s u q" and "owns_queue q"
  shows "u = t"
  using filter_length_unique [of owns_queue "mpcs s" t u] assms
  by (auto simp: mutex_inv_def at_pc_def split: if_splits)

text \<open>
  A thread in \<open>block_current\<close> waits for a spinlock that it holds itself, so it never moves, and
  with it the queue stays locked and the mutex owned.
\<close>

definition wedged :: "nat \<Rightarrow> mutex_state \<Rightarrow> bool" where
  "wedged t s \<longleftrightarrow> mutex_inv s \<and> at_pc s t MBlock \<and> mlocked s"

lemma wedged_step:
  assumes "wedged t s" and "mutex_step s s'"
  shows "wedged t s' \<and> (\<forall>u. at_pc s' u MHold \<longrightarrow> at_pc s u MHold)"
proof -
  have inv: "mutex_inv s" and t: "at_pc s t MBlock" and l: "mlocked s"
    using assms(1) by (simp_all add: wedged_def)
  have wq: "wq_lock s" using owner_flags(2) [OF inv t] by (simp add: owns_queue_def)
  have u: "u = t" if "at_pc s u q" "owns_queue q" for u q
    using queue_owner_unique [OF inv t _ that] by (simp add: owns_queue_def)
  have pc: "q = MBlock" if "at_pc s t q" for q using at_pc_unique [OF t that] by simp
  have other: "at_pc s' t MBlock \<and> mlocked s' \<and> (\<forall>u. at_pc s' u MHold \<longrightarrow> at_pc s u MHold)"
    using assms(2)
  proof cases
    case (call u)
    then show ?thesis using t l pc [of MIdle] by (auto simp: at_pc_goto [OF call(2)])
  next
    case (try_fail u)
    then show ?thesis using t l pc [of MTry] by (auto simp: at_pc_goto [OF try_fail(2)])
  next
    case (unlock u)
    then show ?thesis using t l pc [of MHold] by (auto simp: at_pc_goto [OF unlock(2)])
  next
    case (retry_fail u')
    then show ?thesis using u [of u' MRetry] pc [of MRetry] by (auto simp: owns_queue_def)
  next
    case (wake u')
    then show ?thesis using u [of u' MSleep] pc [of MSleep] by (auto simp: owns_queue_def)
  next
    case (store u')
    then show ?thesis using u [of u' MStore] pc [of MStore] by (auto simp: owns_queue_def)
  next
    case (pop u')
    then show ?thesis using u [of u' MPop] pc [of MPop] by (auto simp: owns_queue_def)
  next
    case (retry_ok u')
    then show ?thesis using l by simp
  qed (use wq l in simp_all)
  then show ?thesis using mutex_inv_step [OF inv assms(2)] by (simp add: wedged_def)
qed

lemma block_entered:
  assumes "mutex_step s s'" and "at_pc s' t MBlock" and "\<not> at_pc s t MBlock"
  shows "mlocked s'"
  using assms(1)
proof cases
  case (retry_fail u)
  then show ?thesis by simp
qed (use assms(2,3) in \<open>auto simp: at_pc_goto split: if_splits\<close>)

lemma block_wedges:
  assumes "mutex_init s" and "mutex_step\<^sup>*\<^sup>* s s'" and "at_pc s' t MBlock"
  shows "wedged t s'"
proof -
  from assms(2) have "at_pc s' t MBlock \<longrightarrow> mlocked s'"
  proof (induction rule: rtranclp_induct)
    case base
    then show ?case using assms(1) by (auto simp: mutex_init_def at_pc_def)
  next
    case (step y z)
    show ?case
    proof
      assume z: "at_pc z t MBlock"
      show "mlocked z"
      proof (cases "at_pc y t MBlock")
        case True
        then have "wedged t y"
          using step mutex.reach_inv [OF assms(1)] by (simp add: wedged_def)
        then show ?thesis using wedged_step [OF _ step(2)] unfolding wedged_def by blast
      next
        case False
        then show ?thesis using block_entered [OF step(2) z] by blast
      qed
    qed
  qed
  then show ?thesis using assms(3) mutex.reach_inv [OF assms(1,2)] by (simp add: wedged_def)
qed

text \<open>Two threads: the first takes the mutex, the second runs into \<open>block_current\<close>.\<close>

definition contended :: mutex_state where
  "contended = \<lparr>mlocked = True, wq_lock = True, wait_queue = [], mpcs = [MHold, MBlock]\<rparr>"

lemma contended_reachable:
  "\<exists>s. mutex_init s \<and> mutex_step\<^sup>*\<^sup>* s contended"
proof -
  let ?s = "\<lambda>l w ps. \<lparr>mlocked = l, wq_lock = w, wait_queue = [], mpcs = ps\<rparr>"
  have "mutex_step (?s False False [MIdle, MIdle]) (?s False False [MTry, MIdle])"
    using mutex_step.call [of "?s False False [MIdle, MIdle]" 0] by (simp add: at_pc_def goto_def)
  moreover have "mutex_step (?s False False [MTry, MIdle]) (?s True False [MHold, MIdle])"
    using mutex_step.try_ok [of "?s False False [MTry, MIdle]" 0] by (simp add: at_pc_def goto_def)
  moreover have "mutex_step (?s True False [MHold, MIdle]) (?s True False [MHold, MTry])"
    using mutex_step.call [of "?s True False [MHold, MIdle]" 1] by (simp add: at_pc_def goto_def)
  moreover have "mutex_step (?s True False [MHold, MTry]) (?s True False [MHold, MQueue])"
    using mutex_step.try_fail [of "?s True False [MHold, MTry]" 1] by (simp add: at_pc_def goto_def)
  moreover have "mutex_step (?s True False [MHold, MQueue]) (?s True True [MHold, MRetry])"
    using mutex_step.queue [of "?s True False [MHold, MQueue]" 1] by (simp add: at_pc_def goto_def)
  moreover have "mutex_step (?s True True [MHold, MRetry]) contended"
    using mutex_step.retry_fail [of "?s True True [MHold, MRetry]" 1]
    by (simp add: at_pc_def goto_def contended_def)
  ultimately have "mutex_step\<^sup>*\<^sup>* (?s False False [MIdle, MIdle]) contended"
    by (meson converse_rtranclp_into_rtranclp rtranclp.rtrancl_refl)
  moreover have "mutex_init (?s False False [MIdle, MIdle])"
    unfolding mutex_init_def by (rule exI [of _ 2]) (simp add: numeral_2_eq_2)
  ultimately show ?thesis by blast
qed

section \<open>Properties\<close>

text \<open>No two threads hold a sleeping mutex.\<close>

theorem sleeping_mutex_exclusion:
  assumes "mutex_init s" and "mutex_step\<^sup>*\<^sup>* s s'" and "mutex_holds s' t" and "mutex_holds s' u"
  shows "t = u"
  by (rule mutex.reach_exclusive [OF assms])

theorem sleeping_mutex_exclusion_witness: "{u. mutex_holds contended u} = {0}"
proof -
  obtain s where s: "mutex_init s" "mutex_step\<^sup>*\<^sup>* s contended" using contended_reachable by blast
  have "mutex_holds contended 0" by (simp add: mutex_holds_def at_pc_def contended_def)
  then show ?thesis using sleeping_mutex_exclusion [OF s, of _ 0] by blast
qed

text \<open>C31: A thread that finds the mutex taken on both attempts and calls \<open>block_current\<close> waits for
  the spinlock it already holds: from then on, whatever the threads do, it never moves, the mutex
  stays locked, and no thread acquires it.\<close>

theorem sleeping_mutex_deadlocks:
  assumes "mutex_init s" and "mutex_step\<^sup>*\<^sup>* s s1" and "at_pc s1 t MBlock" and "mutex_step\<^sup>*\<^sup>* s1 s2"
  shows "at_pc s2 t MBlock \<and> mlocked s2 \<and> (\<forall>u. at_pc s2 u MHold \<longrightarrow> at_pc s1 u MHold)"
proof -
  from assms(4) have "wedged t s2 \<and> (\<forall>u. at_pc s2 u MHold \<longrightarrow> at_pc s1 u MHold)"
  proof (induction rule: rtranclp_induct)
    case base
    then show ?case using block_wedges [OF assms(1-3)] by simp
  next
    case (step y z)
    then show ?case using wedged_step [of t y z] by blast
  qed
  then show ?thesis by (simp add: wedged_def)
qed

theorem sleeping_mutex_deadlocks_witness:
  "\<exists>s. mutex_init s \<and> mutex_step\<^sup>*\<^sup>* s contended \<and>
     (\<forall>s2. mutex_step\<^sup>*\<^sup>* contended s2 \<longrightarrow> at_pc s2 1 MBlock \<and> mlocked s2)"
proof -
  obtain s where s: "mutex_init s" "mutex_step\<^sup>*\<^sup>* s contended" using contended_reachable by blast
  have "at_pc contended 1 MBlock" by (simp add: at_pc_def contended_def)
  from sleeping_mutex_deadlocks [OF s this] s show ?thesis by blast
qed

end
