(* ===== verification/Vm_Core.thy ===== *)
theory Vm_Core
  imports Mars_Prelude
begin

text \<open>
  \<open>klib/src/vm/mod.rs\<close>: the page geometry of the 16 KiB granule, rounding, the direct map of
  physical memory at the top of the address space, and memory regions. Addresses are 64-bit
  words; additions wrap, as they do in the release profile of the workspace.
\<close>

section \<open>Geometry\<close>

text \<open>
  \<open>TABLE_ENTRIES\<close> is the 16 KiB page of the granule divided by the 8 bytes of an entry; the block
  sizes the source notes beside the shifts (32 MiB, 64 GiB, 128 TiB) fix it to 2048.
\<close>

definition VA_WIDTH :: nat where "VA_WIDTH = 48"
definition PAGE_SHIFT :: nat where "PAGE_SHIFT = 14"
definition TABLE_ENTRIES :: nat where "TABLE_ENTRIES = 2048"
definition PAGE_INDEX_BITS :: nat where "PAGE_INDEX_BITS = 11"
definition L2_BLOCK_SHIFT :: nat where "L2_BLOCK_SHIFT = PAGE_SHIFT + PAGE_INDEX_BITS"
definition L1_BLOCK_SHIFT :: nat where "L1_BLOCK_SHIFT = L2_BLOCK_SHIFT + PAGE_INDEX_BITS"
definition L0_BLOCK_SHIFT :: nat where "L0_BLOCK_SHIFT = L1_BLOCK_SHIFT + PAGE_INDEX_BITS"
definition PAGE_SIZE :: nat where "PAGE_SIZE = 2 ^ PAGE_SHIFT"

definition DMAP_START :: u64 where "DMAP_START = push_bit VA_WIDTH 0xFFFF"
definition PAGE_MASK :: usize where "PAGE_MASK = of_nat PAGE_SIZE - 1"

definition bsize_for_level :: "nat \<Rightarrow> nat" where
  "bsize_for_level level = PAGE_SIZE * TABLE_ENTRIES ^ (3 - level)"

section \<open>Rounding\<close>

definition align_down :: "usize \<Rightarrow> usize \<Rightarrow> usize" where
  "align_down addr align = addr AND NOT (align - 1)"

definition align_up :: "usize \<Rightarrow> usize \<Rightarrow> usize" where
  "align_up addr align = (addr + align - 1) AND NOT (align - 1)"

section \<open>The direct map\<close>

definition is_kernel_address :: "usize \<Rightarrow> bool" where
  "is_kernel_address addr \<longleftrightarrow> drop_bit 48 addr AND 1 = 1"

definition phys_addr_to_dmap :: "u64 \<Rightarrow> u64" where
  "phys_addr_to_dmap phys_addr =
     (if is_kernel_address phys_addr then phys_addr else phys_addr OR DMAP_START)"

definition dmap_addr_to_phys :: "u64 \<Rightarrow> u64" where
  "dmap_addr_to_phys dmap_addr = dmap_addr AND NOT DMAP_START"

datatype vm_error =
  Overlap | InvalidAddress | InvalidSize | OutOfMemory | InvalidAlignment | NotMapped

section \<open>Memory regions\<close>

datatype memory_region_type =
    Corrupt | KernelCode | KernelRwData | KernelRoData | KernelStack | Mmio
  | BootloaderReclaim | FirmwareReclaim | AcpiTables | AcpiNvs | PageTable
  | RtFirmwareCode | RtFirmwareData | NormalMem | UnknownMem

definition region_type_from_bits :: "u8 \<Rightarrow> memory_region_type" where
  "region_type_from_bits bits =
     (if bits = 1 then KernelCode else if bits = 2 then KernelRwData
      else if bits = 3 then KernelRoData else if bits = 4 then KernelStack
      else if bits = 5 then Mmio else if bits = 6 then BootloaderReclaim
      else if bits = 7 then FirmwareReclaim else if bits = 8 then AcpiTables
      else if bits = 9 then AcpiNvs else if bits = 10 then PageTable
      else if bits = 11 then RtFirmwareCode else if bits = 12 then RtFirmwareData
      else if bits = 13 then NormalMem else if bits = 255 then UnknownMem
      else Corrupt)"

fun region_type_as_bits :: "memory_region_type \<Rightarrow> u8" where
  "region_type_as_bits Corrupt = 0"
| "region_type_as_bits KernelCode = 1"
| "region_type_as_bits KernelRwData = 2"
| "region_type_as_bits KernelRoData = 3"
| "region_type_as_bits KernelStack = 4"
| "region_type_as_bits Mmio = 5"
| "region_type_as_bits BootloaderReclaim = 6"
| "region_type_as_bits FirmwareReclaim = 7"
| "region_type_as_bits AcpiTables = 8"
| "region_type_as_bits AcpiNvs = 9"
| "region_type_as_bits PageTable = 10"
| "region_type_as_bits RtFirmwareCode = 11"
| "region_type_as_bits RtFirmwareData = 12"
| "region_type_as_bits NormalMem = 13"
| "region_type_as_bits UnknownMem = 255"

record memory_region =
  mr_base :: usize
  mr_size :: usize
  mr_type :: memory_region_type

definition mr_end :: "memory_region \<Rightarrow> usize" where
  "mr_end r = mr_base r + mr_size r"

definition mr_can_merge :: "memory_region \<Rightarrow> memory_region \<Rightarrow> bool" where
  "mr_can_merge r s \<longleftrightarrow>
     mr_type r = mr_type s \<and> \<not> (mr_end r < mr_base s \<or> mr_end s < mr_base r)"

definition mr_merge :: "memory_region \<Rightarrow> memory_region \<Rightarrow> memory_region" where
  "mr_merge r s =
     (let start = min (mr_base r) (mr_base s); e = max (mr_end r) (mr_end s)
      in r\<lparr>mr_base := start, mr_size := e - start\<rparr>)"

definition mr_is_normal :: "memory_region \<Rightarrow> bool" where
  "mr_is_normal r \<longleftrightarrow> mr_type r = NormalMem"

definition mr_is_usable :: "memory_region \<Rightarrow> bool" where
  "mr_is_usable r =
     (case mr_type r of NormalMem \<Rightarrow> True | BootloaderReclaim \<Rightarrow> True
      | FirmwareReclaim \<Rightarrow> True | _ \<Rightarrow> False)"

text \<open>The addresses of a region that does not run past the end of the address space.\<close>

definition mr_valid :: "memory_region \<Rightarrow> bool" where
  "mr_valid r \<longleftrightarrow> unat (mr_base r) + unat (mr_size r) < 2 ^ 64"

definition mr_addrs :: "memory_region \<Rightarrow> nat set" where
  "mr_addrs r = {unat (mr_base r) ..< unat (mr_base r) + unat (mr_size r)}"

section \<open>Lemmas\<close>

lemmas geometry_defs = PAGE_SHIFT_def PAGE_INDEX_BITS_def L2_BLOCK_SHIFT_def L1_BLOCK_SHIFT_def
  L0_BLOCK_SHIFT_def TABLE_ENTRIES_def VA_WIDTH_def

lemma PAGE_SIZE_val: "PAGE_SIZE = 16384"
  by (simp add: PAGE_SIZE_def PAGE_SHIFT_def)

lemma PAGE_SIZE_pos [simp]: "0 < PAGE_SIZE"
  by (simp add: PAGE_SIZE_val)

lemma TABLE_ENTRIES_bits: "TABLE_ENTRIES = 2 ^ PAGE_INDEX_BITS"
  by (simp add: TABLE_ENTRIES_def PAGE_INDEX_BITS_def)

lemma unat_align_down:
  "unat (align_down addr (2 ^ k)) = unat addr div 2 ^ k * 2 ^ k"
  by (simp add: align_down_def pow2_minus_1_eq_mask word_nat_simps)

lemma unat_align_up:
  assumes "k < 64" and "unat addr + 2 ^ k \<le> 2 ^ 64"
  shows "unat (align_up addr (2 ^ k)) = (unat addr + 2 ^ k - 1) div 2 ^ k * 2 ^ k"
proof -
  have e: "addr + 2 ^ k - 1 = addr + mask k"
    by (simp add: mask_eq_exp_minus_1 add_diff_eq)
  have m: "unat (mask k :: usize) = 2 ^ k - 1"
    using assms(1) by (simp add: unat_mask)
  have p: "(1::nat) \<le> 2 ^ k" by simp
  have "unat (addr + mask k) = unat addr + (2 ^ k - 1)"
    using assms(2) p by (subst unat_add_lem [THEN iffD1]) (auto simp: m)
  then show ?thesis
    by (simp add: align_up_def e pow2_minus_1_eq_mask word_nat_simps)
qed

lemma bit_DMAP_START: "bit DMAP_START n \<longleftrightarrow> 48 \<le> n \<and> n < 64"
proof -
  have "(0xFFFF :: 64 word) = mask 16" by (simp add: mask_eq_exp_minus_1)
  then have "bit DMAP_START n \<longleftrightarrow> bit (push_bit 48 (mask 16 :: 64 word)) n"
    by (simp only: DMAP_START_def VA_WIDTH_def)
  also have "\<dots> \<longleftrightarrow> 48 \<le> n \<and> n < 64"
    by (auto simp add: bit_simps simp del: push_bit_mask_eq)
  finally show ?thesis .
qed

lemma bit_48_kernel: "is_kernel_address a \<longleftrightarrow> bit a 48"
  by (simp add: is_kernel_address_def and_one_eq bit_iff_odd_drop_bit mod2_eq_if)

lemma low_word_bits: "unat (p :: u64) < 2 ^ 48 \<Longrightarrow> bit p n \<Longrightarrow> n < 48"
proof -
  assume "unat p < 2 ^ 48" and b: "bit p n"
  then have "take_bit 48 (unat p) = unat p" by (simp add: take_bit_nat_eq_self_iff)
  moreover have "bit (unat p) n" using b by (simp add: bit_unsigned_iff)
  ultimately show "n < 48" by (metis bit_take_bit_iff)
qed

lemma mr_end_unat: "mr_valid r \<Longrightarrow> unat (mr_end r) = unat (mr_base r) + unat (mr_size r)"
  by (simp add: mr_valid_def mr_end_def unat_word_ariths)

text \<open>The direct map on 48-bit physical addresses.\<close>

lemma dmap_low:
  assumes "unat p < 2 ^ 48"
  shows "phys_addr_to_dmap p = p OR DMAP_START" and "dmap_addr_to_phys (phys_addr_to_dmap p) = p"
proof -
  note low = low_word_bits [OF assms]
  have "\<not> is_kernel_address p" using low [of 48] by (auto simp: bit_48_kernel)
  then show "phys_addr_to_dmap p = p OR DMAP_START" by (simp add: phys_addr_to_dmap_def)
  moreover have "(p OR DMAP_START) AND NOT DMAP_START = p"
    by (rule bit_word_eqI) (auto simp: bit_simps bit_DMAP_START dest: low)
  ultimately show "dmap_addr_to_phys (phys_addr_to_dmap p) = p" by (simp add: dmap_addr_to_phys_def)
qed

section \<open>Properties\<close>

text \<open>For an alignment \<open>2^k\<close>, \<open>align_up\<close> returns the least multiple of the alignment that is not
  below the address, and \<open>align_down\<close> the greatest one that is not above it, whenever rounding up
  does not run past the end of the address space.\<close>

theorem align_rounds:
  assumes "k < 64" and "unat addr + 2 ^ k \<le> 2 ^ 64"
  shows "2 ^ k dvd unat (align_up addr (2 ^ k)) \<and> unat addr \<le> unat (align_up addr (2 ^ k)) \<and>
    unat (align_up addr (2 ^ k)) < unat addr + 2 ^ k \<and>
    2 ^ k dvd unat (align_down addr (2 ^ k)) \<and> unat (align_down addr (2 ^ k)) \<le> unat addr \<and>
    unat addr < unat (align_down addr (2 ^ k)) + 2 ^ k"
proof -
  let ?a = "unat addr" and ?p = "2 ^ k :: nat"
  have p: "0 < ?p" by simp
  have "(?a + ?p - 1) div ?p * ?p + (?a + ?p - 1) mod ?p = ?a + ?p - 1"
    by (rule div_mult_mod_eq)
  moreover have "(?a + ?p - 1) mod ?p < ?p" by simp
  ultimately have up: "?a \<le> (?a + ?p - 1) div ?p * ?p \<and> (?a + ?p - 1) div ?p * ?p < ?a + ?p"
    using p by linarith
  have "?a div ?p * ?p + ?a mod ?p = ?a" by (rule div_mult_mod_eq)
  moreover have "?a mod ?p < ?p" by simp
  ultimately have "?a div ?p * ?p \<le> ?a \<and> ?a < ?a div ?p * ?p + ?p" by linarith
  with up show ?thesis
    by (simp add: unat_align_up [OF assms] unat_align_down)
qed

theorem align_rounds_witness:
  "unat (align_up 5000 (2 ^ 14)) < unat (5000 :: usize) + 2 ^ 14 \<and>
   2 ^ 14 dvd unat (align_up 5000 (2 ^ 14))"
  using align_rounds [of 14 5000] by simp

text \<open>C37: The direct map is a bijection between the 48-bit physical addresses and the kernel half:
  mapping a physical address sets all sixteen top bits, is recognised as a kernel address, is not
  changed by mapping it again, and is undone by the way back.\<close>

theorem dmap_roundtrip:
  assumes "unat p < 2 ^ 48"
  shows "dmap_addr_to_phys (phys_addr_to_dmap p) = p \<and> is_kernel_address (phys_addr_to_dmap p) \<and>
    phys_addr_to_dmap (phys_addr_to_dmap p) = phys_addr_to_dmap p \<and>
    unat (phys_addr_to_dmap p) = unat p + unat DMAP_START"
proof -
  have k: "is_kernel_address (p OR DMAP_START)"
    by (simp add: bit_48_kernel bit_simps bit_DMAP_START)
  then have "phys_addr_to_dmap (p OR DMAP_START) = p OR DMAP_START"
    by (simp add: phys_addr_to_dmap_def)
  moreover have "p AND DMAP_START = 0"
    by (rule bit_word_eqI) (auto simp: bit_simps bit_DMAP_START dest: low_word_bits [OF assms])
  then have "p OR DMAP_START = p + DMAP_START"
    by (simp add: disjunctive_add_eq_or)
  moreover have "unat DMAP_START = 2 ^ 64 - 2 ^ 48"
    by (simp add: DMAP_START_def VA_WIDTH_def push_bit_eq_mult)
  ultimately show ?thesis
    using k assms dmap_low [OF assms] by (simp add: unat_word_ariths)
qed

theorem dmap_roundtrip_witness:
  "dmap_addr_to_phys (phys_addr_to_dmap 0x40080000) = 0x40080000"
  using dmap_roundtrip [of "0x40080000"] by simp

text \<open>Merging two regions that may merge covers exactly the union of their addresses and keeps
  the type; nothing between them is added.\<close>

theorem mr_merge_union:
  assumes "mr_valid r" and "mr_valid s" and "mr_can_merge r s"
  shows "mr_addrs (mr_merge r s) = mr_addrs r \<union> mr_addrs s \<and> mr_type (mr_merge r s) = mr_type s"
proof -
  have h: "\<not> unat (mr_base r) + unat (mr_size r) < unat (mr_base s)"
    "\<not> unat (mr_base s) + unat (mr_size s) < unat (mr_base r)" "mr_type r = mr_type s"
    using assms by (auto simp: mr_can_merge_def word_less_nat_alt mr_end_unat)
  have b: "unat (min x y) = min (unat x) (unat y)" "unat (max x y) = max (unat x) (unat y)"
    for x y :: usize
    by (auto simp: min_def max_def word_le_nat_alt)
  have le: "min (mr_base r) (mr_base s) \<le> max (mr_end r) (mr_end s)"
    using assms(1,2) by (simp add: word_le_nat_alt b mr_end_unat)
  show ?thesis
    using h le assms(1,2)
    by (auto simp: mr_addrs_def mr_merge_def Let_def unat_sub b mr_end_unat)
qed

theorem mr_merge_union_witness:
  "mr_addrs (mr_merge \<lparr>mr_base = 4096, mr_size = 4096, mr_type = NormalMem\<rparr>
                      \<lparr>mr_base = 0, mr_size = 4096, mr_type = NormalMem\<rparr>) =
   {4096 ..< 8192} \<union> {0 ..< 4096}"
proof -
  let ?r = "\<lparr>mr_base = 4096, mr_size = 4096, mr_type = NormalMem\<rparr>"
  let ?s = "\<lparr>mr_base = 0, mr_size = 4096, mr_type = NormalMem\<rparr>"
  have "mr_valid ?r" "mr_valid ?s" "mr_can_merge ?r ?s"
    by (simp_all add: mr_valid_def mr_can_merge_def mr_end_def)
  from mr_merge_union [OF this] show ?thesis by (simp add: mr_addrs_def)
qed

text \<open>The byte encoding of a region type is decoded to the same type, and every byte that is not
  the encoding of some type decodes to \<open>Corrupt\<close>.\<close>

theorem region_type_bits_roundtrip:
  "region_type_from_bits (region_type_as_bits t) = t \<and>
   (region_type_as_bits (region_type_from_bits b) = b \<or> region_type_from_bits b = Corrupt)"
  by (cases t) (auto simp: region_type_from_bits_def)

end
