(* ===== verification/Scheduler.thy ===== *)
theory Scheduler
  imports Vm_Core
begin

text \<open>
  Threads, processes and the scheduler of \<open>klib/src/thread.rs\<close>, \<open>klib/src/process.rs\<close> and
  \<open>klib/src/scheduler.rs\<close>. Threads and processes are shared (\<open>Arc\<close>), so they live in lists and are
  named by their index; the saved register file of a thread is a cell of the kernel memory at the
  address \<open>kernel_sp\<close>. A failed \<open>assert!\<close> or an index out of range is \<open>None\<close>.
\<close>

section \<open>Threads and processes\<close>

datatype thread_state = Running | Ready | Blocked | Dead

record register_file =
  registers :: "u64 list"
  sp :: u64
  elr :: u64
  spsr :: u64
  esr :: u64
  far :: u64

text \<open>Size of the \<open>repr(C)\<close> struct: 36 words of 8 bytes.\<close>

definition REGISTER_FILE_SIZE :: nat where "REGISTER_FILE_SIZE = 288"

record stack =
  stack_ptr :: u64
  stack_size :: u64

definition stack_bottom :: "stack \<Rightarrow> u64" where "stack_bottom st = stack_ptr st"

definition stack_top :: "stack \<Rightarrow> u64" where "stack_top st = stack_ptr st + stack_size st"

record thread_inner =
  thread_id :: u32
  t_state :: thread_state
  priority :: u8
  kernel_sp :: u64
  t_stack :: "stack option"
  t_process :: "nat option"
  is_kernel :: bool

datatype process_state = Normal | Zombie

record process_inner =
  process_id :: u32
  p_state :: process_state
  address_space_root :: u64
  p_threads :: "nat list"
  parent :: "nat option"

record local_scheduler =
  thread_queue :: "nat list"
  current_thread :: "nat option"

text \<open>
  The whole state: threads, processes (\<open>None\<close> once dropped, which makes \<open>Weak::upgrade\<close> fail), saved
  contexts, the id pool, the queues of the processors, the spawn counter and \<open>TTBR0_EL1\<close>.
\<close>

record kstate =
  threads :: "thread_inner list"
  procs :: "process_inner option list"
  ctx_mem :: "u64 \<Rightarrow> register_file"
  next_id :: u32
  queues :: "local_scheduler list"
  spawn_counter :: u8
  ttbr0 :: u64

definition thread_id_alloc :: "kstate \<Rightarrow> u32 \<times> kstate" where
  "thread_id_alloc s = (next_id s, s\<lparr>next_id := next_id s + 1\<rparr>)"

definition thread_new_inner ::
  "kstate \<Rightarrow> nat option \<Rightarrow> bool \<Rightarrow> stack \<Rightarrow> u64 \<Rightarrow> u8 \<Rightarrow> u64 \<Rightarrow> nat \<times> kstate" where
  "thread_new_inner s process kern st pc prio spsr_value =
     (let top = stack_top st;
          ctx_ptr = top - of_nat REGISTER_FILE_SIZE;
          ctx = (ctx_mem s ctx_ptr)\<lparr>registers := replicate 31 0, elr := pc, spsr := spsr_value, sp := top\<rparr>;
          (tid, s1) = thread_id_alloc (s\<lparr>ctx_mem := (ctx_mem s)(ctx_ptr := ctx)\<rparr>) in
      (length (threads s1),
       s1\<lparr>threads := threads s1 @ [\<lparr>thread_id = tid, t_state = Ready, priority = prio,
            kernel_sp = ctx_ptr, t_stack = Some st, t_process = process, is_kernel = kern\<rparr>]\<rparr>))"

definition get_state :: "kstate \<Rightarrow> nat \<Rightarrow> thread_state" where
  "get_state s t = t_state (threads s ! t)"

definition set_state :: "kstate \<Rightarrow> nat \<Rightarrow> thread_state \<Rightarrow> kstate" where
  "set_state s t st = s\<lparr>threads := (threads s)[t := (threads s ! t)\<lparr>t_state := st\<rparr>]\<rparr>"

definition set_priority :: "kstate \<Rightarrow> nat \<Rightarrow> u8 \<Rightarrow> kstate" where
  "set_priority s t p = s\<lparr>threads := (threads s)[t := (threads s ! t)\<lparr>priority := p\<rparr>]\<rparr>"

definition with_ctx_mut :: "kstate \<Rightarrow> nat \<Rightarrow> (register_file \<Rightarrow> register_file) \<Rightarrow> kstate option" where
  "with_ctx_mut s t f =
     (if get_state s t = Running then None
      else let p = kernel_sp (threads s ! t) in
           Some (s\<lparr>ctx_mem := (ctx_mem s)(p := f (ctx_mem s p))\<rparr>))"

definition with_ctx :: "kstate \<Rightarrow> nat \<Rightarrow> (register_file \<Rightarrow> 'r) \<Rightarrow> 'r option" where
  "with_ctx s t f =
     (if get_state s t = Running then None else Some (f (ctx_mem s (kernel_sp (threads s ! t)))))"

text \<open>\<open>Thread::process\<close>: the process, if it still exists.\<close>

definition thread_process :: "kstate \<Rightarrow> nat \<Rightarrow> process_inner option" where
  "thread_process s t =
     (case t_process (threads s ! t) of None \<Rightarrow> None
      | Some p \<Rightarrow> if p < length (procs s) then procs s ! p else None)"

definition process_new :: "u32 \<Rightarrow> u64 \<Rightarrow> nat option \<Rightarrow> process_inner" where
  "process_new pid root par =
     \<lparr>process_id = pid, p_state = Normal, address_space_root = root, p_threads = [], parent = par\<rparr>"

definition process_add_thread :: "process_inner \<Rightarrow> nat \<Rightarrow> process_inner" where
  "process_add_thread p t = p\<lparr>p_threads := p_threads p @ [t]\<rparr>"

definition process_remove_thread :: "kstate \<Rightarrow> process_inner \<Rightarrow> u32 \<Rightarrow> process_inner" where
  "process_remove_thread s p tid =
     p\<lparr>p_threads := filter (\<lambda>t. thread_id (threads s ! t) \<noteq> tid) (p_threads p)\<rparr>"

definition process_set_state :: "process_inner \<Rightarrow> process_state \<Rightarrow> process_inner" where
  "process_set_state p st = p\<lparr>p_state := st\<rparr>"

section \<open>Scheduler\<close>

definition local_new :: local_scheduler where
  "local_new = \<lparr>thread_queue = [], current_thread = None\<rparr>"

definition set_local :: "kstate \<Rightarrow> nat \<Rightarrow> local_scheduler \<Rightarrow> kstate" where
  "set_local s cpu lq = s\<lparr>queues := (queues s)[cpu := lq]\<rparr>"

definition register_cpu :: "kstate \<Rightarrow> nat \<Rightarrow> kstate" where
  "register_cpu s cpu =
     (if cpu \<ge> length (queues s)
      then s\<lparr>queues := queues s @ replicate (cpu + 1 - length (queues s)) local_new\<rparr> else s)"

definition spawn :: "kstate \<Rightarrow> nat \<Rightarrow> kstate option" where
  "spawn s t =
     (if queues s = [] then None
      else
        let counter = spawn_counter s;
            s1 = s\<lparr>spawn_counter := spawn_counter s + 1\<rparr>;
            cpu = unat counter mod length (queues s1);
            s2 = set_state s1 t Ready;
            lq = queues s2 ! cpu in
        Some (set_local s2 cpu (lq\<lparr>thread_queue := thread_queue lq @ [t]\<rparr>)))"

definition unblock :: "kstate \<Rightarrow> nat \<Rightarrow> kstate option" where
  "unblock s t = spawn s t"

text \<open>
  \<open>block_current\<close> up to the final \<open>yield_now\<close>, which enters \<open>schedule\<close> through an exception. The wait
  queue is an argument and part of the result.
\<close>

definition block_current :: "kstate \<Rightarrow> nat \<Rightarrow> nat list \<Rightarrow> (nat list \<times> kstate) option" where
  "block_current s cpu wq =
     (if cpu \<ge> length (queues s) then None
      else
        case current_thread (queues s ! cpu) of
          None \<Rightarrow> Some (wq, s)
        | Some t \<Rightarrow> Some (wq @ [t], set_state s t Blocked))"

definition sched_current_thread :: "kstate \<Rightarrow> nat \<Rightarrow> nat option option" where
  "sched_current_thread s cpu =
     (if cpu \<ge> length (queues s) then None else Some (current_thread (queues s ! cpu)))"

text \<open>
  \<open>schedule\<close> gets the register file of the interrupted code and returns the one to resume: the
  interrupted frame itself, or the saved context of a thread at some address.
\<close>

datatype ctx_ref = Frame | SavedCtx u64

definition save_prev :: "kstate \<Rightarrow> nat \<Rightarrow> register_file \<Rightarrow> nat option \<Rightarrow> kstate option" where
  "save_prev s cpu ctx prev =
     (case prev of None \<Rightarrow> Some s
      | Some p \<Rightarrow>
          (case with_ctx_mut s p (\<lambda>_. ctx) of None \<Rightarrow> None
           | Some s1 \<Rightarrow>
               Some (if get_state s1 p = Running then
                       let s2 = set_state s1 p Ready; lq = queues s2 ! cpu in
                       set_local s2 cpu (lq\<lparr>thread_queue := thread_queue lq @ [p]\<rparr>)
                     else s1)))"

definition switch_to :: "kstate \<Rightarrow> nat \<Rightarrow> nat \<Rightarrow> (ctx_ref \<times> kstate) option" where
  "switch_to s cpu n =
     (let s1 = set_state s n Running;
          s2 = (case thread_process s1 n of None \<Rightarrow> s1
                | Some p \<Rightarrow> s1\<lparr>ttbr0 := address_space_root p\<rparr>);
          s3 = set_local s2 cpu ((queues s2 ! cpu)\<lparr>current_thread := Some n\<rparr>) in
      case with_ctx_mut s3 n (\<lambda>c. c) of None \<Rightarrow> None
      | Some s4 \<Rightarrow> Some (SavedCtx (kernel_sp (threads s4 ! n)), s4))"

definition schedule :: "kstate \<Rightarrow> nat \<Rightarrow> register_file \<Rightarrow> (ctx_ref \<times> kstate) option" where
  "schedule s cpu ctx =
     (if cpu \<ge> length (queues s) then None
      else
        let lq = queues s ! cpu; prev = current_thread lq;
            s1 = set_local s cpu (lq\<lparr>current_thread := None\<rparr>) in
        case save_prev s1 cpu ctx prev of None \<Rightarrow> None
        | Some s2 \<Rightarrow>
            let lq2 = queues s2 ! cpu;
                (next_thread, lq3) =
                  (case thread_queue lq2 of [] \<Rightarrow> (prev, lq2)
                   | t # ts \<Rightarrow> (Some t, lq2\<lparr>thread_queue := ts\<rparr>));
                s3 = set_local s2 cpu lq3 in
            case next_thread of None \<Rightarrow> Some (Frame, s3)
            | Some n \<Rightarrow>
                if prev = Some n
                then Some (Frame, set_local s3 cpu (lq3\<lparr>current_thread := Some n\<rparr>))
                else switch_to s3 cpu n)"

section \<open>Lemmas\<close>

definition sched_valid :: "kstate \<Rightarrow> bool" where
  "sched_valid s \<longleftrightarrow> (\<forall>lq \<in> set (queues s). (\<forall>t \<in> set (thread_queue lq). t < length (threads s)) \<and>
     (\<forall>t. current_thread lq = Some t \<longrightarrow> t < length (threads s)))"

lemma set_local_simps [simp]:
  "threads (set_local s cpu lq) = threads s" "ctx_mem (set_local s cpu lq) = ctx_mem s"
  "length (queues (set_local s cpu lq)) = length (queues s)"
  "cpu < length (queues s) \<Longrightarrow> queues (set_local s cpu lq) ! cpu = lq"
  "get_state (set_local s cpu lq) t = get_state s t"
  by (simp_all add: set_local_def get_state_def)

lemma set_state_simps [simp]:
  "queues (set_state s t st) = queues s" "length (threads (set_state s t st)) = length (threads s)"
  "ctx_mem (set_state s t st) = ctx_mem s" "spawn_counter (set_state s t st) = spawn_counter s"
  "u < length (threads s) \<Longrightarrow>
   get_state (set_state s t st) u = (if u = t then st else get_state s u)"
  by (simp_all add: set_state_def get_state_def nth_list_update)

lemma with_ctx_mut_Some:
  "with_ctx_mut s t f = Some s' \<longleftrightarrow> get_state s t \<noteq> Running \<and>
   s' = s\<lparr>ctx_mem := (ctx_mem s)(kernel_sp (threads s ! t) := f (ctx_mem s (kernel_sp (threads s ! t))))\<rparr>"
  by (auto simp: with_ctx_mut_def Let_def)

text \<open>A switch marks the next thread as running and then asks for its context, which panics.\<close>

lemma switch_to_None: "n < length (threads s) \<Longrightarrow> switch_to s cpu n = None"
proof -
  assume n: "n < length (threads s)"
  have "get_state (case thread_process s' m of None \<Rightarrow> s' | Some p \<Rightarrow> s'\<lparr>ttbr0 := address_space_root p\<rparr>) k
      = get_state s' k" for s' m k
    by (simp add: get_state_def split: option.split)
  then show ?thesis using n by (simp add: switch_to_def with_ctx_mut_def Let_def)
qed

lemma save_prev_Some:
  assumes "save_prev s cpu ctx prev = Some s'"
  shows "queues s' = queues s \<and> threads s' = threads s"
  using assms by (auto simp: save_prev_def with_ctx_mut_def Let_def get_state_def split: option.splits if_splits)

lemma save_prev_None:
  "save_prev s cpu ctx prev = None \<longleftrightarrow> (\<exists>p. prev = Some p \<and> get_state s p = Running)"
  by (auto simp: save_prev_def with_ctx_mut_def Let_def split: option.splits)

lemma schedule_result:
  assumes "cpu < length (queues s)" and "sched_valid s"
    and "lq = queues s ! cpu" and "prev = current_thread lq"
  shows "if (\<exists>p. prev = Some p \<and> get_state s p = Running) \<or>
      (\<exists>t ts. thread_queue lq = t # ts \<and> prev \<noteq> Some t)
    then schedule s cpu ctx = None
    else \<exists>s'. schedule s cpu ctx = Some (Frame, s') \<and> current_thread (queues s' ! cpu) = prev \<and>
      threads s' = threads s"
proof -
  let ?s1 = "set_local s cpu (lq\<lparr>current_thread := None\<rparr>)"
  have sp: "save_prev ?s1 cpu ctx prev = None \<longleftrightarrow> (\<exists>p. prev = Some p \<and> get_state s p = Running)"
    by (simp add: save_prev_None)
  show ?thesis
  proof (cases "save_prev ?s1 cpu ctx prev")
    case None
    then show ?thesis using assms sp by (simp add: schedule_def Let_def)
  next
    case (Some s2)
    note ok = save_prev_Some [OF Some]
    have q: "queues s2 ! cpu = lq\<lparr>current_thread := None\<rparr>" "threads s2 = threads s"
        "cpu < length (queues s2)"
      using ok assms(1) by simp_all
    show ?thesis
    proof (cases "thread_queue lq")
      case Nil
      then show ?thesis using sp Some q assms(1)
        by (auto simp: schedule_def Let_def assms(3,4) [symmetric] split: option.splits)
    next
      case (Cons t ts)
      then have "t < length (threads s)"
        using assms(1-3) unfolding sched_valid_def by (metis list.set_intros(1) nth_mem)
      then show ?thesis using Cons sp Some q assms(1)
        by (auto simp: schedule_def Let_def assms(3,4) [symmetric] switch_to_None)
    qed
  qed
qed

text \<open>Thread ids of successive allocations.\<close>

definition alloc_ids :: "nat \<Rightarrow> kstate \<Rightarrow> u32 list" where
  "alloc_ids n s = map (\<lambda>i. fst (thread_id_alloc (((\<lambda>s. snd (thread_id_alloc s)) ^^ i) s))) [0..<n]"

lemma alloc_ids_nth: "i < n \<Longrightarrow> alloc_ids n s ! i = next_id s + of_nat i"
proof -
  have "next_id (((\<lambda>s. snd (thread_id_alloc s)) ^^ i) s) = next_id s + of_nat i"
    by (induction i) (simp_all add: thread_id_alloc_def algebra_simps)
  then show "i < n \<Longrightarrow> ?thesis" by (simp add: alloc_ids_def thread_id_alloc_def)
qed

text \<open>Spawning a list of threads one after the other.\<close>

fun spawn_all :: "kstate \<Rightarrow> nat list \<Rightarrow> kstate option" where
  "spawn_all s [] = Some s"
| "spawn_all s (t # ts) = (case spawn s t of None \<Rightarrow> None | Some s' \<Rightarrow> spawn_all s' ts)"

lemma spawn_Some:
  assumes "queues s \<noteq> []"
  obtains s' where "spawn s t = Some s'" and "length (queues s') = length (queues s)"
    and "spawn_counter s' = spawn_counter s + 1" and "length (threads s') = length (threads s)"
    and "\<And>u. u < length (threads s) \<Longrightarrow> get_state s' u = (if u = t then Ready else get_state s u)"
    and "\<And>cpu. cpu < length (queues s) \<Longrightarrow> thread_queue (queues s' ! cpu) = thread_queue (queues s ! cpu)
      @ (if cpu = unat (spawn_counter s) mod length (queues s) then [t] else [])"
    and "\<And>cpu. cpu < length (queues s) \<Longrightarrow> current_thread (queues s' ! cpu) = current_thread (queues s ! cpu)"
proof -
  let ?cpu = "unat (spawn_counter s) mod length (queues s)"
  let ?s1 = "set_state (s\<lparr>spawn_counter := spawn_counter s + 1\<rparr>) t Ready"
  let ?s' = "set_local ?s1 ?cpu ((queues s ! ?cpu)\<lparr>thread_queue := thread_queue (queues s ! ?cpu) @ [t]\<rparr>)"
  have c: "?cpu < length (queues s)" using assms by simp
  have sp: "spawn s t = Some ?s'" using assms by (simp add: spawn_def Let_def)
  show thesis
  proof (rule that [OF sp])
    show "get_state ?s' u = (if u = t then Ready else get_state s u)" if "u < length (threads s)" for u
      using that by (simp add: get_state_def set_state_def set_local_def nth_list_update)
    show "thread_queue (queues ?s' ! cpu) = thread_queue (queues s ! cpu)
        @ (if cpu = ?cpu then [t] else [])" if "cpu < length (queues s)" for cpu
      using that c by (simp add: set_local_def nth_list_update)
    show "current_thread (queues ?s' ! cpu) = current_thread (queues s ! cpu)"
      if "cpu < length (queues s)" for cpu
      using that c by (simp add: set_local_def nth_list_update)
  qed (simp_all add: set_local_def)
qed

lemma map_nth_filter_Cons:
  "map (nth (x # xs)) (filter P [0..<length (x # xs)]) =
   (if P 0 then [x] else []) @ map (nth xs) (filter (\<lambda>i. P (Suc i)) [0..<length xs])"
proof -
  have "[0..<length (x # xs)] = 0 # map Suc [0..<length xs]"
    by (simp only: length_Cons map_Suc_upt upt_conv_Cons zero_less_Suc One_nat_def)
  then show ?thesis by (simp add: filter_map comp_def)
qed

lemma spawn_all_queues:
  assumes "queues s \<noteq> []"
  shows "\<exists>s'. spawn_all s ts = Some s' \<and> length (queues s') = length (queues s) \<and>
    (\<forall>cpu < length (queues s). thread_queue (queues s' ! cpu) = thread_queue (queues s ! cpu) @
       map (nth ts) (filter (\<lambda>i. unat (spawn_counter s + of_nat i) mod length (queues s) = cpu)
         [0..<length ts]))"
  using assms
proof (induction ts arbitrary: s)
  case Nil
  then show ?case by simp
next
  case (Cons t ts)
  obtain s1 where s1: "spawn s t = Some s1" "length (queues s1) = length (queues s)"
    "spawn_counter s1 = spawn_counter s + 1"
    "\<And>cpu. cpu < length (queues s) \<Longrightarrow> thread_queue (queues s1 ! cpu) = thread_queue (queues s ! cpu)
      @ (if cpu = unat (spawn_counter s) mod length (queues s) then [t] else [])"
    using spawn_Some [OF Cons.prems, of t] by metis
  have ne: "queues s1 \<noteq> []" using Cons.prems s1(2) by auto
  obtain s' where s': "spawn_all s1 ts = Some s'" "length (queues s') = length (queues s1)"
    "\<And>cpu. cpu < length (queues s1) \<Longrightarrow> thread_queue (queues s' ! cpu) = thread_queue (queues s1 ! cpu) @
       map (nth ts) (filter (\<lambda>i. unat (spawn_counter s1 + of_nat i) mod length (queues s1) = cpu)
         [0..<length ts])"
    using Cons.IH [OF ne] by blast
  have shift: "spawn_counter s1 + of_nat i = spawn_counter s + of_nat (Suc i)" for i
    by (simp add: s1(3) algebra_simps)
  have "thread_queue (queues s' ! cpu) = thread_queue (queues s ! cpu) @
      map (nth (t # ts)) (filter (\<lambda>i. unat (spawn_counter s + of_nat i) mod length (queues s) = cpu)
        [0..<length (t # ts)])" if "cpu < length (queues s)" for cpu
  proof -
    have "thread_queue (queues s' ! cpu) = thread_queue (queues s1 ! cpu) @ map (nth ts)
        (filter (\<lambda>i. unat (spawn_counter s + of_nat (Suc i)) mod length (queues s) = cpu) [0..<length ts])"
      using s'(3) [of cpu] s1(2) that unfolding shift by (simp only:)
    then show ?thesis unfolding map_nth_filter_Cons s1(4) [OF that] by simp
  qed
  then show ?case using s1(1,2) s'(1,2) by simp
qed

text \<open>A state for the witnesses: one processor, one thread.\<close>

definition zero_regs :: register_file where
  "zero_regs = \<lparr>registers = replicate 31 0, sp = 0, elr = 0, spsr = 0, esr = 0, far = 0\<rparr>"

definition one_thread :: "thread_state \<Rightarrow> nat list \<Rightarrow> nat option \<Rightarrow> kstate" where
  "one_thread st q cur =
     \<lparr>threads = [\<lparr>thread_id = 0, t_state = st, priority = 0, kernel_sp = 0x4000, t_stack = None,
        t_process = None, is_kernel = True\<rparr>],
      procs = [], ctx_mem = (\<lambda>_. zero_regs), next_id = 1,
      queues = [\<lparr>thread_queue = q, current_thread = cur\<rparr>], spawn_counter = 0, ttbr0 = 0\<rparr>"

section \<open>Properties\<close>

text \<open>C32: \<open>schedule\<close> never resumes another thread. It panics whenever the current thread is running or
  a thread other than the current one is first in the queue, because \<open>with_ctx_mut\<close> refuses a running
  thread; otherwise it returns the interrupted frame and the current thread stays the same.\<close>

theorem schedule_never_switches:
  assumes "cpu < length (queues s)" and "sched_valid s"
  shows "if (\<exists>p. current_thread (queues s ! cpu) = Some p \<and> get_state s p = Running) \<or>
      (\<exists>t ts. thread_queue (queues s ! cpu) = t # ts \<and> current_thread (queues s ! cpu) \<noteq> Some t)
    then schedule s cpu ctx = None
    else \<exists>s'. schedule s cpu ctx = Some (Frame, s') \<and> threads s' = threads s \<and>
      current_thread (queues s' ! cpu) = current_thread (queues s ! cpu)"
  using schedule_result [OF assms refl refl, of ctx] by (auto split: if_splits)

theorem schedule_never_switches_witness:
  "schedule (one_thread Ready [0] None) 0 zero_regs = None"
proof -
  have "sched_valid (one_thread Ready [0] None)" by (simp add: sched_valid_def one_thread_def)
  with schedule_never_switches [of 0 "one_thread Ready [0] None" zero_regs]
  show ?thesis by (simp add: one_thread_def)
qed

text \<open>\<open>block_current\<close> marks the current thread blocked and queues it, but with an empty run queue
  the following \<open>schedule\<close> resumes the very same thread, still marked blocked.\<close>

theorem blocked_thread_keeps_running:
  assumes "cpu < length (queues s)" and "sched_valid s"
    and "current_thread (queues s ! cpu) = Some t" and "thread_queue (queues s ! cpu) = []"
  shows "\<exists>s1 s2. block_current s cpu wq = Some (wq @ [t], s1) \<and> get_state s1 t = Blocked \<and>
    schedule s1 cpu ctx = Some (Frame, s2) \<and> current_thread (queues s2 ! cpu) = Some t \<and>
    get_state s2 t = Blocked"
proof -
  let ?s1 = "set_state s t Blocked"
  have t: "t < length (threads s)"
    using assms(1-3) unfolding sched_valid_def by (metis nth_mem)
  have v: "sched_valid ?s1" using assms(2) by (simp add: sched_valid_def)
  have b: "block_current s cpu wq = Some (wq @ [t], ?s1)" using assms(1,3) by (simp add: block_current_def)
  have st: "get_state ?s1 t = Blocked" using t by simp
  obtain s2 where "schedule ?s1 cpu ctx = Some (Frame, s2)" "current_thread (queues s2 ! cpu) = Some t"
    "threads s2 = threads ?s1"
    using schedule_result [of cpu ?s1 "queues s ! cpu" "Some t" ctx] assms(1,3,4) v st by auto
  then show ?thesis using b st by (auto simp: get_state_def)
qed

theorem blocked_thread_keeps_running_witness:
  "\<exists>s1 s2. block_current (one_thread Running [] (Some 0)) 0 [] = Some ([0], s1) \<and>
    schedule s1 0 zero_regs = Some (Frame, s2) \<and> get_state s2 0 = Blocked"
proof -
  have "sched_valid (one_thread Running [] (Some 0))" by (simp add: sched_valid_def one_thread_def)
  with blocked_thread_keeps_running [of 0 "one_thread Running [] (Some 0)" 0 "[]" zero_regs]
  show ?thesis by (auto simp: one_thread_def)
qed

text \<open>Spawning threads one after the other distributes them over the processors in turn, starting
  from the counter and following it through its wrap-around at 256; no thread is lost and the threads
  already queued stay in front.\<close>

theorem spawn_round_robin:
  assumes "queues s \<noteq> []"
  shows "\<exists>s'. spawn_all s ts = Some s' \<and>
    (\<forall>cpu < length (queues s). thread_queue (queues s' ! cpu) = thread_queue (queues s ! cpu) @
       map (nth ts) (filter (\<lambda>i. unat (spawn_counter s + of_nat i) mod length (queues s) = cpu)
         [0..<length ts]))"
  using spawn_all_queues [OF assms, of ts] by blast

theorem spawn_round_robin_witness:
  "let s = (one_thread Ready [] None)\<lparr>queues := [local_new, local_new]\<rparr> in
   \<exists>s'. spawn_all s [0, 0] = Some s' \<and> thread_queue (queues s' ! 1) = [0]"
proof -
  let ?s = "(one_thread Ready [] None)\<lparr>queues := [local_new, local_new]\<rparr>"
  have "queues ?s \<noteq> []" by simp
  from spawn_round_robin [OF this, of "[0, 0]"]
  show ?thesis by (auto simp: one_thread_def local_new_def Let_def)
qed

text \<open>Up to \<open>2 ^ 32\<close> consecutive thread ids are distinct, and the next one repeats the first.\<close>

theorem thread_ids_distinct:
  assumes "n \<le> 2 ^ 32"
  shows "distinct (alloc_ids n s) \<and> alloc_ids (2 ^ 32 + 1) s ! (2 ^ 32) = next_id s"
proof
  have len: "length (alloc_ids n s) = n" by (simp add: alloc_ids_def)
  show "distinct (alloc_ids n s)"
  proof (unfold distinct_conv_nth len, intro allI impI)
    fix i j assume h: "i < n" "j < n" "i \<noteq> j"
    then have "unat (of_nat i :: u32) \<noteq> unat (of_nat j :: u32)"
      using assms by (simp add: unat_of_nat take_bit_nat_eq_self)
    then have "(of_nat i :: u32) \<noteq> of_nat j" by metis
    then show "alloc_ids n s ! i \<noteq> alloc_ids n s ! j" using h by (simp add: alloc_ids_nth)
  qed
  have "(of_nat (2 ^ 32) :: u32) = 0" by (simp add: word_of_nat_eq_0_iff)
  then show "alloc_ids (2 ^ 32 + 1) s ! (2 ^ 32) = next_id s"
    by (subst alloc_ids_nth) simp_all
qed

theorem thread_ids_distinct_witness:
  "distinct (alloc_ids 3 (one_thread Ready [] None)) \<and>
   alloc_ids (2 ^ 32 + 1) (one_thread Ready [] None) ! (2 ^ 32) = 1"
  using thread_ids_distinct [of 3 "one_thread Ready [] None"] by (simp add: one_thread_def)

text \<open>A new thread is ready, has the next id, and its saved context, which lies inside its stack
  and is aligned to 16 bytes when the stack is, starts at the given address with the stack pointer at
  the top of the stack; the contexts at other addresses and the other threads are untouched.\<close>

theorem thread_new_context:
  assumes "thread_new_inner s process kern st pc prio spsr_value = (t, s')"
    and "unat (stack_ptr st) + unat (stack_size st) < 2 ^ 64" and "288 \<le> unat (stack_size st)"
    and "unat (stack_ptr st) mod 16 = 0" and "unat (stack_size st) mod 16 = 0"
  defines "p \<equiv> kernel_sp (threads s' ! t)"
  shows "get_state s' t = Ready \<and> thread_id (threads s' ! t) = next_id s \<and>
    unat (stack_bottom st) \<le> unat p \<and> unat p + 288 = unat (stack_top st) \<and> unat p mod 16 = 0 \<and>
    with_ctx s' t (\<lambda>c. (elr c, sp c, spsr c, registers c)) =
      Some (pc, stack_top st, spsr_value, replicate 31 0) \<and>
    (\<forall>a. a \<noteq> p \<longrightarrow> ctx_mem s' a = ctx_mem s a) \<and> take (length (threads s)) (threads s') = threads s"
proof -
  have top: "unat (stack_top st) = unat (stack_ptr st) + unat (stack_size st)"
    using assms(2) by (simp add: stack_top_def unat_word_ariths)
  have eq: "t = length (threads s)" "threads s' = threads s @ [\<lparr>thread_id = next_id s, t_state = Ready,
      priority = prio, kernel_sp = stack_top st - 288, t_stack = Some st, t_process = process,
      is_kernel = kern\<rparr>]"
    "ctx_mem s' = (ctx_mem s)(stack_top st - 288 := (ctx_mem s (stack_top st - 288))
       \<lparr>registers := replicate 31 0, elr := pc, spsr := spsr_value, sp := stack_top st\<rparr>)"
    using assms(1) by (auto simp: thread_new_inner_def thread_id_alloc_def REGISTER_FILE_SIZE_def Let_def)
  have p: "p = stack_top st - 288" using eq by (simp add: p_def)
  have le: "288 \<le> stack_top st" using top assms(3) by (simp add: word_le_nat_alt)
  then have up: "unat p = unat (stack_top st) - 288" by (simp add: p unat_sub)
  have up2: "unat p = unat (stack_ptr st) + (unat (stack_size st) - 288)"
    using up top assms(3) by simp
  have "unat p mod 16 = 0"
  proof -
    have "16 dvd unat (stack_ptr st)" "16 dvd unat (stack_size st)" using assms(4,5) by auto
    moreover have "(16 :: nat) dvd 288" by simp
    ultimately have "16 dvd unat p" unfolding up2 by (intro dvd_add dvd_diff_nat)
    then show ?thesis by simp
  qed
  then show ?thesis
    using eq p up up2 top assms(3) by (simp add: get_state_def with_ctx_def stack_bottom_def)
qed

theorem thread_new_context_witness:
  "let (t, s') = thread_new_inner (one_thread Ready [] None) None True
       \<lparr>stack_ptr = 0x8000, stack_size = 0x4000\<rparr> 0x1234 7 5 in
   unat (kernel_sp (threads s' ! t)) + 288 = 0xC000 \<and> get_state s' t = Ready"
proof -
  obtain t s' where n: "thread_new_inner (one_thread Ready [] None) None True
       \<lparr>stack_ptr = 0x8000, stack_size = 0x4000\<rparr> 0x1234 7 5 = (t, s')" by fastforce
  from thread_new_context [OF n] n show ?thesis by (simp add: stack_top_def)
qed

text \<open>\<open>register_cpu\<close> makes the queue of the given processor exist without touching the queues that
  do, so that \<open>spawn\<close> has somewhere to put a thread; registering again changes nothing.\<close>

theorem register_cpu_grows:
  "length (queues (register_cpu s cpu)) = max (length (queues s)) (cpu + 1) \<and>
   take (length (queues s)) (queues (register_cpu s cpu)) = queues s \<and>
   sched_current_thread (register_cpu s cpu) cpu \<noteq> None \<and>
   spawn (register_cpu s cpu) t \<noteq> None \<and>
   register_cpu (register_cpu s cpu) cpu = register_cpu s cpu"
proof -
  have len: "length (queues (register_cpu s cpu)) = max (length (queues s)) (cpu + 1)"
    by (simp add: register_cpu_def max_def)
  moreover have "queues (register_cpu s cpu) \<noteq> []" using len by auto
  ultimately show ?thesis
    by (auto simp: register_cpu_def sched_current_thread_def spawn_def Let_def)
qed

end
