(* ===== verification/Page_Allocator.thy ===== *)
theory Page_Allocator
  imports Vm_Core "HOL-Library.Monad_Syntax"
begin

text \<open>
  The buddy allocator of physical pages, \<open>klib/src/pm/page/mod.rs\<close>. Memory is explicit: the free
  blocks, the zone headers and the metadata bytes are maps from addresses, pointers are addresses
  with 0 for null, and an access outside the maps, a failed assertion or an \<open>expect\<close> is \<open>None\<close>.
  Addresses and page numbers are natural numbers: they lie inside regions whose end is a \<open>usize\<close>.
\<close>

section \<open>State\<close>

definition MAX_ORDER :: nat where "MAX_ORDER = 11"

definition FREE_FLAG :: u8 where "FREE_FLAG = 0x80"

text \<open>\<open>size_of::<Zone>()\<close>: four words of eight bytes.\<close>

definition ZONE_SIZE :: nat where "ZONE_SIZE = 32"

record free_block =
  fb_next :: nat
  fb_prev :: nat
  fb_zone :: nat
  fb_index :: nat

record zone =
  z_meta :: nat
  z_base :: nat
  z_total :: nat
  z_next :: nat

record page_allocator =
  zone_head :: nat
  free_area :: "nat list"
  total_pages :: usize
  allocated_pages :: usize
  lowest_address :: nat
  is_dmap :: bool
  blocks :: "nat \<Rightarrow> free_block option"
  zones :: "nat \<Rightarrow> zone option"
  meta :: "nat \<Rightarrow> u8 option"

definition pa_new :: page_allocator where
  "pa_new = \<lparr>zone_head = 0, free_area = replicate MAX_ORDER 0, total_pages = 0, allocated_pages = 0,
     lowest_address = 0, is_dmap = False, blocks = Map.empty, zones = Map.empty, meta = Map.empty\<rparr>"

section \<open>Primitives\<close>

text \<open>The byte of an allocated and of a free page of a block of the given order.\<close>

definition used_byte :: "nat \<Rightarrow> u8" where "used_byte k = of_nat k"

definition free_byte :: "nat \<Rightarrow> u8" where "free_byte k = of_nat k OR FREE_FLAG"

text \<open>The loops \<open>for p in 0..pages\<close> that write the metadata of a block.\<close>

definition fill_meta :: "page_allocator \<Rightarrow> nat \<Rightarrow> nat \<Rightarrow> nat \<Rightarrow> u8 \<Rightarrow> page_allocator" where
  "fill_meta s base i n v = fold (\<lambda>p s. s\<lparr>meta := (meta s)(base + i + p \<mapsto> v)\<rparr>) [0..<n] s"

definition set_prev :: "page_allocator \<Rightarrow> nat \<Rightarrow> nat \<Rightarrow> page_allocator option" where
  "set_prev s b p = do { fb \<leftarrow> blocks s b; Some (s\<lparr>blocks := (blocks s)(b \<mapsto> fb\<lparr>fb_prev := p\<rparr>)\<rparr>) }"

definition set_next :: "page_allocator \<Rightarrow> nat \<Rightarrow> nat \<Rightarrow> page_allocator option" where
  "set_next s b n = do { fb \<leftarrow> blocks s b; Some (s\<lparr>blocks := (blocks s)(b \<mapsto> fb\<lparr>fb_next := n\<rparr>)\<rparr>) }"

text \<open>Writing the four fields of a block and making it the head of the list of its order.\<close>

definition push_block :: "page_allocator \<Rightarrow> nat \<Rightarrow> nat \<Rightarrow> nat \<Rightarrow> nat \<Rightarrow> page_allocator option" where
  "push_block s block zp i order =
     (let old_head = free_area s ! order;
          s1 = s\<lparr>blocks := (blocks s)(block \<mapsto>
                 \<lparr>fb_next = old_head, fb_prev = 0, fb_zone = zp, fb_index = i\<rparr>)\<rparr> in
      do { s2 \<leftarrow> (if old_head \<noteq> 0 then set_prev s1 old_head block else Some s1);
           Some (s2\<lparr>free_area := (free_area s2)[order := block]\<rparr>) })"

text \<open>Taking the head of a list, and taking a block out of the middle of one.\<close>

definition pop_block :: "page_allocator \<Rightarrow> nat \<Rightarrow> (free_block \<times> page_allocator) option" where
  "pop_block s order =
     do { fb \<leftarrow> blocks s (free_area s ! order);
          let s1 = s\<lparr>free_area := (free_area s)[order := fb_next fb]\<rparr>;
          s2 \<leftarrow> (if fb_next fb \<noteq> 0 then set_prev s1 (fb_next fb) 0 else Some s1);
          Some (fb, s2) }"

definition unlink_block :: "page_allocator \<Rightarrow> nat \<Rightarrow> nat \<Rightarrow> page_allocator option" where
  "unlink_block s block order =
     do { fb \<leftarrow> blocks s block;
          s1 \<leftarrow> (if fb_prev fb \<noteq> 0 then set_next s (fb_prev fb) (fb_next fb)
                else Some (s\<lparr>free_area := (free_area s)[order := fb_next fb]\<rparr>));
          if fb_next fb \<noteq> 0 then set_prev s1 (fb_next fb) (fb_prev fb) else Some s1 }"

section \<open>Adding a range\<close>

text \<open>
  The loop that looks for the number of pages to reserve for the metadata. It need not stop, hence
  a partial function; \<open>None\<close> also stands for the \<open>expect\<close> on the subtraction.
\<close>

partial_function (option) reserve_loop :: "nat \<Rightarrow> nat \<Rightarrow> nat option" where
  "reserve_loop total_pages_reg reserved =
     (if reserved > total_pages_reg then None
      else
        let needed_bytes = (total_pages_reg - reserved) + ZONE_SIZE;
            needed_reserved = (needed_bytes + PAGE_SIZE - 1) div PAGE_SIZE in
        if needed_reserved = reserved then Some reserved
        else reserve_loop total_pages_reg needed_reserved)"

text \<open>\<open>ilog2\<close> and \<open>trailing_zeros\<close> of a page number that is not 0.\<close>

fun ilog2 :: "nat \<Rightarrow> nat" where
  "ilog2 n = (if n < 2 then 0 else Suc (ilog2 (n div 2)))"

fun nat_trailing_zeros :: "nat \<Rightarrow> nat" where
  "nat_trailing_zeros n = (if n = 0 \<or> odd n then 0 else Suc (nat_trailing_zeros (n div 2)))"

definition carve_order :: "nat \<Rightarrow> nat \<Rightarrow> nat" where
  "carve_order current usable =
     (let align_order = (if current = 0 then MAX_ORDER - 1 else nat_trailing_zeros current);
          size_order = ilog2 (usable - current) in
      min (min align_order size_order) (MAX_ORDER - 1))"

function carve :: "page_allocator \<Rightarrow> nat \<Rightarrow> zone \<Rightarrow> nat \<Rightarrow> page_allocator option" where
  "carve s zp z current =
     (if current < z_total z then
        let order = carve_order current (z_total z);
            s1 = fill_meta s (z_meta z) current (2 ^ order) (free_byte order) in
        do { s2 \<leftarrow> push_block s1 (z_base z + current * PAGE_SIZE) zp current order;
             carve s2 zp z (current + 2 ^ order) }
      else Some s)"
  by pat_completeness auto
termination
  by (relation "measure (\<lambda>(s, zp, z, current). z_total z - current)") (auto intro: diff_less_mono2)

definition add_range :: "page_allocator \<Rightarrow> nat \<Rightarrow> nat \<Rightarrow> page_allocator option" where
  "add_range s start fin =
     (if \<not> start < fin \<or> start mod PAGE_SIZE \<noteq> 0 \<or> fin mod PAGE_SIZE \<noteq> 0 then None
      else
        let total_pages_reg = (fin - start) div PAGE_SIZE in
        if total_pages_reg = 0 then Some s
        else do {
          reserved_pages \<leftarrow> reserve_loop total_pages_reg 0;
          let usable_pages = total_pages_reg - reserved_pages;
          if usable_pages = 0 then None
          else
            let reserved_bytes = reserved_pages * PAGE_SIZE;
                data_base = start + reserved_bytes;
                zp = start + reserved_bytes - ZONE_SIZE;
                z = \<lparr>z_meta = start, z_base = data_base, z_total = usable_pages, z_next = zone_head s\<rparr>;
                s1 = (if lowest_address s = 0 \<or> data_base < lowest_address s
                      then s\<lparr>lowest_address := data_base\<rparr> else s);
                s2 = fill_meta s1 start 0 usable_pages 0;
                s3 = s2\<lparr>zones := (zones s2)(zp \<mapsto> z), zone_head := zp,
                        total_pages := total_pages s2 + of_nat usable_pages\<rparr> in
            carve s3 zp z 0 })"

section \<open>Allocating and freeing\<close>

text \<open>The loop that splits a block until it has the wanted order.\<close>

fun split_loop :: "page_allocator \<Rightarrow> nat \<Rightarrow> zone \<Rightarrow> nat \<Rightarrow> nat \<Rightarrow> nat \<Rightarrow> page_allocator option" where
  "split_loop s zp z i split_order target =
     (if split_order > target then
        let order = split_order - 1;
            split_i = i + 2 ^ order;
            s1 = fill_meta s (z_meta z) split_i (2 ^ order) (free_byte order) in
        do { s2 \<leftarrow> push_block s1 (z_base z + split_i * PAGE_SIZE) zp split_i order;
             split_loop s2 zp z i order target }
      else Some s)"

fun alloc_loop :: "page_allocator \<Rightarrow> nat \<Rightarrow> nat list \<Rightarrow> (nat \<times> page_allocator) option" where
  "alloc_loop s target [] = Some (0, s)"
| "alloc_loop s target (order # orders) =
     (if free_area s ! order \<noteq> 0 then
        do { (fb, s1) \<leftarrow> pop_block s order;
             z \<leftarrow> zones s1 (fb_zone fb);
             let s2 = fill_meta s1 (z_meta z) (fb_index fb) (2 ^ target) (used_byte target);
             s3 \<leftarrow> split_loop s2 (fb_zone fb) z (fb_index fb) order target;
             Some (z_base z + fb_index fb * PAGE_SIZE,
                   s3\<lparr>allocated_pages := allocated_pages s3 + 2 ^ target\<rparr>) }
      else alloc_loop s target orders)"

definition alloc_pages :: "page_allocator \<Rightarrow> nat \<Rightarrow> (nat \<times> page_allocator) option" where
  "alloc_pages s target =
     (if target \<ge> MAX_ORDER then Some (0, s) else alloc_loop s target [target..<MAX_ORDER])"

definition alloc_page :: "page_allocator \<Rightarrow> (nat \<times> page_allocator) option" where
  "alloc_page s = alloc_pages s 0"

text \<open>The loop that merges a block with its buddy as long as the buddy is free and whole.\<close>

function merge_loop ::
  "page_allocator \<Rightarrow> zone \<Rightarrow> nat \<Rightarrow> nat \<Rightarrow> (nat \<times> nat \<times> page_allocator) option" where
  "merge_loop s z page_index order =
     (if order < MAX_ORDER - 1 then
        let index = page_index XOR (2 ^ order) in
        if index \<ge> z_total z \<or> index + 2 ^ order > z_total z then Some (page_index, order, s)
        else do {
          meta_val \<leftarrow> meta s (z_meta z + index);
          if meta_val AND FREE_FLAG = 0 \<or> meta_val AND NOT FREE_FLAG \<noteq> of_nat order
          then Some (page_index, order, s)
          else do {
            s1 \<leftarrow> unlink_block s (z_base z + index * PAGE_SIZE) order;
            merge_loop s1 z (unset_bit order page_index) (order + 1) } }
      else Some (page_index, order, s))"
  by pat_completeness auto
termination by (relation "measure (\<lambda>(s, z, i, order). MAX_ORDER - order)") auto

definition free_block_in_zone :: "page_allocator \<Rightarrow> nat \<Rightarrow> nat \<Rightarrow> nat \<Rightarrow> page_allocator option" where
  "free_block_in_zone s zp page_index order =
     do { z \<leftarrow> zones s zp;
          (i, k, s1) \<leftarrow> merge_loop s z page_index order;
          let s2 = fill_meta s1 (z_meta z) i (2 ^ k) (free_byte k);
          push_block s2 (z_base z + i * PAGE_SIZE) zp i k }"

text \<open>The walk over the zones for the one that holds an address; it may loop, hence a partial
  function. The result is \<open>Some None\<close> when the list ends.\<close>

partial_function (option) find_zone :: "page_allocator \<Rightarrow> nat \<Rightarrow> nat \<Rightarrow> (nat \<times> zone) option option" where
  "find_zone s zp addr =
     (if zp = 0 then Some None
      else do {
        z \<leftarrow> zones s zp;
        if z_base z \<le> addr \<and> addr < z_base z + z_total z * PAGE_SIZE then Some (Some (zp, z))
        else find_zone s (z_next z) addr })"

definition free_pages :: "page_allocator \<Rightarrow> nat \<Rightarrow> page_allocator option" where
  "free_pages s addr =
     (if addr = 0 then Some s
      else do {
        found \<leftarrow> find_zone s (zone_head s) addr;
        case found of
          None \<Rightarrow> None
        | Some (zp, z) \<Rightarrow>
            let off = addr - z_base z in
            if off mod PAGE_SIZE \<noteq> 0 then None
            else do {
              let index = off div PAGE_SIZE;
              meta_val \<leftarrow> meta s (z_meta z + index);
              if meta_val AND FREE_FLAG \<noteq> 0 then None
              else
                let order = unat (meta_val AND NOT FREE_FLAG);
                    s1 = s\<lparr>allocated_pages := allocated_pages s - 2 ^ order\<rparr> in
                free_block_in_zone s1 zp index order } })"

definition wipe :: "page_allocator \<Rightarrow> page_allocator" where
  "wipe s = s\<lparr>zone_head := 0, lowest_address := 0, free_area := replicate MAX_ORDER 0,
     total_pages := 0, allocated_pages := 0\<rparr>"

text \<open>The walks of \<open>overlapping_range\<close> and \<open>max_address\<close>; the translator is an argument.\<close>

partial_function (option) overlap_loop ::
  "(nat \<Rightarrow> nat) \<Rightarrow> page_allocator \<Rightarrow> nat \<Rightarrow> nat \<Rightarrow> nat \<Rightarrow> (nat \<times> nat) option option" where
  "overlap_loop dmap_to_phys s zp start fin =
     (if dmap_to_phys zp = 0 then Some None
      else do {
        z \<leftarrow> zones s zp;
        let zone_start = dmap_to_phys (z_meta z);
        let zone_end = dmap_to_phys (z_base z + z_total z * PAGE_SIZE);
        if start < zone_end \<and> zone_start < fin then Some (Some (zone_start, zone_end))
        else overlap_loop dmap_to_phys s (z_next z) start fin })"

definition overlapping_range ::
  "(nat \<Rightarrow> nat) \<Rightarrow> page_allocator \<Rightarrow> nat \<Rightarrow> nat \<Rightarrow> (nat \<times> nat) option option" where
  "overlapping_range dmap_to_phys s start fin =
     (if start \<ge> fin then Some None else overlap_loop dmap_to_phys s (zone_head s) start fin)"

partial_function (option) max_address_loop :: "page_allocator \<Rightarrow> nat \<Rightarrow> nat \<Rightarrow> nat option" where
  "max_address_loop s zp m =
     (if zp = 0 then Some m
      else do {
        z \<leftarrow> zones s zp;
        let fin = z_base z + z_total z * PAGE_SIZE;
        max_address_loop s (z_next z) (if fin > m then fin else m) })"

definition max_address :: "page_allocator \<Rightarrow> nat option" where
  "max_address s = max_address_loop s (zone_head s) 0"

definition min_address :: "page_allocator \<Rightarrow> nat" where
  "min_address s = lowest_address s"

text \<open>The allocator traits for single pages, in physical and in direct-map addresses.\<close>

definition alloc_phys_page ::
  "(nat \<Rightarrow> nat) \<Rightarrow> page_allocator \<Rightarrow> ((vm_error + nat) \<times> page_allocator) option" where
  "alloc_phys_page dmap_to_phys s =
     do { (page_addr, s') \<leftarrow> alloc_page s;
          Some (Inr (if is_dmap s' then dmap_to_phys page_addr else page_addr), s') }"

definition free_phys_page :: "(nat \<Rightarrow> nat) \<Rightarrow> page_allocator \<Rightarrow> nat \<Rightarrow> page_allocator option" where
  "free_phys_page phys_to_dmap s pa = free_pages s (if is_dmap s then phys_to_dmap pa else pa)"

definition alloc_dmap_page ::
  "(nat \<Rightarrow> nat) \<Rightarrow> page_allocator \<Rightarrow> ((vm_error + nat) \<times> page_allocator) option" where
  "alloc_dmap_page phys_to_dmap s =
     do { (page_addr, s') \<leftarrow> alloc_page s;
          Some (Inr (if is_dmap s' then page_addr else phys_to_dmap page_addr), s') }"

definition free_dmap_page :: "(nat \<Rightarrow> nat) \<Rightarrow> page_allocator \<Rightarrow> nat \<Rightarrow> page_allocator option" where
  "free_dmap_page dmap_to_phys s va = free_pages s (if is_dmap s then va else dmap_to_phys va)"

declare ilog2.simps [simp del] nat_trailing_zeros.simps [simp del] carve.simps [simp del]
  split_loop.simps [simp del] merge_loop.simps [simp del]

section \<open>The reserve loop\<close>

definition needed_pages :: "nat \<Rightarrow> nat \<Rightarrow> nat" where
  "needed_pages tot reserved = (tot - reserved + ZONE_SIZE + PAGE_SIZE - 1) div PAGE_SIZE"

lemma reserve_loop_step:
  "reserve_loop tot r =
     (if r > tot then None
      else if needed_pages tot r = r then Some r else reserve_loop tot (needed_pages tot r))"
  by (subst reserve_loop.simps) (simp add: needed_pages_def Let_def)

text \<open>The loop returns a fixpoint only.\<close>

lemma reserve_loop_fixpoint:
  assumes "reserve_loop tot r = Some x"
  shows "x \<le> tot \<and> needed_pages tot x = x"
  by (rule reserve_loop.raw_induct
        [where P = "\<lambda>tot r x. x \<le> tot \<and> needed_pages tot x = x", OF _ assms])
    (simp only: Let_def needed_pages_def [symmetric], auto split: if_splits)

lemma div_page_bounds:
  fixes e :: int
  shows "16384 * (e div 16384) \<le> e" and "e < 16384 * (e div 16384) + 16384"
  by simp_all

lemma needed_pages_val: "needed_pages tot r = (tot - r + 16415) div 16384"
  by (simp add: needed_pages_def ZONE_SIZE_def PAGE_SIZE_val)

lemma fixpoint_not_dvd:
  assumes "needed_pages tot x = x" and "x \<le> tot"
  shows "\<not> 16385 dvd (tot + 31)"
proof
  assume "16385 dvd (tot + 31)"
  then obtain m where m: "tot + 31 = 16385 * m" by blast
  obtain y where y: "tot = x + y" using assms(2) le_Suc_ex by blast
  define A where "A = y + 16415"
  have "A div 16384 = x" using assms(1) by (simp add: needed_pages_val A_def y)
  then have "16384 * x \<le> A" "A < 16384 * (x + 1)"
    using div_less_iff_less_mult [of 16384 A "x + 1"] less_eq_div_iff_mult_less_eq [of 16384 x A]
    by simp_all
  then have h: "16384 * x \<le> y + 16415" "y + 16415 < 16384 * x + 16384" by (simp_all add: A_def)
  then have "x + y + 31 < 16385 * x" by linarith
  then have "m + 1 \<le> x" using m y by simp
  moreover have "16385 * x \<le> x + y + 31 + 16384" using h by linarith
  then have "16385 * x \<le> 16385 * m + 16384" using m y by simp
  ultimately show False by linarith
qed

text \<open>The distance of the current value from the fixpoint, as a signed number, follows this map.\<close>

lemma needed_pages_distance:
  fixes d \<rho> :: int
  assumes "int tot + 16415 = 16385 * int x + \<rho>" and "int r = int x + d" and "r \<le> tot"
  shows "int (needed_pages tot r) = int x + (\<rho> - d) div 16384"
proof -
  have "int (tot - r + 16415) = 16384 * int x + (\<rho> - d)" using assms by (simp add: of_nat_diff)
  then have "int (needed_pages tot r) = (16384 * int x + (\<rho> - d)) div 16384"
    by (simp only: needed_pages_val zdiv_int) simp
  also have "\<dots> = int x + (\<rho> - d) div 16384" by simp
  finally show ?thesis .
qed

lemma distance_shrinks:
  fixes d \<rho> :: int
  assumes "0 \<le> \<rho>" and "\<rho> < 16384" and "2 \<le> \<bar>d\<bar>"
  shows "\<bar>(\<rho> - d) div 16384\<bar> < \<bar>d\<bar>"
  using div_page_bounds [of "\<rho> - d"] assms by linarith

lemma needed_pages_le: "0 < tot \<Longrightarrow> needed_pages tot r \<le> tot"
  unfolding needed_pages_val by linarith

lemma reserve_loop_near:
  fixes d \<rho> :: int
  assumes "0 < tot" and "int tot + 16415 = 16385 * int x + \<rho>" and "0 \<le> \<rho>" and "\<rho> < 16384"
    and "int r = int x + d" and "r \<le> tot" and "\<bar>d\<bar> \<le> 1"
  shows "reserve_loop tot r = Some x"
proof -
  have zero: "reserve_loop tot r' = Some x" if "int r' = int x + d'" "r' \<le> tot" "(\<rho> - d') div 16384 = 0" for r' d'
  proof -
    have "needed_pages tot r' = x" using needed_pages_distance [OF assms(2) that(1,2)] that(3) by simp
    moreover have "needed_pages tot x = x"
      using needed_pages_distance [OF assms(2), of x 0] assms(3,4) needed_pages_le [OF assms(1), of r']
        \<open>needed_pages tot r' = x\<close> by simp
    moreover have "x \<le> tot" using needed_pages_le [OF assms(1), of r'] calculation(1) by simp
    ultimately show ?thesis
      using that(2) by (subst reserve_loop_step) (auto simp: reserve_loop_step [of tot x])
  qed
  show ?thesis
  proof (cases "(\<rho> - d) div 16384 = 0")
    case True
    then show ?thesis using zero assms(5,6) by blast
  next
    case False
    define d' where "d' = (\<rho> - d) div 16384"
    have d': "(\<rho> - d') div 16384 = 0" 
      using div_page_bounds [of "\<rho> - d"] False assms(3,4,7) unfolding d'_def
      by (intro div_pos_pos_trivial) linarith+
    have nz: "d' \<noteq> d"
      using div_page_bounds [of "\<rho> - d"] False assms(3,4,7) unfolding d'_def by linarith
    have n: "int (needed_pages tot r) = int x + d'"
      unfolding d'_def by (rule needed_pages_distance [OF assms(2,5,6)])
    then have "needed_pages tot r \<noteq> r" using nz assms(5) by auto
    then have "reserve_loop tot r = reserve_loop tot (needed_pages tot r)"
      using assms(6) by (subst reserve_loop_step) simp
    also have "\<dots> = Some x" by (rule zero [OF n needed_pages_le [OF assms(1)] d'])
    finally show ?thesis .
  qed
qed

lemma reserve_loop_returns:
  fixes d \<rho> :: int
  assumes "0 < tot" and "int tot + 16415 = 16385 * int x + \<rho>" and "0 \<le> \<rho>" and "\<rho> < 16384"
    and "int r = int x + d" and "r \<le> tot"
  shows "reserve_loop tot r = Some x"
  using assms(5,6)
proof (induction "nat \<bar>d\<bar>" arbitrary: d r rule: less_induct)
  case less
  show ?case
  proof (cases "\<bar>d\<bar> \<le> 1")
    case True
    then show ?thesis using reserve_loop_near [OF assms(1-4) less.prems] by blast
  next
    case False
    let ?d = "(\<rho> - d) div 16384"
    have lt: "\<bar>?d\<bar> < \<bar>d\<bar>" using distance_shrinks [OF assms(3,4), of d] False by linarith
    have n: "int (needed_pages tot r) = int x + ?d" by (rule needed_pages_distance [OF assms(2) less.prems])
    then have "needed_pages tot r \<noteq> r" using lt less.prems(1) by auto
    then have "reserve_loop tot r = reserve_loop tot (needed_pages tot r)"
      using less.prems(2) by (subst reserve_loop_step) simp
    also have "\<dots> = Some x" using less.hyps [OF _ n needed_pages_le [OF assms(1)]] lt by simp
    finally show ?thesis .
  qed
qed

text \<open>Exactly for which sizes the loop stops.\<close>

lemma reserve_loop_stops_iff:
  assumes "0 < tot"
  shows "(\<exists>r. reserve_loop tot 0 = Some r) \<longleftrightarrow> \<not> 16385 dvd (tot + 31)"
proof
  assume "\<exists>r. reserve_loop tot 0 = Some r"
  then show "\<not> 16385 dvd (tot + 31)" using reserve_loop_fixpoint fixpoint_not_dvd by blast
next
  assume nd: "\<not> 16385 dvd (tot + 31)"
  define x where "x = (tot + 16415) div 16385"
  define \<rho> where "\<rho> = (tot + 16415) mod 16385"
  have e: "tot + 16415 = 16385 * x + \<rho>" by (simp add: x_def \<rho>_def)
  have "\<rho> < 16385" by (simp add: \<rho>_def)
  moreover have "\<rho> \<noteq> 16384"
  proof
    assume "\<rho> = 16384"
    then have "tot + 31 = 16385 * x" using e by simp
    then show False using nd by simp
  qed
  ultimately have "int \<rho> < 16384" by linarith
  moreover have "int tot + 16415 = 16385 * int x + int \<rho>" using e by linarith
  ultimately show "\<exists>r. reserve_loop tot 0 = Some r"
    using reserve_loop_returns [OF assms, of x "int \<rho>" 0 "- int x"] by auto
qed

end
