(* ===== verification/Page_Lists.thy ===== *)
theory Page_Lists
  imports Page_Allocator
begin

text \<open>
  The free lists of the page allocator: the doubly linked lists in the heap of free blocks represent
  lists of addresses, and the three primitives that change them are list operations.
\<close>

section \<open>Linked lists in the heap\<close>

text \<open>
  \<open>dseg h p prev xs q\<close>: starting at \<open>p\<close>, with \<open>prev\<close> as predecessor, the heap holds the elements
  \<open>xs\<close>, and the last of them points to \<open>q\<close>.
\<close>

fun dseg :: "(nat \<Rightarrow> free_block option) \<Rightarrow> nat \<Rightarrow> nat \<Rightarrow> nat list \<Rightarrow> nat \<Rightarrow> bool" where
  "dseg h p prev [] q = (p = q)"
| "dseg h p prev (x # xs) q =
     (p = x \<and> x \<noteq> 0 \<and> (\<exists>b. h x = Some b \<and> fb_prev b = prev \<and> dseg h (fb_next b) x xs q))"

definition last_or :: "nat \<Rightarrow> nat list \<Rightarrow> nat" where
  "last_or d xs = (if xs = [] then d else last xs)"

definition hd_or :: "nat \<Rightarrow> nat list \<Rightarrow> nat" where
  "hd_or d xs = (if xs = [] then d else hd xs)"

lemma last_or_simps [simp]:
  "last_or d [] = d" "last_or d (x # xs) = last_or x xs" "last_or d (xs @ [x]) = x"
  by (simp_all add: last_or_def)

lemma hd_or_simps [simp]: "hd_or d [] = d" "hd_or d (x # xs) = x"
  by (simp_all add: hd_or_def)

lemma dseg_frame:
  "(\<And>x. x \<in> set xs \<Longrightarrow> h' x = h x) \<Longrightarrow> dseg h' p prev xs q = dseg h p prev xs q"
  by (induction xs arbitrary: p prev) auto

lemma dseg_update_other [simp]:
  "y \<notin> set xs \<Longrightarrow> dseg (h(y := v)) p prev xs q = dseg h p prev xs q"
  by (rule dseg_frame) auto

lemma dseg_start: "dseg h p prev xs q \<Longrightarrow> p = hd_or q xs"
  by (cases xs) auto

lemma dseg_member: "dseg h p prev xs q \<Longrightarrow> x \<in> set xs \<Longrightarrow> x \<noteq> 0 \<and> h x \<noteq> None"
  by (induction xs arbitrary: p prev) auto

lemma dseg_append:
  "dseg h p prev (xs @ ys) q \<longleftrightarrow> (\<exists>m. dseg h p prev xs m \<and> dseg h m (last_or prev xs) ys q)"
  by (induction xs arbitrary: p prev) auto

text \<open>Changing what the first element says about its predecessor, and the last about its successor.\<close>

lemma dseg_set_prev:
  assumes "dseg h p prev (x # xs) q" and "x \<notin> set xs" and "h x = Some b"
  shows "dseg (h(x \<mapsto> b\<lparr>fb_prev := r\<rparr>)) p r (x # xs) q"
  using assms by auto

lemma dseg_set_next:
  assumes "dseg h p prev (xs @ [w]) q" and "w \<notin> set xs" and "h w = Some b"
  shows "dseg (h(w \<mapsto> b\<lparr>fb_next := r\<rparr>)) p prev (xs @ [w]) r"
  using assms by (auto simp: dseg_append)

lemma dseg_middle:
  assumes "dseg h p 0 (xs @ x # ys) 0"
  obtains b where "h x = Some b" and "fb_prev b = last_or 0 xs" and "fb_next b = hd_or 0 ys"
    and "dseg h p 0 xs x" and "dseg h (hd_or 0 ys) x ys 0" and "x \<noteq> 0"
proof -
  obtain m where m: "dseg h p 0 xs m" "dseg h m (last_or 0 xs) (x # ys) 0"
    using assms by (auto simp: dseg_append)
  then obtain b where b: "m = x" "x \<noteq> 0" "h x = Some b" "fb_prev b = last_or 0 xs"
    "dseg h (fb_next b) x ys 0" by auto
  then have "fb_next b = hd_or 0 ys" using dseg_start by blast
  then show thesis using that b m by simp
qed

section \<open>The primitives on the lists\<close>

text \<open>The lists of all orders: \<open>Ls ! k\<close> is the list of order \<open>k\<close>; an address is in one list at most,
  once at most.\<close>

definition free_lists :: "page_allocator \<Rightarrow> nat list list \<Rightarrow> bool" where
  "free_lists s Ls \<longleftrightarrow> length (free_area s) = MAX_ORDER \<and> length Ls = MAX_ORDER \<and>
     (\<forall>k < MAX_ORDER. dseg (blocks s) (free_area s ! k) 0 (Ls ! k) 0 \<and> distinct (Ls ! k)) \<and>
     (\<forall>j < MAX_ORDER. \<forall>k < MAX_ORDER. j \<noteq> k \<longrightarrow> set (Ls ! j) \<inter> set (Ls ! k) = {})"

text \<open>What the primitives leave alone: everything but the links and the heads.\<close>

definition links_only :: "page_allocator \<Rightarrow> page_allocator \<Rightarrow> nat set \<Rightarrow> bool" where
  "links_only s s' X \<longleftrightarrow> zone_head s' = zone_head s \<and> zones s' = zones s \<and> meta s' = meta s \<and>
     total_pages s' = total_pages s \<and> allocated_pages s' = allocated_pages s \<and>
     lowest_address s' = lowest_address s \<and> is_dmap s' = is_dmap s \<and>
     (\<forall>x. x \<notin> X \<longrightarrow> map_option (\<lambda>b. (fb_zone b, fb_index b)) (blocks s' x) =
        map_option (\<lambda>b. (fb_zone b, fb_index b)) (blocks s x))"

lemma free_lists_update:
  assumes "free_lists s Ls" and "k < MAX_ORDER" and "free_area s' = (free_area s)[k := p]"
    and "dseg (blocks s') p 0 xs 0" and "distinct xs"
    and "\<And>j x. j < MAX_ORDER \<Longrightarrow> j \<noteq> k \<Longrightarrow> x \<in> set (Ls ! j) \<Longrightarrow> blocks s' x = blocks s x \<and> x \<notin> set xs"
  shows "free_lists s' (Ls[k := xs])"
proof -
  have "dseg (blocks s') (free_area s' ! j) 0 (Ls[k := xs] ! j) 0 \<and> distinct (Ls[k := xs] ! j)"
    if "j < MAX_ORDER" for j
  proof (cases "j = k")
    case True
    then show ?thesis using assms by (simp add: free_lists_def)
  next
    case False
    have "dseg (blocks s') (free_area s ! j) 0 (Ls ! j) 0 = dseg (blocks s) (free_area s ! j) 0 (Ls ! j) 0"
      by (rule dseg_frame) (use assms(6) that False in blast)
    then show ?thesis using assms(1,3) that False by (simp add: free_lists_def)
  qed
  moreover have "set (Ls[k := xs] ! i) \<inter> set (Ls[k := xs] ! j) = {}"
    if "i < MAX_ORDER" "j < MAX_ORDER" "i \<noteq> j" for i j
  proof (cases "i = k \<or> j = k")
    case True
    then show ?thesis using assms(1,6) that by (auto simp: free_lists_def)
  next
    case False
    then show ?thesis using assms(1) that by (simp add: free_lists_def)
  qed
  ultimately show ?thesis using assms(1,3) by (simp add: free_lists_def)
qed

lemma free_lists_other:
  assumes "free_lists s Ls" and "j < MAX_ORDER" and "k < MAX_ORDER" and "j \<noteq> k"
    and "x \<in> set (Ls ! j)" and "y \<in> set (Ls ! k)"
  shows "x \<noteq> y"
  using assms unfolding free_lists_def by blast

lemma free_lists_D:
  assumes "free_lists s Ls" and "k < MAX_ORDER"
  shows "dseg (blocks s) (free_area s ! k) 0 (Ls ! k) 0" and "distinct (Ls ! k)"
    and "free_area s ! k = hd_or 0 (Ls ! k)" and "k < length (free_area s)" and "k < length Ls"
proof -
  show d: "dseg (blocks s) (free_area s ! k) 0 (Ls ! k) 0" and "distinct (Ls ! k)"
    and "k < length (free_area s)" and "k < length Ls"
    using assms by (simp_all add: free_lists_def)
  show "free_area s ! k = hd_or 0 (Ls ! k)" by (rule dseg_start [OF d])
qed

lemma push_block_lists:
  assumes "free_lists s Ls" and "k < MAX_ORDER" and "x \<noteq> 0"
    and "\<And>j. j < MAX_ORDER \<Longrightarrow> x \<notin> set (Ls ! j)"
  obtains s' where "push_block s x zp i k = Some s'" and "free_lists s' (Ls[k := x # Ls ! k])"
    and "links_only s s' {x}" and "\<exists>b. blocks s' x = Some b \<and> fb_zone b = zp \<and> fb_index b = i"
proof -
  note d = free_lists_D [OF assms(1,2)]
  let ?nb = "\<lparr>fb_next = free_area s ! k, fb_prev = 0, fb_zone = zp, fb_index = i\<rparr>"
  show thesis
  proof (cases "Ls ! k")
    case Nil
    let ?s' = "s\<lparr>blocks := (blocks s)(x \<mapsto> ?nb), free_area := (free_area s)[k := x]\<rparr>"
    have "push_block s x zp i k = Some ?s'" using d(3) Nil by (simp add: push_block_def)
    moreover have "free_lists ?s' (Ls[k := [x]])"
      using assms d Nil by (intro free_lists_update [OF assms(1,2)]) auto
    moreover have "links_only s ?s' {x}" by (simp add: links_only_def)
    ultimately show thesis using that [of ?s'] Nil by simp
  next
    case (Cons y ys)
    obtain b where b: "blocks s y = Some b" "y \<noteq> 0" "free_area s ! k = y"
      using d(1) Cons by auto
    have xy: "x \<noteq> y" "x \<notin> set ys" "y \<notin> set ys" using assms(4) [OF assms(2)] Cons d(2) by auto
    let ?s' = "s\<lparr>blocks := (blocks s)(x \<mapsto> ?nb, y \<mapsto> b\<lparr>fb_prev := x\<rparr>), free_area := (free_area s)[k := x]\<rparr>"
    have "push_block s x zp i k = Some ?s'"
      using b xy by (simp add: push_block_def set_prev_def)
    moreover have "free_lists ?s' (Ls[k := x # y # ys])"
    proof (rule free_lists_update [OF assms(1,2)])
      show "dseg (blocks ?s') x 0 (x # y # ys) 0"
        using d(1) Cons xy b assms(3) by auto
      show "distinct (x # y # ys)" using d(2) Cons xy by simp
      show "blocks ?s' z = blocks s z \<and> z \<notin> set (x # y # ys)"
        if "j < MAX_ORDER" "j \<noteq> k" "z \<in> set (Ls ! j)" for j z
        using free_lists_other [OF assms(1) that(1) assms(2) that(2,3)] Cons assms(4) [OF that(1)] that(3)
        by auto
    qed simp
    moreover have "links_only s ?s' {x}" using b by (simp add: links_only_def)
    moreover have "blocks ?s' x = Some ?nb" using xy by simp
    ultimately show thesis using that [of ?s'] Cons by simp
  qed
qed

lemma pop_block_lists:
  assumes "free_lists s Ls" and "k < MAX_ORDER" and "Ls ! k = x # xs"
  obtains s' b where "pop_block s k = Some (b, s')" and "blocks s x = Some b"
    and "free_lists s' (Ls[k := xs])" and "links_only s s' {}"
proof -
  note d = free_lists_D [OF assms(1,2)]
  obtain b where b: "blocks s x = Some b" "x \<noteq> 0" "free_area s ! k = x" "dseg (blocks s) (fb_next b) x xs 0"
    using d(1) assms(3) by auto
  show thesis
  proof (cases xs)
    case Nil
    let ?s' = "s\<lparr>free_area := (free_area s)[k := 0]\<rparr>"
    have "pop_block s k = Some (b, ?s')" using b Nil by (simp add: pop_block_def)
    moreover have "free_lists ?s' (Ls[k := []])"
      by (rule free_lists_update [OF assms(1,2)]) auto
    moreover have "links_only s ?s' {}" by (simp add: links_only_def)
    ultimately show thesis using that [of b ?s'] b Nil by simp
  next
    case (Cons y ys)
    obtain c where c: "blocks s y = Some c" "y \<noteq> 0" "fb_next b = y" "dseg (blocks s) (fb_next c) y ys 0"
      using b(4) Cons by auto
    have ny: "y \<notin> set ys" using d(2) assms(3) Cons by simp
    let ?s' = "s\<lparr>free_area := (free_area s)[k := y], blocks := (blocks s)(y \<mapsto> c\<lparr>fb_prev := 0\<rparr>)\<rparr>"
    have "pop_block s k = Some (b, ?s')"
      using b c by (simp add: pop_block_def set_prev_def)
    moreover have "free_lists ?s' (Ls[k := xs])"
    proof (rule free_lists_update [OF assms(1,2)])
      show "dseg (blocks ?s') y 0 xs 0" using c ny Cons by auto
      show "distinct xs" using d(2) assms(3) by simp
      show "blocks ?s' z = blocks s z \<and> z \<notin> set xs"
        if "j < MAX_ORDER" "j \<noteq> k" "z \<in> set (Ls ! j)" for j z
        using free_lists_other [OF assms(1) that(1) assms(2) that(2,3)] Cons assms(3) by auto
    qed simp
    moreover have "links_only s ?s' {}" using c by (simp add: links_only_def)
    ultimately show thesis using that [of b ?s'] b by simp
  qed
qed

lemma unlink_first:
  assumes "free_lists s Ls" and "k < MAX_ORDER" and "Ls ! k = x # xs"
  obtains s' where "unlink_block s x k = Some s'" and "free_lists s' (Ls[k := xs])"
    and "links_only s s' {}"
proof -
  note d = free_lists_D [OF assms(1,2)]
  obtain b where b: "blocks s x = Some b" "fb_prev b = 0" using d(1) assms(3) by auto
  obtain s' b' where p: "pop_block s k = Some (b', s')" "free_lists s' (Ls[k := xs])" "links_only s s' {}"
    using pop_block_lists [OF assms] by metis
  have "free_area s ! k = x" using d(3) assms(3) by simp
  then have "unlink_block s x k = Some s'"
    using p(1) b by (auto simp: pop_block_def unlink_block_def Let_def split: if_splits Option.bind_splits)
  then show thesis using that p by blast
qed

lemma unlink_middle:
  assumes "free_lists s Ls" and "k < MAX_ORDER" and "Ls ! k = (xs @ [w]) @ x # ys"
  obtains s' where "unlink_block s x k = Some s'" and "free_lists s' (Ls[k := (xs @ [w]) @ ys])"
    and "links_only s s' {}"
proof -
  note d = free_lists_D [OF assms(1,2)]
  obtain b where b: "blocks s x = Some b" "fb_prev b = w" "fb_next b = hd_or 0 ys"
    "dseg (blocks s) (free_area s ! k) 0 (xs @ [w]) x" "dseg (blocks s) (hd_or 0 ys) x ys 0"
    using dseg_middle [OF d(1) [unfolded assms(3)]] by (metis last_or_simps(3))
  have w: "w \<noteq> 0" "blocks s w \<noteq> None" using dseg_member [OF b(4)] by simp_all
  then obtain bw where bw: "blocks s w = Some bw" by blast
  have nw: "w \<notin> set xs" "w \<noteq> x" "w \<notin> set ys" using d(2) assms(3) by auto
  let ?h = "(blocks s)(w \<mapsto> bw\<lparr>fb_next := hd_or 0 ys\<rparr>)"
  have left: "dseg ?h (free_area s ! k) 0 (xs @ [w]) (hd_or 0 ys)"
    by (rule dseg_set_next [OF b(4) nw(1) bw])
  have other: "z \<noteq> w \<and> z \<notin> set ((xs @ [w]) @ x # ys)"
    if "j < MAX_ORDER" "j \<noteq> k" "z \<in> set (Ls ! j)" for j z
    using free_lists_other [OF assms(1) that(1) assms(2) that(2,3)] assms(3) by auto
  show thesis
  proof (cases ys)
    case Nil
    let ?s' = "s\<lparr>blocks := ?h\<rparr>"
    have "unlink_block s x k = Some ?s'" using b bw w Nil by (simp add: unlink_block_def set_next_def)
    moreover have "free_lists ?s' (Ls[k := (xs @ [w]) @ ys])"
    proof (rule free_lists_update [OF assms(1,2), where p = "free_area s ! k"])
      show "dseg (blocks ?s') (free_area s ! k) 0 ((xs @ [w]) @ ys) 0" using left Nil by simp
    qed (use d(2) assms(3) Nil other in auto)
    moreover have "links_only s ?s' {}" using bw by (simp add: links_only_def)
    ultimately show thesis using that by blast
  next
    case (Cons y zs)
    obtain c where c: "blocks s y = Some c" "y \<noteq> 0" using b(5) Cons by auto
    have ny: "y \<notin> set xs" "y \<noteq> w" "y \<notin> set zs" using d(2) assms(3) Cons by auto
    let ?h' = "?h(y \<mapsto> c\<lparr>fb_prev := w\<rparr>)"
    let ?s' = "s\<lparr>blocks := ?h'\<rparr>"
    have "unlink_block s x k = Some ?s'"
      using b bw w c ny Cons by (simp add: unlink_block_def set_next_def set_prev_def)
    moreover have "free_lists ?s' (Ls[k := (xs @ [w]) @ ys])"
    proof (rule free_lists_update [OF assms(1,2), where p = "free_area s ! k"])
      have "dseg ?h' (free_area s ! k) 0 (xs @ [w]) y" using left ny Cons by simp
      moreover have "dseg ?h' y w (y # zs) 0" using b(5) Cons nw ny c by auto
      ultimately show "dseg (blocks ?s') (free_area s ! k) 0 ((xs @ [w]) @ ys) 0"
        unfolding dseg_append using Cons by auto
      show "blocks ?s' z = blocks s z \<and> z \<notin> set ((xs @ [w]) @ ys)"
        if "j < MAX_ORDER" "j \<noteq> k" "z \<in> set (Ls ! j)" for j z
        using other [OF that] Cons by auto
    qed (use d(2) assms(3) in auto)
    moreover have "links_only s ?s' {}" using bw c by (auto simp: links_only_def)
    ultimately show thesis using that by blast
  qed
qed

lemma unlink_block_lists:
  assumes "free_lists s Ls" and "k < MAX_ORDER" and "x \<in> set (Ls ! k)"
  obtains s' xs where "unlink_block s x k = Some s'" and "free_lists s' (Ls[k := xs])"
    and "set xs = set (Ls ! k) - {x}" and "links_only s s' {}"
proof -
  obtain us ys where l: "Ls ! k = us @ x # ys" using assms(3) split_list by metis
  have dist: "distinct (us @ x # ys)" using free_lists_D(2) [OF assms(1,2)] l by simp
  then have set: "set (us @ ys) = set (Ls ! k) - {x}" using l by auto
  show thesis
  proof (cases us rule: rev_cases)
    case Nil
    then show thesis using unlink_first [OF assms(1,2), of x ys] l that set by auto
  next
    case (snoc xs w)
    obtain s' where "unlink_block s x k = Some s'" "free_lists s' (Ls[k := (xs @ [w]) @ ys])"
      "links_only s s' {}"
      using unlink_middle [OF assms(1,2), of xs w x ys] l snoc by metis
    then show thesis using that set snoc by metis
  qed
qed

end
