(* ===== verification/Page_Buddy.thy ===== *)
theory Page_Buddy
  imports Page_Lists
begin

text \<open>
  Correctness of the buddy allocator. The metadata bytes of a zone cut its pages into blocks of
  \<open>2 ^ k\<close> pages, aligned to their size, each allocated or free; the free lists hold exactly the free
  blocks. While an operation works on a block, its pages are a hole in this picture, so the
  invariant is stated outside a set \<open>H\<close> of pages.
\<close>

section \<open>Invariant\<close>

definition zone_of :: "page_allocator \<Rightarrow> nat \<Rightarrow> zone" where
  "zone_of s zp = the (zones s zp)"

definition npages :: "page_allocator \<Rightarrow> nat \<Rightarrow> nat" where
  "npages s zp = z_total (zone_of s zp)"

definition byte :: "page_allocator \<Rightarrow> nat \<Rightarrow> nat \<Rightarrow> u8 option" where
  "byte s zp p = meta s (z_meta (zone_of s zp) + p)"

definition page_addr :: "page_allocator \<Rightarrow> nat \<Rightarrow> nat \<Rightarrow> nat" where
  "page_addr s zp i = z_base (zone_of s zp) + i * PAGE_SIZE"

fun zlist :: "(nat \<Rightarrow> zone option) \<Rightarrow> nat \<Rightarrow> nat list \<Rightarrow> bool" where
  "zlist h p [] = (p = 0)"
| "zlist h p (x # xs) = (p = x \<and> x \<noteq> 0 \<and> (\<exists>z. h x = Some z \<and> zlist h (z_next z) xs))"

text \<open>
  A zone is a region of memory: the metadata bytes, the zone header at the address of the zone, and
  the data pages follow each other. The regions of different zones are disjoint.
\<close>

definition region :: "page_allocator \<Rightarrow> nat \<Rightarrow> nat set" where
  "region s zp = {z_meta (zone_of s zp) ..< z_base (zone_of s zp) + npages s zp * PAGE_SIZE}"

definition zones_wf :: "page_allocator \<Rightarrow> nat list \<Rightarrow> bool" where
  "zones_wf s zs \<longleftrightarrow> zlist (zones s) (zone_head s) zs \<and> distinct zs \<and>
     (\<forall>zp \<in> set zs. z_meta (zone_of s zp) + npages s zp \<le> zp \<and> zp + ZONE_SIZE \<le> z_base (zone_of s zp)) \<and>
     (\<forall>zp \<in> set zs. \<forall>zq \<in> set zs. zp \<noteq> zq \<longrightarrow> region s zp \<inter> region s zq = {})"

text \<open>A block: aligned, inside the zone, with the same byte on all its pages.\<close>

definition block_at :: "page_allocator \<Rightarrow> nat \<Rightarrow> nat \<Rightarrow> nat \<Rightarrow> u8 \<Rightarrow> bool" where
  "block_at s zp i k v \<longleftrightarrow> k < MAX_ORDER \<and> 2 ^ k dvd i \<and> i + 2 ^ k \<le> npages s zp \<and>
     (\<forall>q \<in> {i ..< i + 2 ^ k}. byte s zp q = Some v)"

definition pages_ok :: "page_allocator \<Rightarrow> nat list \<Rightarrow> (nat \<times> nat) set \<Rightarrow> bool" where
  "pages_ok s zs H \<longleftrightarrow> (\<forall>zp \<in> set zs. \<forall>p < npages s zp. (zp, p) \<notin> H \<longrightarrow>
     (\<exists>i k v. block_at s zp i k v \<and> (v = used_byte k \<or> v = free_byte k) \<and> p \<in> {i ..< i + 2 ^ k} \<and>
        ({zp} \<times> {i ..< i + 2 ^ k}) \<inter> H = {}))"

definition free_heads :: "page_allocator \<Rightarrow> nat list \<Rightarrow> (nat \<times> nat) set \<Rightarrow> nat \<Rightarrow> (nat \<times> nat) set" where
  "free_heads s zs H k = {(zp, i). zp \<in> set zs \<and> i < npages s zp \<and> 2 ^ k dvd i \<and> (zp, i) \<notin> H \<and>
     byte s zp i = Some (free_byte k)}"

definition lists_ok :: "page_allocator \<Rightarrow> nat list \<Rightarrow> nat list list \<Rightarrow> (nat \<times> nat) set \<Rightarrow> bool" where
  "lists_ok s zs Ls H \<longleftrightarrow> (\<forall>k < MAX_ORDER.
     set (Ls ! k) = (\<lambda>(zp, i). page_addr s zp i) ` free_heads s zs H k \<and>
     (\<forall>(zp, i) \<in> free_heads s zs H k.
        \<exists>b. blocks s (page_addr s zp i) = Some b \<and> fb_zone b = zp \<and> fb_index b = i))"

definition buddy_inv ::
  "page_allocator \<Rightarrow> nat list \<Rightarrow> nat list list \<Rightarrow> (nat \<times> nat) set \<Rightarrow> bool" where
  "buddy_inv s zs Ls H \<longleftrightarrow>
     zones_wf s zs \<and> free_lists s Ls \<and> pages_ok s zs H \<and> lists_ok s zs Ls H"

text \<open>The pages of a block.\<close>

definition span :: "nat \<Rightarrow> nat \<Rightarrow> nat \<Rightarrow> (nat \<times> nat) set" where
  "span zp i k = {zp} \<times> {i ..< i + 2 ^ k}"

section \<open>Bytes\<close>

lemma used_byte_nat: "k < MAX_ORDER \<Longrightarrow> unat (used_byte k) = k"
  by (simp add: used_byte_def unat_of_nat MAX_ORDER_def take_bit_nat_def)

lemma free_byte_eq: "k < MAX_ORDER \<Longrightarrow> free_byte k = of_nat (k + 128)"
proof -
  assume "k < MAX_ORDER"
  then have "k \<in> {..<11}" by (simp add: MAX_ORDER_def)
  then have "k \<in> set [0..<11]" by simp
  then show ?thesis by (auto simp: free_byte_def FREE_FLAG_def upt_rec)
qed

lemma free_byte_nat: "k < MAX_ORDER \<Longrightarrow> unat (free_byte k) = k + 128"
  unfolding free_byte_eq by (subst unat_of_nat) (simp add: MAX_ORDER_def take_bit_nat_def)

lemma byte_inj:
  assumes "j < MAX_ORDER" and "k < MAX_ORDER"
  shows "free_byte j = free_byte k \<Longrightarrow> j = k" and "used_byte j = used_byte k \<Longrightarrow> j = k"
    and "used_byte j \<noteq> free_byte k"
proof -
  show "free_byte j = free_byte k \<Longrightarrow> j = k"
    using free_byte_nat [OF assms(1)] free_byte_nat [OF assms(2)] by (metis add_right_cancel)
  show "used_byte j = used_byte k \<Longrightarrow> j = k"
    using used_byte_nat [OF assms(1)] used_byte_nat [OF assms(2)] by metis
  show "used_byte j \<noteq> free_byte k"
    using used_byte_nat [OF assms(1)] free_byte_nat [OF assms(2)] assms by (auto simp: MAX_ORDER_def)
qed

text \<open>The tests the code makes on a byte.\<close>

lemma flag_used: "k < MAX_ORDER \<Longrightarrow> used_byte k AND FREE_FLAG = 0 \<and> used_byte k AND NOT FREE_FLAG = of_nat k"
proof -
  assume "k < MAX_ORDER"
  then have "k \<in> set [0..<11]" by (simp add: MAX_ORDER_def)
  then show ?thesis by (auto simp: used_byte_def FREE_FLAG_def upt_rec)
qed

lemma flag_free: "k < MAX_ORDER \<Longrightarrow> free_byte k AND FREE_FLAG \<noteq> 0 \<and> free_byte k AND NOT FREE_FLAG = of_nat k"
proof -
  assume "k < MAX_ORDER"
  then have "k \<in> set [0..<11]" by (simp add: MAX_ORDER_def)
  then show ?thesis by (auto simp: free_byte_def FREE_FLAG_def upt_rec)
qed

section \<open>Writing metadata\<close>

lemma fill_meta_eq:
  "fill_meta s base i n v = s\<lparr>meta := (\<lambda>a. if base + i \<le> a \<and> a < base + i + n then Some v else meta s a)\<rparr>"
proof (induction n)
  case 0
  show ?case
    by (rule page_allocator.equality) (auto simp: fill_meta_def fun_eq_iff)
next
  case (Suc n)
  have "fill_meta s base i (Suc n) v =
      (let s' = fill_meta s base i n v in s'\<lparr>meta := (meta s')(base + i + n \<mapsto> v)\<rparr>)"
    by (simp add: fill_meta_def Let_def)
  also have "\<dots> = s\<lparr>meta := (\<lambda>a. if base + i \<le> a \<and> a < base + i + Suc n then Some v else meta s a)\<rparr>"
    unfolding Suc by (auto simp: Let_def fun_eq_iff less_Suc_eq intro!: page_allocator.equality)
  finally show ?case .
qed

lemma fill_meta_simps [simp]:
  "blocks (fill_meta s base i n v) = blocks s" "zones (fill_meta s base i n v) = zones s"
  "free_area (fill_meta s base i n v) = free_area s" "zone_head (fill_meta s base i n v) = zone_head s"
  "allocated_pages (fill_meta s base i n v) = allocated_pages s"
  "total_pages (fill_meta s base i n v) = total_pages s"
  "zone_of (fill_meta s base i n v) zp = zone_of s zp"
  "npages (fill_meta s base i n v) zp = npages s zp"
  "page_addr (fill_meta s base i n v) zp j = page_addr s zp j"
  by (simp_all add: fill_meta_eq zone_of_def npages_def page_addr_def)

lemma zones_wf_disjoint:
  assumes "zones_wf s zs" and "zp \<in> set zs" and "zq \<in> set zs" and "zp \<noteq> zq"
  shows "{z_base (zone_of s zp) ..< z_base (zone_of s zp) + npages s zp * PAGE_SIZE} \<inter>
      {z_base (zone_of s zq) ..< z_base (zone_of s zq) + npages s zq * PAGE_SIZE} = {}"
    and "{z_meta (zone_of s zp) ..< z_meta (zone_of s zp) + npages s zp} \<inter>
      {z_meta (zone_of s zq) ..< z_meta (zone_of s zq) + npages s zq} = {}"
proof -
  have sub: "{z_base (zone_of s z) ..< z_base (zone_of s z) + npages s z * PAGE_SIZE} \<subseteq> region s z"
      "{z_meta (zone_of s z) ..< z_meta (zone_of s z) + npages s z} \<subseteq> region s z" if "z \<in> set zs" for z
  proof -
    have "z_meta (zone_of s z) + npages s z \<le> z" "z + ZONE_SIZE \<le> z_base (zone_of s z)"
      using assms(1) that unfolding zones_wf_def by blast+
    then show "{z_base (zone_of s z) ..< z_base (zone_of s z) + npages s z * PAGE_SIZE} \<subseteq> region s z"
      "{z_meta (zone_of s z) ..< z_meta (zone_of s z) + npages s z} \<subseteq> region s z"
      by (auto simp: region_def)
  qed
  have dis: "region s zp \<inter> region s zq = {}" using assms unfolding zones_wf_def by blast
  show "{z_base (zone_of s zp) ..< z_base (zone_of s zp) + npages s zp * PAGE_SIZE} \<inter>
      {z_base (zone_of s zq) ..< z_base (zone_of s zq) + npages s zq * PAGE_SIZE} = {}"
    using sub(1) [OF assms(2)] sub(1) [OF assms(3)] dis by blast
  show "{z_meta (zone_of s zp) ..< z_meta (zone_of s zp) + npages s zp} \<inter>
      {z_meta (zone_of s zq) ..< z_meta (zone_of s zq) + npages s zq} = {}"
    using sub(2) [OF assms(2)] sub(2) [OF assms(3)] dis by blast
qed

lemma byte_fill:
  assumes "zones_wf s zs" and "zp \<in> set zs" and "zq \<in> set zs" and "q < npages s zq"
    and "i + n \<le> npages s zp"
  shows "byte (fill_meta s (z_meta (zone_of s zp)) i n v) zq q =
    (if zq = zp \<and> q \<in> {i ..< i + n} then Some v else byte s zq q)"
proof (cases "zq = zp")
  case True
  then show ?thesis by (auto simp: byte_def fill_meta_eq zone_of_def)
next
  case False
  let ?m = "z_meta (zone_of s zq) + q"
  have "?m \<in> {z_meta (zone_of s zq) ..< z_meta (zone_of s zq) + npages s zq}" using assms(4) by simp
  then have "?m \<notin> {z_meta (zone_of s zp) ..< z_meta (zone_of s zp) + npages s zp}"
    using zones_wf_disjoint(2) [OF assms(1-3)] False by blast
  then have "\<not> (z_meta (zone_of s zp) + i \<le> ?m \<and> ?m < z_meta (zone_of s zp) + i + n)"
    using assms(5) by auto
  then show ?thesis using False by (auto simp: byte_def fill_meta_eq zone_of_def)
qed

lemma page_addr_inj:
  assumes "zones_wf s zs" and "zp \<in> set zs" and "zq \<in> set zs" and "i < npages s zp" and "j < npages s zq"
    and "page_addr s zp i = page_addr s zq j"
  shows "zp = zq \<and> i = j"
proof (cases "zp = zq")
  case True
  then show ?thesis using assms(6) by (simp add: page_addr_def PAGE_SIZE_val)
next
  case False
  let ?P = "{z_base (zone_of s zp) ..< z_base (zone_of s zp) + npages s zp * PAGE_SIZE}"
  let ?Q = "{z_base (zone_of s zq) ..< z_base (zone_of s zq) + npages s zq * PAGE_SIZE}"
  have "page_addr s zp i \<in> ?P" "page_addr s zq j \<in> ?Q"
    using assms(4,5) by (simp_all add: page_addr_def)
  moreover have "?P \<inter> ?Q = {}" using zones_wf_disjoint(1) [OF assms(1-3) False] .
  ultimately show ?thesis using assms(6) by (metis disjoint_iff)
qed

lemma page_addr_nonzero: "zones_wf s zs \<Longrightarrow> zp \<in> set zs \<Longrightarrow> page_addr s zp i \<noteq> 0"
  by (fastforce simp: zones_wf_def page_addr_def ZONE_SIZE_def)

section \<open>Blocks\<close>

lemma aligned_same:
  assumes "2 ^ k dvd i" and "2 ^ k dvd j" and "j \<le> p" and "p < j + 2 ^ k" and "i \<le> p" and "p < i + 2 ^ k"
  shows "(i :: nat) = j"
proof -
  obtain a b where ab: "i = 2 ^ k * a" "j = 2 ^ k * b" using assms(1,2) by (auto elim!: dvdE)
  have "2 ^ k * a < 2 ^ k * (b + 1)" "2 ^ k * b < 2 ^ k * (a + 1)" using assms(3-6) ab by simp_all
  then have "a < b + 1" "b < a + 1" by (metis mult_less_cancel1)+
  then show ?thesis using ab by simp
qed

text \<open>Blocks with a byte that tells their order.\<close>

definition tile :: "page_allocator \<Rightarrow> nat \<Rightarrow> nat \<Rightarrow> nat \<Rightarrow> u8 \<Rightarrow> bool" where
  "tile s zp i k v \<longleftrightarrow> block_at s zp i k v \<and> (v = used_byte k \<or> v = free_byte k)"

lemma tileD:
  assumes "tile s zp i k v"
  shows "k < MAX_ORDER" and "2 ^ k dvd i" and "i + 2 ^ k \<le> npages s zp"
    and "v = used_byte k \<or> v = free_byte k" and "q \<in> {i ..< i + 2 ^ k} \<Longrightarrow> byte s zp q = Some v"
    and "q \<in> {i ..< i + 2 ^ k} \<Longrightarrow> q < npages s zp"
proof -
  show "k < MAX_ORDER" "2 ^ k dvd i" "v = used_byte k \<or> v = free_byte k"
    and b: "i + 2 ^ k \<le> npages s zp" and "q \<in> {i ..< i + 2 ^ k} \<Longrightarrow> byte s zp q = Some v"
    using assms unfolding tile_def block_at_def by blast+
  show "q < npages s zp" if "q \<in> {i ..< i + 2 ^ k}" using that b by simp
qed

lemma mem_span [simp]: "(z, q) \<in> span zp i k \<longleftrightarrow> z = zp \<and> q \<in> {i ..< i + 2 ^ k}"
  by (auto simp: span_def)

lemma tile_unique:
  assumes "tile s zp i k v" and "tile s zp j l w" and "q \<in> {i ..< i + 2 ^ k}" and "q \<in> {j ..< j + 2 ^ l}"
  shows "i = j \<and> k = l \<and> v = w"
proof -
  have "v = w" using tileD(5) [OF assms(1,3)] tileD(5) [OF assms(2,4)] by simp
  note o = tileD(1) [OF assms(1)] tileD(1) [OF assms(2)]
  have "k = l"
    using \<open>v = w\<close> tileD(4) [OF assms(1)] tileD(4) [OF assms(2)] byte_inj [OF o] byte_inj(3) [OF o(2,1)]
    by auto
  moreover have "i = j"
    using assms(3,4) tileD(2) [OF assms(1)] tileD(2) [OF assms(2)] \<open>k = l\<close>
    by (intro aligned_same [of k i j q]) auto
  ultimately show ?thesis using \<open>v = w\<close> by simp
qed

lemma pages_okD:
  assumes "pages_ok s zs H" and "zp \<in> set zs" and "p < npages s zp" and "(zp, p) \<notin> H"
  obtains i k v where "tile s zp i k v" and "p \<in> {i ..< i + 2 ^ k}" and "span zp i k \<inter> H = {}"
  using assms unfolding pages_ok_def tile_def span_def by metis

lemma pages_okI:
  assumes "\<And>zp p. zp \<in> set zs \<Longrightarrow> p < npages s zp \<Longrightarrow> (zp, p) \<notin> H \<Longrightarrow>
    \<exists>i k v. tile s zp i k v \<and> p \<in> {i ..< i + 2 ^ k} \<and> span zp i k \<inter> H = {}"
  shows "pages_ok s zs H"
  using assms unfolding pages_ok_def tile_def span_def by metis

lemma tile_cong:
  assumes "tile s zp i k v" and "npages s' zp = npages s zp"
    and "\<And>q. q \<in> {i ..< i + 2 ^ k} \<Longrightarrow> byte s' zp q = byte s zp q"
  shows "tile s' zp i k v"
  using assms by (auto simp: tile_def block_at_def)

text \<open>The invariant looks at pages outside the hole only.\<close>

lemma pages_ok_cong:
  assumes "pages_ok s zs H" and "\<And>zp. zp \<in> set zs \<Longrightarrow> npages s' zp = npages s zp"
    and "\<And>zp q. zp \<in> set zs \<Longrightarrow> q < npages s zp \<Longrightarrow> (zp, q) \<notin> H \<Longrightarrow> byte s' zp q = byte s zp q"
  shows "pages_ok s' zs H"
proof (rule pages_okI)
  fix zp p
  assume p: "zp \<in> set zs" "p < npages s' zp" "(zp, p) \<notin> H"
  obtain i k v where t: "tile s zp i k v" "p \<in> {i ..< i + 2 ^ k}" "span zp i k \<inter> H = {}"
    using pages_okD [OF assms(1) p(1) _ p(3)] p(2) assms(2) [OF p(1)] by metis
  have "tile s' zp i k v"
  proof (rule tile_cong [OF t(1) assms(2) [OF p(1)]])
    fix q assume q: "q \<in> {i ..< i + 2 ^ k}"
    then have "(zp, q) \<in> span zp i k" by simp
    then show "byte s' zp q = byte s zp q"
      using t(3) by (intro assms(3) [OF p(1) tileD(6) [OF t(1) q]]) blast
  qed
  then show "\<exists>i k v. tile s' zp i k v \<and> p \<in> {i ..< i + 2 ^ k} \<and> span zp i k \<inter> H = {}" using t by blast
qed

lemma free_heads_cong:
  assumes "\<And>zp. zp \<in> set zs \<Longrightarrow> npages s' zp = npages s zp"
    and "\<And>zp q. zp \<in> set zs \<Longrightarrow> q < npages s zp \<Longrightarrow> (zp, q) \<notin> H \<Longrightarrow> byte s' zp q = byte s zp q"
  shows "free_heads s' zs H k = free_heads s zs H k"
  using assms by (auto simp: free_heads_def)

lemma free_head_tile:
  assumes "pages_ok s zs H" and "(zp, i) \<in> free_heads s zs H k" and "k < MAX_ORDER"
  shows "tile s zp i k (free_byte k)" and "span zp i k \<inter> H = {}"
proof -
  have h: "zp \<in> set zs" "i < npages s zp" "2 ^ k dvd i" "(zp, i) \<notin> H" "byte s zp i = Some (free_byte k)"
    using assms(2) by (auto simp: free_heads_def)
  obtain j l v where t: "tile s zp j l v" "i \<in> {j ..< j + 2 ^ l}" "span zp j l \<inter> H = {}"
    using pages_okD [OF assms(1) h(1,2,4)] by blast
  have v: "v = free_byte k" using tileD(5) [OF t(1,2)] h(5) by simp
  have "l = k" using v tileD(4) [OF t(1)] byte_inj(1,3) [OF tileD(1) [OF t(1)] assms(3)] by metis
  moreover have "j = i"
    using t(2) tileD(2) [OF t(1)] h(3) \<open>l = k\<close> by (intro aligned_same [of k j i i]) auto
  ultimately show "tile s zp i k (free_byte k)" "span zp i k \<inter> H = {}" using t v by simp_all
qed

text \<open>Taking a block into the hole, and a block of the hole back.\<close>

lemma pages_ok_open:
  assumes "pages_ok s zs H" and "tile s zp i k v"
  shows "pages_ok s zs (H \<union> span zp i k)"
proof (rule pages_okI)
  fix zq p
  assume p: "zq \<in> set zs" "p < npages s zq" "(zq, p) \<notin> H \<union> span zp i k"
  then obtain j l w where t: "tile s zq j l w" "p \<in> {j ..< j + 2 ^ l}" "span zq j l \<inter> H = {}"
    using pages_okD [OF assms(1) p(1,2)] by blast
  have "span zq j l \<inter> span zp i k = {}"
  proof (rule ccontr)
    assume "span zq j l \<inter> span zp i k \<noteq> {}"
    then obtain z q where "(z, q) \<in> span zq j l" "(z, q) \<in> span zp i k" by fast
    then have q: "zq = zp" "q \<in> {j ..< j + 2 ^ l}" "q \<in> {i ..< i + 2 ^ k}"
      unfolding mem_span by blast+
    then have "i = j \<and> k = l" using tile_unique [OF assms(2) _ q(3,2)] t(1) by blast
    then show False using p(3) t(2) q(1) by simp
  qed
  then show "\<exists>j l w. tile s zq j l w \<and> p \<in> {j ..< j + 2 ^ l} \<and> span zq j l \<inter> (H \<union> span zp i k) = {}"
    using t by blast
qed

lemma pages_ok_close:
  assumes "pages_ok s zs H" and "tile s zp i k v" and "span zp i k \<subseteq> H"
  shows "pages_ok s zs (H - span zp i k)"
proof (rule pages_okI)
  fix zq p
  assume p: "zq \<in> set zs" "p < npages s zq" "(zq, p) \<notin> H - span zp i k"
  show "\<exists>j l w. tile s zq j l w \<and> p \<in> {j ..< j + 2 ^ l} \<and> span zq j l \<inter> (H - span zp i k) = {}"
  proof (cases "(zq, p) \<in> span zp i k")
    case True
    then have "zq = zp" "p \<in> {i ..< i + 2 ^ k}" by simp_all
    then show ?thesis using assms(2) by blast
  next
    case False
    then obtain j l w where "tile s zq j l w" "p \<in> {j ..< j + 2 ^ l}" "span zq j l \<inter> H = {}"
      using pages_okD [OF assms(1) p(1,2)] p(3) by blast
    then show ?thesis by blast
  qed
qed

lemma free_heads_open:
  assumes "tile s zp i k v" and "k < MAX_ORDER" and "j < MAX_ORDER"
  shows "free_heads s zs (H \<union> span zp i k) j =
    free_heads s zs H j - (if v = free_byte k \<and> j = k then {(zp, i)} else {})"
proof -
  have "q = i \<and> j = k \<and> v = free_byte k"
    if q: "q \<in> {i ..< i + 2 ^ k}" and al: "2 ^ j dvd q" and bt: "byte s zp q = Some (free_byte j)" for q
  proof -
    have v: "v = free_byte j" using tileD(5) [OF assms(1) q] bt by simp
    then have "j = k" using tileD(4) [OF assms(1)] byte_inj(1,3) [OF assms(2,3)] by metis
    moreover have "q = i"
      using q al tileD(2) [OF assms(1)] \<open>j = k\<close> by (intro aligned_same [of k q i q]) auto
    ultimately show ?thesis using v by simp
  qed
  then have "(zq, q) \<in> free_heads s zs (H \<union> span zp i k) j \<longleftrightarrow>
      (zq, q) \<in> free_heads s zs H j - (if v = free_byte k \<and> j = k then {(zp, i)} else {})" for zq q
    by (auto simp: free_heads_def)
  then show ?thesis by auto
qed

lemma free_heads_close:
  assumes "tile s zp i k v" and "k < MAX_ORDER" and "j < MAX_ORDER" and "span zp i k \<subseteq> H" and "zp \<in> set zs"
  shows "free_heads s zs (H - span zp i k) j =
    free_heads s zs H j \<union> (if v = free_byte k \<and> j = k then {(zp, i)} else {})"
proof -
  have "H = (H - span zp i k) \<union> span zp i k" using assms(4) by blast
  then have open_eq: "free_heads s zs H j =
      free_heads s zs (H - span zp i k) j - (if v = free_byte k \<and> j = k then {(zp, i)} else {})"
    using free_heads_open [OF assms(1-3), of zs "H - span zp i k"] by simp
  have "(zp, i) \<in> free_heads s zs (H - span zp i k) j" if "v = free_byte k \<and> j = k"
  proof -
    have i: "i \<in> {i ..< i + 2 ^ k}" by simp
    show ?thesis
      using tileD(2) [OF assms(1)] tileD(5,6) [OF assms(1) i] assms(5) that
      by (simp add: free_heads_def)
  qed
  then show ?thesis using open_eq by auto
qed

section \<open>Steps of the operations\<close>

lemma links_only_same:
  assumes "links_only s s' X"
  shows "zones s' = zones s" and "zone_head s' = zone_head s" and "meta s' = meta s"
    and "allocated_pages s' = allocated_pages s" and "total_pages s' = total_pages s"
    and "zone_of s' zp = zone_of s zp" and "npages s' zp = npages s zp"
    and "byte s' zp q = byte s zp q" and "page_addr s' zp q = page_addr s zp q"
  using assms by (simp_all add: links_only_def zone_of_def npages_def byte_def page_addr_def)

lemma zones_wf_cong:
  "zones s' = zones s \<Longrightarrow> zone_head s' = zone_head s \<Longrightarrow> zones_wf s' zs = zones_wf s zs"
  by (simp add: zones_wf_def region_def zone_of_def npages_def)

lemma block_info_links:
  assumes "links_only s s' X" and "a \<notin> X"
    and "\<exists>b. blocks s a = Some b \<and> fb_zone b = zp \<and> fb_index b = i"
  shows "\<exists>b. blocks s' a = Some b \<and> fb_zone b = zp \<and> fb_index b = i"
proof -
  obtain b where "blocks s a = Some b" "fb_zone b = zp" "fb_index b = i" using assms(3) by blast
  moreover have "map_option (\<lambda>b. (fb_zone b, fb_index b)) (blocks s' a) =
      map_option (\<lambda>b. (fb_zone b, fb_index b)) (blocks s a)"
    using assms(1,2) by (simp add: links_only_def)
  ultimately show ?thesis by (cases "blocks s' a") auto
qed

lemma free_heads_inj:
  assumes "zones_wf s zs"
  shows "inj_on (\<lambda>(zp, i). page_addr s zp i) (\<Union>k. \<Union>H. free_heads s zs H k)"
  using page_addr_inj [OF assms] by (auto simp: inj_on_def free_heads_def)

lemma buddy_open_free:
  assumes inv: "buddy_inv s zs Ls H" and k: "k < MAX_ORDER" and hd: "(zp, i) \<in> free_heads s zs H k"
    and lo: "links_only s s' {}" and fl: "free_lists s' (Ls[k := xs])"
    and xs: "set xs = set (Ls ! k) - {page_addr s zp i}"
  shows "buddy_inv s' zs (Ls[k := xs]) (H \<union> span zp i k)" and "tile s' zp i k (free_byte k)"
    and "span zp i k \<inter> H = {}"
proof -
  note same = links_only_same [OF lo]
  have wf: "zones_wf s zs" and po: "pages_ok s zs H" and lists: "lists_ok s zs Ls H" and "free_lists s Ls"
    using inv by (simp_all add: buddy_inv_def)
  have t: "tile s zp i k (free_byte k)" and "span zp i k \<inter> H = {}"
    using free_head_tile [OF po hd k] by simp_all
  then show "span zp i k \<inter> H = {}" by simp
  show t': "tile s' zp i k (free_byte k)" by (rule tile_cong [OF t]) (simp_all add: same)
  have heads: "free_heads s' zs (H \<union> span zp i k) j =
      free_heads s zs H j - (if j = k then {(zp, i)} else {})" if "j < MAX_ORDER" for j
    using free_heads_open [OF t k that, of zs H] free_heads_cong [of zs s' s] by (simp add: same)
  have len: "k < length Ls" using free_lists_D(5) [OF \<open>free_lists s Ls\<close> k] .
  have "lists_ok s' zs (Ls[k := xs]) (H \<union> span zp i k)"
    unfolding lists_ok_def
  proof (intro allI impI conjI)
    fix j assume j: "j < MAX_ORDER"
    have img: "set (Ls ! j) = (\<lambda>(zp, i). page_addr s zp i) ` free_heads s zs H j"
      using lists j by (simp add: lists_ok_def)
    have "(\<lambda>(zp, i). page_addr s zp i) ` (free_heads s zs H k - {(zp, i)}) = set (Ls ! k) - {page_addr s zp i}"
    proof -
      have "inj_on (\<lambda>(zp, i). page_addr s zp i) (free_heads s zs H k)"
        by (rule inj_on_subset [OF free_heads_inj [OF wf]]) blast
      then show ?thesis using hd lists k
        by (subst inj_on_image_set_diff) (auto simp: lists_ok_def)
    qed
    then show "set (Ls[k := xs] ! j) = (\<lambda>(zp, i). page_addr s' zp i) ` free_heads s' zs (H \<union> span zp i k) j"
      using img len xs by (cases "j = k") (simp_all add: same heads [OF j] heads [OF k])
    show "\<forall>(zp', i') \<in> free_heads s' zs (H \<union> span zp i k) j.
        \<exists>b. blocks s' (page_addr s' zp' i') = Some b \<and> fb_zone b = zp' \<and> fb_index b = i'"
    proof clarify
      fix z' i' assume "(z', i') \<in> free_heads s' zs (H \<union> span zp i k) j"
      then have "(z', i') \<in> free_heads s zs H j" unfolding heads [OF j] by simp
      then have "\<exists>b. blocks s (page_addr s z' i') = Some b \<and> fb_zone b = z' \<and> fb_index b = i'"
        using lists j unfolding lists_ok_def by fast
      then show "\<exists>b. blocks s' (page_addr s' z' i') = Some b \<and> fb_zone b = z' \<and> fb_index b = i'"
        using block_info_links [OF lo] by (simp add: same)
    qed
  qed
  moreover have "pages_ok s' zs (H \<union> span zp i k)"
    by (rule pages_ok_cong [OF pages_ok_open [OF po t]]) (simp_all add: same)
  moreover have "zones_wf s' zs" using wf zones_wf_cong [OF same(1,2)] by simp
  ultimately show "buddy_inv s' zs (Ls[k := xs]) (H \<union> span zp i k)"
    using fl by (simp add: buddy_inv_def)
qed

lemma buddy_open_used:
  assumes inv: "buddy_inv s zs Ls H" and t: "tile s zp i k (used_byte k)"
  shows "buddy_inv s zs Ls (H \<union> span zp i k)"
proof -
  note k = tileD(1) [OF t]
  have "free_heads s zs (H \<union> span zp i k) j = free_heads s zs H j" if "j < MAX_ORDER" for j
    using free_heads_open [OF t k that] byte_inj(3) [OF k k] by simp
  then have "lists_ok s zs Ls (H \<union> span zp i k)"
    using inv by (simp add: buddy_inv_def lists_ok_def)
  then show ?thesis using inv pages_ok_open [OF _ t] by (simp add: buddy_inv_def)
qed

lemma buddy_close_used:
  assumes inv: "buddy_inv s zs Ls H" and t: "tile s zp i k (used_byte k)"
    and sub: "span zp i k \<subseteq> H" and zp: "zp \<in> set zs"
  shows "buddy_inv s zs Ls (H - span zp i k)"
proof -
  note k = tileD(1) [OF t]
  have "free_heads s zs (H - span zp i k) j = free_heads s zs H j" if "j < MAX_ORDER" for j
    using free_heads_close [OF t k that sub zp] byte_inj(3) [OF k k] by simp
  then have "lists_ok s zs Ls (H - span zp i k)"
    using inv by (simp add: buddy_inv_def lists_ok_def)
  then show ?thesis using inv pages_ok_close [OF _ t sub] by (simp add: buddy_inv_def)
qed

lemma buddy_cong:
  assumes inv: "buddy_inv s zs Ls H" and z: "zones s' = zones s" "zone_head s' = zone_head s"
    and b: "blocks s' = blocks s" "free_area s' = free_area s"
    and m: "\<And>zp q. zp \<in> set zs \<Longrightarrow> q < npages s zp \<Longrightarrow> (zp, q) \<notin> H \<Longrightarrow> byte s' zp q = byte s zp q"
  shows "buddy_inv s' zs Ls H"
proof -
  have n: "npages s' zp = npages s zp" and a: "page_addr s' zp i = page_addr s zp i" for zp i
    using z by (simp_all add: npages_def page_addr_def zone_of_def)
  have "zones_wf s zs" and fl: "free_lists s Ls" and po: "pages_ok s zs H" and lo: "lists_ok s zs Ls H"
    using inv unfolding buddy_inv_def by blast+
  have heads: "free_heads s' zs H k = free_heads s zs H k" for k
    by (rule free_heads_cong [OF n m])
  have "lists_ok s' zs Ls H" using lo unfolding lists_ok_def heads a b .
  moreover have "pages_ok s' zs H" by (rule pages_ok_cong [OF po n m])
  moreover have "free_lists s' Ls" using fl unfolding free_lists_def b .
  ultimately show ?thesis
    using zones_wf_cong [OF z] \<open>zones_wf s zs\<close> unfolding buddy_inv_def by blast
qed

lemma buddy_fill:
  assumes inv: "buddy_inv s zs Ls H" and zp: "zp \<in> set zs" and n: "i + n \<le> npages s zp"
    and sub: "{zp} \<times> {i ..< i + n} \<subseteq> H"
  shows "buddy_inv (fill_meta s (z_meta (zone_of s zp)) i n v) zs Ls H"
proof (rule buddy_cong [OF inv])
  fix zq q
  assume q: "zq \<in> set zs" "q < npages s zq" "(zq, q) \<notin> H"
  have wf: "zones_wf s zs" using inv by (simp add: buddy_inv_def)
  have no: "\<not> (zq = zp \<and> q \<in> {i ..< i + n})" using sub q(3) by blast
  show "byte (fill_meta s (z_meta (zone_of s zp)) i n v) zq q = byte s zq q"
    unfolding byte_fill [OF wf zp q(1,2) n] by (rule if_not_P [OF no])
qed simp_all

lemma tile_fill:
  assumes "zones_wf s zs" and "zp \<in> set zs" and "k < MAX_ORDER" and "2 ^ k dvd i"
    and "i + 2 ^ k \<le> npages s zp" and "v = used_byte k \<or> v = free_byte k"
  shows "tile (fill_meta s (z_meta (zone_of s zp)) i (2 ^ k) v) zp i k v"
proof -
  have "byte (fill_meta s (z_meta (zone_of s zp)) i (2 ^ k) v) zp q = Some v" if "q \<in> {i ..< i + 2 ^ k}" for q
    using byte_fill [OF assms(1,2,2) _ assms(5), of q v] that assms(5) by simp
  then show ?thesis using assms(3-6) unfolding tile_def block_at_def by simp
qed

text \<open>What the operations keep of the rest of the state.\<close>

definition same_frame :: "page_allocator \<Rightarrow> page_allocator \<Rightarrow> bool" where
  "same_frame s s' \<longleftrightarrow> zones s' = zones s \<and> zone_head s' = zone_head s \<and>
     total_pages s' = total_pages s \<and> allocated_pages s' = allocated_pages s \<and>
     lowest_address s' = lowest_address s \<and> is_dmap s' = is_dmap s"

lemma same_frame_refl [simp]: "same_frame s s"
  by (simp add: same_frame_def)

lemma same_frame_trans: "same_frame s t \<Longrightarrow> same_frame t u \<Longrightarrow> same_frame s u"
  by (simp add: same_frame_def)

lemma same_frame_fill [simp]: "same_frame s (fill_meta s base i n v)"
  by (simp add: same_frame_def fill_meta_eq)

lemma same_frame_links: "links_only s s' X \<Longrightarrow> same_frame s s'"
  by (simp add: same_frame_def links_only_def)

lemma same_frameD:
  assumes "same_frame s s'"
  shows "zone_of s' zp = zone_of s zp" and "npages s' zp = npages s zp"
    and "page_addr s' zp i = page_addr s zp i" and "zones s' = zones s" and "zone_head s' = zone_head s"
    and "allocated_pages s' = allocated_pages s" and "total_pages s' = total_pages s"
  using assms by (simp_all add: same_frame_def zone_of_def npages_def page_addr_def)

end
