(* ===== verification/Page_Ops.thy ===== *)
theory Page_Ops
  imports Page_Buddy
begin

text \<open>
  The operations of the page allocator on the invariant of \<open>Page_Buddy\<close>: splitting and allocating,
  merging and freeing, and adding a range of memory.
\<close>

section \<open>Freeing a part of the hole\<close>

text \<open>Bytes outside a set of pages.\<close>

definition bytes_outside :: "page_allocator \<Rightarrow> page_allocator \<Rightarrow> nat list \<Rightarrow> (nat \<times> nat) set \<Rightarrow> bool" where
  "bytes_outside s s' zs X \<longleftrightarrow>
     (\<forall>zp q. zp \<in> set zs \<longrightarrow> q < npages s zp \<longrightarrow> (zp, q) \<notin> X \<longrightarrow> byte s' zp q = byte s zp q)"

lemma bytes_outside_trans:
  assumes "bytes_outside s t zs X" and "bytes_outside t u zs Y" and "same_frame s t"
  shows "bytes_outside s u zs (X \<union> Y)"
  using assms(1,2) same_frameD(2) [OF assms(3)] unfolding bytes_outside_def by simp

lemma bytes_outside_mono: "bytes_outside s t zs X \<Longrightarrow> X \<subseteq> Y \<Longrightarrow> bytes_outside s t zs Y"
  unfolding bytes_outside_def by blast

lemma bytes_outside_links: "links_only s s' A \<Longrightarrow> bytes_outside s s' zs {}"
  by (simp add: bytes_outside_def links_only_same)

lemma bytes_outside_fill:
  assumes "zones_wf s zs" and "zp \<in> set zs" and "i + n \<le> npages s zp"
  shows "bytes_outside s (fill_meta s (z_meta (zone_of s zp)) i n v) zs ({zp} \<times> {i ..< i + n})"
  unfolding bytes_outside_def
proof (intro allI impI)
  fix zq q
  assume q: "zq \<in> set zs" "q < npages s zq" "(zq, q) \<notin> {zp} \<times> {i ..< i + n}"
  then have no: "\<not> (zq = zp \<and> q \<in> {i ..< i + n})" by blast
  show "byte (fill_meta s (z_meta (zone_of s zp)) i n v) zq q = byte s zq q"
    unfolding byte_fill [OF assms(1,2) q(1,2) assms(3)] by (rule if_not_P [OF no])
qed

lemma hole_address:
  assumes inv: "buddy_inv s zs Ls H" and zp: "zp \<in> set zs" and "i < npages s zp" and "(zp, i) \<in> H"
    and k: "k < MAX_ORDER"
  shows "page_addr s zp i \<notin> set (Ls ! k)"
proof
  have wf: "zones_wf s zs" and lo: "lists_ok s zs Ls H" using inv unfolding buddy_inv_def by blast+
  assume "page_addr s zp i \<in> set (Ls ! k)"
  then have "page_addr s zp i \<in> (\<lambda>(zp, i). page_addr s zp i) ` free_heads s zs H k"
    using lo k unfolding lists_ok_def by simp
  then obtain zq j where j: "(zq, j) \<in> free_heads s zs H k" "page_addr s zp i = page_addr s zq j" by auto
  then have "zq \<in> set zs" "j < npages s zq" "(zq, j) \<notin> H" by (simp_all add: free_heads_def)
  then show False using page_addr_inj [OF wf zp _ assms(3)] j(2) assms(4) by blast
qed

lemma buddy_push:
  assumes inv: "buddy_inv s zs Ls H" and t: "tile s zp i k (free_byte k)" and zp: "zp \<in> set zs"
    and sub: "span zp i k \<subseteq> H"
  obtains s' where "push_block s (page_addr s zp i) zp i k = Some s'"
    and "buddy_inv s' zs (Ls[k := page_addr s zp i # Ls ! k]) (H - span zp i k)"
    and "links_only s s' {page_addr s zp i}"
proof -
  let ?x = "page_addr s zp i" and ?Ls = "Ls[k := page_addr s zp i # Ls ! k]" and ?H = "H - span zp i k"
  note k = tileD(1) [OF t]
  have wf: "zones_wf s zs" and fl: "free_lists s Ls" and po: "pages_ok s zs H" and lists: "lists_ok s zs Ls H"
    using inv unfolding buddy_inv_def by blast+
  have i: "i \<in> {i ..< i + 2 ^ k}" by simp
  have hole: "(zp, i) \<in> H" using sub i by auto
  have new: "?x \<notin> set (Ls ! j)" if "j < MAX_ORDER" for j
    by (rule hole_address [OF inv zp tileD(6) [OF t i] hole that])
  obtain s' where s': "push_block s ?x zp i k = Some s'" "free_lists s' ?Ls" "links_only s s' {?x}"
      "\<exists>b. blocks s' ?x = Some b \<and> fb_zone b = zp \<and> fb_index b = i"
    using push_block_lists [OF fl k page_addr_nonzero [OF wf zp] new] by blast
  note same = links_only_same [OF s'(3)]
  have len: "k < length Ls" using free_lists_D(5) [OF fl k] .
  have heads: "free_heads s' zs ?H j = free_heads s zs H j \<union> (if j = k then {(zp, i)} else {})"
    if "j < MAX_ORDER" for j
    using free_heads_close [OF t k that sub zp] free_heads_cong [of zs s' s ?H j] by (simp add: same)
  have "lists_ok s' zs ?Ls ?H"
    unfolding lists_ok_def
  proof (intro allI impI conjI)
    fix j assume j: "j < MAX_ORDER"
    have "set (Ls ! j) = (\<lambda>(zp, i). page_addr s zp i) ` free_heads s zs H j"
      using lists j by (simp add: lists_ok_def)
    then show "set (?Ls ! j) = (\<lambda>(zp, i). page_addr s' zp i) ` free_heads s' zs ?H j"
      using len by (cases "j = k") (simp_all add: same heads [OF j] heads [OF k])
    show "\<forall>(zq, l) \<in> free_heads s' zs ?H j.
        \<exists>b. blocks s' (page_addr s' zq l) = Some b \<and> fb_zone b = zq \<and> fb_index b = l"
    proof clarify
      fix zq l assume "(zq, l) \<in> free_heads s' zs ?H j"
      then consider "(zq, l) = (zp, i)" | "(zq, l) \<in> free_heads s zs H j"
        unfolding heads [OF j] by (auto split: if_splits)
      then show "\<exists>b. blocks s' (page_addr s' zq l) = Some b \<and> fb_zone b = zq \<and> fb_index b = l"
      proof cases
        case 1
        then show ?thesis using s'(4) by (simp add: same)
      next
        case 2
        then have "page_addr s zq l \<in> set (Ls ! j)" using lists j unfolding lists_ok_def by force
        then have "page_addr s zq l \<noteq> ?x" using new [OF j] by metis
        moreover have "\<exists>b. blocks s (page_addr s zq l) = Some b \<and> fb_zone b = zq \<and> fb_index b = l"
          using 2 lists j unfolding lists_ok_def by fast
        ultimately show ?thesis using block_info_links [OF s'(3)] by (simp add: same)
      qed
    qed
  qed
  moreover have "pages_ok s' zs ?H"
    by (rule pages_ok_cong [OF pages_ok_close [OF po t sub]]) (simp_all add: same)
  moreover have "zones_wf s' zs" using wf zones_wf_cong [OF same(1,2)] by simp
  ultimately have "buddy_inv s' zs ?Ls ?H" using s'(2) by (simp add: buddy_inv_def)
  then show ?thesis using that s'(1,3) by blast
qed

text \<open>Writing the bytes of a free block in the hole and pushing it.\<close>

lemma buddy_give:
  assumes inv: "buddy_inv s zs Ls H" and zp: "zp \<in> set zs" and k: "k < MAX_ORDER" and al: "2 ^ k dvd i"
    and n: "i + 2 ^ k \<le> npages s zp" and sub: "span zp i k \<subseteq> H"
  obtains s' Ls' where
    "push_block (fill_meta s (z_meta (zone_of s zp)) i (2 ^ k) (free_byte k)) (page_addr s zp i) zp i k = Some s'"
    and "buddy_inv s' zs Ls' (H - span zp i k)" and "same_frame s s'"
    and "bytes_outside s s' zs (span zp i k)"
    and "\<And>q. q \<in> {i ..< i + 2 ^ k} \<Longrightarrow> byte s' zp q = Some (free_byte k)"
proof -
  let ?s = "fill_meta s (z_meta (zone_of s zp)) i (2 ^ k) (free_byte k)"
  have wf: "zones_wf s zs" using inv unfolding buddy_inv_def by blast
  have t: "tile ?s zp i k (free_byte k)" by (rule tile_fill [OF wf zp k al n]) simp
  have inv1: "buddy_inv ?s zs Ls H" using buddy_fill [OF inv zp n] sub by (simp add: span_def)
  obtain s' where s': "push_block ?s (page_addr ?s zp i) zp i k = Some s'"
      "buddy_inv s' zs (Ls[k := page_addr ?s zp i # Ls ! k]) (H - span zp i k)"
      "links_only ?s s' {page_addr ?s zp i}"
    by (rule buddy_push [OF inv1 t zp sub])
  have fr: "same_frame s s'"
    by (rule same_frame_trans [OF same_frame_fill same_frame_links [OF s'(3)]])
  have "bytes_outside s s' zs (span zp i k)"
    using bytes_outside_trans [OF bytes_outside_fill [OF wf zp n, of "free_byte k"] bytes_outside_links [OF s'(3)]
        same_frame_fill] by (simp add: span_def)
  moreover have "byte s' zp q = Some (free_byte k)" if "q \<in> {i ..< i + 2 ^ k}" for q
    using tileD(5) [OF t that] by (simp add: links_only_same [OF s'(3)])
  ultimately show ?thesis using that s'(1,2) fr by simp
qed

section \<open>Splitting\<close>

text \<open>Pages whose byte says that they are free.\<close>

definition free_page :: "page_allocator \<Rightarrow> nat \<Rightarrow> nat \<Rightarrow> bool" where
  "free_page s zp q \<longleftrightarrow> (\<exists>k < MAX_ORDER. byte s zp q = Some (free_byte k))"

lemma free_pageI: "byte s zp q = Some (free_byte k) \<Longrightarrow> k < MAX_ORDER \<Longrightarrow> free_page s zp q"
  unfolding free_page_def by blast

lemma span_halves: "span zp i (Suc k) = span zp i k \<union> span zp (i + 2 ^ k) k"
  by (auto simp: span_def)

lemma span_mono:
  assumes "k \<le> l"
  shows "span zp i k \<subseteq> span zp i l"
proof clarify
  fix z q assume "(z, q) \<in> span zp i k"
  then have "z = zp" "i \<le> q" "q < i + 2 ^ k" by simp_all
  moreover have "(2 :: nat) ^ k \<le> 2 ^ l" using assms by simp
  ultimately have "z = zp" "i \<le> q" "q < i + 2 ^ l" by linarith+
  then show "(z, q) \<in> span zp i l" by simp
qed

lemma halves_disjoint: "span zp i k \<inter> span zp (i + 2 ^ k) k = {}"
  by (auto simp: span_def)

lemma split_loop_ok:
  assumes "buddy_inv s zs Ls H" and "zp \<in> set zs" and "m < MAX_ORDER" and "t \<le> m" and "2 ^ m dvd i"
    and "i + 2 ^ m \<le> npages s zp" and "span zp i m - span zp i t \<subseteq> H"
  shows "\<exists>s' Ls'. split_loop s zp (zone_of s zp) i m t = Some s' \<and>
    buddy_inv s' zs Ls' (H - (span zp i m - span zp i t)) \<and> same_frame s s' \<and>
    bytes_outside s s' zs (span zp i m - span zp i t) \<and>
    (\<forall>q. (zp, q) \<in> span zp i m - span zp i t \<longrightarrow> free_page s' zp q)"
  using assms
proof (induction m arbitrary: s Ls H)
  case 0
  then show ?case by (subst split_loop.simps) (auto simp: bytes_outside_def)
next
  case (Suc m)
  show ?case
  proof (cases "t = Suc m")
    case True
    then show ?thesis using Suc.prems(1) by (subst split_loop.simps) (auto simp: bytes_outside_def)
  next
    case False
    let ?r = "i + 2 ^ m" and ?z = "zone_of s zp"
    have tm: "t \<le> m" using False Suc.prems(4) by simp
    have al: "2 ^ m dvd i" "2 ^ m dvd ?r" using Suc.prems(5) by (auto simp: power_Suc2 dest: dvd_mult_left)
    have n: "?r + 2 ^ m \<le> npages s zp" using Suc.prems(6) by simp
    have dis: "span zp ?r m \<inter> span zp i t = {}" using span_mono [OF tm] halves_disjoint by blast
    have sub: "span zp ?r m \<subseteq> H" using Suc.prems(7) dis unfolding span_halves by blast
    obtain s1 Ls1 where s1:
      "push_block (fill_meta s (z_meta ?z) ?r (2 ^ m) (free_byte m)) (page_addr s zp ?r) zp ?r m = Some s1"
      "buddy_inv s1 zs Ls1 (H - span zp ?r m)" "same_frame s s1" "bytes_outside s s1 zs (span zp ?r m)"
      and bt: "\<And>q. q \<in> {?r ..< ?r + 2 ^ m} \<Longrightarrow> byte s1 zp q = Some (free_byte m)"
      using buddy_give [OF Suc.prems(1,2) Suc_lessD [OF Suc.prems(3)] al(2) n sub] by blast
    note f1 = same_frameD [OF s1(3)]
    have "span zp i m - span zp i t \<subseteq> H - span zp ?r m"
      using Suc.prems(7) halves_disjoint unfolding span_halves by blast
    then obtain s2 Ls2 where s2: "split_loop s1 zp ?z i m t = Some s2"
      "buddy_inv s2 zs Ls2 (H - span zp ?r m - (span zp i m - span zp i t))" "same_frame s1 s2"
      "bytes_outside s1 s2 zs (span zp i m - span zp i t)"
      "\<And>q. (zp, q) \<in> span zp i m - span zp i t \<Longrightarrow> free_page s2 zp q"
      using Suc.IH [OF s1(2) Suc.prems(2) Suc_lessD [OF Suc.prems(3)] tm al(1)] n by (auto simp: f1)
    have whole: "span zp i (Suc m) - span zp i t = span zp ?r m \<union> (span zp i m - span zp i t)"
      using dis unfolding span_halves by blast
    have "split_loop s zp ?z i (Suc m) t = Some s2"
      using s1(1) s2(1) tm by (subst split_loop.simps) (simp add: page_addr_def Let_def)
    moreover have "H - span zp ?r m - (span zp i m - span zp i t) = H - (span zp i (Suc m) - span zp i t)"
      unfolding whole by blast
    then have "buddy_inv s2 zs Ls2 (H - (span zp i (Suc m) - span zp i t))" using s2(2) by simp
    moreover have "same_frame s s2" by (rule same_frame_trans [OF s1(3) s2(3)])
    moreover have "bytes_outside s s2 zs (span zp i (Suc m) - span zp i t)"
      unfolding whole by (rule bytes_outside_trans [OF s1(4) s2(4) s1(3)])
    moreover have "free_page s2 zp q" if q: "(zp, q) \<in> span zp i (Suc m) - span zp i t" for q
    proof (cases "(zp, q) \<in> span zp i m - span zp i t")
      case False
      then have "q \<in> {?r ..< ?r + 2 ^ m}" using q unfolding whole by auto
      moreover have "byte s2 zp q = byte s1 zp q"
        using s2(4) Suc.prems(2) False n \<open>q \<in> {?r ..< ?r + 2 ^ m}\<close> unfolding bytes_outside_def f1 by auto
      ultimately show ?thesis using bt Suc.prems(3) by (intro free_pageI [of _ _ _ m]) auto
    qed (rule s2(5))
    ultimately show ?thesis by blast
  qed
qed

section \<open>Allocated blocks\<close>

text \<open>The allocated blocks as zone, first page and order; the client sees their addresses.\<close>

definition used_heads :: "page_allocator \<Rightarrow> nat list \<Rightarrow> (nat \<times> nat \<times> nat) set" where
  "used_heads s zs = {(zp, i, k). zp \<in> set zs \<and> k < MAX_ORDER \<and> 2 ^ k dvd i \<and> i < npages s zp \<and>
     byte s zp i = Some (used_byte k)}"

definition allocated :: "page_allocator \<Rightarrow> nat list \<Rightarrow> (nat \<times> nat) set" where
  "allocated s zs = (\<lambda>(zp, i, k). (page_addr s zp i, k)) ` used_heads s zs"

lemma used_head_tile:
  assumes "pages_ok s zs {}" and "(zp, i, k) \<in> used_heads s zs"
  shows "tile s zp i k (used_byte k)"
proof -
  have h: "zp \<in> set zs" "k < MAX_ORDER" "2 ^ k dvd i" "i < npages s zp" "byte s zp i = Some (used_byte k)"
    using assms(2) by (simp_all add: used_heads_def)
  have "(zp, i) \<notin> {}" by simp
  then obtain j l v where t: "tile s zp j l v" "i \<in> {j ..< j + 2 ^ l}"
    using pages_okD [OF assms(1) h(1,4)] by metis
  have v: "v = used_byte k" using tileD(5) [OF t] h(5) by simp
  note l = tileD(1) [OF t(1)]
  have "v = used_byte l" using tileD(4) [OF t(1)] v byte_inj(3) [OF h(2) l] by metis
  then have "l = k" using v by (intro byte_inj(2) [OF l h(2)]) simp
  moreover have "j = i"
    using t(2) tileD(2) [OF t(1)] h(3) \<open>l = k\<close> by (intro aligned_same [of k j i i]) auto
  ultimately show ?thesis using t v by simp
qed

lemma finite_used_heads: "finite (used_heads s zs)"
proof -
  have "used_heads s zs \<subseteq> (\<Union>zp \<in> set zs. {zp} \<times> {..<npages s zp} \<times> {..<MAX_ORDER})"
    by (auto simp: used_heads_def)
  then show ?thesis by (rule finite_subset) auto
qed

lemma free_not_used: "free_page s zp q \<Longrightarrow> k < MAX_ORDER \<Longrightarrow> byte s zp q \<noteq> Some (used_byte k)"
  using byte_inj(3) unfolding free_page_def by fastforce

text \<open>Turning free pages into one allocated block, and an allocated block into free pages.\<close>

lemma used_heads_add:
  assumes out: "bytes_outside s s' zs X" and n: "same_frame s s'" and zp: "zp \<in> set zs" "i < npages s zp"
    and free: "\<And>zq q. (zq, q) \<in> X \<Longrightarrow> free_page s zq q"
    and rest: "\<And>zq q. (zq, q) \<in> X - span zp i k \<Longrightarrow> free_page s' zq q"
    and sub: "span zp i k \<subseteq> X" and k: "k < MAX_ORDER" and al: "2 ^ k dvd i"
    and bt: "\<And>q. q \<in> {i ..< i + 2 ^ k} \<Longrightarrow> byte s' zp q = Some (used_byte k)"
  shows "used_heads s' zs = insert (zp, i, k) (used_heads s zs)" and "(zp, i, k) \<notin> used_heads s zs"
proof -
  have i: "(zp, i) \<in> span zp i k" by simp
  then have iX: "(zp, i) \<in> X" using sub by blast
  show "(zp, i, k) \<notin> used_heads s zs"
    using free_not_used [OF free [OF iX] k] by (simp add: used_heads_def)
  have "(zq, j, l) \<in> used_heads s' zs \<longleftrightarrow> (zq, j, l) \<in> insert (zp, i, k) (used_heads s zs)" for zq j l
  proof (cases "(zq, j) \<in> X")
    case False
    then have "(zq, j, l) \<noteq> (zp, i, k)" using iX by blast
    moreover have "byte s' zq j = byte s zq j" if "zq \<in> set zs" "j < npages s zq"
      using out that False unfolding bytes_outside_def by blast
    ultimately show ?thesis by (simp add: used_heads_def same_frameD(2) [OF n] cong: conj_cong)
  next
    case X: True
    have "(zq, j, l) \<notin> used_heads s zs"
      using free_not_used [OF free [OF X]] by (simp add: used_heads_def)
    moreover have "(zq, j, l) \<in> used_heads s' zs \<longleftrightarrow> (zq, j, l) = (zp, i, k)"
    proof
      assume u: "(zq, j, l) \<in> used_heads s' zs"
      then have l: "l < MAX_ORDER" "2 ^ l dvd j" "byte s' zq j = Some (used_byte l)"
        by (simp_all add: used_heads_def)
      then have "\<not> free_page s' zq j" using free_not_used by blast
      then have "(zq, j) \<in> span zp i k" using rest X by blast
      then have j: "zq = zp" "j \<in> {i ..< i + 2 ^ k}" unfolding mem_span by blast+
      have "used_byte l = used_byte k" using bt [OF j(2)] l(3) j(1) by simp
      then have "l = k" by (rule byte_inj(2) [OF l(1) k])
      moreover have "j = i" using j(2) l(2) al \<open>l = k\<close> by (intro aligned_same [of k j i j]) auto
      ultimately show "(zq, j, l) = (zp, i, k)" using j by simp
    next
      assume "(zq, j, l) = (zp, i, k)"
      then show "(zq, j, l) \<in> used_heads s' zs"
        using zp k al bt [of i] by (simp add: used_heads_def same_frameD(2) [OF n])
    qed
    ultimately show ?thesis by blast
  qed
  then show "used_heads s' zs = insert (zp, i, k) (used_heads s zs)" by auto
qed

lemma used_heads_remove:
  assumes out: "bytes_outside s s' zs X" and n: "same_frame s s'" and zp: "zp \<in> set zs"
    and free: "\<And>zq q. (zq, q) \<in> X \<Longrightarrow> free_page s' zq q"
    and rest: "\<And>zq q. (zq, q) \<in> X - span zp i k \<Longrightarrow> free_page s zq q"
    and sub: "span zp i k \<subseteq> X" and t: "tile s zp i k (used_byte k)"
  shows "used_heads s' zs = used_heads s zs - {(zp, i, k)}" and "(zp, i, k) \<in> used_heads s zs"
proof -
  have bt: "byte s zp q = Some (used_byte k)" if "q \<in> {i ..< i + 2 ^ k}" for q by (rule tileD(5) [OF t that])
  have "npages s zp = npages s' zp" and fr: "same_frame s' s"
    using n same_frameD(2) [OF n] by (simp_all add: same_frame_def)
  then have "bytes_outside s' s zs X" using out same_frameD(2) [OF n] by (simp add: bytes_outside_def)
  moreover have "i < npages s' zp" using tileD(6) [OF t, of i] same_frameD(2) [OF n] by simp
  ultimately have "used_heads s zs = insert (zp, i, k) (used_heads s' zs)" "(zp, i, k) \<notin> used_heads s' zs"
    using used_heads_add [OF _ fr zp _ free rest sub tileD(1,2) [OF t] bt] by blast+
  then show "used_heads s' zs = used_heads s zs - {(zp, i, k)}" "(zp, i, k) \<in> used_heads s zs" by auto
qed

section \<open>Allocating\<close>

lemma zlist_member: "zlist h p zs \<Longrightarrow> zp \<in> set zs \<Longrightarrow> zp \<noteq> 0 \<and> (\<exists>z. h zp = Some z)"
  by (induction h p zs rule: zlist.induct) auto

lemma zones_zone_of: "zones_wf s zs \<Longrightarrow> zp \<in> set zs \<Longrightarrow> zones s zp = Some (zone_of s zp)"
  using zlist_member unfolding zones_wf_def zone_of_def by fastforce

lemma used_heads_count:
  "used_heads (s\<lparr>allocated_pages := n\<rparr>) zs = used_heads s zs"
  by (simp add: used_heads_def npages_def byte_def zone_of_def)

lemma buddy_inv_count: "buddy_inv s zs Ls H \<Longrightarrow> buddy_inv (s\<lparr>allocated_pages := n\<rparr>) zs Ls H"
  by (erule buddy_cong) (simp_all add: byte_def zone_of_def)

text \<open>Taking the first block of a list: the list is \<open>xs\<close> then, and the block is the hole.\<close>

lemma buddy_pop:
  assumes inv: "buddy_inv s zs Ls {}" and k: "k < MAX_ORDER" and l: "Ls ! k = x # xs"
  obtains zp i b s1 where "pop_block s k = Some (b, s1)" and "fb_zone b = zp" and "fb_index b = i"
    and "zp \<in> set zs" and "x = page_addr s zp i" and "tile s zp i k (free_byte k)"
    and "buddy_inv s1 zs (Ls[k := xs]) (span zp i k)" and "links_only s s1 {}"
proof -
  have fl: "free_lists s Ls" and po: "pages_ok s zs {}" and lo: "lists_ok s zs Ls {}"
    using inv unfolding buddy_inv_def by blast+
  obtain s1 b where s1: "pop_block s k = Some (b, s1)" "blocks s x = Some b"
      "free_lists s1 (Ls[k := xs])" "links_only s s1 {}"
    by (rule pop_block_lists [OF fl k l])
  have "x \<in> set (Ls ! k)" using l by simp
  then obtain zp i where h: "(zp, i) \<in> free_heads s zs {} k" "x = page_addr s zp i"
    using lo k unfolding lists_ok_def by auto
  have "\<exists>b. blocks s (page_addr s zp i) = Some b \<and> fb_zone b = zp \<and> fb_index b = i"
    using lo k h(1) unfolding lists_ok_def by fast
  then have b: "fb_zone b = zp" "fb_index b = i" "zp \<in> set zs"
    using h s1(2) by (auto simp: free_heads_def)
  have "distinct (Ls ! k)" using free_lists_D(2) [OF fl k] .
  then have "set xs = set (Ls ! k) - {page_addr s zp i}" using l h(2) by auto
  then have "buddy_inv s1 zs (Ls[k := xs]) ({} \<union> span zp i k)"
    by (rule buddy_open_free(1) [OF inv k h(1) s1(4,3)])
  then show ?thesis using that [OF s1(1) b h(2) free_head_tile(1) [OF po h(1) k] _ s1(4)] by simp
qed

definition alloc_post ::
  "page_allocator \<Rightarrow> nat list \<Rightarrow> nat \<Rightarrow> nat \<Rightarrow> page_allocator \<Rightarrow> bool" where
  "alloc_post s zs t r s' \<longleftrightarrow> (\<exists>zp i Ls. zp \<in> set zs \<and> r = page_addr s zp i \<and> 2 ^ t dvd i \<and>
     i + 2 ^ t \<le> npages s zp \<and> buddy_inv s' zs Ls {} \<and>
     used_heads s' zs = insert (zp, i, t) (used_heads s zs) \<and> (zp, i, t) \<notin> used_heads s zs \<and>
     same_frame (s\<lparr>allocated_pages := allocated_pages s + 2 ^ t\<rparr>) s')"

lemma alloc_loop_take:
  assumes inv: "buddy_inv s zs Ls {}" and k: "k < MAX_ORDER" and t: "t \<le> k" and l: "Ls ! k = x # xs"
  shows "\<exists>s'. alloc_loop s t (k # ks) = Some (x, s') \<and> alloc_post s zs t x s'"
proof -
  obtain zp i b s1 where s1: "pop_block s k = Some (b, s1)" "fb_zone b = zp" "fb_index b = i"
      "zp \<in> set zs" "x = page_addr s zp i" "tile s zp i k (free_byte k)"
      "buddy_inv s1 zs (Ls[k := xs]) (span zp i k)" "links_only s s1 {}"
    by (rule buddy_pop [OF inv k l])
  note f1 = same_frameD [OF same_frame_links [OF s1(8)]]
  let ?z = "zone_of s zp" and ?t = "used_byte t"
  let ?s2 = "fill_meta s1 (z_meta ?z) i (2 ^ t) ?t"
  have wf: "zones_wf s1 zs" using s1(7) unfolding buddy_inv_def by blast
  have tm: "t < MAX_ORDER" using t k by simp
  have al: "2 ^ t dvd i" using tileD(2) [OF s1(6)] t by (meson dvd_trans le_imp_power_dvd)
  have sub: "span zp i t \<subseteq> span zp i k" by (rule span_mono [OF t])
  have nk: "i + 2 ^ k \<le> npages s1 zp" using tileD(3) [OF s1(6)] by (simp add: f1)
  have "(2 :: nat) ^ t \<le> 2 ^ k" using t by simp
  then have nt: "i + 2 ^ t \<le> npages s1 zp" using nk by linarith
  have "buddy_inv ?s2 zs (Ls[k := xs]) (span zp i k)"
    using buddy_fill [OF s1(7,4) nt, of ?t] sub by (simp add: span_def f1)
  moreover have "i + 2 ^ k \<le> npages ?s2 zp" using nk by simp
  ultimately obtain s3 Ls3 where s3: "split_loop ?s2 zp (zone_of ?s2 zp) i k t = Some s3"
      "buddy_inv s3 zs Ls3 (span zp i k - (span zp i k - span zp i t))" "same_frame ?s2 s3"
      "bytes_outside ?s2 s3 zs (span zp i k - span zp i t)"
      and rest: "\<And>q. (zp, q) \<in> span zp i k - span zp i t \<Longrightarrow> free_page s3 zp q"
    using split_loop_ok [OF _ s1(4) k t tileD(2) [OF s1(6)], of ?s2 _ "span zp i k"] by blast
  have fr: "same_frame s s3"
    by (rule same_frame_trans [OF same_frame_links [OF s1(8)] same_frame_trans [OF same_frame_fill s3(3)]])
  note f3 = same_frameD [OF fr]
  have t2: "tile ?s2 zp i t ?t" using tile_fill [OF wf s1(4) tm al nt, of ?t] by (simp add: f1)
  have bt: "byte s3 zp q = Some ?t" if q: "q \<in> {i ..< i + 2 ^ t}" for q
  proof -
    have "(zp, q) \<notin> span zp i k - span zp i t" using q by simp
    then show ?thesis
      using s3(4) s1(4) tileD(5,6) [OF t2 q] unfolding bytes_outside_def by metis
  qed
  then have t3: "tile s3 zp i t ?t"
    using tm al nt by (simp add: tile_def block_at_def f1 f3)
  have "span zp i k - (span zp i k - span zp i t) = span zp i t" using sub by blast
  then have inv3: "buddy_inv s3 zs Ls3 {}" using buddy_close_used [OF _ t3 subset_refl s1(4)] s3(2) by simp
  have "bytes_outside s1 ?s2 zs (span zp i t)"
    using bytes_outside_fill [OF wf s1(4) nt, of ?t] by (simp add: f1 span_def)
  note bo = bytes_outside_trans [OF bytes_outside_links [OF s1(8)] this same_frame_links [OF s1(8)]]
  have "bytes_outside s s3 zs (({} \<union> span zp i t) \<union> (span zp i k - span zp i t))"
    by (rule bytes_outside_trans [OF bo s3(4) same_frame_trans [OF same_frame_links [OF s1(8)] same_frame_fill]])
  then have bo3: "bytes_outside s s3 zs (span zp i k)" by (rule bytes_outside_mono) (use sub in blast)
  have fk: "free_page s zq q" if "(zq, q) \<in> span zp i k" for zq q
    using tileD(5) [OF s1(6), of q] that k by (auto intro: free_pageI)
  have rest': "free_page s3 zq q" if "(zq, q) \<in> span zp i k - span zp i t" for zq q
    using that rest [of q] by simp
  have "i < npages s zp" using tileD(6) [OF s1(6), of i] by simp
  from used_heads_add [OF bo3 fr s1(4) this fk rest' sub tm al bt]
  have uh: "used_heads s3 zs = insert (zp, i, t) (used_heads s zs)" "(zp, i, t) \<notin> used_heads s zs" by simp_all
  let ?s' = "s3\<lparr>allocated_pages := allocated_pages s3 + 2 ^ t\<rparr>"
  have "free_area s ! k = x" "x \<noteq> 0"
    using inv free_lists_D(1,3) [OF _ k, of s Ls] l unfolding buddy_inv_def by auto
  moreover have "zones s1 zp = Some ?z" using zones_zone_of [OF wf s1(4)] by (simp add: f1)
  ultimately have "alloc_loop s t (k # ks) = Some (x, ?s')"
    using s1(1-3) s3(1) s1(5) by (simp add: f1 page_addr_def)
  moreover have "alloc_post s zs t x ?s'"
    unfolding alloc_post_def used_heads_count
    using s1(4,5) al nt uh buddy_inv_count [OF inv3] fr
    by (intro exI [of _ zp] exI [of _ i] exI [of _ Ls3]) (simp add: f1 same_frame_def)
  ultimately show ?thesis by blast
qed

lemma alloc_loop_ok:
  assumes inv: "buddy_inv s zs Ls {}" and ks: "set ks \<subseteq> {t ..< MAX_ORDER}"
  shows "\<exists>r s'. alloc_loop s t ks = Some (r, s') \<and>
    (if \<forall>k \<in> set ks. Ls ! k = [] then r = 0 \<and> s' = s else alloc_post s zs t r s')"
  using ks
proof (induction ks)
  case (Cons k ks)
  have k: "k < MAX_ORDER" "t \<le> k" using Cons.prems by auto
  have fl: "free_lists s Ls" using inv unfolding buddy_inv_def by blast
  show ?case
  proof (cases "Ls ! k")
    case Nil
    then have "free_area s ! k = 0" using free_lists_D(3) [OF fl k(1)] by simp
    then show ?thesis using Cons Nil by simp
  next
    case (Cons x xs)
    then have "\<not> (\<forall>j \<in> set (k # ks). Ls ! j = [])" by simp
    then show ?thesis using alloc_loop_take [OF inv k Cons] by metis
  qed
qed simp

lemma no_free_block:
  assumes "buddy_inv s zs Ls {}" and "k < MAX_ORDER"
  shows "Ls ! k = [] \<longleftrightarrow> free_heads s zs {} k = {}"
proof -
  have "set (Ls ! k) = (\<lambda>(zp, i). page_addr s zp i) ` free_heads s zs {} k"
    using assms unfolding buddy_inv_def lists_ok_def by blast
  then show ?thesis by (metis image_is_empty set_empty)
qed

text \<open>\<open>alloc_pages\<close> returns null exactly when no free block is large enough.\<close>

lemma alloc_pages_ok:
  assumes inv: "buddy_inv s zs Ls {}" and t: "t < MAX_ORDER"
  shows "\<exists>r s'. alloc_pages s t = Some (r, s') \<and>
    (if \<forall>k. t \<le> k \<and> k < MAX_ORDER \<longrightarrow> free_heads s zs {} k = {} then r = 0 \<and> s' = s
     else alloc_post s zs t r s')"
proof -
  have "(\<forall>k \<in> set [t ..< MAX_ORDER]. Ls ! k = []) \<longleftrightarrow>
      (\<forall>k. t \<le> k \<and> k < MAX_ORDER \<longrightarrow> free_heads s zs {} k = {})"
    using no_free_block [OF inv] by auto
  then show ?thesis using alloc_loop_ok [OF inv, of "[t ..< MAX_ORDER]" t] t
    by (simp add: alloc_pages_def)
qed

section \<open>Freeing\<close>

lemma buddy_index:
  assumes "2 ^ k dvd (i :: nat)"
  shows "i XOR 2 ^ k = (if 2 ^ Suc k dvd i then i + 2 ^ k else i - 2 ^ k)"
    and "unset_bit k i = (if 2 ^ Suc k dvd i then i else i - 2 ^ k)"
    and "\<not> 2 ^ Suc k dvd i \<Longrightarrow> 2 ^ k \<le> i \<and> 2 ^ Suc k dvd i - 2 ^ k"
proof -
  obtain a where a: "i = a * 2 ^ k" using assms by (metis dvdE mult.commute)
  then have i: "i = push_bit k a" by (simp add: push_bit_eq_mult)
  have odd: "2 ^ Suc k dvd i \<longleftrightarrow> even a" by (simp add: a)
  have "push_bit k (a XOR 1) = i XOR push_bit k 1" unfolding i by (rule push_bit_xor)
  moreover have "push_bit k (1 :: nat) = 2 ^ k" by (simp add: push_bit_eq_mult)
  moreover have "a XOR 1 = (if even a then a + 1 else a - 1)" by (simp add: xor_Suc_0_eq)
  ultimately have x: "i XOR 2 ^ k = push_bit k (if even a then a + 1 else a - 1)" by metis
  then show "i XOR 2 ^ k = (if 2 ^ Suc k dvd i then i + 2 ^ k else i - 2 ^ k)"
    unfolding odd by (simp add: a push_bit_eq_mult algebra_simps)
  show "\<not> 2 ^ Suc k dvd i \<Longrightarrow> 2 ^ k \<le> i \<and> 2 ^ Suc k dvd i - 2 ^ k"
    unfolding odd by (auto simp: a elim!: oddE simp: algebra_simps)
  have b: "bit i k \<longleftrightarrow> odd a" by (simp add: i bit_push_bit_iff bit_0)
  have "unset_bit k i = (if even a then i else i XOR 2 ^ k)"
    by (rule bit_eqI) (use b in \<open>auto simp: bit_unset_bit_iff bit_xor_iff bit_exp_iff\<close>)
  then show "unset_bit k i = (if 2 ^ Suc k dvd i then i else i - 2 ^ k)"
    unfolding odd using x by (simp add: a push_bit_eq_mult algebra_simps)
qed

lemma buddy_span:
  assumes "2 ^ k dvd i"
  shows "span zp (unset_bit k i) (Suc k) = span zp i k \<union> span zp (i XOR 2 ^ k) k"
    and "span zp (i XOR 2 ^ k) k \<inter> span zp i k = {}" and "2 ^ k dvd i XOR 2 ^ k"
    and "2 ^ Suc k dvd unset_bit k i"
    and "i + 2 ^ k \<le> n \<Longrightarrow> (i XOR 2 ^ k) + 2 ^ k \<le> n \<Longrightarrow> unset_bit k i + 2 ^ Suc k \<le> n"
proof -
  note b = buddy_index [OF assms]
  have d: "2 ^ k dvd i - 2 ^ k" "2 ^ k dvd i + 2 ^ k" using assms by simp_all
  show "2 ^ k dvd i XOR 2 ^ k" using d by (simp add: b(1))
  show "2 ^ Suc k dvd unset_bit k i" using b(3) by (simp add: b(2))
  show "span zp (unset_bit k i) (Suc k) = span zp i k \<union> span zp (i XOR 2 ^ k) k"
    using b(3) unfolding b(1,2) by (auto simp: span_def)
  show "span zp (i XOR 2 ^ k) k \<inter> span zp i k = {}"
    using b(3) unfolding b(1) by (auto simp: span_def)
  show "unset_bit k i + 2 ^ Suc k \<le> n" if "i + 2 ^ k \<le> n" "(i XOR 2 ^ k) + 2 ^ k \<le> n"
    using that b(3) unfolding b(1,2) by (auto split: if_splits)
qed

text \<open>The test of the merge loop: the buddy is a free block of the same order, or the loop stops.\<close>

lemma merge_test:
  assumes po: "pages_ok s zs H" and zp: "zp \<in> set zs" and k: "k < MAX_ORDER" and al: "2 ^ k dvd b"
    and b: "b < npages s zp" "(zp, b) \<notin> H"
  obtains v where "byte s zp b = Some v"
    and "v AND FREE_FLAG = 0 \<or> v AND NOT FREE_FLAG \<noteq> of_nat k \<longleftrightarrow> (zp, b) \<notin> free_heads s zs H k"
proof -
  obtain j l v where t: "tile s zp j l v" "b \<in> {j ..< j + 2 ^ l}"
    using pages_okD [OF po zp b] by metis
  note l = tileD(1) [OF t(1)]
  have bt: "byte s zp b = Some v" by (rule tileD(5) [OF t])
  have inj: "(of_nat l :: u8) = of_nat k \<longleftrightarrow> l = k"
    using byte_inj(2) [OF l k] by (auto simp: used_byte_def)
  have "(v AND FREE_FLAG = 0 \<or> v AND NOT FREE_FLAG \<noteq> of_nat k) \<longleftrightarrow> v \<noteq> free_byte k"
  proof (cases "v = free_byte l")
    case True
    then show ?thesis using flag_free [OF l] inj byte_inj(1) [OF l k] by auto
  next
    case False
    then have "v = used_byte l" using tileD(4) [OF t(1)] by simp
    then show ?thesis using flag_used [OF l] byte_inj(3) [OF l k] by simp
  qed
  then show ?thesis using that [OF bt] bt zp al b by (simp add: free_heads_def)
qed

lemma buddy_unlink:
  assumes inv: "buddy_inv s zs Ls H" and k: "k < MAX_ORDER" and h: "(zp, b) \<in> free_heads s zs H k"
  obtains s1 Ls1 where "unlink_block s (page_addr s zp b) k = Some s1"
    and "buddy_inv s1 zs Ls1 (H \<union> span zp b k)" and "links_only s s1 {}" and "tile s zp b k (free_byte k)"
proof -
  have fl: "free_lists s Ls" and po: "pages_ok s zs H" and lo: "lists_ok s zs Ls H"
    using inv unfolding buddy_inv_def by blast+
  have "page_addr s zp b \<in> set (Ls ! k)" using lo k h unfolding lists_ok_def by force
  then obtain s1 xs where s1: "unlink_block s (page_addr s zp b) k = Some s1"
      "free_lists s1 (Ls[k := xs])" "set xs = set (Ls ! k) - {page_addr s zp b}" "links_only s s1 {}"
    using unlink_block_lists [OF fl k] by metis
  show ?thesis
    by (rule that [OF s1(1) buddy_open_free(1) [OF inv k h s1(4,2,3)] s1(4) free_head_tile(1) [OF po h k]])
qed

lemma merge_loop_ok:
  assumes "buddy_inv s zs Ls (span zp i k)" and "zp \<in> set zs" and "k < MAX_ORDER" and "2 ^ k dvd i"
    and "i + 2 ^ k \<le> npages s zp"
  shows "\<exists>j m s' Ls'. merge_loop s (zone_of s zp) i k = Some (j, m, s') \<and> m < MAX_ORDER \<and> 2 ^ m dvd j \<and>
    j + 2 ^ m \<le> npages s zp \<and> buddy_inv s' zs Ls' (span zp j m) \<and> span zp i k \<subseteq> span zp j m \<and>
    same_frame s s' \<and> bytes_outside s s' zs {} \<and>
    (\<forall>q. (zp, q) \<in> span zp j m - span zp i k \<longrightarrow> free_page s zp q)"
  using assms
proof (induction "MAX_ORDER - k" arbitrary: s Ls i k)
  case (Suc d)
  note inv = Suc.prems(1) and zp = Suc.prems(2) and k = Suc.prems(3) and al = Suc.prems(4) and n = Suc.prems(5)
  let ?b = "i XOR 2 ^ k" and ?z = "zone_of s zp"
  have stop: ?case if "merge_loop s ?z i k = Some (i, k, s)"
    using that Suc.prems by (intro exI [of _ i] exI [of _ k] exI [of _ s] exI [of _ Ls])
      (simp add: bytes_outside_def)
  show ?case
  proof (cases "k < MAX_ORDER - 1 \<and> ?b + 2 ^ k \<le> npages s zp")
    case False
    then show ?thesis
      by (intro stop, subst merge_loop.simps) (auto simp: npages_def Let_def)
  next
    case True
    then have kk: "k < MAX_ORDER - 1" and nb: "?b + 2 ^ k \<le> npages s zp" by simp_all
    note bs = buddy_span [OF al]
    have "(0 :: nat) < 2 ^ k" "(zp, ?b) \<in> span zp ?b k" by simp_all
    then have b: "?b < npages s zp" "(zp, ?b) \<notin> span zp i k"
      using nb bs(2) [of zp] by (linarith, blast)
    have po: "pages_ok s zs (span zp i k)" using inv unfolding buddy_inv_def by blast
    obtain v where v: "byte s zp ?b = Some v"
      and test: "v AND FREE_FLAG = 0 \<or> v AND NOT FREE_FLAG \<noteq> of_nat k \<longleftrightarrow>
        (zp, ?b) \<notin> free_heads s zs (span zp i k) k"
      by (rule merge_test [OF po zp k bs(3) b])
    have step: "merge_loop s ?z i k =
        (if (zp, ?b) \<notin> free_heads s zs (span zp i k) k then Some (i, k, s)
         else do { s1 \<leftarrow> unlink_block s (page_addr s zp ?b) k; merge_loop s1 ?z (unset_bit k i) (k + 1) })"
      unfolding test [symmetric] using kk nb b v
      by (subst merge_loop.simps) (simp add: npages_def byte_def page_addr_def Let_def)
    show ?thesis
    proof (cases "(zp, ?b) \<in> free_heads s zs (span zp i k) k")
      case False
      then show ?thesis by (intro stop) (simp add: step)
    next
      case h: True
      obtain s1 Ls1 where s1: "unlink_block s (page_addr s zp ?b) k = Some s1"
          "buddy_inv s1 zs Ls1 (span zp i k \<union> span zp ?b k)" "links_only s s1 {}" "tile s zp ?b k (free_byte k)"
        by (rule buddy_unlink [OF inv k h])
      have fr: "same_frame s s1" by (rule same_frame_links [OF s1(3)])
      note f = same_frameD [OF fr]
      have "buddy_inv s1 zs Ls1 (span zp (unset_bit k i) (Suc k))" using s1(2) by (simp add: bs(1))
      moreover have "d = MAX_ORDER - Suc k" "Suc k < MAX_ORDER" using Suc.hyps(2) kk by simp_all
      moreover have "unset_bit k i + 2 ^ Suc k \<le> npages s1 zp" using bs(5) [OF n nb] by (simp add: f)
      ultimately obtain j m s' Ls' where m: "merge_loop s1 (zone_of s1 zp) (unset_bit k i) (Suc k) = Some (j, m, s')"
        "m < MAX_ORDER" "2 ^ m dvd j" "j + 2 ^ m \<le> npages s1 zp" "buddy_inv s' zs Ls' (span zp j m)"
        "span zp (unset_bit k i) (Suc k) \<subseteq> span zp j m" "same_frame s1 s'" "bytes_outside s1 s' zs {}"
        and free: "\<And>q. (zp, q) \<in> span zp j m - span zp (unset_bit k i) (Suc k) \<Longrightarrow> free_page s1 zp q"
        using Suc.hyps(1) [of "Suc k" s1 Ls1 "unset_bit k i"] zp bs(4) by metis
      have "free_page s zp q" if q: "(zp, q) \<in> span zp j m - span zp i k" for q
      proof (cases "(zp, q) \<in> span zp ?b k")
        case True
        then show ?thesis using tileD(5) [OF s1(4), of q] k by (auto intro: free_pageI)
      next
        case False
        then have "free_page s1 zp q" using q by (intro free) (simp add: bs(1))
        then show ?thesis by (simp add: free_page_def links_only_same [OF s1(3)])
      qed
      moreover have "merge_loop s ?z i k = Some (j, m, s')" using h m(1) s1(1) by (simp add: step f)
      moreover have "bytes_outside s s' zs {}"
        using bytes_outside_trans [OF bytes_outside_links [OF s1(3)] m(8) fr] by simp
      moreover have "span zp i k \<subseteq> span zp j m" using m(6) by (simp add: bs(1))
      ultimately show ?thesis using m(2-5) same_frame_trans [OF fr m(7)] by (metis f(2))
    qed
  qed
qed simp

lemma free_block_in_zone_ok:
  assumes inv: "buddy_inv s zs Ls {}" and zp: "zp \<in> set zs" and t: "tile s zp i k (used_byte k)"
  shows "\<exists>s' Ls'. free_block_in_zone s zp i k = Some s' \<and> buddy_inv s' zs Ls' {} \<and> same_frame s s' \<and>
    used_heads s' zs = used_heads s zs - {(zp, i, k)} \<and> (zp, i, k) \<in> used_heads s zs"
proof -
  have "buddy_inv s zs Ls (span zp i k)" using buddy_open_used [OF inv t] by simp
  then obtain j m s1 Ls1 where m: "merge_loop s (zone_of s zp) i k = Some (j, m, s1)" "m < MAX_ORDER"
      "2 ^ m dvd j" "j + 2 ^ m \<le> npages s zp" "buddy_inv s1 zs Ls1 (span zp j m)"
      "span zp i k \<subseteq> span zp j m" "same_frame s s1" "bytes_outside s s1 zs {}"
      and rest: "\<And>q. (zp, q) \<in> span zp j m - span zp i k \<Longrightarrow> free_page s zp q"
    using merge_loop_ok [OF _ zp tileD(1,2,3) [OF t]] by blast
  note f = same_frameD [OF m(7)]
  have "j + 2 ^ m \<le> npages s1 zp" using m(4) by (simp add: f)
  then obtain s' Ls' where s':
    "push_block (fill_meta s1 (z_meta (zone_of s1 zp)) j (2 ^ m) (free_byte m)) (page_addr s1 zp j) zp j m = Some s'"
    "buddy_inv s' zs Ls' (span zp j m - span zp j m)" "same_frame s1 s'" "bytes_outside s1 s' zs (span zp j m)"
    and bt: "\<And>q. q \<in> {j ..< j + 2 ^ m} \<Longrightarrow> byte s' zp q = Some (free_byte m)"
    using buddy_give [OF m(5) zp m(2,3) _ subset_refl] by blast
  have fr: "same_frame s s'" by (rule same_frame_trans [OF m(7) s'(3)])
  have "bytes_outside s s' zs (span zp j m)"
    using bytes_outside_trans [OF m(8) s'(4) m(7)] by simp
  moreover have "free_page s' zq q" if "(zq, q) \<in> span zp j m" for zq q
    using that bt [of q] m(2) by (auto intro: free_pageI)
  moreover have "free_page s zq q" if "(zq, q) \<in> span zp j m - span zp i k" for zq q
    using that rest [of q] by simp
  ultimately have u: "used_heads s' zs = used_heads s zs - {(zp, i, k)}" "(zp, i, k) \<in> used_heads s zs"
    using used_heads_remove [OF _ fr zp _ _ m(6) t] by blast+
  have "zones s zp = Some (zone_of s zp)"
    using inv zones_zone_of [OF _ zp] unfolding buddy_inv_def by blast
  then have "free_block_in_zone s zp i k = Some s'"
    using m(1) s'(1) by (simp add: free_block_in_zone_def page_addr_def f)
  then show ?thesis using s'(2) fr u by auto
qed

definition in_zone :: "page_allocator \<Rightarrow> nat \<Rightarrow> nat \<Rightarrow> bool" where
  "in_zone s addr zp \<longleftrightarrow>
     z_base (zone_of s zp) \<le> addr \<and> addr < z_base (zone_of s zp) + npages s zp * PAGE_SIZE"

lemma find_zone_list:
  "zlist (zones s) p zs \<Longrightarrow>
   find_zone s p addr = Some (map_option (\<lambda>zp. (zp, zone_of s zp)) (find (in_zone s addr) zs))"
proof (induction zs arbitrary: p)
  case Nil
  then show ?case by (simp add: find_zone.simps)
next
  case (Cons zp zs)
  then obtain z where z: "zones s zp = Some z" "p = zp" "zp \<noteq> 0" "zlist (zones s) (z_next z) zs" by auto
  have zo: "zone_of s zp = z" using z(1) by (simp add: zone_of_def)
  then have "in_zone s addr zp \<longleftrightarrow> z_base z \<le> addr \<and> addr < z_base z + z_total z * PAGE_SIZE"
    by (simp add: in_zone_def npages_def)
  then show ?case
    using z(1-3) zo Cons.IH [OF z(4)] by (subst find_zone.simps) simp
qed

lemma find_zone_page:
  assumes wf: "zones_wf s zs" and zp: "zp \<in> set zs" and i: "i < npages s zp"
  shows "find_zone s (zone_head s) (page_addr s zp i) = Some (Some (zp, zone_of s zp))"
proof -
  have z: "in_zone s (page_addr s zp i) zp" using i by (simp add: in_zone_def page_addr_def)
  have only: "zq = zp" if q: "zq \<in> set zs" "in_zone s (page_addr s zp i) zq" for zq
    using zones_wf_disjoint(1) [OF wf zp q(1)] z q(2) unfolding in_zone_def by fastforce
  obtain zq where zq: "find (in_zone s (page_addr s zp i)) zs = Some zq"
    using z zp by (metis find_None_iff not_None_eq)
  then have "zq \<in> set zs" "in_zone s (page_addr s zp i) zq"
    by (metis find_Some_iff nth_mem, metis find_Some_iff)
  then have "zq = zp" by (rule only)
  then show ?thesis
    using find_zone_list [of s "zone_head s" zs] wf zq by (simp add: zones_wf_def)
qed

lemma free_pages_ok:
  assumes inv: "buddy_inv s zs Ls {}" and u: "(zp, i, k) \<in> used_heads s zs"
  shows "\<exists>s' Ls'. free_pages s (page_addr s zp i) = Some s' \<and> buddy_inv s' zs Ls' {} \<and>
    same_frame (s\<lparr>allocated_pages := allocated_pages s - 2 ^ k\<rparr>) s' \<and>
    used_heads s' zs = used_heads s zs - {(zp, i, k)}"
proof -
  let ?s = "s\<lparr>allocated_pages := allocated_pages s - 2 ^ k\<rparr>"
  have wf: "zones_wf s zs" and po: "pages_ok s zs {}" using inv unfolding buddy_inv_def by blast+
  have zp: "zp \<in> set zs" "i < npages s zp" "k < MAX_ORDER" "byte s zp i = Some (used_byte k)"
    using u by (simp_all add: used_heads_def)
  have t: "tile s zp i k (used_byte k)" by (rule used_head_tile [OF po u])
  then have "tile ?s zp i k (used_byte k)" by (rule tile_cong) (simp_all add: npages_def byte_def zone_of_def)
  then obtain s' Ls' where s': "free_block_in_zone ?s zp i k = Some s'" "buddy_inv s' zs Ls' {}"
      "same_frame ?s s'" "used_heads s' zs = used_heads ?s zs - {(zp, i, k)}"
    using free_block_in_zone_ok [OF buddy_inv_count [OF inv] zp(1)] by blast
  have "unat (used_byte k AND NOT FREE_FLAG) = k"
    using flag_used [OF zp(3)] used_byte_nat [OF zp(3)] by (simp add: used_byte_def)
  moreover have "used_byte k AND FREE_FLAG = 0" using flag_used [OF zp(3)] by blast
  moreover have "page_addr s zp i \<noteq> 0" by (rule page_addr_nonzero [OF wf zp(1)])
  moreover have "page_addr s zp i - z_base (zone_of s zp) = i * PAGE_SIZE" by (simp add: page_addr_def)
  ultimately have "free_pages s (page_addr s zp i) = Some s'"
    using find_zone_page [OF wf zp(1,2)] zp(4) s'(1)
    by (simp add: free_pages_def byte_def PAGE_SIZE_val)
  then show ?thesis using s' by (auto simp: used_heads_count)
qed

text \<open>Everything but an allocated page is refused.\<close>

lemma free_pages_refused:
  assumes inv: "buddy_inv s zs Ls {}" and "addr \<noteq> 0"
    and no: "\<And>zp i k. zp \<in> set zs \<Longrightarrow> i < npages s zp \<Longrightarrow> k < MAX_ORDER \<Longrightarrow> addr = page_addr s zp i \<Longrightarrow>
      byte s zp i \<noteq> Some (used_byte k)"
  shows "free_pages s addr = None"
proof -
  have wf: "zones_wf s zs" and po: "pages_ok s zs {}" using inv unfolding buddy_inv_def by blast+
  have fz: "find_zone s (zone_head s) addr = Some (map_option (\<lambda>zp. (zp, zone_of s zp)) (find (in_zone s addr) zs))"
    using find_zone_list wf unfolding zones_wf_def by blast
  show ?thesis
  proof (cases "find (in_zone s addr) zs")
    case None
    then show ?thesis using fz assms(2) by (simp add: free_pages_def)
  next
    case (Some zp)
    then have zp: "zp \<in> set zs" "in_zone s addr zp"
      by (metis find_Some_iff nth_mem, metis find_Some_iff)
    let ?off = "addr - z_base (zone_of s zp)" and ?i = "(addr - z_base (zone_of s zp)) div PAGE_SIZE"
    show ?thesis
    proof (cases "?off mod PAGE_SIZE = 0")
      case False
      then show ?thesis using fz Some assms(2) by (simp add: free_pages_def Let_def)
    next
      case True
      then have off: "?off = ?i * PAGE_SIZE" by (metis add.right_neutral div_mult_mod_eq)
      have "?off < npages s zp * PAGE_SIZE" using zp(2) by (auto simp: in_zone_def)
      then have i: "?i < npages s zp" using off by (metis mult_less_cancel2)
      have a: "addr = page_addr s zp ?i" using off zp(2) by (simp add: page_addr_def in_zone_def)
      have "(zp, ?i) \<notin> {}" by simp
      then obtain j l v where t: "tile s zp j l v" "?i \<in> {j ..< j + 2 ^ l}"
        using pages_okD [OF po zp(1) i] by metis
      note bt = tileD(5) [OF t] and l = tileD(1) [OF t(1)]
      have "v = free_byte l" using tileD(4) [OF t(1)] no [OF zp(1) i l a] bt by auto
      then show ?thesis
        using fz Some assms(2) True bt flag_free [OF l] by (simp add: free_pages_def Let_def byte_def)
    qed
  qed
qed

end
