(* ===== verification/Page_Spec.thy ===== *)
theory Page_Spec
  imports Page_Ops "HOL-Library.Disjoint_Sets"
begin

text \<open>
  The contract of the page allocator. Its client sees a set of allocated blocks, each an address and
  an order; adding a range, allocating and freeing act on that set, in every state that calls can
  reach.
\<close>

section \<open>Carving a new zone\<close>

lemma ilog2_bound: "0 < n \<Longrightarrow> 2 ^ ilog2 n \<le> n"
proof (induction n rule: ilog2.induct)
  case (1 n)
  show ?case
  proof (cases "n < 2")
    case True
    then show ?thesis using 1(2) by (subst ilog2.simps) simp
  next
    case False
    then have "2 ^ ilog2 (n div 2) \<le> n div 2" using 1(1) by simp
    then show ?thesis using False by (subst ilog2.simps) simp
  qed
qed

lemma nat_trailing_zeros_dvd: "2 ^ nat_trailing_zeros n dvd n"
proof (induction n rule: nat_trailing_zeros.induct)
  case (1 n)
  show ?case
  proof (cases "n = 0 \<or> odd n")
    case True
    then show ?thesis by (subst nat_trailing_zeros.simps) auto
  next
    case False
    then have "2 ^ nat_trailing_zeros (n div 2) dvd n div 2" using 1 by simp
    then have "2 * 2 ^ nat_trailing_zeros (n div 2) dvd 2 * (n div 2)" by (rule mult_dvd_mono [OF dvd_refl])
    moreover have "2 * (n div 2) = n" using False by simp
    ultimately have "2 * 2 ^ nat_trailing_zeros (n div 2) dvd n" by metis
    moreover have "nat_trailing_zeros n = Suc (nat_trailing_zeros (n div 2))"
      using False by (subst nat_trailing_zeros.simps) simp
    ultimately show ?thesis by simp
  qed
qed

lemma carve_order_ok:
  assumes "cur < n"
  shows "carve_order cur n < MAX_ORDER" and "2 ^ carve_order cur n dvd cur" and "cur + 2 ^ carve_order cur n \<le> n"
proof -
  let ?o = "carve_order cur n"
  show "?o < MAX_ORDER" by (auto simp: carve_order_def MAX_ORDER_def Let_def)
  show "2 ^ ?o dvd cur"
  proof (cases "cur = 0")
    case False
    then have "?o \<le> nat_trailing_zeros cur" by (auto simp: carve_order_def Let_def)
    then have "(2 :: nat) ^ ?o dvd 2 ^ nat_trailing_zeros cur" by (rule le_imp_power_dvd)
    then show ?thesis using nat_trailing_zeros_dvd dvd_trans by blast
  qed simp
  have "?o \<le> ilog2 (n - cur)" by (auto simp: carve_order_def Let_def)
  then have "(2 :: nat) ^ ?o \<le> 2 ^ ilog2 (n - cur)" by simp
  moreover have "2 ^ ilog2 (n - cur) \<le> n - cur" using assms by (intro ilog2_bound) simp
  ultimately show "cur + 2 ^ ?o \<le> n" using assms by linarith
qed

text \<open>The hole of the carving loop: the pages of the zone from the current one.\<close>

definition tail_pages :: "page_allocator \<Rightarrow> nat \<Rightarrow> nat \<Rightarrow> (nat \<times> nat) set" where
  "tail_pages s zp cur = {zp} \<times> {cur ..< npages s zp}"

lemma carve_ok:
  assumes "buddy_inv s zs Ls (tail_pages s zp cur)" and "zp \<in> set zs" and "cur \<le> npages s zp"
  shows "\<exists>s' Ls'. carve s zp (zone_of s zp) cur = Some s' \<and> buddy_inv s' zs Ls' {} \<and> same_frame s s' \<and>
    bytes_outside s s' zs (tail_pages s zp cur) \<and> (\<forall>q. (zp, q) \<in> tail_pages s zp cur \<longrightarrow> free_page s' zp q)"
  using assms
proof (induction "npages s zp - cur" arbitrary: s Ls cur rule: less_induct)
  case less
  let ?n = "npages s zp" and ?z = "zone_of s zp" and ?o = "carve_order cur (npages s zp)"
  show ?case
  proof (cases "cur < ?n")
    case False
    then have "tail_pages s zp cur = {}" "carve s zp ?z cur = Some s"
      by (auto simp: tail_pages_def npages_def carve.simps)
    then show ?thesis using less.prems(1) by (auto simp: bytes_outside_def)
  next
    case True
    note o = carve_order_ok [OF True]
    have sub: "span zp cur ?o \<subseteq> tail_pages s zp cur" using o(3) by (auto simp: span_def tail_pages_def)
    obtain s1 Ls1 where s1:
      "push_block (fill_meta s (z_meta ?z) cur (2 ^ ?o) (free_byte ?o)) (page_addr s zp cur) zp cur ?o = Some s1"
      "buddy_inv s1 zs Ls1 (tail_pages s zp cur - span zp cur ?o)" "same_frame s s1"
      "bytes_outside s s1 zs (span zp cur ?o)"
      and bt: "\<And>q. q \<in> {cur ..< cur + 2 ^ ?o} \<Longrightarrow> byte s1 zp q = Some (free_byte ?o)"
      using buddy_give [OF less.prems(1,2) o sub] by blast
    note f = same_frameD [OF s1(3)]
    let ?c = "cur + 2 ^ ?o"
    have tl: "tail_pages s zp cur - span zp cur ?o = tail_pages s1 zp ?c"
      "tail_pages s zp cur = span zp cur ?o \<union> tail_pages s1 zp ?c"
      using o(3) by (auto simp: tail_pages_def span_def f)
    have "npages s1 zp - ?c < npages s zp - cur" using True by (simp add: f diff_less_mono2)
    then obtain s2 Ls2 where s2: "carve s1 zp (zone_of s1 zp) ?c = Some s2" "buddy_inv s2 zs Ls2 {}"
        "same_frame s1 s2" "bytes_outside s1 s2 zs (tail_pages s1 zp ?c)"
        "\<And>q. (zp, q) \<in> tail_pages s1 zp ?c \<Longrightarrow> free_page s2 zp q"
      using less.hyps [of s1 ?c Ls1] s1(2) less.prems(2) o(3) by (auto simp: tl(1) f)
    have "free_page s2 zp q" if q: "(zp, q) \<in> tail_pages s zp cur" for q
    proof (cases "(zp, q) \<in> tail_pages s1 zp ?c")
      case False
      then have "q \<in> {cur ..< ?c}" using q unfolding tl(2) by simp
      moreover have "byte s2 zp q = byte s1 zp q"
        using s2(4) less.prems(2) False q unfolding bytes_outside_def by (auto simp: f tail_pages_def)
      ultimately show ?thesis using bt o(1) by (auto intro: free_pageI)
    qed (rule s2(5))
    moreover have "carve s zp ?z cur = Some s2"
      using True s1(1) s2(1) by (subst carve.simps) (simp add: f page_addr_def npages_def Let_def)
    moreover have "bytes_outside s s2 zs (tail_pages s zp cur)"
      unfolding tl(2) by (rule bytes_outside_trans [OF s1(4) s2(4) s1(3)])
    ultimately show ?thesis using s2(2) same_frame_trans [OF s1(3) s2(3)] by blast
  qed
qed

section \<open>Adding a zone\<close>

lemma zlist_upd: "zp \<notin> set zs \<Longrightarrow> zlist (h(zp \<mapsto> z)) p zs = zlist h p zs"
  by (induction zs arbitrary: p) auto

text \<open>The state of \<open>add_range\<close> before the carving loop.\<close>

definition new_zone :: "page_allocator \<Rightarrow> nat \<Rightarrow> nat \<Rightarrow> nat \<Rightarrow> zone" where
  "new_zone s start r usable =
     \<lparr>z_meta = start, z_base = start + r * PAGE_SIZE, z_total = usable, z_next = zone_head s\<rparr>"

definition with_zone :: "page_allocator \<Rightarrow> nat \<Rightarrow> nat \<Rightarrow> nat \<Rightarrow> page_allocator" where
  "with_zone s start r usable =
     (let zp = start + r * PAGE_SIZE - ZONE_SIZE; z = new_zone s start r usable;
          s1 = (if lowest_address s = 0 \<or> z_base z < lowest_address s
                then s\<lparr>lowest_address := z_base z\<rparr> else s);
          s2 = fill_meta s1 start 0 usable 0 in
      s2\<lparr>zones := (zones s2)(zp \<mapsto> z), zone_head := zp, total_pages := total_pages s2 + of_nat usable\<rparr>)"

lemma add_range_eq:
  assumes "start < fin" and "start mod PAGE_SIZE = 0" and "fin mod PAGE_SIZE = 0"
    and "reserve_loop ((fin - start) div PAGE_SIZE) 0 = Some r" and "r < (fin - start) div PAGE_SIZE"
  shows "add_range s start fin =
    (let n = (fin - start) div PAGE_SIZE - r in
     carve (with_zone s start r n) (start + r * PAGE_SIZE - ZONE_SIZE) (new_zone s start r n) 0)"
  using assms by (auto simp: add_range_def with_zone_def new_zone_def Let_def)

text \<open>What the reserve loop promises: metadata and header fit in front of the data pages.\<close>

lemma reserve_loop_fits:
  assumes "reserve_loop tot 0 = Some r" and "2 \<le> tot"
  shows "r < tot" and "(tot - r) + ZONE_SIZE \<le> r * PAGE_SIZE"
proof -
  have r: "r \<le> tot" "(tot - r + 16415) div 16384 = r"
    using reserve_loop_fixpoint [OF assms(1)] unfolding needed_pages_val by blast+
  then have "tot - r + 16415 < 16384 * r + 16384" by linarith
  then show "(tot - r) + ZONE_SIZE \<le> r * PAGE_SIZE" by (simp add: ZONE_SIZE_def PAGE_SIZE_val)
  show "r < tot"
  proof (rule ccontr)
    assume "\<not> r < tot"
    then have "r = tot" using r(1) by simp
    then show False using r(2) assms(2) by simp
  qed
qed

lemma with_zone_simps [simp]:
  "blocks (with_zone s start r n) = blocks s" "free_area (with_zone s start r n) = free_area s"
  "allocated_pages (with_zone s start r n) = allocated_pages s"
  "zone_head (with_zone s start r n) = start + r * PAGE_SIZE - ZONE_SIZE"
  "zones (with_zone s start r n) = (zones s)(start + r * PAGE_SIZE - ZONE_SIZE \<mapsto> new_zone s start r n)"
  "meta (with_zone s start r n) = meta (fill_meta s start 0 n 0)"
  "total_pages (with_zone s start r n) = total_pages s + of_nat n"
  by (simp_all add: with_zone_def Let_def fill_meta_eq fun_eq_iff)

text \<open>A new zone leaves the old ones as they are; its own pages are a hole.\<close>

lemma with_zone_old:
  assumes wf: "zones_wf s zs" and fit: "n + ZONE_SIZE \<le> r * PAGE_SIZE"
    and dis: "\<forall>zq \<in> set zs. region s zq \<inter> {start ..< start + (r + n) * PAGE_SIZE} = {}"
    and zq: "zq \<in> set zs"
  defines "s' \<equiv> with_zone s start r n"
  shows "zq \<noteq> start + r * PAGE_SIZE - ZONE_SIZE" and "zone_of s' zq = zone_of s zq"
    and "q < npages s zq \<Longrightarrow> byte s' zq q = byte s zq q"
proof -
  let ?R = "{start ..< start + (r + n) * PAGE_SIZE}" and ?zp = "start + r * PAGE_SIZE - ZONE_SIZE"
  have loc: "z_meta (zone_of s zq) + npages s zq \<le> zq" "zq + ZONE_SIZE \<le> z_base (zone_of s zq)"
    using wf zq unfolding zones_wf_def by blast+
  then have "zq \<in> region s zq" by (simp add: region_def ZONE_SIZE_def)
  moreover have "(r + n) * PAGE_SIZE = r * PAGE_SIZE + n * PAGE_SIZE" by (rule add_mult_distrib)
  then have "start \<le> ?zp" "?zp < start + (r + n) * PAGE_SIZE" using fit unfolding ZONE_SIZE_def by linarith+
  then have "?zp \<in> ?R" by simp
  ultimately show ne: "zq \<noteq> ?zp" using dis zq by blast
  then show zo: "zone_of s' zq = zone_of s zq" by (simp add: zone_of_def s'_def)
  assume q: "q < npages s zq"
  let ?m = "z_meta (zone_of s zq) + q"
  have "?m \<in> region s zq" using loc q by (simp add: region_def)
  then have "?m \<notin> ?R" using dis zq by blast
  then have "\<not> (start \<le> ?m \<and> ?m < start + n)"
    using fit by (auto simp: PAGE_SIZE_val)
  then show "byte s' zq q = byte s zq q" unfolding byte_def zo by (auto simp: s'_def fill_meta_eq)
qed

lemma with_zone_inv:
  assumes inv: "buddy_inv s zs Ls {}" and fit: "n + ZONE_SIZE \<le> r * PAGE_SIZE" and pos: "0 < n"
    and dis: "\<forall>zq \<in> set zs. region s zq \<inter> {start ..< start + (r + n) * PAGE_SIZE} = {}"
  defines "s' \<equiv> with_zone s start r n" and "zp \<equiv> start + r * PAGE_SIZE - ZONE_SIZE"
  shows "buddy_inv s' (zp # zs) Ls (tail_pages s' zp 0)" and "zone_of s' zp = new_zone s start r n"
proof -
  have wf: "zones_wf s zs" and fl: "free_lists s Ls" and po: "pages_ok s zs {}" and lo: "lists_ok s zs Ls {}"
    using inv unfolding buddy_inv_def by blast+
  note old = with_zone_old [OF wf fit dis, folded s'_def zp_def]
  let ?H = "tail_pages s' zp 0" and ?R = "{start ..< start + (r + n) * PAGE_SIZE}"
  show z: "zone_of s' zp = new_zone s start r n" by (simp add: zone_of_def s'_def zp_def)
  have new: "zp \<notin> set zs" using old(1) by blast
  have np: "npages s' zp = n" using z by (simp add: npages_def new_zone_def)
  have keep: "npages s' zq = npages s zq" "page_addr s' zq i = page_addr s zq i" "region s' zq = region s zq"
    if "zq \<in> set zs" for zq i
    using old(2) [OF that] by (simp_all add: npages_def page_addr_def region_def)
  have R: "region s' zp = ?R" by (simp add: region_def np z new_zone_def algebra_simps)
  have "zlist (zones s') (zone_head s') (zp # zs)"
    using wf new zp_def fit pos by (auto simp: s'_def zones_wf_def zlist_upd new_zone_def ZONE_SIZE_def)
  moreover have "distinct (zp # zs)" using wf new by (simp add: zones_wf_def)
  moreover have "z_meta (zone_of s' zq) + npages s' zq \<le> zq \<and> zq + ZONE_SIZE \<le> z_base (zone_of s' zq)"
    if "zq \<in> set (zp # zs)" for zq
  proof (cases "zq = zp")
    case True
    then show ?thesis unfolding True z np using fit by (simp add: new_zone_def zp_def)
  next
    case False
    then have "zq \<in> set zs" using that by simp
    then show ?thesis using wf by (simp add: zones_wf_def keep old(2))
  qed
  moreover have "region s' za \<inter> region s' zb = {}" if "za \<in> set (zp # zs)" "zb \<in> set (zp # zs)" "za \<noteq> zb" for za zb
  proof (cases "za = zp \<or> zb = zp")
    case True
    then show ?thesis using that dis keep(3) R by (auto simp: disjoint_iff)
  next
    case False
    then show ?thesis using that wf keep(3) unfolding zones_wf_def by simp
  qed
  ultimately have "zones_wf s' (zp # zs)" unfolding zones_wf_def by blast
  moreover have "pages_ok s' (zp # zs) ?H"
  proof (rule pages_okI)
    fix zq p assume p: "zq \<in> set (zp # zs)" "p < npages s' zq" "(zq, p) \<notin> ?H"
    then have zq: "zq \<in> set zs" by (auto simp: tail_pages_def)
    have "(zq, p) \<notin> {}" by simp
    then obtain i k v where t: "tile s zq i k v" "p \<in> {i ..< i + 2 ^ k}"
      using pages_okD [OF po zq] p(2) unfolding keep(1) [OF zq] by metis
    have "tile s' zq i k v"
      by (rule tile_cong [OF t(1) keep(1) [OF zq]]) (rule old(3) [OF zq tileD(6) [OF t(1)]])
    moreover have "span zq i k \<inter> ?H = {}" using zq new by (auto simp: tail_pages_def)
    ultimately show "\<exists>i k v. tile s' zq i k v \<and> p \<in> {i ..< i + 2 ^ k} \<and> span zq i k \<inter> ?H = {}"
      using t(2) by blast
  qed
  moreover have heads: "free_heads s' (zp # zs) ?H k = free_heads s zs {} k" for k
  proof -
    have "(zq, i) \<in> free_heads s' (zp # zs) ?H k \<longleftrightarrow> (zq, i) \<in> free_heads s zs {} k" for zq i
    proof (cases "zq = zp")
      case True
      then show ?thesis using new by (auto simp: free_heads_def tail_pages_def)
    next
      case False
      then show ?thesis
        using keep(1) [of zq] old(3) [of zq i] by (auto simp: free_heads_def tail_pages_def)
    qed
    then show ?thesis by auto
  qed
  have "lists_ok s' (zp # zs) Ls ?H"
    unfolding lists_ok_def heads
  proof (intro allI impI conjI)
    fix k assume k: "k < MAX_ORDER"
    have pa: "page_addr s' zq i = page_addr s zq i" if "(zq, i) \<in> free_heads s zs {} k" for zq i
      using that keep(2) by (simp add: free_heads_def)
    have "set (Ls ! k) = (\<lambda>(zp, i). page_addr s zp i) ` free_heads s zs {} k"
      using lo k unfolding lists_ok_def by blast
    also have "\<dots> = (\<lambda>(zp, i). page_addr s' zp i) ` free_heads s zs {} k"
      by (rule image_cong) (auto simp: pa)
    finally show "set (Ls ! k) = (\<lambda>(zp, i). page_addr s' zp i) ` free_heads s zs {} k" .
    show "\<forall>(zq, i) \<in> free_heads s zs {} k.
        \<exists>b. blocks s' (page_addr s' zq i) = Some b \<and> fb_zone b = zq \<and> fb_index b = i"
    proof clarify
      fix zq i assume h: "(zq, i) \<in> free_heads s zs {} k"
      then have "\<exists>b. blocks s (page_addr s zq i) = Some b \<and> fb_zone b = zq \<and> fb_index b = i"
        using lo k unfolding lists_ok_def by fast
      then show "\<exists>b. blocks s' (page_addr s' zq i) = Some b \<and> fb_zone b = zq \<and> fb_index b = i"
        using pa [OF h] by (simp add: s'_def)
    qed
  qed
  ultimately show "buddy_inv s' (zp # zs) Ls ?H" using fl by (simp add: buddy_inv_def free_lists_def s'_def)
qed

lemma add_range_ok:
  assumes inv: "buddy_inv s zs Ls {}" and al: "start mod PAGE_SIZE = 0" "fin mod PAGE_SIZE = 0"
    and two: "start + 2 * PAGE_SIZE \<le> fin"
    and rl: "reserve_loop ((fin - start) div PAGE_SIZE) 0 = Some r"
    and dis: "\<forall>zq \<in> set zs. region s zq \<inter> {start ..< fin} = {}"
  defines "zp \<equiv> start + r * PAGE_SIZE - ZONE_SIZE" and "n \<equiv> (fin - start) div PAGE_SIZE - r"
  shows "\<exists>s' Ls'. add_range s start fin = Some s' \<and> buddy_inv s' (zp # zs) Ls' {} \<and>
    zone_of s' zp = new_zone s start r n \<and> zone_head s' = zp \<and> 0 < n \<and> n + ZONE_SIZE \<le> r * PAGE_SIZE \<and>
    region s' zp = {start ..< fin} \<and> allocated_pages s' = allocated_pages s \<and>
    total_pages s' = total_pages s + of_nat n \<and>
    used_heads s' (zp # zs) = used_heads s zs \<and> (\<forall>q < n. free_page s' zp q) \<and>
    (\<forall>zq \<in> set zs. zone_of s' zq = zone_of s zq)"
proof -
  let ?tot = "(fin - start) div PAGE_SIZE" and ?s = "with_zone s start r n"
  have lt: "start < fin" using two by (simp add: PAGE_SIZE_val)
  then have tot: "?tot * PAGE_SIZE = fin - start"
    using al by (metis dvd_div_mult_self less_imp_le_nat mod_eq_dvd_iff_nat)
  then have "2 \<le> ?tot" using two by (simp add: PAGE_SIZE_val)
  note r = reserve_loop_fits [OF rl this]
  have n: "0 < n" "n + ZONE_SIZE \<le> r * PAGE_SIZE" using r by (simp_all add: n_def)
  have "r + n = ?tot" using r(1) by (simp add: n_def)
  then have fin: "start + (r + n) * PAGE_SIZE = fin" using tot lt by simp
  have wf: "zones_wf s zs" using inv unfolding buddy_inv_def by blast
  note old = with_zone_old [OF wf n(2), of start, folded zp_def, unfolded fin, OF dis]
  have inv1: "buddy_inv ?s (zp # zs) Ls (tail_pages ?s zp 0)" and z: "zone_of ?s zp = new_zone s start r n"
    using with_zone_inv [OF inv n(2,1), of start, folded zp_def, unfolded fin, OF dis] by blast+
  have "zp \<in> set (zp # zs)" by simp
  then obtain s' Ls' where s': "carve ?s zp (zone_of ?s zp) 0 = Some s'" "buddy_inv s' (zp # zs) Ls' {}"
      "same_frame ?s s'" "bytes_outside ?s s' (zp # zs) (tail_pages ?s zp 0)"
      and free: "\<And>q. (zp, q) \<in> tail_pages ?s zp 0 \<Longrightarrow> free_page s' zp q"
    using carve_ok [OF inv1] by blast
  note f = same_frameD [OF s'(3)]
  have np: "npages ?s zp = n" by (simp add: npages_def z new_zone_def)
  have "add_range s start fin = Some s'"
    using add_range_eq [OF lt al rl r(1), of s] s'(1) by (simp add: Let_def n_def [symmetric] zp_def [symmetric] z)
  moreover have "region s' zp = {start ..< fin}"
    using fin by (simp add: region_def f np z new_zone_def algebra_simps)
  moreover have fq: "free_page s' zp q" if "q < n" for q
    using that by (intro free) (simp add: tail_pages_def np)
  moreover have "used_heads s' (zp # zs) = used_heads s zs"
  proof -
    have "(zq, j, l) \<in> used_heads s' (zp # zs) \<longleftrightarrow> (zq, j, l) \<in> used_heads s zs" for zq j l
    proof (cases "zq = zp")
      case True
      have "byte s' zp j \<noteq> Some (used_byte l)" if "l < MAX_ORDER" "j < n"
        by (rule free_not_used [OF fq [OF that(2)] that(1)])
      then show ?thesis using True old(1) by (auto simp: used_heads_def f np)
    next
      case False
      have "byte s' zq j = byte s zq j \<and> npages ?s zq = npages s zq" if zq: "zq \<in> set zs" "j < npages s zq"
      proof -
        have nq: "npages ?s zq = npages s zq" by (simp add: npages_def old(2) [OF zq(1)])
        then have "byte s' zq j = byte ?s zq j"
          using s'(4) zq False unfolding bytes_outside_def by (simp add: tail_pages_def)
        then show ?thesis using nq old(3) [OF zq] by simp
      qed
      moreover have "npages ?s zq = npages s zq" if "zq \<in> set zs"
        by (simp add: npages_def old(2) [OF that])
      ultimately show ?thesis using False by (auto simp: used_heads_def f)
    qed
    then show ?thesis by auto
  qed
  moreover have "zone_head s' = zp" by (simp add: f zp_def)
  ultimately show ?thesis
    using s'(2) n old(2) by (intro exI [of _ s'] exI [of _ Ls']) (simp add: f z)
qed

section \<open>Reachable states\<close>

definition block_bytes :: "nat \<times> nat \<Rightarrow> nat set" where
  "block_bytes b = {fst b ..< fst b + 2 ^ snd b * PAGE_SIZE}"

definition pages_of :: "nat \<times> nat \<Rightarrow> usize" where
  "pages_of b = 2 ^ snd b"

definition pa_inv :: "page_allocator \<Rightarrow> nat list \<Rightarrow> bool" where
  "pa_inv s zs \<longleftrightarrow> (\<exists>Ls. buddy_inv s zs Ls {}) \<and> allocated_pages s = (\<Sum>b \<in> allocated s zs. pages_of b)"

text \<open>The states that calls can reach, with the zones that were added, the latest first.\<close>

inductive pa_reach :: "page_allocator \<Rightarrow> nat list \<Rightarrow> bool" where
  new: "pa_reach pa_new []"
| add: "pa_reach s zs \<Longrightarrow> start + 2 * PAGE_SIZE \<le> fin \<Longrightarrow>
    \<forall>zq \<in> set zs. region s zq \<inter> {start ..< fin} = {} \<Longrightarrow>
    add_range s start fin = Some s' \<Longrightarrow> pa_reach s' (zone_head s' # zs)"
| alloc: "pa_reach s zs \<Longrightarrow> alloc_pages s t = Some (r, s') \<Longrightarrow> pa_reach s' zs"
| free: "pa_reach s zs \<Longrightarrow> (a, k) \<in> allocated s zs \<Longrightarrow> free_pages s a = Some s' \<Longrightarrow> pa_reach s' zs"
| wipe: "pa_reach s zs \<Longrightarrow> pa_reach (wipe s) []"

lemma allocated_frame:
  assumes "\<And>zp. zone_of s' zp = zone_of s zp"
  shows "allocated s' zs = (\<lambda>(zp, i, k). (page_addr s zp i, k)) ` used_heads s' zs"
proof -
  have "page_addr s' zp i = page_addr s zp i" for zp i by (simp add: page_addr_def assms)
  then show ?thesis by (simp add: allocated_def)
qed

lemma allocated_inj:
  assumes "zones_wf s zs"
  shows "inj_on (\<lambda>(zp, i, k). (page_addr s zp i, k))
    {(zp, i, k). zp \<in> set zs \<and> i < npages s zp}"
  using page_addr_inj [OF assms] by (auto simp: inj_on_def)

lemma used_heads_in: "used_heads s zs \<subseteq> {(zp, i, k). zp \<in> set zs \<and> i < npages s zp}"
  by (auto simp: used_heads_def)

lemma finite_allocated: "finite (allocated s zs)"
  by (simp add: allocated_def finite_used_heads)

lemma alloc_post_allocated:
  assumes inv: "buddy_inv s zs Ls {}" and post: "alloc_post s zs t r s'"
  obtains zp i where "zp \<in> set zs" and "r = page_addr s zp i" and "2 ^ t dvd i" and "i + 2 ^ t \<le> npages s zp"
    and "allocated s' zs = insert (r, t) (allocated s zs)" and "(r, t) \<notin> allocated s zs"
proof -
  obtain zp i where a: "zp \<in> set zs" "r = page_addr s zp i" "2 ^ t dvd i" "i + 2 ^ t \<le> npages s zp"
      "used_heads s' zs = insert (zp, i, t) (used_heads s zs)" "(zp, i, t) \<notin> used_heads s zs"
      "same_frame (s\<lparr>allocated_pages := allocated_pages s + 2 ^ t\<rparr>) s'"
    using post unfolding alloc_post_def by blast
  have wf: "zones_wf s zs" using inv unfolding buddy_inv_def by blast
  have "zone_of s' zp = zone_of s zp" for zp using a(7) by (simp add: same_frame_def zone_of_def)
  from allocated_frame [OF this, of zs] have al: "allocated s' zs = insert (r, t) (allocated s zs)"
    unfolding a(5) by (simp add: allocated_def [of s] a(2))
  have "(0 :: nat) < 2 ^ t" by simp
  then have i: "i < npages s zp" using a(4) by linarith
  have "(r, t) \<notin> allocated s zs"
  proof
    assume "(r, t) \<in> allocated s zs"
    then obtain zq j where j: "(zq, j, t) \<in> used_heads s zs" "page_addr s zp i = page_addr s zq j"
      using a(2) by (auto simp: allocated_def)
    then have "zq \<in> set zs" "j < npages s zq" using used_heads_in [of s zs] by blast+
    then show False using page_addr_inj [OF wf a(1) _ i _ j(2)] j(1) a(6) by blast
  qed
  then show ?thesis using that a(1-4) al by blast
qed

lemma free_allocated:
  assumes inv: "buddy_inv s zs Ls {}" and u: "(a, k) \<in> allocated s zs"
  shows "\<exists>s' Ls'. free_pages s a = Some s' \<and> buddy_inv s' zs Ls' {} \<and>
    allocated_pages s' = allocated_pages s - 2 ^ k \<and> allocated s' zs = allocated s zs - {(a, k)}"
proof -
  have wf: "zones_wf s zs" using inv unfolding buddy_inv_def by blast
  obtain zp i where h: "(zp, i, k) \<in> used_heads s zs" "a = page_addr s zp i"
    using u by (auto simp: allocated_def)
  obtain s' Ls' where s': "free_pages s a = Some s'" "buddy_inv s' zs Ls' {}"
      "same_frame (s\<lparr>allocated_pages := allocated_pages s - 2 ^ k\<rparr>) s'"
      "used_heads s' zs = used_heads s zs - {(zp, i, k)}"
    using free_pages_ok [OF inv h(1)] h(2) by blast
  have "zone_of s' zp = zone_of s zp" for zp using s'(3) by (simp add: same_frame_def zone_of_def)
  from allocated_frame [OF this, of zs]
  have "allocated s' zs = (\<lambda>(zp, i, k). (page_addr s zp i, k)) ` (used_heads s zs - {(zp, i, k)})"
    unfolding s'(4) .
  also have "\<dots> = allocated s zs - {(a, k)}"
    using inj_on_image_set_diff [OF inj_on_subset [OF allocated_inj [OF wf] used_heads_in] Diff_subset,
        of "{(zp, i, k)}"] h by (simp add: allocated_def)
  finally show ?thesis using s' by (auto simp: same_frame_def)
qed

lemma buddy_inv_empty:
  assumes "zone_head s = 0" and "free_area s = replicate MAX_ORDER 0"
  shows "buddy_inv s [] (replicate MAX_ORDER []) {}"
  using assms by (simp add: buddy_inv_def zones_wf_def free_lists_def pages_ok_def lists_ok_def free_heads_def)

lemma allocated_none [simp]: "allocated s [] = {}"
  by (simp add: allocated_def used_heads_def)

lemma add_range_SomeD:
  assumes "add_range s start fin = Some s'" and "start + 2 * PAGE_SIZE \<le> fin"
  obtains r where "start mod PAGE_SIZE = 0" and "fin mod PAGE_SIZE = 0"
    and "reserve_loop ((fin - start) div PAGE_SIZE) 0 = Some r"
proof -
  have "2 * PAGE_SIZE \<le> fin - start" using assms(2) by simp
  then have "(fin - start) div PAGE_SIZE \<noteq> 0" by (simp add: PAGE_SIZE_val)
  then show ?thesis
    using assms(1) that by (auto simp: add_range_def Let_def bind_eq_Some_conv split: if_splits)
qed

lemma add_range_allocated:
  assumes "buddy_inv s zs Ls {}" and "used_heads s' (zp # zs) = used_heads s zs"
    and "\<forall>zq \<in> set zs. zone_of s' zq = zone_of s zq"
  shows "allocated s' (zp # zs) = allocated s zs"
  unfolding allocated_def assms(2)
  by (rule image_cong) (use assms(3) in \<open>auto simp: used_heads_def page_addr_def\<close>)

lemma pa_reach_inv: "pa_reach s zs \<Longrightarrow> pa_inv s zs"
proof (induction rule: pa_reach.induct)
  case new
  show ?case
    using buddy_inv_empty [of pa_new] by (auto simp: pa_inv_def pa_new_def)
next
  case (add s zs start fin s')
  obtain Ls where inv: "buddy_inv s zs Ls {}" using add.IH by (auto simp: pa_inv_def)
  obtain r where r: "start mod PAGE_SIZE = 0" "fin mod PAGE_SIZE = 0"
      "reserve_loop ((fin - start) div PAGE_SIZE) 0 = Some r"
    by (rule add_range_SomeD [OF add.hyps(4,2)])
  obtain Ls' where "buddy_inv s' (zone_head s' # zs) Ls' {}" "allocated_pages s' = allocated_pages s"
      "used_heads s' (zone_head s' # zs) = used_heads s zs" "\<forall>zq \<in> set zs. zone_of s' zq = zone_of s zq"
    using add_range_ok [OF inv r(1,2) add.hyps(2) r(3) add.hyps(3)] add.hyps(4) by auto
  then show ?case using add.IH add_range_allocated [OF inv] unfolding pa_inv_def by metis
next
  case (alloc s zs t r s')
  obtain Ls where inv: "buddy_inv s zs Ls {}" using alloc.IH by (auto simp: pa_inv_def)
  show ?case
  proof (cases "s' = s")
    case False
    then have t: "t < MAX_ORDER" using alloc.hyps(2) by (auto simp: alloc_pages_def split: if_splits)
    have post: "alloc_post s zs t r s'"
      using alloc_pages_ok [OF inv t] alloc.hyps(2) False by (auto split: if_splits)
    then obtain Ls' where "buddy_inv s' zs Ls' {}" "allocated_pages s' = allocated_pages s + 2 ^ t"
      unfolding alloc_post_def same_frame_def by auto
    moreover have "(\<Sum>b \<in> allocated s' zs. pages_of b) = (\<Sum>b \<in> allocated s zs. pages_of b) + 2 ^ t"
      by (rule alloc_post_allocated [OF inv post]) (simp add: finite_allocated pages_of_def add.commute)
    ultimately show ?thesis using alloc.IH by (auto simp: pa_inv_def)
  qed (use alloc.IH in simp)
next
  case (free s zs a k s')
  obtain Ls where inv: "buddy_inv s zs Ls {}" using free.IH by (auto simp: pa_inv_def)
  obtain Ls' where s': "buddy_inv s' zs Ls' {}" "allocated_pages s' = allocated_pages s - 2 ^ k"
      "allocated s' zs = allocated s zs - {(a, k)}"
    using free_allocated [OF inv free.hyps(2)] free.hyps(3) by auto
  have "(\<Sum>b \<in> allocated s zs. pages_of b) = 2 ^ k + (\<Sum>b \<in> allocated s zs - {(a, k)}. pages_of b)"
    using sum.remove [OF finite_allocated free.hyps(2), of pages_of] by (simp add: pages_of_def)
  then show ?case using s' free.IH by (auto simp: pa_inv_def)
next
  case (wipe s zs)
  show ?case using buddy_inv_empty [of "wipe s"] by (auto simp: pa_inv_def wipe_def)
qed

lemma pa_reach_buddy:
  assumes "pa_reach s zs"
  obtains Ls where "buddy_inv s zs Ls {}"
  using pa_reach_inv [OF assms] by (auto simp: pa_inv_def)

text \<open>Different allocated blocks share no byte, and each lies in the data pages of a zone.\<close>

lemma block_bytes_page:
  "block_bytes (page_addr s zp i, k) =
     {z_base (zone_of s zp) + i * PAGE_SIZE ..< z_base (zone_of s zp) + (i + 2 ^ k) * PAGE_SIZE}"
  by (simp add: block_bytes_def page_addr_def algebra_simps)

lemma allocated_disjoint:
  assumes inv: "buddy_inv s zs Ls {}" and b: "b \<in> allocated s zs" "c \<in> allocated s zs" "b \<noteq> c"
  shows "block_bytes b \<inter> block_bytes c = {}"
proof -
  have wf: "zones_wf s zs" and po: "pages_ok s zs {}" using inv unfolding buddy_inv_def by blast+
  obtain zp i k where x: "(zp, i, k) \<in> used_heads s zs" "b = (page_addr s zp i, k)"
    using b(1) by (auto simp: allocated_def)
  obtain zq j l where y: "(zq, j, l) \<in> used_heads s zs" "c = (page_addr s zq j, l)"
    using b(2) by (auto simp: allocated_def)
  note tx = used_head_tile [OF po x(1)] and ty = used_head_tile [OF po y(1)]
  have m: "zp \<in> set zs" "zq \<in> set zs" using x(1) y(1) by (simp_all add: used_heads_def)
  have in_data: "block_bytes (page_addr s z p, m) \<subseteq>
      {z_base (zone_of s z) ..< z_base (zone_of s z) + npages s z * PAGE_SIZE}"
    if "tile s z p m v" for z p m v
  proof -
    have "(p + 2 ^ m) * PAGE_SIZE \<le> npages s z * PAGE_SIZE" using tileD(3) [OF that] by (rule mult_le_mono1)
    then show ?thesis unfolding block_bytes_page by auto
  qed
  show ?thesis
  proof (cases "zp = zq")
    case False
    then show ?thesis
      using in_data [OF tx] in_data [OF ty] zones_wf_disjoint(1) [OF wf m] x(2) y(2) by blast
  next
    case True
    have no: "\<not> (q \<in> {i ..< i + 2 ^ k} \<and> q \<in> {j ..< j + 2 ^ l})" for q
      using tile_unique [OF tx, of j l "used_byte l" q] ty True x(2) y(2) b(3) by auto
    have "i + 2 ^ k \<le> j \<or> j + 2 ^ l \<le> i" using no [of i] no [of j] by force
    then have "(i + 2 ^ k) * PAGE_SIZE \<le> j * PAGE_SIZE \<or> (j + 2 ^ l) * PAGE_SIZE \<le> i * PAGE_SIZE"
      using mult_le_mono1 by blast
    then show ?thesis unfolding x(2) y(2) block_bytes_page True by auto
  qed
qed

lemma allocated_in_zone:
  assumes inv: "buddy_inv s zs Ls {}" and b: "b \<in> allocated s zs"
  shows "\<exists>zp \<in> set zs. block_bytes b \<subseteq> {z_base (zone_of s zp) ..< z_base (zone_of s zp) + npages s zp * PAGE_SIZE}"
proof -
  have po: "pages_ok s zs {}" using inv unfolding buddy_inv_def by blast
  obtain zp i k where x: "(zp, i, k) \<in> used_heads s zs" "b = (page_addr s zp i, k)"
    using b by (auto simp: allocated_def)
  have "(i + 2 ^ k) * PAGE_SIZE \<le> npages s zp * PAGE_SIZE"
    using tileD(3) [OF used_head_tile [OF po x(1)]] by (rule mult_le_mono1)
  moreover have "zp \<in> set zs" using x(1) by (simp add: used_heads_def)
  ultimately show ?thesis
    unfolding x(2) block_bytes_page by (intro bexI [of _ zp]) auto
qed

lemma used_page_allocated:
  assumes inv: "buddy_inv s zs Ls {}" and zp: "zp \<in> set zs" "i < npages s zp"
    and k: "k < MAX_ORDER" "byte s zp i = Some (used_byte k)"
  shows "\<exists>b \<in> allocated s zs. page_addr s zp i \<in> block_bytes b"
proof -
  have po: "pages_ok s zs {}" using inv unfolding buddy_inv_def by blast
  have "(zp, i) \<notin> {}" by simp
  then obtain j l v where t: "tile s zp j l v" "i \<in> {j ..< j + 2 ^ l}"
    using pages_okD [OF po zp] by metis
  note l = tileD(1) [OF t(1)]
  have v: "v = used_byte k" using tileD(5) [OF t] k(2) by simp
  have "v = used_byte l" using tileD(4) [OF t(1)] v byte_inj(3) [OF k(1) l] by metis
  then have "(zp, j, l) \<in> used_heads s zs"
    using zp(1) l tileD(2) [OF t(1)] tileD(5,6) [OF t(1), of j] by (simp add: used_heads_def)
  then have "(page_addr s zp j, l) \<in> allocated s zs" by (force simp: allocated_def)
  moreover have "i * PAGE_SIZE < (j + 2 ^ l) * PAGE_SIZE" "j * PAGE_SIZE \<le> i * PAGE_SIZE"
    using t(2) by (simp_all add: PAGE_SIZE_val)
  then have "page_addr s zp i \<in> block_bytes (page_addr s zp j, l)"
    unfolding block_bytes_page by (simp add: page_addr_def)
  ultimately show ?thesis by blast
qed

lemma free_page_head:
  assumes "pages_ok s zs {}" and "zp \<in> set zs" and "q < npages s zp" and "free_page s zp q"
  shows "\<exists>k < MAX_ORDER. free_heads s zs {} k \<noteq> {}"
proof -
  have "(zp, q) \<notin> {}" by simp
  then obtain j l v where t: "tile s zp j l v" "q \<in> {j ..< j + 2 ^ l}"
    using pages_okD [OF assms(1-3)] by metis
  note l = tileD(1) [OF t(1)]
  have "v \<noteq> used_byte l" using free_not_used [OF assms(4) l] tileD(5) [OF t] by simp
  then have "byte s zp j = Some (free_byte l)" using tileD(4) [OF t(1)] tileD(5) [OF t(1), of j] by simp
  then have "(zp, j) \<in> free_heads s zs {} l"
    using assms(2) tileD(2) [OF t(1)] tileD(6) [OF t(1), of j] by (simp add: free_heads_def)
  then show ?thesis using l by blast
qed

section \<open>Properties\<close>

text \<open>C1: In every reachable state \<open>alloc_pages\<close> returns. It returns null, and changes nothing, only
  when no free block of the wanted order or a larger one exists; otherwise it returns a block of
  \<open>2 ^ order\<close> pages, aligned in its zone, that shares no byte with any allocated block, and exactly
  that block is allocated in addition.\<close>

theorem alloc_pages_fresh:
  assumes "pa_reach s zs" and "t < MAX_ORDER"
  shows "\<exists>r s'. alloc_pages s t = Some (r, s') \<and>
    (if r = 0 then s' = s \<and> (\<Union>k \<in> {t ..< MAX_ORDER}. free_heads s zs {} k) = {}
     else allocated s' zs = insert (r, t) (allocated s zs) \<and> (r, t) \<notin> allocated s zs \<and>
       (\<forall>b \<in> allocated s zs. block_bytes b \<inter> block_bytes (r, t) = {}) \<and>
       (\<exists>zp \<in> set zs. \<exists>i. r = z_base (zone_of s zp) + i * PAGE_SIZE \<and> 2 ^ t dvd i \<and> i + 2 ^ t \<le> npages s zp))"
proof -
  obtain Ls where inv: "buddy_inv s zs Ls {}" by (rule pa_reach_buddy [OF assms(1)])
  have wf: "zones_wf s zs" using inv unfolding buddy_inv_def by blast
  obtain r s' where a: "alloc_pages s t = Some (r, s')"
      "if \<forall>k. t \<le> k \<and> k < MAX_ORDER \<longrightarrow> free_heads s zs {} k = {} then r = 0 \<and> s' = s
       else alloc_post s zs t r s'"
    using alloc_pages_ok [OF inv assms(2)] by blast
  show ?thesis
  proof (cases "\<forall>k. t \<le> k \<and> k < MAX_ORDER \<longrightarrow> free_heads s zs {} k = {}")
    case True
    then show ?thesis using a by auto
  next
    case False
    then have post: "alloc_post s zs t r s'" using a(2) by presburger
    obtain zp i where z: "zp \<in> set zs" "r = page_addr s zp i" "2 ^ t dvd i" "i + 2 ^ t \<le> npages s zp"
        "allocated s' zs = insert (r, t) (allocated s zs)" "(r, t) \<notin> allocated s zs"
      by (rule alloc_post_allocated [OF inv post])
    have "r \<noteq> 0" using page_addr_nonzero [OF wf z(1)] z(2) by simp
    moreover obtain Ls' where inv': "buddy_inv s' zs Ls' {}" using post unfolding alloc_post_def by blast
    have "block_bytes b \<inter> block_bytes (r, t) = {}" if "b \<in> allocated s zs" for b
      using that z(5,6) by (intro allocated_disjoint [OF inv']) auto
    moreover have "\<exists>zp \<in> set zs. \<exists>i. r = z_base (zone_of s zp) + i * PAGE_SIZE \<and> 2 ^ t dvd i \<and> i + 2 ^ t \<le> npages s zp"
      using z(1-4) unfolding page_addr_def by blast
    ultimately show ?thesis using a(1) z(5,6) by auto
  qed
qed

text \<open>One zone of three free pages.\<close>

lemma example_zone:
  "\<exists>s zp. add_range pa_new PAGE_SIZE (5 * PAGE_SIZE) = Some s \<and> pa_reach s [zp] \<and> allocated s [zp] = {} \<and>
     npages s zp = 3 \<and> (\<forall>q < 3. free_page s zp q)"
proof -
  have inv: "buddy_inv pa_new [] (replicate MAX_ORDER []) {}"
    by (rule buddy_inv_empty) (simp_all add: pa_new_def)
  have n: "needed_pages 4 0 = Suc 0" "needed_pages 4 (Suc 0) = Suc 0" by (simp_all add: needed_pages_val)
  have "reserve_loop 4 0 = Some 1"
    by (subst reserve_loop_step, subst reserve_loop_step) (simp add: n)
  then have rl: "reserve_loop ((5 * PAGE_SIZE - PAGE_SIZE) div PAGE_SIZE) 0 = Some 1"
    by (simp add: PAGE_SIZE_val)
  let ?zp = "PAGE_SIZE + 1 * PAGE_SIZE - ZONE_SIZE"
  obtain s Ls where s: "add_range pa_new PAGE_SIZE (5 * PAGE_SIZE) = Some s" "zone_head s = ?zp"
      "used_heads s [?zp] = used_heads pa_new []" "\<forall>q < (5 * PAGE_SIZE - PAGE_SIZE) div PAGE_SIZE - 1. free_page s ?zp q"
      "zone_of s ?zp = new_zone pa_new PAGE_SIZE 1 ((5 * PAGE_SIZE - PAGE_SIZE) div PAGE_SIZE - 1)"
    using add_range_ok [OF inv _ _ _ rl] by (auto simp: PAGE_SIZE_val)
  have "pa_reach s [?zp]" using pa_reach.add [OF pa_reach.new _ _ s(1)] s(2) by (simp add: PAGE_SIZE_val)
  moreover have "npages s ?zp = 3" unfolding npages_def s(5) by (simp add: new_zone_def PAGE_SIZE_val)
  moreover have "allocated s [?zp] = {}" unfolding allocated_def s(3) by (simp add: used_heads_def)
  moreover have "\<forall>q < 3. free_page s ?zp q" using s(4) by (simp add: PAGE_SIZE_val)
  ultimately show ?thesis using s(1) by blast
qed

theorem alloc_pages_fresh_witness:
  "\<exists>s zs r s'. pa_reach s zs \<and> 0 < MAX_ORDER \<and> alloc_pages s 0 = Some (r, s') \<and> r \<noteq> 0 \<and> allocated s' zs = {(r, 0)}"
proof -
  obtain s zp where s: "pa_reach s [zp]" "allocated s [zp] = {}" "npages s zp = 3" "free_page s zp 0"
    using example_zone by auto
  obtain Ls where inv: "buddy_inv s [zp] Ls {}" by (rule pa_reach_buddy [OF s(1)])
  have "\<exists>k < MAX_ORDER. free_heads s [zp] {} k \<noteq> {}"
    by (rule free_page_head [of _ _ zp 0]) (use inv s in \<open>auto simp: buddy_inv_def\<close>)
  then have "(\<Union>k \<in> {0 ..< MAX_ORDER}. free_heads s [zp] {} k) \<noteq> {}" by auto
  moreover have "0 < MAX_ORDER" by (simp add: MAX_ORDER_def)
  ultimately show ?thesis using alloc_pages_fresh [OF s(1), of 0] s(1,2) by (metis (no_types, lifting))
qed

text \<open>C2: In every reachable state, freeing the address of an allocated block succeeds and releases
  exactly that block, whatever merging takes place.\<close>

theorem free_pages_releases:
  assumes "pa_reach s zs" and "(a, k) \<in> allocated s zs"
  shows "\<exists>s'. free_pages s a = Some s' \<and> allocated s' zs = allocated s zs - {(a, k)} \<and>
    allocated_pages s' = allocated_pages s - 2 ^ k \<and> pa_reach s' zs"
proof -
  obtain Ls where inv: "buddy_inv s zs Ls {}" by (rule pa_reach_buddy [OF assms(1)])
  then show ?thesis using free_allocated [OF inv assms(2)] pa_reach.free [OF assms] by blast
qed

lemma example_block:
  "\<exists>s zs r. pa_reach s zs \<and> allocated s zs = {(r, 0)} \<and> r \<noteq> 0"
proof -
  obtain s zp where s: "pa_reach s [zp]" "allocated s [zp] = {}" "npages s zp = 3" "free_page s zp 0"
    using example_zone by auto
  obtain Ls where inv: "buddy_inv s [zp] Ls {}" by (rule pa_reach_buddy [OF s(1)])
  have "\<exists>k < MAX_ORDER. free_heads s [zp] {} k \<noteq> {}"
    by (rule free_page_head [of _ _ zp 0]) (use inv s in \<open>auto simp: buddy_inv_def\<close>)
  then obtain r s' where a: "alloc_pages s 0 = Some (r, s')" "alloc_post s [zp] 0 r s'"
    using alloc_pages_ok [OF inv, of 0] by (auto simp: MAX_ORDER_def split: if_splits)
  obtain zq i where z: "zq \<in> set [zp]" "r = page_addr s zq i" "allocated s' [zp] = insert (r, 0) (allocated s [zp])"
    by (rule alloc_post_allocated [OF inv a(2)])
  have "r \<noteq> 0" using inv z(1,2) page_addr_nonzero unfolding buddy_inv_def by metis
  then show ?thesis using pa_reach.alloc [OF s(1) a(1)] z(3) s(2) by auto
qed

theorem free_pages_releases_witness:
  "\<exists>s zs r s'. pa_reach s zs \<and> (r, 0) \<in> allocated s zs \<and> free_pages s r = Some s' \<and> allocated s' zs = {}"
proof -
  obtain s zs r where s: "pa_reach s zs" "allocated s zs = {(r, 0)}" using example_block by blast
  then show ?thesis using free_pages_releases [OF s(1), of r 0] by auto
qed

text \<open>C29: In every reachable state, freeing a pointer that is not null and points into no allocated
  block panics: a second free and a pointer of somebody else are both refused.\<close>

theorem free_pages_refuses:
  assumes "pa_reach s zs" and "a \<noteq> 0" and "\<forall>b \<in> allocated s zs. a \<notin> block_bytes b"
  shows "free_pages s a = None"
proof -
  obtain Ls where inv: "buddy_inv s zs Ls {}" by (rule pa_reach_buddy [OF assms(1)])
  show ?thesis
  proof (rule free_pages_refused [OF inv assms(2)])
    fix zp i k
    assume "zp \<in> set zs" "i < npages s zp" "k < MAX_ORDER" "a = page_addr s zp i"
    then show "byte s zp i \<noteq> Some (used_byte k)" using used_page_allocated [OF inv] assms(3) by blast
  qed
qed

theorem free_pages_refuses_witness:
  "\<exists>s zs r s'. pa_reach s zs \<and> free_pages s r = Some s' \<and> r \<noteq> 0 \<and> pa_reach s' zs \<and> free_pages s' r = None"
proof -
  obtain s zs r where s: "pa_reach s zs" "allocated s zs = {(r, 0)}" "r \<noteq> 0" using example_block by blast
  obtain Ls where inv: "buddy_inv s zs Ls {}" by (rule pa_reach_buddy [OF s(1)])
  have u: "(r, 0) \<in> allocated s zs" using s(2) by simp
  obtain s' where s': "free_pages s r = Some s'" "allocated s' zs = {}"
    using free_allocated [OF inv u] s(2) by auto
  have r: "pa_reach s' zs" by (rule pa_reach.free [OF s(1) u s'(1)])
  then show ?thesis using free_pages_refuses [OF r s(3)] s s' by auto
qed

text \<open>C3: In every reachable state the allocated blocks are pairwise disjoint and lie in the data
  pages of the zones, away from metadata and headers, and the counter \<open>allocated_pages\<close> is the
  number of their pages.\<close>

theorem allocated_blocks_invariant:
  assumes "pa_reach s zs"
  shows "disjoint_family_on block_bytes (allocated s zs) \<and>
    (\<Union>b \<in> allocated s zs. block_bytes b) \<subseteq>
      (\<Union>zp \<in> set zs. {z_base (zone_of s zp) ..< z_base (zone_of s zp) + npages s zp * PAGE_SIZE}) \<and>
    allocated_pages s = (\<Sum>b \<in> allocated s zs. pages_of b)"
proof -
  obtain Ls where inv: "buddy_inv s zs Ls {}" by (rule pa_reach_buddy [OF assms])
  have "disjoint_family_on block_bytes (allocated s zs)"
    using allocated_disjoint [OF inv] by (simp add: disjoint_family_on_def)
  moreover have "(\<Union>b \<in> allocated s zs. block_bytes b) \<subseteq>
      (\<Union>zp \<in> set zs. {z_base (zone_of s zp) ..< z_base (zone_of s zp) + npages s zp * PAGE_SIZE})"
    using allocated_in_zone [OF inv] by blast
  moreover have "allocated_pages s = (\<Sum>b \<in> allocated s zs. pages_of b)"
    using pa_reach_inv [OF assms] by (simp add: pa_inv_def)
  ultimately show ?thesis by blast
qed

theorem allocated_blocks_invariant_witness:
  "\<exists>s zs r. pa_reach s zs \<and> allocated s zs = {(r, 0)} \<and> allocated_pages s = 1"
proof -
  obtain s zs r where s: "pa_reach s zs" "allocated s zs = {(r, 0)}" using example_block by blast
  then show ?thesis using allocated_blocks_invariant [OF s(1)] by (auto simp: pages_of_def)
qed

text \<open>C4: Adding a page-aligned region of at least two pages that meets no zone succeeds unless the
  number of its pages plus 31 is a multiple of 16385. The region becomes one zone, whose metadata
  bytes and header lie in front of its data pages, all of them free; no allocated block changes.\<close>

theorem add_range_adds:
  assumes "pa_reach s zs" and "start mod PAGE_SIZE = 0" and "fin mod PAGE_SIZE = 0"
    and "start + 2 * PAGE_SIZE \<le> fin" and "\<not> 16385 dvd (fin - start) div PAGE_SIZE + 31"
    and "\<forall>zq \<in> set zs. region s zq \<inter> {start ..< fin} = {}"
  shows "\<exists>s'. add_range s start fin = Some s' \<and> pa_reach s' (zone_head s' # zs) \<and>
    allocated s' (zone_head s' # zs) = allocated s zs \<and> region s' (zone_head s') = {start ..< fin} \<and>
    start + npages s' (zone_head s') \<le> zone_head s' \<and>
    zone_head s' + ZONE_SIZE \<le> z_base (zone_of s' (zone_head s')) \<and>
    (\<forall>q < npages s' (zone_head s'). free_page s' (zone_head s') q)"
proof -
  obtain Ls where inv: "buddy_inv s zs Ls {}" by (rule pa_reach_buddy [OF assms(1)])
  have "2 * PAGE_SIZE \<le> fin - start" using assms(4) by simp
  then have "0 < (fin - start) div PAGE_SIZE" by (simp add: PAGE_SIZE_val)
  then obtain r where r: "reserve_loop ((fin - start) div PAGE_SIZE) 0 = Some r"
    using reserve_loop_stops_iff assms(5) by blast
  let ?n = "(fin - start) div PAGE_SIZE - r"
  obtain s' where s': "add_range s start fin = Some s'" "zone_head s' = start + r * PAGE_SIZE - ZONE_SIZE"
      "zone_of s' (zone_head s') = new_zone s start r ?n" "?n + ZONE_SIZE \<le> r * PAGE_SIZE"
      "region s' (zone_head s') = {start ..< fin}" "used_heads s' (zone_head s' # zs) = used_heads s zs"
      "\<forall>q < ?n. free_page s' (zone_head s') q" "\<forall>zq \<in> set zs. zone_of s' zq = zone_of s zq"
    using add_range_ok [OF inv assms(2-4) r assms(6)] by auto
  have np: "npages s' (zone_head s') = ?n" using s'(3) by (simp add: npages_def new_zone_def)
  then have "start + npages s' (zone_head s') \<le> zone_head s'"
      "zone_head s' + ZONE_SIZE \<le> z_base (zone_of s' (zone_head s'))"
    using s'(2,4) unfolding s'(3) by (simp_all add: new_zone_def)
  then show ?thesis
    using s'(1,5,7) np add_range_allocated [OF inv s'(6,8)] pa_reach.add [OF assms(1,4,6) s'(1)] by auto
qed

theorem add_range_adds_witness:
  "\<exists>s'. add_range pa_new PAGE_SIZE (5 * PAGE_SIZE) = Some s' \<and> pa_reach s' [zone_head s'] \<and>
     region s' (zone_head s') = {PAGE_SIZE ..< 5 * PAGE_SIZE}"
  using add_range_adds [OF pa_reach.new, of PAGE_SIZE "5 * PAGE_SIZE"] by (auto simp: PAGE_SIZE_val)

text \<open>C28: For a region whose number of pages plus 31 is a multiple of 16385 the loop that looks for
  the number of reserved pages runs forever: whatever value it has reached, it is a possible one, so
  the code does not panic, and the next value differs from it, so the loop does not stop. The
  smallest such region has 16354 pages.\<close>

theorem add_range_hangs:
  assumes "start mod PAGE_SIZE = 0" and "start < fin" and "fin mod PAGE_SIZE = 0"
    and "16385 dvd (fin - start) div PAGE_SIZE + 31"
  shows "add_range s start fin = None \<and>
    (let step = needed_pages ((fin - start) div PAGE_SIZE) in
     \<forall>n. (step ^^ n) 0 \<le> (fin - start) div PAGE_SIZE \<and> step ((step ^^ n) 0) \<noteq> (step ^^ n) 0)"
proof -
  let ?tot = "(fin - start) div PAGE_SIZE"
  have "?tot * PAGE_SIZE = fin - start"
    using assms(1-3) by (metis dvd_div_mult_self less_imp_le_nat mod_eq_dvd_iff_nat)
  then have pos: "0 < ?tot" using assms(2) by (cases "?tot = 0") auto
  then have "reserve_loop ?tot 0 = None"
    using reserve_loop_stops_iff [OF pos] assms(4) by (metis option.exhaust)
  then have "add_range s start fin = None" using pos by (simp add: add_range_def Let_def)
  moreover have le: "(needed_pages ?tot ^^ n) 0 \<le> ?tot" for n
    by (cases n) (use needed_pages_le [OF pos] in auto)
  moreover have "needed_pages ?tot ((needed_pages ?tot ^^ n) 0) \<noteq> (needed_pages ?tot ^^ n) 0" for n
    using fixpoint_not_dvd [OF _ le] assms(4) by blast
  ultimately show ?thesis by (simp add: Let_def)
qed

theorem add_range_hangs_witness:
  "(16354 * PAGE_SIZE - 0) div PAGE_SIZE = 16354 \<and> add_range pa_new 0 (16354 * PAGE_SIZE) = None"
  using add_range_hangs [of 0 "16354 * PAGE_SIZE" pa_new] by (simp add: PAGE_SIZE_val)

text \<open>C30: The page traits report no lack of memory: when no free block exists, \<open>alloc_phys_page\<close> and
  \<open>alloc_dmap_page\<close> return \<open>Ok\<close> with the translation of the null pointer instead of
  \<open>OutOfMemory\<close>.\<close>

theorem page_traits_hide_exhaustion:
  assumes "pa_reach s zs" and "(\<Union>k \<in> {0 ..< MAX_ORDER}. free_heads s zs {} k) = {}"
  shows "alloc_phys_page dmap_to_phys s = Some (Inr (if is_dmap s then dmap_to_phys 0 else 0), s) \<and>
    alloc_dmap_page phys_to_dmap s = Some (Inr (if is_dmap s then 0 else phys_to_dmap 0), s)"
proof -
  obtain Ls where inv: "buddy_inv s zs Ls {}" by (rule pa_reach_buddy [OF assms(1)])
  have "alloc_pages s 0 = Some (0, s)"
    using alloc_pages_ok [OF inv, of 0] assms(2) by (auto simp: MAX_ORDER_def)
  then show ?thesis by (simp add: alloc_phys_page_def alloc_dmap_page_def alloc_page_def)
qed

theorem page_traits_hide_exhaustion_witness:
  "alloc_phys_page (\<lambda>a. a) pa_new = Some (Inr 0, pa_new) \<and> alloc_dmap_page (\<lambda>a. a) pa_new = Some (Inr 0, pa_new)"
  using page_traits_hide_exhaustion [OF pa_reach.new, of "\<lambda>a. a" "\<lambda>a. a"] by (simp add: free_heads_def)

end
