(* ===== verification/Device_Tree.thy ===== *)
theory Device_Tree
  imports Mars_Prelude
begin

text \<open>
  The hardware-independent view of the machine: processor identifiers
  (\<open>klib/src/cpu_interface.rs\<close>), the device tree that firmware tables and bus scans fill
  (\<open>klib/src/hardware/device.rs\<close>, \<open>resource.rs\<close>) and the binding of drivers to its nodes
  (\<open>klib/src/hardware/driver.rs\<close>). A \<open>DeviceId\<close> is an index into the arena of nodes.
\<close>

section \<open>Processor identifiers\<close>

text \<open>\<open>CpuTopologyId\<close> packs the four affinity bytes of \<open>MPIDR_EL1\<close> into 32 bits.\<close>

type_synonym cpu_topology_id = u32

definition mpidr_affinities :: "u32 \<Rightarrow> u8 \<times> u8 \<times> u8 \<times> u8" where
  "mpidr_affinities mpidr =
     (let aff0 = mpidr AND 0xFF;
          aff1 = drop_bit 8 mpidr AND 0xFF;
          aff2 = drop_bit 16 mpidr AND 0xFF;
          aff3 = drop_bit 24 mpidr AND 0xFF
      in (ucast aff3, ucast aff2, ucast aff1, ucast aff0))"

definition from_mpidr :: "u64 \<Rightarrow> cpu_topology_id" where
  "from_mpidr mpidr =
     (let aff3 = ucast (drop_bit 32 mpidr AND 0xFF) :: u32;
          aff2 = ucast (drop_bit 16 mpidr AND 0xFF) :: u32;
          aff1 = ucast (drop_bit 8 mpidr AND 0xFF) :: u32;
          aff0 = ucast (mpidr AND 0xFF) :: u32
      in aff0 OR push_bit 8 aff1 OR push_bit 16 aff2 OR push_bit 24 aff3)"

definition to_mpidr :: "cpu_topology_id \<Rightarrow> u64" where
  "to_mpidr t =
     (case mpidr_affinities t of (aff3, aff2, aff1, aff0) \<Rightarrow>
        ucast aff0 OR push_bit 8 (ucast aff1) OR push_bit 16 (ucast aff2) OR push_bit 32 (ucast aff3))"

text \<open>The two maps that \<open>init_cpu_maps\<close> fills, \<open>CPU_ID_MAP\<close> and \<open>CPU_TOPOLOGIES\<close>.\<close>

record cpu_maps =
  id_map :: "cpu_topology_id \<rightharpoonup> u32"
  topologies :: "cpu_topology_id list"

fun insert_cpus :: "(nat \<times> cpu_topology_id) list \<Rightarrow> cpu_maps \<Rightarrow> cpu_maps" where
  "insert_cpus [] m = m"
| "insert_cpus ((i, t) # its) m =
     insert_cpus its (m\<lparr>topologies := topologies m @ [t], id_map := (id_map m)(t \<mapsto> of_nat i)\<rparr>)"

definition init_cpu_maps :: "cpu_topology_id list \<Rightarrow> cpu_maps \<Rightarrow> cpu_maps" where
  "init_cpu_maps ts m =
     insert_cpus (enumerate 0 ts) (m\<lparr>id_map := Map.empty, topologies := []\<rparr>)"

definition to_logical :: "cpu_maps \<Rightarrow> cpu_topology_id \<Rightarrow> u32 option" where
  "to_logical m t = id_map m t"

section \<open>The device tree\<close>

datatype resource = Mmio usize usize | Irq u32

datatype device_init_priority = Regular | Fundamental

datatype device_class =
  Cpu cpu_topology_id u32
| Uart
| Timer
| GicV3 u32
| PciHostBridge
| Other

text \<open>Strings are kept as their bytes.\<close>

type_synonym rust_string = "u8 list"

definition str_bytes :: "string \<Rightarrow> rust_string" where
  "str_bytes s = map of_char s"

record device_node =
  node_id :: nat
  node_priority :: device_init_priority
  node_parent :: "nat option"
  node_class :: device_class
  node_compatible :: "rust_string list"
  node_resources :: "resource list"
  node_children :: "nat list"

record device_tree =
  nodes :: "device_node list"
  roots :: "nat list"

definition dt_new :: device_tree where
  "dt_new = \<lparr>nodes = [], roots = []\<rparr>"

text \<open>
  \<open>add_device\<close>: the node is pushed first, then its parent is indexed, which panics (\<open>None\<close>) when the
  parent is out of range.
\<close>

definition add_device ::
    "nat option \<Rightarrow> device_class \<Rightarrow> rust_string list \<Rightarrow> resource list \<Rightarrow> device_init_priority \<Rightarrow>
     device_tree \<Rightarrow> (nat \<times> device_tree) option" where
  "add_device parent class compatible resources priority t =
     (let i = length (nodes t);
          node = \<lparr>node_id = i, node_priority = priority, node_parent = parent, node_class = class,
                  node_compatible = compatible, node_resources = resources, node_children = []\<rparr>;
          ns = nodes t @ [node]
      in case parent of
           Some p \<Rightarrow>
             if p < length ns
             then Some (i, t\<lparr>nodes := ns[p := (ns ! p)\<lparr>node_children := node_children (ns ! p) @ [i]\<rparr>]\<rparr>)
             else None
         | None \<Rightarrow> Some (i, t\<lparr>nodes := ns, roots := roots t @ [i]\<rparr>))"

definition dt_get :: "device_tree \<Rightarrow> nat \<Rightarrow> device_node option" where
  "dt_get t i = (if i < length (nodes t) then Some (nodes t ! i) else None)"

text \<open>\<open>discriminant\<close> compares the constructors only.\<close>

fun same_class :: "device_class \<Rightarrow> device_class \<Rightarrow> bool" where
  "same_class (Cpu _ _) (Cpu _ _) = True"
| "same_class Uart Uart = True"
| "same_class Timer Timer = True"
| "same_class (GicV3 _) (GicV3 _) = True"
| "same_class PciHostBridge PciHostBridge = True"
| "same_class Other Other = True"
| "same_class _ _ = False"

definition iter_class :: "device_tree \<Rightarrow> device_class \<Rightarrow> device_node list" where
  "iter_class t class = filter (\<lambda>n. same_class (node_class n) class) (nodes t)"

section \<open>Drivers\<close>

datatype driver_error = MissingResources | DrvIo | Incompatible

record 'd driver_descriptor =
  drv_name :: string
  drv_compatible :: "rust_string list"
  drv_probe :: "device_node \<Rightarrow> driver_error + 'd"

record 'd driver_manager =
  drivers :: "'d driver_descriptor list"
  instances :: "'d list"

definition dm_new :: "'d driver_descriptor list \<Rightarrow> 'd driver_manager" where
  "dm_new ds = \<lparr>drivers = ds, instances = []\<rparr>"

definition driver_matches :: "device_node \<Rightarrow> 'd driver_descriptor \<Rightarrow> bool" where
  "driver_matches n d = list_ex (\<lambda>c. c \<in> set (node_compatible n)) (drv_compatible d)"

fun bind_nodes :: "device_node list \<Rightarrow> 'd driver_manager \<Rightarrow> 'd driver_manager option" where
  "bind_nodes [] m = Some m"
| "bind_nodes (n # ns) m =
     (case List.find (driver_matches n) (drivers m) of
        None \<Rightarrow> bind_nodes ns m
      | Some d \<Rightarrow>
          (case drv_probe d n of
             Inr dev \<Rightarrow> bind_nodes ns (m\<lparr>instances := instances m @ [dev]\<rparr>)
           | Inl _ \<Rightarrow> None))"

definition bind_drivers :: "device_tree \<Rightarrow> 'd driver_manager \<Rightarrow> 'd driver_manager option" where
  "bind_drivers t m = bind_nodes (nodes t) m"

section \<open>Processor identifiers are faithful\<close>

lemma from_mpidr_bit:
  "bit (from_mpidr m) n \<longleftrightarrow> (n < 24 \<and> bit m n) \<or> (24 \<le> n \<and> n < 32 \<and> bit m (n + 8))"
proof -
  have e: "24 \<le> n \<Longrightarrow> 32 + (n - 24) = n + 8" "16 \<le> n \<Longrightarrow> 16 + (n - 16) = n"
    "8 \<le> n \<Longrightarrow> 8 + (n - 8) = n" by linarith+
  consider "n < 8" | "8 \<le> n" "n < 16" | "16 \<le> n" "n < 24" | "24 \<le> n" "n < 32" | "32 \<le> n"
    by linarith
  then show ?thesis
    unfolding from_mpidr_def Let_def byte_mask
    by cases (auto simp: bit_simps e add.commute)
qed

lemma to_mpidr_bit:
  "bit (to_mpidr t) n \<longleftrightarrow> (n < 24 \<and> bit t n) \<or> (32 \<le> n \<and> n < 40 \<and> bit t (n - 8))"
proof -
  have e: "32 \<le> n \<Longrightarrow> 24 + (n - 32) = n - 8" "16 \<le> n \<Longrightarrow> 16 + (n - 16) = n"
    "8 \<le> n \<Longrightarrow> 8 + (n - 8) = n" by linarith+
  consider "n < 8" | "8 \<le> n" "n < 16" | "16 \<le> n" "n < 24" | "24 \<le> n" "n < 32"
    | "32 \<le> n" "n < 40" | "40 \<le> n"
    by linarith
  then show ?thesis
    unfolding to_mpidr_def mpidr_affinities_def Let_def byte_mask
    by cases (auto simp: bit_simps e)
qed

lemma from_to_mpidr: "from_mpidr (to_mpidr t) = t"
proof (rule bit_word_eqI)
  fix n assume "n < LENGTH(32)"
  then show "bit (from_mpidr (to_mpidr t)) n = bit t n"
    by (auto simp: from_mpidr_bit to_mpidr_bit)
qed

lemma insert_cpus_topologies:
  "topologies (insert_cpus (enumerate k ts) m) = topologies m @ ts"
  by (induction ts arbitrary: k m) simp_all

lemma insert_cpus_other: "x \<notin> set ts \<Longrightarrow> id_map (insert_cpus (enumerate k ts) m) x = id_map m x"
  by (induction ts arbitrary: k m) simp_all

lemma insert_cpus_nth:
  "distinct ts \<Longrightarrow> i < length ts \<Longrightarrow> id_map (insert_cpus (enumerate k ts) m) (ts ! i) = Some (of_nat (k + i))"
proof (induction ts arbitrary: k m i)
  case (Cons t ts)
  then show ?case by (cases i) (simp_all add: insert_cpus_other ac_simps)
qed simp

text \<open>Distinct topologies get the logical ids in order.\<close>

lemma init_cpu_maps_nth:
  assumes "distinct ts" and "i < length ts"
  shows "to_logical (init_cpu_maps ts m) (ts ! i) = Some (of_nat i)"
  using assms by (simp add: to_logical_def init_cpu_maps_def insert_cpus_nth)

lemma init_cpu_maps_topologies: "topologies (init_cpu_maps ts m) = ts"
  by (simp add: init_cpu_maps_def insert_cpus_topologies)

section \<open>The tree stays well formed\<close>

text \<open>
  The arena is a forest: a node's id is its index, its parent comes before it, and the lists of
  roots and children are exactly the nodes with that parent, in the order they were added.
\<close>

definition dt_wf :: "device_tree \<Rightarrow> bool" where
  "dt_wf t \<longleftrightarrow>
     (\<forall>i < length (nodes t).
        node_id (nodes t ! i) = i \<and>
        (\<forall>p. node_parent (nodes t ! i) = Some p \<longrightarrow> p < i) \<and>
        node_children (nodes t ! i) =
          filter (\<lambda>j. node_parent (nodes t ! j) = Some i) [0..<length (nodes t)]) \<and>
     roots t = filter (\<lambda>j. node_parent (nodes t ! j) = None) [0..<length (nodes t)]"

lemma dt_wf_new [simp]: "dt_wf dt_new"
  by (simp add: dt_wf_def dt_new_def)

text \<open>What stays the same of a node when other nodes are added.\<close>

definition same_device :: "device_node \<Rightarrow> device_node \<Rightarrow> bool" where
  "same_device n m \<longleftrightarrow> m\<lparr>node_children := node_children n\<rparr> = n"

definition dt_extends :: "device_tree \<Rightarrow> device_tree \<Rightarrow> bool" where
  "dt_extends t t' \<longleftrightarrow> length (nodes t) \<le> length (nodes t') \<and>
     (\<forall>i < length (nodes t). same_device (nodes t ! i) (nodes t' ! i))"

lemma dt_extends_refl [simp]: "dt_extends t t"
  by (simp add: dt_extends_def same_device_def)

lemma same_device_trans: "same_device a b \<Longrightarrow> same_device b c \<Longrightarrow> same_device a c"
  by (cases a; cases b; cases c) (simp add: same_device_def)

lemma dt_extends_trans: "dt_extends a b \<Longrightarrow> dt_extends b c \<Longrightarrow> dt_extends a c"
  unfolding dt_extends_def by (meson le_less_trans less_le_trans same_device_trans order_trans)

lemma no_later:
  "dt_wf t \<Longrightarrow> filter (\<lambda>j. node_parent (nodes t ! j) = Some (length (nodes t))) [0..<length (nodes t)] = []"
  by (fastforce simp: dt_wf_def filter_empty_conv)

lemma add_device_ok:
  assumes wf: "dt_wf t" and p: "\<forall>p. parent = Some p \<longrightarrow> p < length (nodes t)"
  obtains t' where "add_device parent class compatible resources priority t = Some (length (nodes t), t')"
    and "dt_wf t'" and "dt_extends t t'" and "length (nodes t') = Suc (length (nodes t))"
proof -
  let ?i = "length (nodes t)"
  let ?n = "\<lparr>node_id = ?i, node_priority = priority, node_parent = parent, node_class = class,
      node_compatible = compatible, node_resources = resources, node_children = []\<rparr>"
  show ?thesis
  proof (cases parent)
    case None
    let ?t = "t\<lparr>nodes := nodes t @ [?n], roots := roots t @ [?i]\<rparr>"
    have children: "filter (\<lambda>j. node_parent (nodes ?t ! j) = x) [0..<length (nodes ?t)] =
        filter (\<lambda>j. node_parent (nodes t ! j) = x) [0..<?i] @ (if x = None then [?i] else [])" for x
      using None by (auto simp: nth_append intro!: filter_cong)
    have "dt_wf ?t"
      unfolding dt_wf_def children
      using wf None by (auto simp: dt_wf_def nth_append less_Suc_eq no_later [OF wf])
    moreover have "dt_extends t ?t" by (simp add: dt_extends_def same_device_def nth_append)
    ultimately show ?thesis
      using None by (intro that [of ?t]) (simp_all add: add_device_def Let_def)
  next
    case (Some q)
    with p have q: "q < ?i" by simp
    let ?ns = "nodes t @ [?n]"
    let ?t = "t\<lparr>nodes := ?ns[q := (?ns ! q)\<lparr>node_children := node_children (?ns ! q) @ [?i]\<rparr>]\<rparr>"
    have parent_of: "node_parent (nodes ?t ! j) = (if j = ?i then Some q else node_parent (nodes t ! j))"
      if "j < Suc ?i" for j
      using that q Some by (auto simp: nth_append nth_list_update less_Suc_eq)
    have len: "length (nodes ?t) = Suc ?i" by simp
    have children: "filter (\<lambda>j. node_parent (nodes ?t ! j) = x) [0..<length (nodes ?t)] =
        filter (\<lambda>j. node_parent (nodes t ! j) = x) [0..<?i] @ (if x = Some q then [?i] else [])" for x
      unfolding len using parent_of by (auto intro!: filter_cong)
    have "dt_wf ?t"
      unfolding dt_wf_def children
      using wf q Some by (auto simp: dt_wf_def nth_append nth_list_update less_Suc_eq no_later [OF wf])
    moreover have "dt_extends t ?t"
      using q by (simp add: dt_extends_def same_device_def nth_append nth_list_update)
    ultimately show ?thesis
      using Some q by (intro that [of ?t]) (simp_all add: add_device_def Let_def)
  qed
qed

section \<open>Binding drivers\<close>

text \<open>The device that the first matching driver of a node makes, if there is one and it probes.\<close>

definition driver_of :: "'d driver_descriptor list \<Rightarrow> device_node \<Rightarrow> 'd driver_descriptor option" where
  "driver_of ds n = List.find (driver_matches n) ds"

definition probed :: "'d driver_descriptor list \<Rightarrow> device_node \<Rightarrow> 'd option" where
  "probed ds n =
     (case driver_of ds n of None \<Rightarrow> None
      | Some d \<Rightarrow> (case drv_probe d n of Inr x \<Rightarrow> Some x | Inl _ \<Rightarrow> None))"

definition probe_fails :: "'d driver_descriptor list \<Rightarrow> device_node \<Rightarrow> bool" where
  "probe_fails ds n \<longleftrightarrow> (\<exists>d. driver_of ds n = Some d \<and> isl (drv_probe d n))"

lemma bind_nodes_eq:
  "bind_nodes ns m =
     (if \<exists>n\<in>set ns. probe_fails (drivers m) n then None
      else Some (m\<lparr>instances := instances m @ List.map_filter (probed (drivers m)) ns\<rparr>))"
proof (induction ns arbitrary: m)
  case (Cons n ns)
  show ?case
  proof (cases "List.find (driver_matches n) (drivers m)")
    case None
    then have "\<not> probe_fails (drivers m) n" "probed (drivers m) n = None"
      by (simp_all add: probe_fails_def probed_def driver_of_def)
    then show ?thesis using None Cons.IH [of m] by simp
  next
    case (Some d)
    show ?thesis
    proof (cases "drv_probe d n")
      case (Inl e)
      then show ?thesis using Some by (simp add: probe_fails_def driver_of_def)
    next
      case (Inr x)
      then have "\<not> probe_fails (drivers m) n" "probed (drivers m) n = Some x"
        using Some by (simp_all add: probe_fails_def probed_def driver_of_def)
      then show ?thesis using Some Inr Cons.IH by simp
    qed
  qed
qed simp

lemma bind_drivers_eq:
  "bind_drivers t m =
     (if \<exists>n\<in>set (nodes t). probe_fails (drivers m) n then None
      else Some (m\<lparr>instances := instances m @ List.map_filter (probed (drivers m)) (nodes t)\<rparr>))"
  by (simp add: bind_drivers_def bind_nodes_eq)

section \<open>The contract of the tree\<close>

text \<open>
  The firmware tables and the bus scan fill the tree through \<open>add_device\<close> alone. What they rely on:
  a device with no parent, or a parent that exists, can always be added; the tree stays well formed
  and every device found before keeps its data.
\<close>

locale device_sink =
  fixes add :: "nat option \<Rightarrow> 'dev \<Rightarrow> 't \<Rightarrow> (nat \<times> 't) option"
    and wf :: "'t \<Rightarrow> bool"
    and extends :: "'t \<Rightarrow> 't \<Rightarrow> bool"
    and count :: "'t \<Rightarrow> nat"
  assumes extends_refl: "extends t t"
    and extends_trans: "extends a b \<Longrightarrow> extends b c \<Longrightarrow> extends a c"
    and extends_count: "extends a b \<Longrightarrow> count a \<le> count b"
    and add_works: "wf t \<Longrightarrow> \<forall>p. parent = Some p \<longrightarrow> p < count t \<Longrightarrow>
      \<exists>t'. add parent d t = Some (count t, t') \<and> wf t' \<and> extends t t' \<and> count t' = Suc (count t)"
begin

text \<open>A state reached from a well-formed one by adding \<open>k\<close> devices.\<close>

definition grown :: "'t \<Rightarrow> nat \<Rightarrow> 't \<Rightarrow> bool" where
  "grown t k t' \<longleftrightarrow> wf t' \<and> extends t t' \<and> count t' = count t + k"

lemma grown_refl: "wf t \<Longrightarrow> grown t 0 t"
  by (simp add: grown_def extends_refl)

lemma grown_trans: "grown a j b \<Longrightarrow> grown b k c \<Longrightarrow> grown a (j + k) c"
  by (auto simp: grown_def intro: extends_trans)

lemma grown_add:
  assumes "grown t k t'" and "\<forall>p. parent = Some p \<longrightarrow> p < count t'"
  obtains t'' where "add parent d t' = Some (count t', t'')" and "grown t (Suc k) t''"
proof -
  from assms obtain t'' where "add parent d t' = Some (count t', t'')"
    and "wf t''" "extends t' t''" "count t'' = Suc (count t')"
    using add_works [of t' parent d] by (auto simp: grown_def)
  with assms(1) show thesis
    by (intro that [of t'']) (auto simp: grown_def intro: extends_trans)
qed

end

text \<open>\<open>add_device\<close> with the data of the device as one argument.\<close>

type_synonym device_data =
  "device_class \<times> rust_string list \<times> resource list \<times> device_init_priority"

definition add_data :: "nat option \<Rightarrow> device_data \<Rightarrow> device_tree \<Rightarrow> (nat \<times> device_tree) option" where
  "add_data parent = (\<lambda>(class, compatible, resources, priority) t.
     add_device parent class compatible resources priority t)"

definition dt_count :: "device_tree \<Rightarrow> nat" where
  "dt_count t = length (nodes t)"

interpretation dt: device_sink add_data dt_wf dt_extends dt_count
proof
  show "dt_extends t t" for t by simp
  show "dt_extends a b \<Longrightarrow> dt_extends b c \<Longrightarrow> dt_extends a c" for a b c
    by (rule dt_extends_trans)
  show "dt_extends a b \<Longrightarrow> dt_count a \<le> dt_count b" for a b
    by (simp add: dt_extends_def dt_count_def)
  show "\<exists>t'. add_data parent d t = Some (dt_count t, t') \<and> dt_wf t' \<and> dt_extends t t' \<and>
      dt_count t' = Suc (dt_count t)"
    if wf: "dt_wf t" and bound: "\<forall>p. parent = Some p \<longrightarrow> p < dt_count t" for t parent d
  proof -
    obtain c cs rs pr where d: "d = (c, cs, rs, pr)" by (cases d)
    have p: "\<forall>p. parent = Some p \<longrightarrow> p < length (nodes t)" using bound by (simp add: dt_count_def)
    obtain t' where "add_device parent c cs rs pr t = Some (length (nodes t), t')"
      and "dt_wf t'" and "dt_extends t t'" and "length (nodes t') = Suc (length (nodes t))"
      using add_device_ok [OF wf p] by metis
    then show ?thesis by (auto simp: add_data_def d dt_count_def)
  qed
qed

end
