(* ===== verification/Mars_Effects.thy ===== *)
theory Mars_Effects
  imports Mars_Prelude
begin

text \<open>
  Methods that take \<open>&mut self\<close> (or act on hardware) and return a \<open>Result\<close>: state transformers with
  errors. The state after an error is kept, because the caller may go on with it. \<open>None\<close> means that
  the call does not return: it panics, or it waits for something that never happens.
\<close>

type_synonym ('s, 'e, 'a) run = "'s \<Rightarrow> (('e + 'a) \<times> 's) option"

definition pret :: "'a \<Rightarrow> ('s, 'e, 'a) run" where
  "pret x p = Some (Inr x, p)"

definition pfail :: "'e \<Rightarrow> ('s, 'e, 'a) run" where
  "pfail e p = Some (Inl e, p)"

text \<open>The operator \<open>?\<close>.\<close>

definition pbind :: "('s, 'e, 'a) run \<Rightarrow> ('a \<Rightarrow> ('s, 'e, 'b) run) \<Rightarrow> ('s, 'e, 'b) run" where
  "pbind m f p =
     (case m p of
        None \<Rightarrow> None
      | Some (Inl e, p') \<Rightarrow> Some (Inl e, p')
      | Some (Inr x, p') \<Rightarrow> f x p')"

lemma pbind_cong [fundef_cong]:
  assumes "m p = m' p" and "\<And>x p'. m' p = Some (Inr x, p') \<Longrightarrow> f x p' = f' x p'"
  shows "pbind m f p = pbind m' f' p"
  using assms by (auto simp: pbind_def split: option.splits sum.splits)

text \<open>For evaluation: only the first method is rewritten.\<close>

lemma pbind_eval_cong: "m p = m' p \<Longrightarrow> pbind m f p = pbind m' f p"
  by (simp add: pbind_def)

text \<open>A method that succeeds.\<close>

lemma pbind_Inr_iff:
  "pbind m f p = Some (Inr y, p') \<longleftrightarrow> (\<exists>x p1. m p = Some (Inr x, p1) \<and> f x p1 = Some (Inr y, p'))"
  by (auto simp: pbind_def split: option.splits sum.splits)

lemma pbind_Inr:
  assumes "pbind m f g = Some (Inr x, g')"
  obtains y g1 where "m g = Some (Inr y, g1)" and "f y g1 = Some (Inr x, g')"
  using assms by (auto simp: pbind_def split: option.splits sum.splits)

text \<open>Statements in sequence, and a loop over a list.\<close>

abbreviation pthen :: "('s, 'e, unit) run \<Rightarrow> ('s, 'e, 'b) run \<Rightarrow> ('s, 'e, 'b) run" where
  "pthen m k \<equiv> pbind m (\<lambda>_. k)"

fun pfor :: "'a list \<Rightarrow> ('a \<Rightarrow> ('s, 'e, unit) run) \<Rightarrow> ('s, 'e, unit) run" where
  "pfor [] body = pret ()"
| "pfor (x # xs) body = pthen (body x) (pfor xs body)"

lemma pfor_idle: "(\<And>x. x \<in> set xs \<Longrightarrow> body x p = Some (Inr (), p)) \<Longrightarrow> pfor xs body p = Some (Inr (), p)"
  by (induction xs) (simp_all add: pret_def pbind_def)

lemma pfor_append: "pfor (xs @ ys) f m = pthen (pfor xs f) (pfor ys f) m"
proof (induction xs arbitrary: m)
  case (Cons x xs)
  then show ?case by (auto simp: pbind_def split: option.splits sum.splits)
qed (simp add: pret_def pbind_def)

text \<open>A loop that tests a condition of the state until it is false.\<close>

partial_function (option) spin_while :: "('s, 'e, bool) run \<Rightarrow> ('s, 'e, unit) run" where
  "spin_while c p =
     (case c p of
        None \<Rightarrow> None
      | Some (Inl e, p') \<Rightarrow> Some (Inl e, p')
      | Some (Inr b, p') \<Rightarrow> if b then spin_while c p' else Some (Inr (), p'))"

text \<open>What holds of every return of a method: \<open>Q\<close> relates the result and the state after it.\<close>

definition ensures :: "('s, 'e, 'a) run \<Rightarrow> 's \<Rightarrow> ('e + 'a \<Rightarrow> 's \<Rightarrow> bool) \<Rightarrow> bool" where
  "ensures m p Q \<longleftrightarrow> (\<forall>r p'. m p = Some (r, p') \<longrightarrow> Q r p')"

named_theorems ensures_intro \<open>rules for what methods ensure\<close>

lemma ensuresD: "ensures m p Q \<Longrightarrow> m p = Some (r, p') \<Longrightarrow> Q r p'"
  by (simp add: ensures_def)

lemma ensures_mono: "ensures m p P \<Longrightarrow> (\<And>r p'. P r p' \<Longrightarrow> Q r p') \<Longrightarrow> ensures m p Q"
  by (simp add: ensures_def)

lemma ensures_pret [ensures_intro]: "Q (Inr x) p \<Longrightarrow> ensures (pret x) p Q"
  by (simp add: ensures_def pret_def)

lemma ensures_pfail [ensures_intro]: "Q (Inl e) p \<Longrightarrow> ensures (pfail e) p Q"
  by (simp add: ensures_def pfail_def)

lemma ensures_pbind:
  assumes "ensures m p R" and "\<And>e p'. R (Inl e) p' \<Longrightarrow> Q (Inl e) p'"
    and "\<And>x p'. R (Inr x) p' \<Longrightarrow> ensures (f x) p' Q"
  shows "ensures (pbind m f) p Q"
  unfolding ensures_def
proof (intro allI impI)
  fix r p'
  assume run: "pbind m f p = Some (r, p')"
  then obtain r1 p1 where m: "m p = Some (r1, p1)" by (auto simp: pbind_def split: option.splits)
  show "Q r p'"
  proof (cases r1)
    case (Inl e)
    with run m show ?thesis using ensuresD [OF assms(1) m] assms(2) by (auto simp: pbind_def)
  next
    case (Inr x)
    with run m show ?thesis
      using ensuresD [OF assms(1) m] assms(3) by (auto simp: pbind_def ensures_def)
  qed
qed

text \<open>A relation of the states before and after that composes.\<close>

lemma ensures_pbind_rel [ensures_intro]:
  assumes "ensures m p (\<lambda>_. R p)" and "\<And>x p'. R p p' \<Longrightarrow> ensures (f x) p' (\<lambda>_. R p')"
    and "\<And>a b c. R a b \<Longrightarrow> R b c \<Longrightarrow> R a c"
  shows "ensures (pbind m f) p (\<lambda>_. R p)"
proof (rule ensures_pbind [OF assms(1)])
  fix x p'
  assume r: "R p p'"
  show "ensures (f x) p' (\<lambda>_. R p)"
    using assms(2) [OF r, of x] assms(3) [OF r] by (rule ensures_mono)
qed

lemma ensures_pfor:
  assumes "\<And>x p. x \<in> set xs \<Longrightarrow> ensures (body x) p (\<lambda>_. R p)"
    and "\<And>a. R a a" and "\<And>a b c. R a b \<Longrightarrow> R b c \<Longrightarrow> R a c"
  shows "ensures (pfor xs body) p (\<lambda>_. R p)"
  using assms(1)
proof (induction xs arbitrary: p)
  case Nil
  show ?case using assms(2) by (simp add: ensures_pret)
next
  case (Cons x xs)
  have "ensures (pthen (body x) (pfor xs body)) p (\<lambda>_. R p)"
    using Cons assms(3) by (intro ensures_pbind_rel) auto
  then show ?case by simp
qed

lemma ensures_spin_while:
  assumes "\<And>p. ensures c p (\<lambda>_. R p)" and "\<And>a. R a a" and "\<And>a b c. R a b \<Longrightarrow> R b c \<Longrightarrow> R a c"
  shows "ensures (spin_while c) p (\<lambda>_. R p)"
proof -
  have "c' = c \<longrightarrow> R p (snd x)" if "spin_while c' p = Some x" for c' p x
  proof (rule spin_while.raw_induct [where P = "\<lambda>c' p x. c' = c \<longrightarrow> R p (snd x)", OF _ that])
    fix rec c' p x
    assume IH: "\<And>c' p x. rec c' p = Some x \<Longrightarrow> c' = c \<longrightarrow> R p (snd x)"
      and run: "(case c' p of None \<Rightarrow> None | Some (Inl e, p') \<Rightarrow> Some (Inl e, p')
        | Some (Inr b, p') \<Rightarrow> if b then rec c' p' else Some (Inr (), p')) = Some x"
    show "c' = c \<longrightarrow> R p (snd x)"
    proof
      assume "c' = c"
      with run obtain r p1 where c: "c p = Some (r, p1)"
        and rest: "(case r of Inl e \<Rightarrow> Some (Inl e, p1)
          | Inr b \<Rightarrow> if b then rec c p1 else Some (Inr (), p1)) = Some x"
        by (auto split: option.splits prod.splits)
      have "R p p1" using assms(1) [of p] c by (simp add: ensures_def)
      moreover have "R p1 (snd x)"
        using rest IH [of c p1 x] assms(2) by (auto split: sum.splits if_splits)
      ultimately show "R p (snd x)" by (rule assms(3))
    qed
  qed
  then show ?thesis by (auto simp: ensures_def)
qed

end
