(* ===== verification/Aml_Parser.thy ===== *)
theory Aml_Parser
  imports Device_Tree Mars_Effects
begin

text \<open>
  The ACPI machine language parser of \<open>kernel/drivers/acpi-aml/src/parser.rs\<close> and the values and
  terms of \<open>ast.rs\<close>. A parser is a byte slice with a cursor. Its methods take \<open>&mut self\<close>, and a
  caller may go on with the parser after an error, so every method returns the parser next to the
  \<open>Result\<close>; \<open>None\<close> is a panic (a slice out of range). Lengths and cursors are natural numbers: a
  slice is shorter than \<open>isize::MAX\<close> and every length the parser adds is below \<open>2 ^ 28\<close>.
\<close>

section \<open>The parser as a state transformer\<close>

record aml_parser =
  p_bytes :: "u8 list"
  cursor :: nat

type_synonym 'a parse = "(aml_parser, string, 'a) run"

definition parser_new :: "u8 list \<Rightarrow> aml_parser" where
  "parser_new bytes = \<lparr>p_bytes = bytes, cursor = 0\<rparr>"

definition is_empty :: "aml_parser \<Rightarrow> bool" where
  "is_empty p \<longleftrightarrow> length (p_bytes p) \<le> cursor p"

section \<open>Bytes\<close>

definition read_u8 :: "u8 parse" where
  "read_u8 p =
     (if cursor p < length (p_bytes p)
      then Some (Inr (p_bytes p ! cursor p), p\<lparr>cursor := cursor p + 1\<rparr>)
      else Some (Inl ''buffer underflow while taking bytes'', p))"

definition peek_u8 :: "aml_parser \<Rightarrow> u8 option" where
  "peek_u8 p = (if cursor p < length (p_bytes p) then Some (p_bytes p ! cursor p) else None)"

definition take_bytes :: "nat \<Rightarrow> u8 list parse" where
  "take_bytes len p =
     (if cursor p + len \<le> length (p_bytes p)
      then Some (Inr (take len (drop (cursor p) (p_bytes p))), p\<lparr>cursor := cursor p + len\<rparr>)
      else Some (Inl ''buffer overflow while taking bytes'', p))"

definition remaining_bytes :: "aml_parser \<Rightarrow> u8 list option" where
  "remaining_bytes p =
     (if cursor p \<le> length (p_bytes p) then Some (drop (cursor p) (p_bytes p)) else None)"

text \<open>\<open>from_le_bytes\<close> of \<open>core::num\<close>.\<close>

fun from_le_bytes :: "u8 list \<Rightarrow> 'a::len word" where
  "from_le_bytes [] = 0"
| "from_le_bytes (b # bs) = ucast b OR push_bit 8 (from_le_bytes bs)"

definition read_u16_le :: "u16 parse" where
  "read_u16_le = pbind (take_bytes 2) (\<lambda>b. pret (from_le_bytes b))"

definition read_u32_le :: "u32 parse" where
  "read_u32_le = pbind (take_bytes 4) (\<lambda>b. pret (from_le_bytes b))"

definition read_u64_le :: "u64 parse" where
  "read_u64_le = pbind (take_bytes 8) (\<lambda>b. pret (from_le_bytes b))"

text \<open>\<open>&self.bytes[a..b]\<close>, which panics out of range.\<close>

definition slice :: "aml_parser \<Rightarrow> nat \<Rightarrow> nat \<Rightarrow> u8 list option" where
  "slice p a b =
     (if a \<le> b \<and> b \<le> length (p_bytes p) then Some (take (b - a) (drop a (p_bytes p))) else None)"

section \<open>Package lengths and names\<close>

fun pkg_loop :: "nat list \<Rightarrow> usize \<Rightarrow> usize parse" where
  "pkg_loop [] len = pret len"
| "pkg_loop (i # is) len =
     pbind read_u8 (\<lambda>b. pkg_loop is (len OR push_bit (4 + i * 8) (ucast b)))"

definition read_pkg_length :: "usize parse" where
  "read_pkg_length =
     pbind read_u8 (\<lambda>lead.
       let byte_count = unat (drop_bit 6 lead) in
       if byte_count = 0 then pret (ucast (lead AND 0x3F))
       else pkg_loop [0..<byte_count] (ucast (lead AND 0x0F)))"

text \<open>\<open>AmlNamePath\<close> is the raw bytes of the path.\<close>

type_synonym aml_name_path = "u8 list"

function skip_prefix :: "aml_parser \<Rightarrow> aml_parser" where
  "skip_prefix p =
     (case peek_u8 p of
        Some ch \<Rightarrow> if ch = 0x5C \<or> ch = 0x5E then skip_prefix (p\<lparr>cursor := cursor p + 1\<rparr>) else p
      | None \<Rightarrow> p)"
  by pat_completeness auto
termination
  by (relation "measure (\<lambda>p. length (p_bytes p) - cursor p)")
    (auto simp: peek_u8_def split: if_splits)

definition read_name_path :: "aml_name_path parse" where
  "read_name_path p =
     (let start = cursor p in
      pbind read_u8 (\<lambda>pre.
        pbind
          (if pre = 0x00 then pret ()
           else if pre = 0x2E then pbind (take_bytes 8) (\<lambda>_. pret ())
           else if pre = 0x2F then
             pbind read_u8 (\<lambda>count. pbind (take_bytes (unat count * 4)) (\<lambda>_. pret ()))
           else pbind (take_bytes 3) (\<lambda>_. pret ()))
          (\<lambda>_ p'.
            case slice p' start (cursor p') of
              Some raw \<Rightarrow> pret raw p'
            | None \<Rightarrow> pfail ''NamePath slice out of bounds'' p'))
        (skip_prefix p))"

section \<open>Values\<close>

datatype aml_value =
  AmlZero
| AmlOne
| AmlOnes
| AmlInteger u64
| AmlString rust_string
| AmlNamePath aml_name_path
| AmlBuffer "u8 list"
| AmlPackage "aml_value list"

text \<open>\<open>core::str::from_utf8\<close> accepts exactly the well-formed sequences of RFC 3629.\<close>

definition cont_byte :: "u8 \<Rightarrow> bool" where
  "cont_byte b \<longleftrightarrow> 0x80 \<le> b \<and> b \<le> 0xBF"

fun utf8_valid :: "u8 list \<Rightarrow> bool" where
  "utf8_valid [] = True"
| "utf8_valid (a # as) =
     (if a \<le> 0x7F then utf8_valid as
      else case as of
        [] \<Rightarrow> False
      | b # bs \<Rightarrow>
          if 0xC2 \<le> a \<and> a \<le> 0xDF then cont_byte b \<and> utf8_valid bs
          else case bs of
            [] \<Rightarrow> False
          | c # cs \<Rightarrow>
              if 0xE0 \<le> a \<and> a \<le> 0xEF
              then cont_byte b \<and> (a = 0xE0 \<longrightarrow> 0xA0 \<le> b) \<and> (a = 0xED \<longrightarrow> b \<le> 0x9F) \<and>
                   cont_byte c \<and> utf8_valid cs
              else case cs of
                [] \<Rightarrow> False
              | d # ds \<Rightarrow>
                  0xF0 \<le> a \<and> a \<le> 0xF4 \<and> cont_byte b \<and> (a = 0xF0 \<longrightarrow> 0x90 \<le> b) \<and>
                  (a = 0xF4 \<longrightarrow> b \<le> 0x8F) \<and> cont_byte c \<and> cont_byte d \<and> utf8_valid ds)"

lemma read_u8_cursor:
  "read_u8 p = Some (Inr b, p') \<Longrightarrow>
   p_bytes p' = p_bytes p \<and> cursor p' = cursor p + 1 \<and> cursor p < length (p_bytes p)"
  by (auto simp: read_u8_def split: if_splits)

text \<open>\<open>while self.read_u8()? != 0x00 {}\<close>\<close>

function scan_zero :: "unit parse" where
  "scan_zero p =
     pbind read_u8 (\<lambda>b p'. if b \<noteq> 0 then scan_zero p' else pret () p') p"
  by pat_completeness auto
termination
  by (relation "measure (\<lambda>p. length (p_bytes p) - cursor p)") (auto dest!: read_u8_cursor)

definition parse_string :: "aml_value parse" where
  "parse_string p =
     (let start = cursor p in
      pbind scan_zero (\<lambda>_ p'.
        if cursor p' = 0 then None
        else case slice p' start (cursor p' - 1) of
          None \<Rightarrow> None
        | Some s \<Rightarrow>
            if utf8_valid s then pret (AmlString s) p'
            else pfail ''invalid utf8 in string prefix'' p') p)"

text \<open>
  The bytes of a package after its header: \<open>pkg_len\<close> counts from \<open>pkg_start\<close>, the position of the
  length itself.
\<close>

definition pkg_body :: "string \<Rightarrow> nat \<Rightarrow> usize \<Rightarrow> u8 list parse" where
  "pkg_body err pkg_start pkg_len p =
     (let consumed_bytes = cursor p - pkg_start in
      if unat pkg_len < consumed_bytes then pfail err p
      else take_bytes (unat pkg_len - consumed_bytes) p)"

text \<open>
  A package (opcodes \<open>0x12\<close> and \<open>0x13\<close>) is returned as a buffer of its undecoded elements; any other
  opcode is returned as the integer that it is.
\<close>

definition name_lead :: "u8 \<Rightarrow> bool" where
  "name_lead op \<longleftrightarrow>
     op = 0x5C \<or> op = 0x5E \<or> op = 0x2E \<or> op = 0x2F \<or> (0x41 \<le> op \<and> op \<le> 0x5A) \<or> op = 0x5F"

lemma pkg_loop_cursor:
  "pkg_loop is len p = Some (r, p') \<Longrightarrow>
   p_bytes p' = p_bytes p \<and> cursor p \<le> cursor p' \<and> (cursor p \<le> length (p_bytes p) \<longrightarrow> cursor p' \<le> length (p_bytes p))"
proof (induction "is" arbitrary: len p)
  case (Cons i "is")
  show ?case
  proof (cases "cursor p < length (p_bytes p)")
    case True
    with Cons.prems have "pkg_loop is (len OR push_bit (4 + i * 8) (ucast (p_bytes p ! cursor p)))
        (p\<lparr>cursor := cursor p + 1\<rparr>) = Some (r, p')"
      by (simp add: pbind_def read_u8_def)
    from Cons.IH [OF this] True show ?thesis by auto
  next
    case False
    with Cons.prems show ?thesis by (auto simp: pbind_def read_u8_def)
  qed
qed (auto simp: pret_def)

lemma read_pkg_length_cursor:
  assumes "read_pkg_length p = Some (r, p')"
  shows "p_bytes p' = p_bytes p \<and> cursor p \<le> cursor p' \<and> (cursor p \<le> length (p_bytes p) \<longrightarrow> cursor p' \<le> length (p_bytes p))"
  using assms
  by (auto simp: read_pkg_length_def pbind_def read_u8_def pret_def Let_def split: if_splits dest!: pkg_loop_cursor)

function parse_data_object :: "aml_value parse" where
  "parse_data_object p =
     pbind read_u8 (\<lambda>op p1.
       if op = 0x00 then pret AmlZero p1
       else if op = 0x01 then pret AmlOne p1
       else if op = 0xFF then pret AmlOnes p1
       else if op = 0x0A then pbind read_u8 (\<lambda>v. pret (AmlInteger (ucast v))) p1
       else if op = 0x0B then pbind read_u16_le (\<lambda>v. pret (AmlInteger (ucast v))) p1
       else if op = 0x0C then pbind read_u32_le (\<lambda>v. pret (AmlInteger (ucast v))) p1
       else if op = 0x0E then pbind read_u64_le (\<lambda>v. pret (AmlInteger v)) p1
       else if op = 0x0D then parse_string p1
       else if op = 0x11 then
         pbind read_pkg_length (\<lambda>pkg_len p2.
           pbind parse_data_object (\<lambda>_ p3.
             pbind (pkg_body ''BufferOp PkgLength underflowed'' (cursor p1) pkg_len)
               (\<lambda>data. pret (AmlBuffer data)) p3) p2) p1
       else if op = 0x12 then
         pbind read_pkg_length (\<lambda>pkg_len p2.
           pbind read_u8 (\<lambda>_ p3.
             pbind (pkg_body ''PackageOp PkgLength underflowed'' (cursor p1) pkg_len)
               (\<lambda>data. pret (AmlBuffer data)) p3) p2) p1
       else if op = 0x13 then
         pbind read_pkg_length (\<lambda>pkg_len p2.
           pbind parse_data_object (\<lambda>_ p3.
             pbind (pkg_body ''PackageOp PkgLength underflowed'' (cursor p1) pkg_len)
               (\<lambda>data. pret (AmlBuffer data)) p3) p2) p1
       else if name_lead op then
         if cursor p1 = 0 then None
         else pbind read_name_path (\<lambda>n. pret (AmlNamePath n)) (p1\<lparr>cursor := cursor p1 - 1\<rparr>)
       else if op = 0x5B then pbind read_u8 (\<lambda>_. pret (AmlInteger 0x5B)) p1
       else pret (AmlInteger (ucast op)) p1) p"
  by pat_completeness auto
termination
  by (relation "measure (\<lambda>p. length (p_bytes p) - cursor p)")
    (auto dest!: read_u8_cursor read_pkg_length_cursor)

section \<open>Terms\<close>

datatype aml_term =
  AmlScope aml_name_path aml_parser
| AmlDevice aml_name_path aml_parser
| AmlName aml_name_path aml_value
| AmlMethod aml_name_path u8 "u8 list"
| AmlOpRegion aml_name_path
| AmlField
| UnsupportedOpcode u8

definition parse_ext_op :: "u8 \<Rightarrow> aml_term option parse" where
  "parse_ext_op ext_opc p =
     (if ext_opc = 0x80 then
        pbind read_name_path (\<lambda>name. pbind read_u8 (\<lambda>_. pbind parse_data_object (\<lambda>_.
          pbind parse_data_object (\<lambda>_. pret (Some (AmlOpRegion name)))))) p
      else if ext_opc = 0x81 then
        pbind read_pkg_length (\<lambda>pkg_len. pbind read_name_path (\<lambda>_. pbind read_u8 (\<lambda>_.
          pbind (pkg_body ''FieldOp PkgLength underflowed'' (cursor p) pkg_len)
            (\<lambda>_. pret (Some AmlField))))) p
      else if ext_opc = 0x82 then
        pbind read_pkg_length (\<lambda>pkg_len. pbind read_name_path (\<lambda>name.
          pbind (pkg_body ''DeviceOp PkgLength underflowed'' (cursor p) pkg_len)
            (\<lambda>body. pret (Some (AmlDevice name (parser_new body)))))) p
      else pret (Some (UnsupportedOpcode ext_opc)) p)"

definition parse_op :: "u8 \<Rightarrow> aml_term option parse" where
  "parse_op opcode p =
     (if opcode = 0x10 then
        pbind read_pkg_length (\<lambda>pkg_len. pbind read_name_path (\<lambda>name.
          pbind (pkg_body ''ScopeOp PkgLength underflowed'' (cursor p) pkg_len)
            (\<lambda>body. pret (Some (AmlScope name (parser_new body)))))) p
      else if opcode = 0x08 then
        pbind read_name_path (\<lambda>name. pbind parse_data_object (\<lambda>value.
          pret (Some (AmlName name value)))) p
      else if opcode = 0x14 then
        pbind read_pkg_length (\<lambda>pkg_len. pbind read_name_path (\<lambda>name. pbind read_u8 (\<lambda>flags.
          pbind (pkg_body ''MethodOp PkgLength underflowed'' (cursor p) pkg_len)
            (\<lambda>code. pret (Some (AmlMethod name flags code)))))) p
      else if opcode = 0x5B then pbind read_u8 parse_ext_op p
      else pret (Some (UnsupportedOpcode opcode)) p)"

definition parse_next :: "aml_term option parse" where
  "parse_next p = (if is_empty p then pret None p else pbind read_u8 parse_op p)"

declare skip_prefix.simps [simp del] scan_zero.simps [simp del] parse_data_object.simps [simp del]

section \<open>Every method stays inside the slice\<close>

text \<open>
  A method called inside the slice does not panic, and whether it succeeds or fails it leaves the
  bytes alone and moves the cursor forward at most to the end.
\<close>

definition p_ok :: "aml_parser \<Rightarrow> bool" where
  "p_ok p \<longleftrightarrow> cursor p \<le> length (p_bytes p)"

definition advances :: "aml_parser \<Rightarrow> aml_parser \<Rightarrow> bool" where
  "advances p p' \<longleftrightarrow> p_bytes p' = p_bytes p \<and> cursor p \<le> cursor p' \<and> cursor p' \<le> length (p_bytes p)"

definition runs :: "aml_parser \<Rightarrow> ((string + 'a) \<times> aml_parser) option \<Rightarrow> bool" where
  "runs p r \<longleftrightarrow> (\<exists>x p'. r = Some (x, p') \<and> advances p p')"

named_theorems parse_runs \<open>methods of the parser that stay inside the slice\<close>

lemma advances_refl [simp]: "advances p p \<longleftrightarrow> p_ok p"
  by (simp add: advances_def p_ok_def)

lemma advances_ok: "advances p p' \<Longrightarrow> p_ok p'"
  by (simp add: advances_def p_ok_def)

lemma advances_trans: "advances a b \<Longrightarrow> advances b c \<Longrightarrow> advances a c"
  by (simp add: advances_def)

lemma runs_advances: "runs p r \<Longrightarrow> r = Some (x, p') \<Longrightarrow> advances p p'"
  by (simp add: runs_def)

lemma runs_pbind [parse_runs]:
  assumes m: "runs p (m p)"
    and f: "\<And>x p'. m p = Some (Inr x, p') \<Longrightarrow> advances p p' \<Longrightarrow> p_ok p' \<Longrightarrow> runs p' (f x p')"
  shows "runs p (pbind m f p)"
proof -
  obtain x p' where m': "m p = Some (x, p')" "advances p p'" using m by (auto simp: runs_def)
  show ?thesis
  proof (cases x)
    case (Inl e)
    with m' show ?thesis by (simp add: runs_def pbind_def)
  next
    case (Inr y)
    with m' f advances_ok have "runs p' (f y p')" by blast
    with m' Inr show ?thesis by (auto simp: runs_def pbind_def intro: advances_trans)
  qed
qed

lemma runs_pret [parse_runs]: "p_ok p \<Longrightarrow> runs p (pret x p)"
  by (simp add: runs_def pret_def)

lemma runs_pfail [parse_runs]: "p_ok p \<Longrightarrow> runs p (pfail e p)"
  by (simp add: runs_def pfail_def)

lemma runs_read_u8 [parse_runs]: "p_ok p \<Longrightarrow> runs p (read_u8 p)"
  by (simp add: runs_def read_u8_def advances_def p_ok_def)

lemma runs_take_bytes [parse_runs]: "p_ok p \<Longrightarrow> runs p (take_bytes n p)"
  by (simp add: runs_def take_bytes_def advances_def p_ok_def)

lemma runs_read_le [parse_runs]:
  assumes "p_ok p"
  shows "runs p (read_u16_le p)" "runs p (read_u32_le p)" "runs p (read_u64_le p)"
  using assms by (auto simp: read_u16_le_def read_u32_le_def read_u64_le_def intro!: parse_runs)

lemma runs_pkg_body [parse_runs]: "p_ok p \<Longrightarrow> runs p (pkg_body e st len p)"
  by (simp add: pkg_body_def Let_def parse_runs)

lemma runs_pkg_loop [parse_runs]: "p_ok p \<Longrightarrow> runs p (pkg_loop is len p)"
  by (induction "is" arbitrary: len p) (simp_all add: parse_runs)

lemma runs_read_pkg_length [parse_runs]: "p_ok p \<Longrightarrow> runs p (read_pkg_length p)"
  by (auto simp: read_pkg_length_def Let_def intro!: parse_runs)

lemma skip_prefix_advances: "p_ok p \<Longrightarrow> advances p (skip_prefix p)"
proof (induction p rule: skip_prefix.induct)
  case (1 p)
  show ?case
  proof (cases "\<exists>ch. peek_u8 p = Some ch \<and> (ch = 0x5C \<or> ch = 0x5E)")
    case True
    then obtain ch where ch: "peek_u8 p = Some ch" "ch = 0x5C \<or> ch = 0x5E" by blast
    then have step: "advances p (p\<lparr>cursor := cursor p + 1\<rparr>)"
      by (auto simp: peek_u8_def advances_def split: if_splits)
    have "advances (p\<lparr>cursor := cursor p + 1\<rparr>) (skip_prefix (p\<lparr>cursor := cursor p + 1\<rparr>))"
      using 1(1) [OF ch] advances_ok [OF step] by simp
    with step advances_trans have "advances p (skip_prefix (p\<lparr>cursor := cursor p + 1\<rparr>))" by blast
    moreover have "skip_prefix p = skip_prefix (p\<lparr>cursor := cursor p + 1\<rparr>)"
      by (subst skip_prefix.simps) (use ch in auto)
    ultimately show ?thesis by simp
  next
    case False
    then have "skip_prefix p = p" by (subst skip_prefix.simps) (auto split: option.splits)
    with 1(2) show ?thesis by simp
  qed
qed

lemma runs_from: "advances p q \<Longrightarrow> runs q r \<Longrightarrow> runs p r"
  unfolding runs_def using advances_trans by blast

text \<open>The part of \<open>read_name_path\<close> after the prefix characters.\<close>

definition name_tail :: "nat \<Rightarrow> u8 \<Rightarrow> aml_name_path parse" where
  "name_tail start pre =
     pbind
       (if pre = 0x00 then pret ()
        else if pre = 0x2E then pbind (take_bytes 8) (\<lambda>_. pret ())
        else if pre = 0x2F then
          pbind read_u8 (\<lambda>count. pbind (take_bytes (unat count * 4)) (\<lambda>_. pret ()))
        else pbind (take_bytes 3) (\<lambda>_. pret ()))
       (\<lambda>_ p'.
         case slice p' start (cursor p') of
           Some raw \<Rightarrow> pret raw p'
         | None \<Rightarrow> pfail ''NamePath slice out of bounds'' p')"

lemma read_name_path_eq: "read_name_path p = pbind read_u8 (name_tail (cursor p)) (skip_prefix p)"
  by (simp add: read_name_path_def name_tail_def [abs_def] Let_def)

lemma runs_name_tail: "p_ok p \<Longrightarrow> runs p (name_tail st pre p)"
  unfolding name_tail_def by (intro runs_pbind) (auto simp: parse_runs split: option.splits intro!: parse_runs)

lemma runs_read_name_path [parse_runs]:
  assumes "p_ok p"
  shows "runs p (read_name_path p)"
proof -
  have adv: "advances p (skip_prefix p)" by (rule skip_prefix_advances [OF assms])
  have "runs (skip_prefix p) (pbind read_u8 (name_tail (cursor p)) (skip_prefix p))"
    by (intro runs_pbind runs_read_u8 runs_name_tail advances_ok [OF adv])
  then show ?thesis unfolding read_name_path_eq by (rule runs_from [OF adv])
qed

text \<open>A name takes at least one byte, also when it is malformed.\<close>

lemma read_name_path_forward:
  assumes "cursor p < length (p_bytes p)"
  shows "runs (p\<lparr>cursor := cursor p + 1\<rparr>) (read_name_path p)"
proof -
  let ?q = "p\<lparr>cursor := cursor p + 1\<rparr>"
  have q: "p_ok ?q" using assms by (simp add: p_ok_def)
  show ?thesis
  proof (cases "p_bytes p ! cursor p = 0x5C \<or> p_bytes p ! cursor p = 0x5E")
    case True
    then have "skip_prefix p = skip_prefix ?q"
      using assms by (subst skip_prefix.simps) (auto simp: peek_u8_def)
    with skip_prefix_advances [OF q] have adv: "advances ?q (skip_prefix p)" by simp
    have "runs (skip_prefix p) (pbind read_u8 (name_tail (cursor p)) (skip_prefix p))"
      by (intro runs_pbind runs_read_u8 runs_name_tail advances_ok [OF adv])
    then show ?thesis unfolding read_name_path_eq by (rule runs_from [OF adv])
  next
    case False
    then have "skip_prefix p = p"
      using assms by (subst skip_prefix.simps) (auto simp: peek_u8_def)
    with assms have "read_name_path p = name_tail (cursor p) (p_bytes p ! cursor p) ?q"
      by (simp add: read_name_path_eq pbind_def read_u8_def)
    with runs_name_tail [OF q] show ?thesis by simp
  qed
qed

lemma runs_scan_zero [parse_runs]: "p_ok p \<Longrightarrow> runs p (scan_zero p)"
proof (induction p rule: scan_zero.induct)
  case (1 p)
  show ?case
    by (subst scan_zero.simps) (use 1 in \<open>auto intro!: parse_runs\<close>)
qed

lemma scan_zero_forward: "scan_zero p = Some (Inr x, p') \<Longrightarrow> p_ok p \<Longrightarrow> cursor p < cursor p'"
proof (induction p rule: scan_zero.induct)
  case (1 p)
  then obtain b q where b: "read_u8 p = Some (Inr b, q)"
    and r: "(if b \<noteq> 0 then scan_zero q else pret () q) = Some (Inr x, p')"
    by (subst (asm) scan_zero.simps) (auto simp: pbind_def split: option.splits sum.splits)
  have q: "p_ok q" "cursor q = cursor p + 1"
    using read_u8_cursor [OF b] by (auto simp: p_ok_def)
  show ?case
  proof (cases "b = 0")
    case True
    then show ?thesis using r q by (simp add: pret_def)
  next
    case False
    then show ?thesis using 1(1) [OF b False] r q by simp
  qed
qed

lemma runs_parse_string [parse_runs]:
  assumes "p_ok p"
  shows "runs p (parse_string p)"
  unfolding parse_string_def Let_def
proof (rule runs_pbind)
  fix x p' assume z: "scan_zero p = Some (Inr x, p')" and adv: "advances p p'" and ok: "p_ok p'"
  have "cursor p < cursor p'" by (rule scan_zero_forward [OF z assms])
  moreover from this adv have "slice p' (cursor p) (cursor p' - 1) \<noteq> None"
    by (auto simp: slice_def advances_def)
  ultimately show "runs p' (if cursor p' = 0 then None
      else case slice p' (cursor p) (cursor p' - 1) of
        None \<Rightarrow> None
      | Some s \<Rightarrow> if utf8_valid s then pret (AmlString s) p'
          else pfail ''invalid utf8 in string prefix'' p')"
    using ok by (auto simp: parse_runs)
qed (simp add: assms parse_runs)

lemma runs_parse_data_object [parse_runs]: "p_ok p \<Longrightarrow> runs p (parse_data_object p)"
proof (induction p rule: measure_induct_rule [of "\<lambda>p. length (p_bytes p) - cursor p"])
  case (less p)
  show ?case
  proof (subst parse_data_object.simps, rule runs_pbind, goal_cases)
    case 1
    show ?case using less.prems by (rule runs_read_u8)
  next
    case (2 op p1)
    have p1: "p1 = p\<lparr>cursor := cursor p + 1\<rparr>" and lt: "cursor p < length (p_bytes p)"
      using 2(1) by (auto simp: read_u8_def split: if_splits)
    from p1 have rewound: "p1\<lparr>cursor := cursor p1 - 1\<rparr> = p" "cursor p1 \<noteq> 0" by simp_all
    have "runs p1 (read_name_path p)" using read_name_path_forward [OF lt] p1 by simp
    then have name: "runs p1 (pbind read_name_path (\<lambda>n. pret (AmlNamePath n)) p)"
      by (auto simp: runs_def pbind_def pret_def split: sum.splits)
    have IH: "advances p1 q \<Longrightarrow> runs q (parse_data_object q)" for q
      using less.IH [of q] lt p1 by (auto simp: advances_def p_ok_def)
    show ?case
      unfolding rewound(1) using 2(3) rewound(2) name by (auto intro!: parse_runs IH)
  qed
qed

lemma runs_parse_op [parse_runs]: "p_ok p \<Longrightarrow> runs p (parse_op op p)"
proof -
  have ext: "p_ok p \<Longrightarrow> runs p (parse_ext_op op p)" for p op
    unfolding parse_ext_op_def by (auto intro!: parse_runs)
  show "p_ok p \<Longrightarrow> runs p (parse_op op p)"
    unfolding parse_op_def by (auto intro!: parse_runs ext)
qed

lemma parse_next_runs:
  assumes "p_ok p" and "\<not> is_empty p"
  shows "runs (p\<lparr>cursor := cursor p + 1\<rparr>) (parse_next p)"
proof -
  have lt: "cursor p < length (p_bytes p)" using assms(2) by (simp add: is_empty_def)
  then have "parse_next p = parse_op (p_bytes p ! cursor p) (p\<lparr>cursor := cursor p + 1\<rparr>)"
    using assms(2) by (simp add: parse_next_def pbind_def read_u8_def)
  with lt show ?thesis by (simp add: runs_parse_op p_ok_def)
qed

lemma parse_next_empty: "is_empty p \<Longrightarrow> parse_next p = Some (Inr None, p)"
  by (simp add: parse_next_def pret_def)

section \<open>The contents of a term lie inside it\<close>

lemma pret_Inr_iff [simp]: "pret x p = Some (r, p') \<longleftrightarrow> r = Inr x \<and> p' = p"
  by (auto simp: pret_def)

lemma pkg_body_Inr:
  assumes "pkg_body e st len p = Some (Inr body, p')"
  shows "body = take (length body) (drop (cursor p) (p_bytes p))"
    and "cursor p' = cursor p + length body"
  using assms by (auto simp: pkg_body_def Let_def take_bytes_def pfail_def split: if_splits)

text \<open>
  The parser of a scope or device starts at its first byte and its bytes are the last bytes that
  \<open>parse_next\<close> took, at least one byte behind the place where it started.
\<close>

fun term_contents :: "aml_term \<Rightarrow> aml_parser option" where
  "term_contents (AmlScope _ c) = Some c"
| "term_contents (AmlDevice _ c) = Some c"
| "term_contents _ = None"

definition inside :: "aml_parser \<Rightarrow> aml_parser \<Rightarrow> aml_parser \<Rightarrow> bool" where
  "inside p p' c \<longleftrightarrow> cursor c = 0 \<and>
     (\<exists>k. cursor p < k \<and> k + length (p_bytes c) = cursor p' \<and>
          p_bytes c = take (length (p_bytes c)) (drop k (p_bytes p)))"

lemma body_inside:
  assumes "advances q p1" and "cursor p < cursor q" and "p_bytes q = p_bytes p"
    and "pkg_body e st len p1 = Some (Inr body, p')"
  shows "inside p p' (parser_new body)"
  using assms pkg_body_Inr [OF assms(4)]
  by (auto simp: inside_def parser_new_def advances_def intro!: exI [of _ "cursor p1"])

lemma pkg_header_body_inside:
  assumes "p_ok q" and "cursor p < cursor q" and "p_bytes q = p_bytes p"
    and "read_pkg_length q = Some (Inr len, p1)" and "read_name_path p1 = Some (Inr n, p2)"
    and "pkg_body e st len p2 = Some (Inr body, p')"
  shows "inside p p' (parser_new body)"
proof (rule body_inside)
  have "advances q p1" by (rule runs_advances [OF runs_read_pkg_length [OF assms(1)] assms(4)])
  moreover have "advances p1 p2"
    by (rule runs_advances [OF runs_read_name_path [OF advances_ok [OF calculation]] assms(5)])
  ultimately show "advances q p2" by (rule advances_trans)
qed (use assms in simp_all)

lemma parse_op_inside:
  assumes "parse_op op q = Some (Inr (Some t), p')" and "term_contents t = Some c"
    and "p_ok q" and "cursor p < cursor q" and "p_bytes q = p_bytes p"
  shows "inside p p' c"
proof -
  have ext: "inside p p' c" if "read_u8 q = Some (Inr x, q')" "parse_ext_op x q' = Some (Inr (Some t), p')"
    for x q'
  proof -
    have "p_ok q'" "cursor p < cursor q'" "p_bytes q' = p_bytes p"
      using read_u8_cursor [OF that(1)] assms(3-5) by (auto simp: p_ok_def)
    then show ?thesis
      using that(2) assms(2)
      by (auto simp: parse_ext_op_def pbind_Inr_iff split: if_splits intro: pkg_header_body_inside)
  qed
  show ?thesis
    using assms
    by (auto simp: parse_op_def pbind_Inr_iff split: if_splits intro: pkg_header_body_inside ext)
qed

lemma parse_next_inside:
  assumes "parse_next p = Some (Inr (Some t), p')" and "term_contents t = Some c"
  shows "inside p p' c"
proof -
  obtain op q where "read_u8 p = Some (Inr op, q)" and op: "parse_op op q = Some (Inr (Some t), p')"
    using assms(1) by (auto simp: parse_next_def pbind_Inr_iff split: if_splits)
  then have "p_ok q" "cursor p < cursor q" "p_bytes q = p_bytes p"
    using read_u8_cursor by (fastforce simp: p_ok_def)+
  then show ?thesis by (rule parse_op_inside [OF op assms(2)])
qed

section \<open>Package lengths\<close>

text \<open>
  The encoding of package lengths in the ACPI specification: up to 63 in one byte; otherwise the
  low four bits of the first byte and one to three further bytes, least significant first, with
  the number of further bytes in the top two bits of the first.
\<close>

definition pkg_length_enc :: "usize \<Rightarrow> u8 list" where
  "pkg_length_enc n =
     (if n < 2 ^ 6 then [ucast n]
      else
        let k = (if n < 2 ^ 12 then 1 else if n < 2 ^ 20 then 2 else 3) in
        (ucast (n AND 0x0F) OR push_bit 6 (of_nat k)) #
        map (\<lambda>i. ucast (drop_bit (4 + i * 8) n)) [0..<k])"

text \<open>The bytes of \<open>bs\<close> are next.\<close>

definition at_bytes :: "aml_parser \<Rightarrow> u8 list \<Rightarrow> bool" where
  "at_bytes p bs \<longleftrightarrow> cursor p + length bs \<le> length (p_bytes p) \<and> take (length bs) (drop (cursor p) (p_bytes p)) = bs"

lemma at_bytes_Cons:
  assumes "at_bytes p (b # bs)"
  shows "read_u8 p = Some (Inr b, p\<lparr>cursor := cursor p + 1\<rparr>)" and "at_bytes (p\<lparr>cursor := cursor p + 1\<rparr>) bs"
proof -
  have lt: "cursor p < length (p_bytes p)" using assms by (simp add: at_bytes_def)
  then have "drop (cursor p) (p_bytes p) = p_bytes p ! cursor p # drop (cursor p + 1) (p_bytes p)"
    by (simp add: Cons_nth_drop_Suc)
  with assms have "p_bytes p ! cursor p = b" "take (length bs) (drop (cursor p + 1) (p_bytes p)) = bs"
    by (simp_all add: at_bytes_def)
  with assms lt show "read_u8 p = Some (Inr b, p\<lparr>cursor := cursor p + 1\<rparr>)"
    and "at_bytes (p\<lparr>cursor := cursor p + 1\<rparr>) bs"
    by (simp_all add: read_u8_def at_bytes_def)
qed

lemma pkg_loop_at:
  "at_bytes p (map f is) \<Longrightarrow>
   pkg_loop is len p =
     Some (Inr (fold (\<lambda>i len. len OR push_bit (4 + i * 8) (ucast (f i))) is len), p\<lparr>cursor := cursor p + length is\<rparr>)"
proof (induction "is" arbitrary: len p)
  case (Cons i "is")
  from Cons.prems have "at_bytes p (f i # map f is)" by simp
  note at = at_bytes_Cons [OF this]
  show ?case using Cons.IH [OF at(2)] by (simp add: pbind_def at(1))
qed (simp add: pret_def)

lemma pkg_bits_bit:
  fixes w :: usize
  shows "bit (fold (\<lambda>i len. len OR push_bit (4 + i * 8) (ucast (ucast (drop_bit (4 + i * 8) n :: usize) :: u8))) [0..<k] w)
     m \<longleftrightarrow> bit w m \<or> 4 \<le> m \<and> m < 4 + 8 * k \<and> bit n m"
proof (induction k)
  case (Suc k)
  have "bit (push_bit (4 + k * 8) (ucast (ucast (drop_bit (4 + k * 8) n) :: u8)) :: usize) m \<longleftrightarrow>
      4 + 8 * k \<le> m \<and> m < 4 + 8 * Suc k \<and> bit n m"
    by (auto simp: bit_simps not_less dest: bit_imp_le_length)
  with Suc show ?case by (auto simp: bit_simps)
qed auto

lemma pkg_length_long:
  fixes n :: usize
  assumes "n < 2 ^ (4 + 8 * k)" and "k < 4"
  shows "fold (\<lambda>i len. len OR push_bit (4 + i * 8) (ucast (ucast (drop_bit (4 + i * 8) n) :: u8))) [0..<k]
     (ucast ((ucast (n AND 0x0F) OR push_bit 6 (of_nat k :: u8)) AND 0x0F)) = n" (is "?l = n")
proof (rule bit_word_eqI)
  have f: "(0x0F :: 'a::len word) = mask 4" by (simp add: mask_eq_exp_minus_1)
  fix m assume "m < LENGTH(64)"
  have "bit (ucast ((ucast (n AND 0x0F) OR push_bit 6 (of_nat k :: u8)) AND 0x0F) :: usize) m \<longleftrightarrow> m < 4 \<and> bit n m"
    unfolding f by (auto simp: bit_simps)
  moreover have "bit n m \<Longrightarrow> m < 4 + 8 * k" using lt_pow2_bit [OF assms(1), of m] by linarith
  ultimately show "bit ?l m = bit n m"
    unfolding pkg_bits_bit by auto
qed

lemma pkg_lead:
  assumes "k < 4" and "0 < k"
  shows "unat (drop_bit 6 (ucast ((n :: usize) AND 0x0F) OR push_bit 6 (of_nat k :: u8))) = k"
proof -
  have f: "(0x0F :: usize) = mask 4" by (simp add: mask_eq_exp_minus_1)
  have "drop_bit 6 (ucast (n AND 0x0F) OR push_bit 6 (of_nat k :: u8)) = (of_nat k :: u8)"
  proof (rule bit_word_eqI)
    fix m assume "m < LENGTH(8)"
    have "k = 1 \<or> k = 2 \<or> k = 3" using assms by linarith
    then have "(of_nat k :: u8) < 2 ^ 2" by auto
    then have "bit (of_nat k :: u8) m \<Longrightarrow> m < 2" by (rule bit_lt_pow2)
    then show "bit (drop_bit 6 (ucast (n AND 0x0F) OR push_bit 6 (of_nat k :: u8))) m = bit (of_nat k :: u8) m"
      unfolding f using \<open>m < LENGTH(8)\<close> by (auto simp: bit_simps)
  qed
  then show ?thesis using assms by (simp add: unat_of_nat)
qed

lemma read_pkg_length_enc:
  assumes at: "at_bytes p (pkg_length_enc n)" and n: "n < 2 ^ 28"
  shows "read_pkg_length p = Some (Inr n, p\<lparr>cursor := cursor p + length (pkg_length_enc n)\<rparr>)"
proof (cases "n < 2 ^ 6")
  case True
  have f: "(0x3F :: u8) = mask 6" by (simp add: mask_eq_exp_minus_1)
  have bits: "bit n m \<Longrightarrow> m < 6" for m using lt_pow2_bit [OF True, of m] by linarith
  have low: "drop_bit 6 (ucast n :: u8) = 0" "ucast ((ucast n :: u8) AND 0x3F) = n"
    unfolding f by (auto simp: bit_eq_iff bit_simps dest: bits)
  from at True have "at_bytes p [ucast n]" by (simp add: pkg_length_enc_def)
  note r = at_bytes_Cons(1) [OF this]
  show ?thesis
    using True low by (simp add: read_pkg_length_def pbind_def r pret_def pkg_length_enc_def)
next
  case False
  define k :: nat where "k = (if n < 2 ^ 12 then 1 else if n < 2 ^ 20 then 2 else 3)"
  let ?lead = "ucast (n AND 0x0F) OR push_bit 6 (of_nat k) :: u8"
  let ?f = "\<lambda>i. ucast (drop_bit (4 + i * 8) n) :: u8"
  have k: "k < 4" "0 < k" "n < 2 ^ (4 + 8 * k)" using n by (auto simp: k_def)
  have enc: "pkg_length_enc n = ?lead # map ?f [0..<k]"
    using False by (simp add: pkg_length_enc_def k_def Let_def)
  from at have "at_bytes p (?lead # map ?f [0..<k])" unfolding enc .
  note r = at_bytes_Cons [OF this]
  show ?thesis
    unfolding read_pkg_length_def pbind_def r(1)
    using pkg_lead [OF k(1,2), of n] k(2) pkg_loop_at [OF r(2)] pkg_length_long [OF k(3,1)]
    by (simp add: enc)
qed

section \<open>Packages are never decoded\<close>

lemma parse_data_object_value:
  assumes "parse_data_object p = Some (Inr v, p')"
  shows "\<not> (\<exists>vs. v = AmlPackage vs)"
  using assms
  by (subst (asm) parse_data_object.simps)
    (auto simp: pbind_Inr_iff parse_string_def Let_def pfail_def split: if_splits option.splits)

section \<open>Properties\<close>

text \<open>C23: Called inside its slice with bytes left, \<open>parse_next\<close> never panics; whether it returns a
  term or an error it leaves the bytes alone and takes at least one of them, so that a caller that
  goes on after an error comes to the end; and the contents of a scope or a device are bytes that
  were taken.\<close>

theorem aml_parse_next_progress:
  assumes "p_ok p" and "\<not> is_empty p"
  shows "\<exists>r p'. parse_next p = Some (r, p') \<and> r \<noteq> Inr None \<and> p_bytes p' = p_bytes p \<and>
    cursor p < cursor p' \<and> cursor p' \<le> length (p_bytes p) \<and>
    (\<forall>t c. r = Inr (Some t) \<and> term_contents t = Some c \<longrightarrow> inside p p' c)"
proof -
  obtain r p' where r: "parse_next p = Some (r, p')" and adv: "advances (p\<lparr>cursor := cursor p + 1\<rparr>) p'"
    using parse_next_runs [OF assms] by (auto simp: runs_def)
  have "r \<noteq> Inr None"
    using r assms(2)
    by (auto simp: parse_next_def parse_op_def parse_ext_op_def pbind_Inr_iff split: if_splits)
  with r adv show ?thesis
    by (auto simp: advances_def intro: parse_next_inside)
qed

lemmas parse_eval =
  parse_next_def is_empty_def parser_new_def pbind_def pret_def read_u8_def peek_u8_def take_bytes_def
  parse_op_def parse_ext_op_def read_pkg_length_def read_name_path_def skip_prefix.simps slice_def
  pkg_body_def

theorem aml_parse_next_progress_witness:
  "\<exists>c p'. parse_next (parser_new [0x5B, 0x82, 0x07, 0x44, 0x45, 0x56, 0x30, 0x14, 0x15, 0x10]) =
     Some (Inr (Some (AmlDevice [0x44, 0x45, 0x56, 0x30] c)), p') \<and> cursor p' = 9 \<and>
     p_bytes c = [0x14, 0x15] \<and>
     inside (parser_new [0x5B, 0x82, 0x07, 0x44, 0x45, 0x56, 0x30, 0x14, 0x15, 0x10]) p' c"
proof -
  let ?p = "parser_new [0x5B, 0x82, 0x07, 0x44, 0x45, 0x56, 0x30, 0x14, 0x15, 0x10]"
  let ?c = "parser_new [0x14, 0x15]"
  have ev: "parse_next ?p = Some (Inr (Some (AmlDevice [0x44, 0x45, 0x56, 0x30] ?c)), ?p\<lparr>cursor := 9\<rparr>)"
    by (simp add: parse_eval)
  have "p_ok ?p" "\<not> is_empty ?p" by (simp_all add: p_ok_def is_empty_def parser_new_def)
  from aml_parse_next_progress [OF this] ev have "inside ?p (?p\<lparr>cursor := 9\<rparr>) ?c" by auto
  with ev show ?thesis by (auto simp: parser_new_def)
qed

text \<open>Every package length below \<open>2 ^ 28\<close> is read back from its encoding, and exactly its bytes
  are taken.\<close>

theorem aml_pkg_length_roundtrip:
  assumes "n < 2 ^ 28" and "pre @ pkg_length_enc n @ post = bytes"
  shows "read_pkg_length \<lparr>p_bytes = bytes, cursor = length pre\<rparr> =
    Some (Inr n, \<lparr>p_bytes = bytes, cursor = length pre + length (pkg_length_enc n)\<rparr>)"
proof -
  have "at_bytes \<lparr>p_bytes = bytes, cursor = length pre\<rparr> (pkg_length_enc n)"
    using assms(2) by (auto simp: at_bytes_def)
  from read_pkg_length_enc [OF this assms(1)] show ?thesis by simp
qed

theorem aml_pkg_length_roundtrip_witness:
  "read_pkg_length \<lparr>p_bytes = [0x42, 0x3A, 0x5B], cursor = 0\<rparr> =
    Some (Inr 0x3A2, \<lparr>p_bytes = [0x42, 0x3A, 0x5B], cursor = 2\<rparr>)"
proof -
  have enc: "pkg_length_enc 0x3A2 = [0x42, 0x3A]" by (simp add: pkg_length_enc_def Let_def)
  show ?thesis
    using aml_pkg_length_roundtrip [where n = "0x3A2" and pre = "[]" and post = "[0x5B]"] by (simp add: enc)
qed

end
