(* ===== verification/Aml_Devices.thy ===== *)
theory Aml_Devices
  imports Aml_Parser
begin

text \<open>
  From parsed AML to devices: the conversions and the printing of \<open>kernel/drivers/acpi-aml/src/ast.rs\<close>,
  the resource descriptors of \<open>crs.rs\<close>, the construction of the device tree in \<open>device.rs\<close> and the
  walk over the DSDT in \<open>kernel/src/earlyinit/acpi.rs\<close>.
\<close>

section \<open>Printing names\<close>

fun show_prefix :: "u8 list \<Rightarrow> rust_string \<times> u8 list" where
  "show_prefix [] = ([], [])"
| "show_prefix (b # bs) =
     (if b = 0x5C \<or> b = 0x5E then (let (w, r) = show_prefix bs in (b # w, r)) else ([], b # bs))"

text \<open>Trailing underscores of a segment are dropped, except for the first character.\<close>

fun seg_len :: "u8 list \<Rightarrow> nat \<Rightarrow> nat" where
  "seg_len seg 0 = 0"
| "seg_len seg (Suc n) = (if seg ! n = 0x5F then (if n = 0 then 1 else seg_len seg n) else Suc n)"

definition show_byte :: "u8 \<Rightarrow> u8" where
  "show_byte b = (if 0x21 \<le> b \<and> b \<le> 0x7E \<or> b = 0x20 \<or> b = 0x5F then b else 0x3F)"

fun show_segs :: "nat list \<Rightarrow> u8 list \<Rightarrow> rust_string" where
  "show_segs [] seg_bytes = []"
| "show_segs (i # is) seg_bytes =
     (let start = i * 4;
          dot = (if i > 0 then str_bytes ''.'' else [])
      in if length seg_bytes < start + 4 then dot @ str_bytes ''????''
         else
           let seg = take 4 (drop start seg_bytes) in
           dot @ map show_byte (take (seg_len seg 4) seg) @ show_segs is seg_bytes)"

definition show_name_path :: "aml_name_path \<Rightarrow> rust_string" where
  "show_name_path raw =
     (let (w, bytes) = show_prefix raw in
      case bytes of
        [] \<Rightarrow> w
      | pre # rest \<Rightarrow>
          let (num_segs, seg_bytes) =
            (if pre = 0x00 then (0, [])
             else if pre = 0x2E then (2, rest)
             else if pre = 0x2F then
               (case rest of c # segs \<Rightarrow> (unat c, segs) | [] \<Rightarrow> (0, []))
             else (1, bytes))
          in w @ show_segs [0..<num_segs] seg_bytes)"

section \<open>Conversions of values\<close>

definition hex_digit :: "nat \<Rightarrow> u8" where
  "hex_digit d = (if d < 10 then 0x30 + of_nat d else 0x41 + of_nat (d - 10))"

text \<open>\<open>{:04X}\<close> of a 16-bit number.\<close>

definition hex4 :: "u16 \<Rightarrow> rust_string" where
  "hex4 p = map (\<lambda>i. hex_digit (unat (drop_bit (12 - 4 * i) p AND 0xF))) [0..<4]"

text \<open>The decoding of an integer as an EISA identifier: three letters and four hexadecimal digits.\<close>

definition eisa_string :: "u64 \<Rightarrow> rust_string" where
  "eisa_string v =
     (let m1 = ucast (drop_bit 26 v AND 0x1F) :: u8;
          m2 = ucast (drop_bit 21 v AND 0x1F) :: u8;
          m3 = ucast (drop_bit 16 v AND 0x1F) :: u8;
          p = ucast (v AND 0xFFFF) :: u16
      in [0x40 + m1, 0x40 + m2, 0x40 + m3] @ hex4 p)"

fun as_string :: "aml_value \<Rightarrow> rust_string option" where
  "as_string (AmlString s) = Some s"
| "as_string (AmlNamePath p) = Some (show_name_path p)"
| "as_string (AmlInteger v) = Some (eisa_string v)"
| "as_string _ = None"

text \<open>\<open>str::parse::<u64>\<close>: an optional plus sign, at least one digit, no overflow.\<close>

fun digits_u64 :: "u8 list \<Rightarrow> nat \<Rightarrow> nat option" where
  "digits_u64 [] acc = Some acc"
| "digits_u64 (b # bs) acc =
     (if 0x30 \<le> b \<and> b \<le> 0x39
      then
        let acc' = acc * 10 + unat (b - 0x30) in
        if acc' < 2 ^ 64 then digits_u64 bs acc' else None
      else None)"

definition parse_u64 :: "rust_string \<Rightarrow> u64 option" where
  "parse_u64 s =
     map_option of_nat
       (case s of
          [] \<Rightarrow> None
        | b # bs \<Rightarrow> if b = 0x2B then (if bs = [] then None else digits_u64 bs 0) else digits_u64 s 0)"

fun as_u64 :: "aml_value \<Rightarrow> u64 option" where
  "as_u64 AmlZero = Some 0"
| "as_u64 AmlOne = Some 1"
| "as_u64 AmlOnes = Some (- 1)"
| "as_u64 (AmlInteger v) = Some v"
| "as_u64 (AmlString s) = parse_u64 s"
| "as_u64 _ = None"

section \<open>Resource descriptors\<close>

text \<open>\<open>CrsIter::next\<close>: the next descriptor and the bytes after it.\<close>

definition crs_next :: "u8 list \<Rightarrow> (u8 list \<times> u8 list) option" where
  "crs_next bytes =
     (case bytes of
        [] \<Rightarrow> None
      | tag # rest \<Rightarrow>
          if tag = 0x79 then None
          else
            case (if tag AND 0x80 = 0 then Some (unat (tag AND 0x07), 1)
                  else if 2 \<le> length rest
                       then Some (unat (from_le_bytes (take 2 rest) :: u16), 3)
                       else None) of
              None \<Rightarrow> None
            | Some (len, data_start) \<Rightarrow>
                if data_start + len \<le> length bytes
                then Some (take (data_start + len) bytes, drop (data_start + len) bytes)
                else None)"

lemma crs_next_split:
  "crs_next bytes = Some (chunk, rest) \<Longrightarrow> bytes = chunk @ rest \<and> chunk \<noteq> []"
  by (auto simp: crs_next_def split: list.splits if_splits option.splits)

function crs_chunks :: "u8 list \<Rightarrow> u8 list list" where
  "crs_chunks bytes =
     (case crs_next bytes of None \<Rightarrow> [] | Some (chunk, rest) \<Rightarrow> chunk # crs_chunks rest)"
  by pat_completeness auto
termination
  by (relation "measure length") (auto dest!: crs_next_split)

definition mmio_range :: "usize \<Rightarrow> usize \<Rightarrow> resource list" where
  "mmio_range base len = (if len > 0 then [Mmio base (base + len)] else [])"

text \<open>A field of a descriptor, little endian.\<close>

definition le_field :: "nat \<Rightarrow> nat \<Rightarrow> u8 list \<Rightarrow> 'a::len word" where
  "le_field a b data = from_le_bytes (take (b - a) (drop a data))"

definition into_rss :: "u8 list \<Rightarrow> resource list option" where
  "into_rss chunk =
     (case chunk of
        [] \<Rightarrow> None
      | tag # _ \<Rightarrow>
          let is_large = (tag AND 0x80 \<noteq> 0);
              item_type = (if is_large then tag AND 0x7F else drop_bit 3 tag AND 0x0F);
              data = (if is_large then drop 3 chunk else drop 1 chunk)
          in Some
            (if \<not> is_large \<and> item_type = 0x04 \<and> 2 \<le> length data then
               map (\<lambda>i. Irq (of_nat i)) (filter (bit (le_field 0 2 data :: u16)) [0..<16])
             else if is_large \<and> item_type = 0x05 \<and> 17 \<le> length data then
               mmio_range (ucast (le_field 1 5 data :: u32)) (ucast (le_field 13 17 data :: u32))
             else if is_large \<and> item_type = 0x06 \<and> 9 \<le> length data then
               mmio_range (ucast (le_field 1 5 data :: u32)) (ucast (le_field 5 9 data :: u32))
             else if is_large \<and> item_type = 0x07 \<and> 23 \<le> length data \<and> data ! 0 = 0 then
               mmio_range (ucast (le_field 7 11 data :: u32)) (ucast (le_field 19 23 data :: u32))
             else if is_large \<and> item_type = 0x0A \<and> 43 \<le> length data \<and> data ! 0 = 0 then
               mmio_range (le_field 11 19 data) (le_field 35 43 data)
             else if is_large \<and> item_type = 0x09 \<and> 2 \<le> length data then
               List.map_filter
                 (\<lambda>i. let offset = 2 + i * 4 in
                      if offset + 4 \<le> length data then Some (Irq (le_field offset (offset + 4) data))
                      else None)
                 [0..<unat (data ! 1)]
             else []))"

text \<open>\<open>CrsIter(buf).flat_map(into_rss)\<close>; an empty descriptor would panic.\<close>

fun flat_rss :: "u8 list list \<Rightarrow> resource list option" where
  "flat_rss [] = Some []"
| "flat_rss (c # cs) =
     (case into_rss c of
        None \<Rightarrow> None
      | Some rs \<Rightarrow> map_option (\<lambda>rs'. rs @ rs') (flat_rss cs))"

definition crs_resources :: "u8 list \<Rightarrow> resource list option" where
  "crs_resources buf = flat_rss (crs_chunks buf)"

section \<open>The terms of a parser\<close>

lemma parse_next_forward:
  assumes "parse_next p = Some (r, p')" and "r \<noteq> Inr None"
  shows "p_bytes p' = p_bytes p \<and> cursor p < cursor p' \<and> cursor p' \<le> length (p_bytes p)"
proof -
  have ne: "\<not> is_empty p" using assms parse_next_empty by fastforce
  then have "p_ok p" by (simp add: is_empty_def p_ok_def)
  from runs_advances [OF parse_next_runs [OF this ne] assms(1)] show ?thesis
    by (simp add: advances_def)
qed

text \<open>
  The items of \<open>core::iter::from_fn(|| parser.parse_next().transpose())\<close>. An error is an item and does
  not end the iterator.
\<close>

function terms_of :: "aml_parser \<Rightarrow> (string + aml_term) list option" where
  "terms_of p =
     (case parse_next p of
        None \<Rightarrow> None
      | Some (Inl e, p') \<Rightarrow> map_option (\<lambda>ts. Inl e # ts) (terms_of p')
      | Some (Inr None, p') \<Rightarrow> Some []
      | Some (Inr (Some t), p') \<Rightarrow> map_option (\<lambda>ts. Inr t # ts) (terms_of p'))"
  by pat_completeness auto
termination
  by (relation "measure (\<lambda>p. length (p_bytes p) - cursor p)")
    (auto dest!: parse_next_forward)

declare terms_of.simps [simp del] crs_chunks.simps [simp del]

text \<open>\<open>collect::<Result<Vec<_>, _>>\<close>\<close>

fun collect_results :: "('e + 'a) list \<Rightarrow> 'e + 'a list" where
  "collect_results [] = Inr []"
| "collect_results (Inl e # rs) = Inl e"
| "collect_results (Inr x # rs) = sbind (collect_results rs) (\<lambda>xs. Inr (x # xs))"

section \<open>Devices\<close>

record device_properties =
  hid :: "rust_string option"
  cids :: "rust_string list"
  uid :: "u64 option"
  resources :: "resource list"
  sub_terms :: "aml_term list"

definition props_default :: device_properties where
  "props_default = \<lparr>hid = None, cids = [], uid = None, resources = [], sub_terms = []\<rparr>"

definition ends_with :: "rust_string \<Rightarrow> string \<Rightarrow> bool" where
  "ends_with s t \<longleftrightarrow> length t \<le> length s \<and> drop (length s - length t) s = str_bytes t"

definition opt_list :: "'a option \<Rightarrow> 'a list" where
  "opt_list x = (case x of Some v \<Rightarrow> [v] | None \<Rightarrow> [])"

definition push_cids :: "aml_value \<Rightarrow> rust_string list" where
  "push_cids value =
     (case value of
        AmlPackage pkgs \<Rightarrow> concat (map (\<lambda>p. opt_list (as_string p)) pkgs)
      | _ \<Rightarrow> opt_list (as_string value))"

definition props_name :: "aml_name_path \<Rightarrow> aml_value \<Rightarrow> device_properties \<Rightarrow> device_properties option" where
  "props_name name value acc =
     (let name_str = show_name_path name in
      if ends_with name_str ''_HID'' then Some (acc\<lparr>hid := as_string value\<rparr>)
      else if ends_with name_str ''_CID'' then Some (acc\<lparr>cids := cids acc @ push_cids value\<rparr>)
      else if ends_with name_str ''_UID'' then Some (acc\<lparr>uid := as_u64 value\<rparr>)
      else if ends_with name_str ''_CRS'' then
        (case value of
           AmlBuffer buf \<Rightarrow>
             map_option (\<lambda>rs. acc\<lparr>resources := resources acc @ rs\<rparr>) (crs_resources buf)
         | _ \<Rightarrow> Some acc)
      else Some (acc\<lparr>sub_terms := sub_terms acc @ [AmlName name value]\<rparr>))"

definition props_step ::
    "string + device_properties \<Rightarrow> string + aml_term \<Rightarrow> (string + device_properties) option" where
  "props_step acc term_res =
     (case acc of
        Inl e \<Rightarrow> Some (Inl e)
      | Inr a \<Rightarrow>
          (case term_res of
             Inl e \<Rightarrow> Some (Inl e)
           | Inr (AmlName name value) \<Rightarrow> map_option Inr (props_name name value a)
           | Inr other \<Rightarrow> Some (Inr (a\<lparr>sub_terms := sub_terms a @ [other]\<rparr>))))"

fun props_fold ::
    "(string + aml_term) list \<Rightarrow> string + device_properties \<Rightarrow> (string + device_properties) option" where
  "props_fold [] acc = Some acc"
| "props_fold (t # ts) acc = Option.bind (props_step acc t) (props_fold ts)"

definition from_aml :: "aml_parser \<Rightarrow> (string + device_properties) option" where
  "from_aml p = Option.bind (terms_of p) (\<lambda>ts. props_fold ts (Inr props_default))"

definition classify :: "device_properties \<Rightarrow> device_class \<times> device_init_priority" where
  "classify props =
     (let i = (case hid props of
                 Some h \<Rightarrow> h
               | None \<Rightarrow> (case cids props of c # _ \<Rightarrow> c | [] \<Rightarrow> []))
      in if i = str_bytes ''ARMH0011'' then (Uart, Regular)
         else if i = str_bytes ''PNP0A08'' \<or> i = str_bytes ''PNP0A03'' then (PciHostBridge, Regular)
         else (Other, Regular))"

record tree_builder =
  tb_tree :: device_tree
  scope_map :: "rust_string \<rightharpoonup> nat"

definition builder_new :: "device_tree \<Rightarrow> tree_builder" where
  "builder_new t = \<lparr>tb_tree = t, scope_map = Map.empty\<rparr>"

definition join_path :: "rust_string \<Rightarrow> rust_string \<Rightarrow> rust_string" where
  "join_path parent child =
     (if child \<noteq> [] \<and> hd child = 0x5C then child
      else if parent = [] \<or> parent = [0x5C] then 0x5C # dropWhile (\<lambda>b. b = 0x2E) child
      else parent @ [0x2E] @ dropWhile (\<lambda>b. b = 0x2E) child)"

section \<open>Weights of terms\<close>

text \<open>The bytes a term can still give rise to; they bound the recursion over nested terms.\<close>

definition remaining :: "aml_parser \<Rightarrow> nat" where
  "remaining p = length (p_bytes p) - cursor p"

definition term_weight :: "aml_term \<Rightarrow> nat" where
  "term_weight t = (case term_contents t of Some c \<Rightarrow> Suc (remaining c) | None \<Rightarrow> 1)"

definition item_weight :: "string + aml_term \<Rightarrow> nat" where
  "item_weight r = (case r of Inl _ \<Rightarrow> 1 | Inr t \<Rightarrow> term_weight t)"

abbreviation terms_weight :: "aml_term list \<Rightarrow> nat" where
  "terms_weight ts \<equiv> sum_list (map term_weight ts)"

lemma item_weight_simps [simp]: "item_weight (Inl e) = 1" "item_weight (Inr t) = term_weight t"
  by (simp_all add: item_weight_def)

lemma inside_weight:
  assumes "inside p p' c" shows "Suc (remaining c) \<le> cursor p' - cursor p"
  using assms by (auto simp: inside_def remaining_def)

lemma parse_next_weight:
  assumes "parse_next p = Some (r, p')" and "r \<noteq> Inr None"
  shows "(case r of Inl _ \<Rightarrow> 1 | Inr t \<Rightarrow> term_weight (the t)) + remaining p' \<le> remaining p"
proof -
  note fwd = parse_next_forward [OF assms]
  have "(case r of Inl _ \<Rightarrow> 1 | Inr t \<Rightarrow> term_weight (the t)) \<le> cursor p' - cursor p"
  proof (cases r)
    case (Inr ot)
    with assms(2) obtain t where t: "ot = Some t" by (cases ot) auto
    show ?thesis
    proof (cases "term_contents t")
      case (Some c)
      then have "inside p p' c" using parse_next_inside assms(1) Inr t by simp
      from inside_weight [OF this] show ?thesis using Some Inr t by (simp add: term_weight_def)
    next
      case None
      then show ?thesis using Inr t fwd by (auto simp: term_weight_def)
    qed
  qed (use fwd in auto)
  moreover from fwd have "length (p_bytes p') = length (p_bytes p)" "cursor p < cursor p'"
    "cursor p' \<le> length (p_bytes p)" by simp_all
  ultimately show ?thesis unfolding remaining_def by linarith
qed

lemma terms_of_weight: "terms_of p = Some ts \<Longrightarrow> sum_list (map item_weight ts) \<le> remaining p"
proof (induction p arbitrary: ts rule: terms_of.induct)
  case (1 p)
  show ?case
  proof (cases "parse_next p")
    case None
    then show ?thesis using 1(3) by (simp add: terms_of.simps [of p])
  next
    case (Some rp)
    then obtain r p' where n: "parse_next p = Some (r, p')" by (cases rp) auto
    show ?thesis
    proof (cases "r = Inr None")
      case True
      then show ?thesis using 1(3) n by (simp add: terms_of.simps [of p])
    next
      case False
      note w = parse_next_weight [OF n False]
      show ?thesis
      proof (cases r)
        case (Inl e)
        with 1(3) n obtain us where us: "terms_of p' = Some us" "ts = Inl e # us"
          by (subst (asm) terms_of.simps) auto
        from 1(1) [OF n _ Inl us(1)] w us(2) Inl show ?thesis by simp
      next
        case (Inr ot)
        with False obtain t where t: "r = Inr (Some t)" by (cases ot) auto
        with 1(3) n obtain us where us: "terms_of p' = Some us" "ts = Inr t # us"
          by (subst (asm) terms_of.simps) auto
        from 1(2) [OF n _ t _ us(1)] w us(2) t show ?thesis by simp
      qed
    qed
  qed
qed

lemma collect_results_weight:
  "collect_results ts = Inr us \<Longrightarrow> terms_weight us = sum_list (map item_weight ts)"
  by (induction ts arbitrary: us rule: collect_results.induct) auto

lemma props_step_weight:
  assumes "props_step (Inr a) r = Some (Inr a')"
  shows "terms_weight (sub_terms a') \<le> terms_weight (sub_terms a) + item_weight r"
proof (cases r)
  case (Inr t)
  show ?thesis
  proof (cases t)
    case (AmlName n v)
    with Inr assms have "props_name n v a = Some a'" by (auto simp: props_step_def)
    then show ?thesis
      using Inr AmlName
      by (auto simp: props_name_def Let_def split: if_splits aml_value.splits)
  qed (use Inr assms in \<open>auto simp: props_step_def\<close>)
qed (use assms in \<open>simp add: props_step_def\<close>)

lemma props_fold_Inl: "props_fold ts (Inl e) = Some (Inl e)"
  by (induction ts) (simp_all add: props_step_def)

lemma props_fold_weight:
  "props_fold ts (Inr a) = Some (Inr a') \<Longrightarrow>
   terms_weight (sub_terms a') \<le> terms_weight (sub_terms a) + sum_list (map item_weight ts)"
proof (induction ts arbitrary: a)
  case (Cons t ts)
  then obtain acc where acc: "props_step (Inr a) t = Some acc" "props_fold ts acc = Some (Inr a')"
    by (auto simp: bind_eq_Some_conv)
  then obtain b where b: "acc = Inr b" by (cases acc) (simp_all add: props_fold_Inl)
  from Cons.IH [of b] props_step_weight [of a t b] acc b show ?case by simp
qed simp

lemma from_aml_weight:
  assumes "from_aml p = Some (Inr props)"
  shows "terms_weight (sub_terms props) \<le> remaining p"
proof -
  obtain ts where "terms_of p = Some ts" "props_fold ts (Inr props_default) = Some (Inr props)"
    using assms by (auto simp: from_aml_def bind_eq_Some_conv)
  with terms_of_weight [of p ts] props_fold_weight [of ts props_default props] show ?thesis
    by (simp add: props_default_def)
qed

section \<open>Building the tree\<close>

text \<open>
  \<open>process_terms\<close>: on success and on error the builder with what was added so far. A scope that names
  a known device makes it the parent; a device becomes the parent of what it contains.
\<close>

function process_terms ::
    "aml_term list \<Rightarrow> rust_string \<Rightarrow> nat option \<Rightarrow> tree_builder \<Rightarrow> ((string + unit) \<times> tree_builder) option" where
  "process_terms [] current_path parent_id b = Some (Inr (), b)"
| "process_terms (AmlScope name contents # terms) current_path parent_id b =
     (let path = join_path current_path (show_name_path name);
          target_parent = (case scope_map b path of Some i \<Rightarrow> Some i | None \<Rightarrow> parent_id)
      in case terms_of contents of
           None \<Rightarrow> None
         | Some ts \<Rightarrow>
             (case collect_results ts of
                Inl e \<Rightarrow> Some (Inl e, b)
              | Inr subs \<Rightarrow>
                  (case process_terms subs path target_parent b of
                     None \<Rightarrow> None
                   | Some (Inl e, b') \<Rightarrow> Some (Inl e, b')
                   | Some (Inr _, b') \<Rightarrow> process_terms terms current_path parent_id b')))"
| "process_terms (AmlDevice name contents # terms) current_path parent_id b =
     (let path = join_path current_path (show_name_path name)
      in case from_aml contents of
           None \<Rightarrow> None
         | Some (Inl e) \<Rightarrow> Some (Inl e, b)
         | Some (Inr props) \<Rightarrow>
             (case add_device parent_id (fst (classify props)) (opt_list (hid props) @ cids props)
                     (resources props) (snd (classify props)) (tb_tree b) of
                None \<Rightarrow> None
              | Some (dev_id, t) \<Rightarrow>
                  (case process_terms (sub_terms props) path (Some dev_id)
                          (b\<lparr>tb_tree := t, scope_map := (scope_map b)(path \<mapsto> dev_id)\<rparr>) of
                     None \<Rightarrow> None
                   | Some (Inl e, b') \<Rightarrow> Some (Inl e, b')
                   | Some (Inr _, b') \<Rightarrow> process_terms terms current_path parent_id b')))"
| "process_terms (AmlName n v # terms) current_path parent_id b =
     process_terms terms current_path parent_id b"
| "process_terms (AmlMethod n fl code # terms) current_path parent_id b =
     process_terms terms current_path parent_id b"
| "process_terms (AmlOpRegion n # terms) current_path parent_id b =
     process_terms terms current_path parent_id b"
| "process_terms (AmlField # terms) current_path parent_id b =
     process_terms terms current_path parent_id b"
| "process_terms (UnsupportedOpcode op # terms) current_path parent_id b =
     process_terms terms current_path parent_id b"
  by pat_completeness auto
termination
  by (relation "measure (\<lambda>(ts, _). terms_weight ts)")
    (auto simp: term_weight_def dest!: terms_of_weight collect_results_weight from_aml_weight)

section \<open>The walk over the DSDT\<close>

text \<open>Numbers as \<open>format!\<close> prints them.\<close>

function radix_digits :: "nat \<Rightarrow> nat \<Rightarrow> rust_string" where
  "radix_digits base n =
     (if base < 2 \<or> n < base then [hex_digit n]
      else radix_digits base (n div base) @ [hex_digit (n mod base)])"
  by pat_completeness auto
termination
  by (relation "measure snd") auto

definition show_dec :: "nat \<Rightarrow> rust_string" where
  "show_dec n = radix_digits 10 n"

text \<open>\<open>{:#X}\<close> and \<open>{:#04X}\<close>.\<close>

definition show_hex :: "nat \<Rightarrow> rust_string" where
  "show_hex n = str_bytes ''0x'' @ radix_digits 16 n"

definition show_hex_04 :: "nat \<Rightarrow> rust_string" where
  "show_hex_04 n =
     (let ds = radix_digits 16 n in str_bytes ''0x'' @ replicate (2 - length ds) 0x30 @ ds)"

definition newline :: rust_string where
  "newline = [0x0A]"

definition indent_of :: "nat \<Rightarrow> rust_string" where
  "indent_of depth = concat (replicate depth (str_bytes ''  ''))"

fun format_aml_value :: "aml_value \<Rightarrow> nat \<Rightarrow> rust_string"
  and format_elems :: "aml_value list \<Rightarrow> nat \<Rightarrow> rust_string" where
  "format_aml_value AmlZero depth = str_bytes ''Zero''"
| "format_aml_value AmlOne depth = str_bytes ''One''"
| "format_aml_value AmlOnes depth = str_bytes ''Ones''"
| "format_aml_value (AmlInteger v) depth = show_hex (unat v)"
| "format_aml_value (AmlString s) depth = [0x22] @ s @ [0x22]"
| "format_aml_value (AmlNamePath p) depth = show_name_path p"
| "format_aml_value (AmlBuffer buf) depth =
     str_bytes ''Buffer ('' @ show_dec (length buf) @ str_bytes '') { ... }''"
| "format_aml_value (AmlPackage elems) depth =
     (if elems = [] then str_bytes ''Package (0x00) {}''
      else
        str_bytes ''Package ('' @ show_hex_04 (length elems) @ str_bytes '') {'' @ newline @
        format_elems elems depth @ indent_of depth @ str_bytes ''}'')"
| "format_elems [] depth = []"
| "format_elems (e # es) depth =
     indent_of (depth + 1) @ format_aml_value e (depth + 1) @
     (if es = [] then [] else str_bytes '','') @ newline @ format_elems es depth"

text \<open>The line printed for a term other than a scope or a device.\<close>

fun format_term :: "aml_term \<Rightarrow> nat \<Rightarrow> rust_string" where
  "format_term (AmlName name value) depth =
     indent_of depth @ str_bytes ''Name ('' @ show_name_path name @ str_bytes '', '' @
     format_aml_value value depth @ str_bytes '')'' @ newline"
| "format_term (AmlMethod name flags code) depth =
     indent_of depth @ str_bytes ''Method ('' @ show_name_path name @ str_bytes '', '' @
     show_dec (unat (flags AND 0x07)) @ str_bytes '', '' @
     str_bytes (if flags AND 0x08 \<noteq> 0 then ''Serialized'' else ''NotSerialized'') @
     str_bytes '') [Bytecode: '' @ show_dec (length code) @ str_bytes '' bytes]'' @ newline"
| "format_term (AmlOpRegion name) depth =
     indent_of depth @ str_bytes ''OperationRegion ('' @ show_name_path name @ str_bytes '')'' @ newline"
| "format_term AmlField depth = indent_of depth @ str_bytes ''Field (...)'' @ newline"
| "format_term (UnsupportedOpcode op) depth =
     indent_of depth @ str_bytes ''// Unknown Opcode: '' @ show_hex_04 (unat op) @ newline"
| "format_term (AmlScope name c) depth =
     indent_of depth @ str_bytes ''Scope ('' @ show_name_path name @ str_bytes '') {'' @ newline"
| "format_term (AmlDevice name c) depth =
     indent_of depth @ str_bytes ''Device ('' @ show_name_path name @ str_bytes '') {'' @ newline"

lemma contents_weight:
  assumes "parse_next p = Some (Inr (Some t), p')" and "term_contents t = Some c"
  shows "remaining c < remaining p \<and> remaining p' < remaining p"
proof -
  have "term_weight t = Suc (remaining c)" using assms(2) by (simp add: term_weight_def)
  with parse_next_weight [OF assms(1)] show ?thesis by simp
qed

lemma other_weight:
  assumes "parse_next p = Some (Inr (Some t), p')"
  shows "remaining p' < remaining p"
  using parse_next_forward [OF assms(1)] by (auto simp: remaining_def)

text \<open>\<open>aml_stream\<close> walks the terms without output.\<close>

function aml_stream :: "aml_parser \<Rightarrow> (string + unit) option" where
  "aml_stream p =
     (case parse_next p of
        None \<Rightarrow> None
      | Some (Inl e, _) \<Rightarrow> Some (Inl e)
      | Some (Inr None, _) \<Rightarrow> Some (Inr ())
      | Some (Inr (Some t), p') \<Rightarrow>
          (case term_contents t of
             Some c \<Rightarrow>
               (case aml_stream c of
                  None \<Rightarrow> None
                | Some (Inl e) \<Rightarrow> Some (Inl e)
                | Some (Inr _) \<Rightarrow> aml_stream p')
           | None \<Rightarrow> aml_stream p'))"
  by pat_completeness auto
termination
  by (relation "measure remaining") (auto dest: contents_weight other_weight)

text \<open>\<open>format_aml_stream\<close> does the same walk and appends to \<open>out\<close>.\<close>

function format_aml_stream ::
    "aml_parser \<Rightarrow> nat \<Rightarrow> rust_string \<Rightarrow> ((string + unit) \<times> rust_string) option" where
  "format_aml_stream p depth out =
     (case parse_next p of
        None \<Rightarrow> None
      | Some (Inl e, _) \<Rightarrow> Some (Inl e, out)
      | Some (Inr None, _) \<Rightarrow> Some (Inr (), out)
      | Some (Inr (Some t), p') \<Rightarrow>
          (case term_contents t of
             Some c \<Rightarrow>
               (case format_aml_stream c (depth + 1) (out @ format_term t depth) of
                  None \<Rightarrow> None
                | Some (Inl e, out') \<Rightarrow> Some (Inl e, out')
                | Some (Inr _, out') \<Rightarrow>
                    format_aml_stream p' depth (out' @ indent_of depth @ str_bytes ''}'' @ newline))
           | None \<Rightarrow> format_aml_stream p' depth (out @ format_term t depth)))"
  by pat_completeness auto
termination
  by (relation "measure (\<lambda>(p, _). remaining p)") (auto dest: contents_weight other_weight)

declare aml_stream.simps [simp del] format_aml_stream.simps [simp del] radix_digits.simps [simp del]

text \<open>
  \<open>handle_dsdt\<close> on the bytes of the table: a table header is 36 bytes and starts with the signature.
  Printing a wrong signature unwraps its decoding; the result of the walk is unwrapped too.
\<close>

definition handle_dsdt :: "u8 list \<Rightarrow> unit option" where
  "handle_dsdt table =
     (if length table < 36 then Some ()
      else if take 4 table \<noteq> str_bytes ''DSDT''
        then (if utf8_valid (take 4 table) then Some () else None)
      else
        case format_aml_stream (parser_new (drop 36 table)) 0 [] of
          None \<Rightarrow> None
        | Some (Inl e, _) \<Rightarrow> None
        | Some (Inr _, _) \<Rightarrow> Some ())"

section \<open>Nothing panics\<close>

lemma parse_next_total: "\<exists>r p'. parse_next p = Some (r, p')"
proof (cases "is_empty p")
  case False
  then have "p_ok p" by (simp add: is_empty_def p_ok_def)
  from parse_next_runs [OF this False] show ?thesis by (auto simp: runs_def)
qed (simp add: parse_next_empty)

lemma terms_of_total: "\<exists>ts. terms_of p = Some ts"
proof (induction p rule: terms_of.induct)
  case (1 p)
  obtain r p' where n: "parse_next p = Some (r, p')" using parse_next_total by blast
  consider e where "r = Inl e" | "r = Inr None" | t where "r = Inr (Some t)"
    by (metis option.exhaust sum.exhaust)
  then show ?case
  proof cases
    case 1
    then show ?thesis using "1.IH"(1) [OF n] n by (auto simp: terms_of.simps [of p])
  next
    case 2
    then show ?thesis using n by (simp add: terms_of.simps [of p])
  next
    case 3
    then show ?thesis using "1.IH"(2) [OF n] n by (auto simp: terms_of.simps [of p])
  qed
qed

lemma crs_chunks_nonempty: "[] \<notin> set (crs_chunks buf)"
proof (induction buf rule: crs_chunks.induct)
  case (1 buf)
  show ?case
  proof (cases "crs_next buf")
    case (Some cr)
    then obtain c r where "crs_next buf = Some (c, r)" by (cases cr) auto
    with 1 [of "(c, r)"] crs_next_split [of buf c r] show ?thesis by (subst crs_chunks.simps) auto
  qed (simp add: crs_chunks.simps [of buf])
qed

lemma into_rss_total: "c \<noteq> [] \<Longrightarrow> \<exists>rs. into_rss c = Some rs"
  by (cases c) (auto simp: into_rss_def Let_def)

lemma flat_rss_total: "[] \<notin> set cs \<Longrightarrow> \<exists>rs. flat_rss cs = Some rs"
proof (induction cs)
  case (Cons c cs)
  then obtain rs where "into_rss c = Some rs" using into_rss_total [of c] by auto
  with Cons show ?case by auto
qed simp

lemma crs_resources_total: "\<exists>rs. crs_resources buf = Some rs"
  unfolding crs_resources_def by (rule flat_rss_total [OF crs_chunks_nonempty])

lemma props_step_total: "\<exists>acc'. props_step acc r = Some acc'"
proof -
  have "\<exists>a'. props_name n v a = Some a'" for n v a
    using crs_resources_total by (fastforce simp: props_name_def Let_def split: aml_value.splits)
  then show ?thesis by (fastforce simp: props_step_def split: sum.splits aml_term.splits)
qed

lemma props_fold_total: "\<exists>acc'. props_fold ts acc = Some acc'"
proof (induction ts arbitrary: acc)
  case (Cons t ts)
  obtain a where "props_step acc t = Some a" using props_step_total by blast
  with Cons [of a] show ?case by simp
qed simp

lemma from_aml_total: "\<exists>r. from_aml p = Some r"
  using terms_of_total [of p] props_fold_total by (auto simp: from_aml_def)

section \<open>The tree that is built\<close>

definition builder_ok :: "tree_builder \<Rightarrow> bool" where
  "builder_ok b \<longleftrightarrow> dt_wf (tb_tree b) \<and> (\<forall>path i. scope_map b path = Some i \<longrightarrow> i < dt_count (tb_tree b))"

definition known_parent :: "nat option \<Rightarrow> tree_builder \<Rightarrow> bool" where
  "known_parent parent b \<longleftrightarrow> (\<forall>p. parent = Some p \<longrightarrow> p < dt_count (tb_tree b))"

text \<open>What processing a list of terms does to the builder: at most \<open>n\<close> devices are added.\<close>

definition builds :: "tree_builder \<Rightarrow> nat \<Rightarrow> tree_builder \<Rightarrow> bool" where
  "builds b n b' \<longleftrightarrow> builder_ok b' \<and> (\<exists>k \<le> n. dt.grown (tb_tree b) k (tb_tree b'))"

lemma builds_refl: "builder_ok b \<Longrightarrow> builds b n b"
  using dt.grown_refl [of "tb_tree b"] by (auto simp: builds_def builder_ok_def)

lemma builds_trans: "builds a m b \<Longrightarrow> builds b n c \<Longrightarrow> m + n \<le> k \<Longrightarrow> builds a k c"
  unfolding builds_def using dt.grown_trans by (meson add_mono le_trans)

lemma builds_ok: "builds a m b \<Longrightarrow> builder_ok b"
  by (simp add: builds_def)

lemma builds_known: "builds a m b \<Longrightarrow> known_parent p a \<Longrightarrow> known_parent p b"
  by (auto simp: builds_def known_parent_def dt.grown_def)

lemma builds_mono: "builds a m b \<Longrightarrow> m \<le> n \<Longrightarrow> builds a n b"
  by (meson builds_def le_trans)

lemma builds_add: "builds a m b \<Longrightarrow> builds a (n + m) b"
  by (erule builds_mono) simp

lemma add_device_builds:
  assumes "builder_ok b" and "known_parent parent b"
  obtains t where "add_device parent class compatible rs priority (tb_tree b) = Some (dt_count (tb_tree b), t)"
    and "builds b 1 (b\<lparr>tb_tree := t, scope_map := (scope_map b)(path \<mapsto> dt_count (tb_tree b))\<rparr>)"
    and "dt_count (tb_tree b) < dt_count t"
proof -
  have "dt.grown (tb_tree b) 0 (tb_tree b)"
    using assms(1) by (intro dt.grown_refl) (simp add: builder_ok_def)
  moreover have "\<forall>p. parent = Some p \<longrightarrow> p < dt_count (tb_tree b)"
    using assms(2) by (simp add: known_parent_def)
  ultimately obtain t where "add_data parent (class, compatible, rs, priority) (tb_tree b) = Some (dt_count (tb_tree b), t)"
    and "dt.grown (tb_tree b) (Suc 0) t"
    by (rule dt.grown_add)
  with assms(1) show thesis
    by (intro that [of t]) (auto simp: add_data_def builds_def builder_ok_def dt.grown_def less_SucI)
qed

text \<open>Continuing with the terms that follow.\<close>

lemma builds_continue:
  assumes "\<exists>r b1. m = Some (r, b1) \<and> builds b n1 b1"
    and "\<And>b1. builds b n1 b1 \<Longrightarrow> \<exists>r b2. f b1 = Some (r, b2) \<and> builds b1 n2 b2"
    and "n1 + n2 \<le> n"
  shows "\<exists>r b'. (case m of None \<Rightarrow> None | Some (Inl e, b') \<Rightarrow> Some (Inl e, b') | Some (Inr u, b') \<Rightarrow> f b') =
      Some (r, b') \<and> builds b n b'"
proof -
  from assms(1) obtain r b1 where m: "m = Some (r, b1)" "builds b n1 b1" by blast
  show ?thesis
  proof (cases r)
    case (Inl e)
    with m assms(3) show ?thesis by (auto intro: builds_mono)
  next
    case (Inr u)
    from assms(2) [OF m(2)] obtain r' b2 where "f b1 = Some (r', b2)" "builds b1 n2 b2" by blast
    with m Inr assms(3) show ?thesis by (auto intro: builds_trans)
  qed
qed

lemma term_weight_pos [simp]: "0 < term_weight t"
  by (simp add: term_weight_def split: option.splits)

lemma process_terms_other:
  "term_contents t = None \<Longrightarrow> process_terms (t # ts) path parent b = process_terms ts path parent b"
  by (cases t) simp_all

lemma process_terms_builds:
  "builder_ok b \<Longrightarrow> known_parent parent b \<Longrightarrow>
   \<exists>r b'. process_terms ts path parent b = Some (r, b') \<and> builds b (terms_weight ts) b'"
proof (induction "terms_weight ts" arbitrary: ts path parent b rule: less_induct)
  case (less all)
  show ?case
  proof (cases all)
    case Nil
    then show ?thesis using builds_refl [OF less.prems(1)] by simp
  next
    case (Cons t ts)
    have rest: "\<exists>r b2. process_terms ts path parent b1 = Some (r, b2) \<and> builds b1 (terms_weight ts) b2"
      if "builds b n b1" for n b1
      using less.hyps [of ts b1 parent path] that less.prems Cons builds_ok builds_known by simp
    show ?thesis
    proof (cases t)
      case (AmlScope name contents)
      let ?path = "join_path path (show_name_path name)"
      let ?target = "case scope_map b ?path of Some i \<Rightarrow> Some i | None \<Rightarrow> parent"
      obtain rs where rs: "terms_of contents = Some rs" using terms_of_total by blast
      show ?thesis
      proof (cases "collect_results rs")
        case (Inl e)
        then show ?thesis using rs AmlScope Cons builds_refl [OF less.prems(1)] by simp
      next
        case (Inr subs)
        have w: "terms_weight subs < term_weight t"
          using terms_of_weight [OF rs] collect_results_weight [OF Inr] AmlScope
          by (simp add: term_weight_def)
        have "known_parent ?target b"
          using less.prems by (auto simp: known_parent_def builder_ok_def split: option.splits)
        then have "\<exists>r b1. process_terms subs ?path ?target b = Some (r, b1) \<and> builds b (terms_weight subs) b1"
          using less.hyps [of subs b ?target ?path] less.prems(1) Cons w by simp
        from builds_continue [OF this rest, where n = "terms_weight all"] w Cons
        show ?thesis using AmlScope rs Inr by (simp add: Let_def)
      qed
    next
      case (AmlDevice name contents)
      let ?path = "join_path path (show_name_path name)"
      obtain pr where pr: "from_aml contents = Some pr" using from_aml_total by blast
      show ?thesis
      proof (cases pr)
        case (Inl e)
        then show ?thesis using pr AmlDevice Cons builds_refl [OF less.prems(1)] by simp
      next
        case (Inr props)
        let ?i = "dt_count (tb_tree b)"
        obtain d where d: "add_device parent (fst (classify props)) (opt_list (hid props) @ cids props)
            (resources props) (snd (classify props)) (tb_tree b) = Some (?i, d)"
          and grow: "builds b 1 (b\<lparr>tb_tree := d, scope_map := (scope_map b)(?path \<mapsto> ?i)\<rparr>)"
          and lt: "?i < dt_count d"
          by (rule add_device_builds [OF less.prems])
        let ?b = "b\<lparr>tb_tree := d, scope_map := (scope_map b)(?path \<mapsto> ?i)\<rparr>"
        have w: "terms_weight (sub_terms props) < term_weight t"
          using from_aml_weight [of contents props] pr Inr AmlDevice by (simp add: term_weight_def)
        have "known_parent (Some ?i) ?b" using lt by (simp add: known_parent_def)
        then have "\<exists>r b1. process_terms (sub_terms props) ?path (Some ?i) ?b = Some (r, b1) \<and>
            builds ?b (terms_weight (sub_terms props)) b1"
          using less.hyps [of "sub_terms props" ?b "Some ?i" ?path] builds_ok [OF grow] Cons w by simp
        then have "\<exists>r b1. process_terms (sub_terms props) ?path (Some ?i) ?b = Some (r, b1) \<and>
            builds b (Suc (terms_weight (sub_terms props))) b1"
          using builds_trans [OF grow] by fastforce
        from builds_continue [OF this rest, where n = "terms_weight all"] w Cons
        show ?thesis using AmlDevice pr Inr d by (simp add: Let_def)
      qed
    qed (use rest [OF builds_refl [OF less.prems(1)]] Cons in
        \<open>auto simp: process_terms_other intro: builds_add\<close>)
  qed
qed

section \<open>The walk always ends\<close>

lemma walk_total:
  "\<exists>r. aml_stream p = Some r \<and> (\<forall>depth out. \<exists>out'. format_aml_stream p depth out = Some (r, out'))"
proof (induction "remaining p" arbitrary: p rule: less_induct)
  case less
  obtain r p' where n: "parse_next p = Some (r, p')" using parse_next_total by blast
  consider e where "r = Inl e" | "r = Inr None" | t where "r = Inr (Some t)"
    by (metis option.exhaust sum.exhaust)
  then show ?case
  proof cases
    case 3
    note n' = n [unfolded 3]
    have rest: "\<exists>r. aml_stream p' = Some r \<and>
        (\<forall>depth out. \<exists>out'. format_aml_stream p' depth out = Some (r, out'))"
      by (rule less [OF other_weight [OF n']])
    show ?thesis
    proof (cases "term_contents t")
      case None
      with n' rest show ?thesis by (auto simp: aml_stream.simps [of p] format_aml_stream.simps [of p])
    next
      case (Some c)
      have "remaining c < remaining p" using contents_weight [OF n' Some] by simp
      from less [OF this] obtain rc where rc: "aml_stream c = Some rc"
        "\<forall>depth out. \<exists>out'. format_aml_stream c depth out = Some (rc, out')" by blast
      show ?thesis
      proof (cases rc)
        case (Inl e)
        have "\<exists>out'. format_aml_stream p depth out = Some (Inl e, out')" for depth out
          using spec [OF spec [OF rc(2)], of "depth + 1" "out @ format_term t depth"] n' Some Inl
          by (auto simp: format_aml_stream.simps [of p])
        with rc(1) n' Some Inl show ?thesis by (simp add: aml_stream.simps [of p])
      next
        case (Inr u)
        from rest obtain r' where r': "aml_stream p' = Some r'"
          "\<forall>depth out. \<exists>out'. format_aml_stream p' depth out = Some (r', out')" by blast
        have "\<exists>out'. format_aml_stream p depth out = Some (r', out')" for depth out
          using spec [OF spec [OF rc(2)], of "depth + 1" "out @ format_term t depth"] r'(2) n' Some Inr
          by (fastforce simp: format_aml_stream.simps [of p])
        with rc(1) r'(1) n' Some Inr show ?thesis by (simp add: aml_stream.simps [of p])
      qed
    qed
  qed (use n in \<open>simp_all add: aml_stream.simps [of p] format_aml_stream.simps [of p]\<close>)
qed

lemma handle_dsdt_iff:
  "handle_dsdt table = None \<longleftrightarrow> 36 \<le> length table \<and>
     (if take 4 table = str_bytes ''DSDT'' then \<exists>e. aml_stream (parser_new (drop 36 table)) = Some (Inl e)
      else \<not> utf8_valid (take 4 table))"
proof -
  obtain r out where "aml_stream (parser_new (drop 36 table)) = Some r"
    "format_aml_stream (parser_new (drop 36 table)) 0 [] = Some (r, out)"
    using walk_total by blast
  then show ?thesis by (auto simp: handle_dsdt_def split: sum.splits)
qed

section \<open>Properties\<close>

text \<open>C22: Whatever the bytes of a table, building the device tree from its terms ends without a panic.
  The tree is still a well-formed forest, the devices that were there keep their data, and at most
  one device is added for every byte; this also holds when the walk stops at an error.\<close>

theorem aml_process_terms_safe:
  assumes "dt_wf t" and "terms_of (parser_new bytes) = Some items" and "collect_results items = Inr terms"
  shows "\<exists>r b. process_terms terms [] None (builder_new t) = Some (r, b) \<and> dt_wf (tb_tree b) \<and>
    dt_extends t (tb_tree b) \<and> length (nodes (tb_tree b)) \<le> length (nodes t) + length bytes"
proof -
  have "builder_ok (builder_new t)" "known_parent None (builder_new t)"
    using assms(1) by (simp_all add: builder_ok_def builder_new_def known_parent_def)
  from process_terms_builds [OF this, of terms "[]"] obtain r b k
    where r: "process_terms terms [] None (builder_new t) = Some (r, b)" and b: "builder_ok b"
      and k: "k \<le> terms_weight terms" "dt.grown t k (tb_tree b)"
    by (auto simp: builds_def builder_new_def)
  have "terms_weight terms \<le> length bytes"
    using terms_of_weight [OF assms(2)] collect_results_weight [OF assms(3)]
    by (simp add: remaining_def parser_new_def)
  with r b k show ?thesis by (auto simp: dt.grown_def dt_count_def builder_ok_def)
qed

text \<open>The compatible ids of a device that gives them as a package are lost: a value that begins
  with the opcode of a package is returned as a buffer, which adds no id.\<close>

theorem aml_cid_package_lost:
  assumes "parse_data_object p = Some (Inr value, p')"
    and "peek_u8 p = Some 0x12 \<or> peek_u8 p = Some 0x13"
  shows "push_cids value = []"
proof -
  have "(\<exists>buf. value = AmlBuffer buf)"
    using assms
    by (subst (asm) parse_data_object.simps)
      (auto simp: pbind_Inr_iff peek_u8_def read_u8_def split: if_splits)
  then show ?thesis by (auto simp: push_cids_def opt_list_def)
qed

lemmas value_eval =
  parse_data_object.simps parse_string_def scan_zero.simps read_u16_le_def read_u32_le_def
  read_u64_le_def name_lead_def cont_byte_def str_bytes_def

theorem aml_cid_package_lost_witness:
  "\<exists>value p'. parse_data_object (parser_new [0x12, 0x06, 0x01, 0x0D, 0x41, 0x42, 0x00]) = Some (Inr value, p') \<and>
     push_cids value = [] \<and> as_string (AmlString [0x41, 0x42]) = Some (str_bytes ''AB'')"
proof -
  let ?p = "parser_new [0x12, 0x06, 0x01, 0x0D, 0x41, 0x42, 0x00]"
  have ev: "parse_data_object ?p = Some (Inr (AmlBuffer [0x0D, 0x41, 0x42, 0x00]), ?p\<lparr>cursor := 7\<rparr>)"
    by (simp add: parse_eval value_eval cong: pbind_eval_cong)
  have "peek_u8 ?p = Some 0x12 \<or> peek_u8 ?p = Some 0x13" by (simp add: peek_u8_def parser_new_def)
  from aml_cid_package_lost [OF ev this] ev show ?thesis by (simp add: str_bytes_def)
qed

lemma seg_len_4:
  "seg_len seg 4 =
     (if seg ! 3 = 0x5F then if seg ! 2 = 0x5F then if seg ! 1 = 0x5F then 1 else 2 else 3 else 4)"
  by (simp add: eval_nat_numeral)

theorem aml_process_terms_safe_witness:
  "\<exists>b. process_terms [AmlDevice [0x44, 0x45, 0x56, 0x30] (parser_new [0x08, 0x5F, 0x55, 0x49, 0x44, 0x01])]
       [] None (builder_new dt_new) = Some (Inr (), b) \<and> dt_wf (tb_tree b) \<and> length (nodes (tb_tree b)) = 1 \<and>
     scope_map b (str_bytes [CHR 0x5C, CHR ''D'', CHR ''E'', CHR ''V'', CHR ''0'']) = Some 0"
proof -
  let ?c = "parser_new [0x08, 0x5F, 0x55, 0x49, 0x44, 0x01]"
  let ?bytes = "[0x5B, 0x82, 0x0B, 0x44, 0x45, 0x56, 0x30, 0x08, 0x5F, 0x55, 0x49, 0x44, 0x01] :: u8 list"
  have ev: "terms_of (parser_new ?bytes) = Some [Inr (AmlDevice [0x44, 0x45, 0x56, 0x30] ?c)]"
    by (simp add: parse_eval terms_of.simps cong: pbind_eval_cong)
  have tm: "terms_of ?c = Some [Inr (AmlName [0x5F, 0x55, 0x49, 0x44] AmlOne)]"
    by (simp add: parse_eval value_eval terms_of.simps cong: pbind_eval_cong)
  have nm: "show_name_path [0x5F, 0x55, 0x49, 0x44] = str_bytes ''_UID''"
    "show_name_path [0x44, 0x45, 0x56, 0x30] = str_bytes ''DEV0''"
    by (simp_all add: show_name_path_def str_bytes_def show_byte_def seg_len_4)
  have fa: "from_aml ?c = Some (Inr (props_default\<lparr>uid := Some 1\<rparr>))"
    by (simp add: from_aml_def tm props_step_def props_name_def nm ends_with_def str_bytes_def)
  have pt: "\<exists>b. process_terms [AmlDevice [0x44, 0x45, 0x56, 0x30] ?c] [] None (builder_new dt_new) =
      Some (Inr (), b) \<and> length (nodes (tb_tree b)) = 1 \<and>
      scope_map b (str_bytes [CHR 0x5C, CHR ''D'', CHR ''E'', CHR ''V'', CHR ''0'']) = Some 0"
    by (simp add: fa props_default_def add_device_def builder_new_def dt_new_def nm join_path_def str_bytes_def Let_def)
  show ?thesis
    using aml_process_terms_safe [OF dt_wf_new ev, of "[AmlDevice [0x44, 0x45, 0x56, 0x30] ?c]"] pt by auto
qed

text \<open>C33: \<open>handle_dsdt\<close> panics exactly when the table has a complete header and either its signature is
  \<open>DSDT\<close> and the walk over the rest meets an error, or its signature is another one and not UTF-8.\<close>

theorem dsdt_errors_panic:
  "handle_dsdt table = None \<longleftrightarrow> 36 \<le> length table \<and>
     (if take 4 table = str_bytes ''DSDT'' then \<exists>e. aml_stream (parser_new (drop 36 table)) = Some (Inl e)
      else \<not> utf8_valid (take 4 table))"
  by (rule handle_dsdt_iff)

text \<open>The witness is a table that holds \<open>If (One) { Name (ABCD, 0) }\<close> with a 64-bit constant.\<close>

theorem dsdt_errors_panic_witness:
  "handle_dsdt (str_bytes ''DSDT'' @ replicate 32 0 @
     [0xA0, 0x10, 0x01, 0x08, 0x41, 0x42, 0x43, 0x44, 0x0E, 0, 0, 0, 0, 0, 0, 0, 0]) = None"
proof -
  let ?t = "str_bytes ''DSDT'' @ replicate 32 0 @
     [0xA0, 0x10, 0x01, 0x08, 0x41, 0x42, 0x43, 0x44, 0x0E, 0, 0, 0, 0, 0, 0, 0, 0]"
  have d: "drop 36 ?t = [0xA0, 0x10, 0x01, 0x08, 0x41, 0x42, 0x43, 0x44, 0x0E, 0, 0, 0, 0, 0, 0, 0, 0]"
    by (simp add: str_bytes_def)
  have "aml_stream (parser_new (drop 36 ?t)) = Some (Inl ''ScopeOp PkgLength underflowed'')"
    unfolding d by (simp add: aml_stream.simps parse_eval pfail_def cong: pbind_eval_cong)
  moreover have "36 \<le> length ?t" "take 4 ?t = str_bytes ''DSDT''" by (simp_all add: str_bytes_def)
  ultimately show ?thesis using dsdt_errors_panic [of ?t] by simp
qed

text \<open>A host bridge whose hardware id is the string \<open>PNP0A08\<close> is classified as one; with the same
  id in the compressed form that ACPI uses, the bytes \<open>41 D0 0A 08\<close>, it is not.\<close>

theorem aml_eisa_id_not_recognized:
  "\<exists>p q. from_aml (parser_new ([0x08, 0x5F, 0x48, 0x49, 0x44, 0x0D] @ str_bytes ''PNP0A08'' @ [0])) = Some (Inr p) \<and>
     classify p = (PciHostBridge, Regular) \<and>
     from_aml (parser_new [0x08, 0x5F, 0x48, 0x49, 0x44, 0x0C, 0x41, 0xD0, 0x0A, 0x08]) = Some (Inr q) \<and>
     classify q = (Other, Regular)"
proof -
  have nm: "show_name_path [0x5F, 0x48, 0x49, 0x44] = str_bytes ''_HID''"
    by (simp add: show_name_path_def str_bytes_def show_byte_def seg_len_4)
  have t1: "terms_of (parser_new ([0x08, 0x5F, 0x48, 0x49, 0x44, 0x0D] @ str_bytes ''PNP0A08'' @ [0])) =
      Some [Inr (AmlName [0x5F, 0x48, 0x49, 0x44] (AmlString (str_bytes ''PNP0A08'')))]"
    by (simp add: parse_eval value_eval terms_of.simps cong: pbind_eval_cong)
  have t2: "terms_of (parser_new [0x08, 0x5F, 0x48, 0x49, 0x44, 0x0C, 0x41, 0xD0, 0x0A, 0x08]) =
      Some [Inr (AmlName [0x5F, 0x48, 0x49, 0x44] (AmlInteger 0x080AD041))]"
    by (simp add: parse_eval value_eval terms_of.simps cong: pbind_eval_cong)
  have en: "ends_with (str_bytes ''_HID'') ''_HID''" by (simp add: ends_with_def str_bytes_def)
  have ei: "eisa_string 0x080AD041 = str_bytes ''B@JD041''"
    by (simp add: eisa_string_def hex4_def hex_digit_def str_bytes_def Let_def upt_rec)
  have f1: "from_aml (parser_new ([0x08, 0x5F, 0x48, 0x49, 0x44, 0x0D] @ str_bytes ''PNP0A08'' @ [0])) =
      Some (Inr (props_default\<lparr>hid := Some (str_bytes ''PNP0A08'')\<rparr>))"
    unfolding from_aml_def t1 by (simp add: props_step_def props_name_def nm en)
  have f2: "from_aml (parser_new [0x08, 0x5F, 0x48, 0x49, 0x44, 0x0C, 0x41, 0xD0, 0x0A, 0x08]) =
      Some (Inr (props_default\<lparr>hid := Some (str_bytes ''B@JD041'')\<rparr>))"
    unfolding from_aml_def t2 by (simp add: props_step_def props_name_def nm en ei)
  show ?thesis
    unfolding f1 f2 by (simp add: classify_def Let_def) (simp add: str_bytes_def)
qed

end
