(* ===== verification/Pcie_Config.thy ===== *)
theory Pcie_Config
  imports Vm_Core
begin

text \<open>
  The PCIe configuration space of \<open>kernel/drivers/pcie/src\<close>: addresses (\<open>address.rs\<close>), the memory-mapped
  access of \<open>ecam.rs\<close> and the capability lists of \<open>capability/\<close>. The devices behind the window are
  not part of the program: their registers are a state of any type, read and written through the
  volatile accesses of \<open>bus_ops\<close>. \<open>None\<close> is a failed assertion on the alignment of an offset.
\<close>

section \<open>Addresses\<close>

record bdf =
  segment :: u16
  bus :: u8
  device :: u8
  func :: u8

definition bdf_new :: "u16 \<Rightarrow> u8 \<Rightarrow> u8 \<Rightarrow> u8 \<Rightarrow> bdf" where
  "bdf_new sg bu dv fu = \<lparr>segment = sg, bus = bu, device = dv, func = fu\<rparr>"

definition requester_id :: "bdf \<Rightarrow> u32" where
  "requester_id b = push_bit 8 (ucast (bus b)) OR push_bit 3 (ucast (device b)) OR ucast (func b)"

definition device_id :: "bdf \<Rightarrow> u32" where
  "device_id b = push_bit 16 (ucast (segment b)) OR requester_id b"

section \<open>The ECAM window\<close>

record ecam =
  phys_base :: u64
  e_segment :: u16
  start_bus :: u8
  end_bus :: u8

definition ecam_new :: "u64 \<Rightarrow> u16 \<Rightarrow> u8 \<Rightarrow> u8 \<Rightarrow> ecam" where
  "ecam_new pb sg sb eb = \<lparr>phys_base = pb, e_segment = sg, start_bus = sb, end_bus = eb\<rparr>"

text \<open>Volatile accesses to the registers of the devices.\<close>

record 's bus_ops =
  rd8 :: "'s \<Rightarrow> usize \<Rightarrow> u8"
  rd16 :: "'s \<Rightarrow> usize \<Rightarrow> u16"
  rd32 :: "'s \<Rightarrow> usize \<Rightarrow> u32"
  wr8 :: "'s \<Rightarrow> usize \<Rightarrow> u8 \<Rightarrow> 's"
  wr16 :: "'s \<Rightarrow> usize \<Rightarrow> u16 \<Rightarrow> 's"
  wr32 :: "'s \<Rightarrow> usize \<Rightarrow> u32 \<Rightarrow> 's"

definition cfg_offset :: "ecam \<Rightarrow> bdf \<Rightarrow> u16 \<Rightarrow> usize" where
  "cfg_offset e b offset =
     push_bit 20 (ucast (bus b - start_bus e)) OR push_bit 15 (ucast (device b)) OR
     push_bit 12 (ucast (func b)) OR ucast offset"

definition offset_ptr :: "ecam \<Rightarrow> bdf \<Rightarrow> u16 \<Rightarrow> usize option" where
  "offset_ptr e b offset =
     (if offset > 0x0FFF then None
      else if segment b \<noteq> e_segment e \<or> \<not> (start_bus e \<le> bus b \<and> bus b \<le> end_bus e) then None
      else Some (phys_addr_to_dmap (phys_base e + cfg_offset e b offset)))"

definition ecam_read_u8 :: "'s bus_ops \<Rightarrow> ecam \<Rightarrow> bdf \<Rightarrow> u16 \<Rightarrow> 's \<Rightarrow> u8" where
  "ecam_read_u8 h e b offset s =
     (case offset_ptr e b offset of Some ptr \<Rightarrow> rd8 h s ptr | None \<Rightarrow> 0xFF)"

definition ecam_read_u16 :: "'s bus_ops \<Rightarrow> ecam \<Rightarrow> bdf \<Rightarrow> u16 \<Rightarrow> 's \<Rightarrow> u16 option" where
  "ecam_read_u16 h e b offset s =
     (if offset mod 2 = 0
      then Some (case offset_ptr e b offset of Some ptr \<Rightarrow> rd16 h s ptr | None \<Rightarrow> 0xFFFF)
      else None)"

definition ecam_read_u32 :: "'s bus_ops \<Rightarrow> ecam \<Rightarrow> bdf \<Rightarrow> u16 \<Rightarrow> 's \<Rightarrow> u32 option" where
  "ecam_read_u32 h e b offset s =
     (if offset mod 4 = 0
      then Some (case offset_ptr e b offset of Some ptr \<Rightarrow> rd32 h s ptr | None \<Rightarrow> 0xFFFFFFFF)
      else None)"

definition ecam_write_u8 :: "'s bus_ops \<Rightarrow> ecam \<Rightarrow> bdf \<Rightarrow> u16 \<Rightarrow> u8 \<Rightarrow> 's \<Rightarrow> 's" where
  "ecam_write_u8 h e b offset v s =
     (case offset_ptr e b offset of Some ptr \<Rightarrow> wr8 h s ptr v | None \<Rightarrow> s)"

definition ecam_write_u16 :: "'s bus_ops \<Rightarrow> ecam \<Rightarrow> bdf \<Rightarrow> u16 \<Rightarrow> u16 \<Rightarrow> 's \<Rightarrow> 's option" where
  "ecam_write_u16 h e b offset v s =
     (if offset mod 2 = 0
      then Some (case offset_ptr e b offset of Some ptr \<Rightarrow> wr16 h s ptr v | None \<Rightarrow> s)
      else None)"

definition ecam_write_u32 :: "'s bus_ops \<Rightarrow> ecam \<Rightarrow> bdf \<Rightarrow> u16 \<Rightarrow> u32 \<Rightarrow> 's \<Rightarrow> 's option" where
  "ecam_write_u32 h e b offset v s =
     (if offset mod 4 = 0
      then Some (case offset_ptr e b offset of Some ptr \<Rightarrow> wr32 h s ptr v | None \<Rightarrow> s)
      else None)"

definition enable_bus_master :: "'s bus_ops \<Rightarrow> ecam \<Rightarrow> bdf \<Rightarrow> 's \<Rightarrow> 's option" where
  "enable_bus_master h e b s =
     Option.bind (ecam_read_u16 h e b 0x04 s) (\<lambda>cmd. ecam_write_u16 h e b 0x04 (cmd OR push_bit 2 1) s)"

definition enable_memory_space :: "'s bus_ops \<Rightarrow> ecam \<Rightarrow> bdf \<Rightarrow> 's \<Rightarrow> 's option" where
  "enable_memory_space h e b s =
     Option.bind (ecam_read_u16 h e b 0x04 s) (\<lambda>cmd. ecam_write_u16 h e b 0x04 (cmd OR push_bit 1 1) s)"

section \<open>Standard capabilities\<close>

datatype standard_capability_id =
  PowerManagement | Agp | Vpd | SlotId | Msi | CompactPciHotSwap | PciX | HyperTransport
| VendorSpecific | Debug | CompactPciCentralResource | PciHotPlug | PciBridgeSubsystemVendor
| Agp8x | SecureDevice | PciExpress | MsiX | Sata | AdvancedFeatures | EnhancedAllocation
| UnknownStd u8

definition standard_cap_from :: "u8 \<Rightarrow> standard_capability_id" where
  "standard_cap_from v =
     (if v = 0x01 then PowerManagement else if v = 0x02 then Agp else if v = 0x03 then Vpd
      else if v = 0x04 then SlotId else if v = 0x05 then Msi else if v = 0x06 then CompactPciHotSwap
      else if v = 0x07 then PciX else if v = 0x08 then HyperTransport
      else if v = 0x09 then VendorSpecific else if v = 0x0A then Debug
      else if v = 0x0B then CompactPciCentralResource else if v = 0x0C then PciHotPlug
      else if v = 0x0D then PciBridgeSubsystemVendor else if v = 0x0E then Agp8x
      else if v = 0x0F then SecureDevice else if v = 0x10 then PciExpress
      else if v = 0x11 then MsiX else if v = 0x12 then Sata else if v = 0x13 then AdvancedFeatures
      else if v = 0x14 then EnhancedAllocation else UnknownStd v)"

record cap_iter =
  next_ptr :: u8
  visited :: u64

definition cap_iter_new :: "'s bus_ops \<Rightarrow> ecam \<Rightarrow> bdf \<Rightarrow> 's \<Rightarrow> cap_iter option" where
  "cap_iter_new h e b s =
     map_option
       (\<lambda>status. \<lparr>next_ptr = (if status AND push_bit 4 1 \<noteq> 0 then ecam_read_u8 h e b 0x34 s AND 0xFC else 0),
                  visited = 0\<rparr>)
       (ecam_read_u16 h e b 0x06 s)"

definition cap_next ::
    "'s bus_ops \<Rightarrow> ecam \<Rightarrow> bdf \<Rightarrow> 's \<Rightarrow> cap_iter \<Rightarrow> ((standard_capability_id \<times> u8) \<times> cap_iter) option" where
  "cap_next h e b s it =
     (let current = next_ptr it in
      if current < 0x40 \<or> current > 0xFC then None
      else
        let vbit = push_bit (unat ((current div 4) AND 63)) 1 in
        if visited it AND vbit \<noteq> 0 then None
        else
          let cap_id = ecam_read_u8 h e b (ucast current) s;
              nxt = ecam_read_u8 h e b (ucast current + 1) s AND 0xFC
          in Some ((standard_cap_from cap_id, current),
                   it\<lparr>visited := visited it OR vbit, next_ptr := nxt\<rparr>))"

section \<open>Extended capabilities\<close>

datatype extended_capability_id =
  AdvancedErrorReporting | VirtualChannelNoMfvc | DeviceSerialNumber | PowerBudgeting
| RootComplexLinkDeclaration | RootComplexInternalLinkControl | RootComplexEventCollectorEndpoint
| MultiFunctionVirtualChannel | VirtualChannel | RcrbHeader | ExtVendorSpecific | Acs | Ari | Ats
| SingleRootIoVirt | MultiRootIoVirt | PageRequestInterface | ResizableBar
| DynamicPowerAllocation | TphRequester | LatencyToleranceReporting | SecondaryPciExpress
| DownstreamPortContainment | PrecisionTimeMeasurement | UnknownExt u16

definition extended_cap_from :: "u16 \<Rightarrow> extended_capability_id" where
  "extended_cap_from v =
     (if v = 0x0001 then AdvancedErrorReporting else if v = 0x0002 then VirtualChannelNoMfvc
      else if v = 0x0003 then DeviceSerialNumber else if v = 0x0004 then PowerBudgeting
      else if v = 0x0005 then RootComplexLinkDeclaration
      else if v = 0x0006 then RootComplexInternalLinkControl
      else if v = 0x0007 then RootComplexEventCollectorEndpoint
      else if v = 0x0008 then MultiFunctionVirtualChannel else if v = 0x0009 then VirtualChannel
      else if v = 0x000A then RcrbHeader else if v = 0x000B then ExtVendorSpecific
      else if v = 0x000D then Acs else if v = 0x000E then Ari else if v = 0x000F then Ats
      else if v = 0x0010 then SingleRootIoVirt else if v = 0x0011 then MultiRootIoVirt
      else if v = 0x0013 then PageRequestInterface else if v = 0x0015 then ResizableBar
      else if v = 0x0016 then DynamicPowerAllocation else if v = 0x0017 then TphRequester
      else if v = 0x0018 then LatencyToleranceReporting else if v = 0x0019 then SecondaryPciExpress
      else if v = 0x001D then DownstreamPortContainment
      else if v = 0x001F then PrecisionTimeMeasurement else UnknownExt v)"

record ext_iter =
  x_next_ptr :: u16
  x_count :: nat

definition ext_iter_new :: ext_iter where
  "ext_iter_new = \<lparr>x_next_ptr = 0x100, x_count = 0\<rparr>"

text \<open>The outer \<open>None\<close> is a panic, the inner one the end of the list.\<close>

definition ext_next ::
    "'s bus_ops \<Rightarrow> ecam \<Rightarrow> bdf \<Rightarrow> 's \<Rightarrow> ext_iter \<Rightarrow>
     ((extended_capability_id \<times> u16) \<times> ext_iter) option option" where
  "ext_next h e b s it =
     (let current = x_next_ptr it in
      if current < 0x100 \<or> current > 0xFFC \<or> 64 \<le> x_count it then Some None
      else
        Option.bind (ecam_read_u32 h e b current s) (\<lambda>header.
          if header = 0 \<or> header = 0xFFFFFFFF then Some None
          else
            let cap_id = ucast (header AND 0xFFFF) :: u16;
                next_offset = ucast (drop_bit 20 header AND 0xFFF) :: u16
            in Some (Some ((extended_cap_from cap_id, current),
                           it\<lparr>x_next_ptr := next_offset, x_count := x_count it + 1\<rparr>))))"

section \<open>Walking the lists\<close>

lemma cap_next_Some:
  assumes "cap_next h e b s it = Some ((i, off), it')"
  shows "off = next_ptr it" and "0x40 \<le> off" and "off \<le> 0xFC"
    and "visited it AND push_bit (unat (off div 4 AND 63)) 1 = 0"
    and "visited it' = visited it OR push_bit (unat (off div 4 AND 63)) 1"
    and "next_ptr it' = ecam_read_u8 h e b (ucast off + 1) s AND 0xFC"
proof -
  let ?c = "next_ptr it" and ?v = "push_bit (unat (next_ptr it div 4 AND 63)) 1 :: u64"
  have "?c < 0x40 \<or> ?c > 0xFC \<Longrightarrow> cap_next h e b s it = None"
    by (simp add: cap_next_def Let_def)
  with assms have range: "\<not> ?c < 0x40" "\<not> ?c > 0xFC" by auto
  have "visited it AND ?v \<noteq> 0 \<Longrightarrow> cap_next h e b s it = None"
    by (simp add: cap_next_def Let_def)
  with assms have fresh: "visited it AND ?v = 0" by force
  from assms range fresh have "i = standard_cap_from (ecam_read_u8 h e b (ucast ?c) s) \<and> off = ?c \<and>
      it' = it\<lparr>visited := visited it OR ?v, next_ptr := ecam_read_u8 h e b (ucast ?c + 1) s AND 0xFC\<rparr>"
    unfolding cap_next_def Let_def by auto
  with range fresh show "off = next_ptr it" and "0x40 \<le> off" and "off \<le> 0xFC"
    and "visited it AND push_bit (unat (off div 4 AND 63)) 1 = 0"
    and "visited it' = visited it OR push_bit (unat (off div 4 AND 63)) 1"
    and "next_ptr it' = ecam_read_u8 h e b (ucast off + 1) s AND 0xFC"
    by (simp_all add: not_less)
qed

lemma low_offset_index:
  assumes "c \<le> (0xFC :: u8)"
  shows "unat (c div 4 AND 63) = unat (c div 4)" and "unat (c div 4) < 64"
proof -
  have m: "(63 :: u8) = mask 6" by (simp add: mask_eq_exp_minus_1)
  show lt: "unat (c div 4) < 64" using assms by (simp add: unat_div word_le_nat_alt)
  then show "unat (c div 4 AND 63) = unat (c div 4)" by (simp add: m word_nat_simps)
qed

lemma cap_next_visits:
  assumes "cap_next h e b s it = Some ((i, off), it')"
  shows "\<not> bit (visited it) (unat (off div 4))"
    and "visited it' = visited it OR push_bit (unat (off div 4)) 1"
    and "next_ptr it' AND 3 = 0"
proof -
  note c = cap_next_Some [OF assms]
  note idx = low_offset_index(1) [OF c(3)]
  show "\<not> bit (visited it) (unat (off div 4))"
    using c(4) unfolding idx by (simp add: push_bit_of_1 and_exp_eq_0_iff_not_bit)
  show "visited it' = visited it OR push_bit (unat (off div 4)) 1"
    using c(5) unfolding idx .
  have "(x AND 0xFC) AND 3 = 0" for x :: u8 by (simp add: and.assoc)
  then show "next_ptr it' AND 3 = 0" unfolding c(6) .
qed

function caps_from :: "'s bus_ops \<Rightarrow> ecam \<Rightarrow> bdf \<Rightarrow> 's \<Rightarrow> cap_iter \<Rightarrow> (standard_capability_id \<times> u8) list" where
  "caps_from h e b s it =
     (case cap_next h e b s it of None \<Rightarrow> [] | Some (c, it') \<Rightarrow> c # caps_from h e b s it')"
  by pat_completeness auto
termination
proof (relation "measure (\<lambda>(h, e, b, s, it). card {n. n < 64 \<and> \<not> bit (visited it) n})", goal_cases)
  case (2 h e b s it cit c it')
  then obtain i off where n: "cap_next h e b s it = Some ((i, off), it')" by (cases c) auto
  note v = cap_next_visits [OF n]
  have lt: "unat (off div 4) < 64" using low_offset_index(2) [OF cap_next_Some(3) [OF n]] .
  have "{n. n < 64 \<and> \<not> bit (visited it') n} \<subset> {n. n < 64 \<and> \<not> bit (visited it) n}"
    using v(1) lt by (auto simp: v(2) bit_simps)
  then show ?case by (auto intro: psubset_card_mono)
qed simp

declare caps_from.simps [simp del]

definition find_capability ::
    "'s bus_ops \<Rightarrow> ecam \<Rightarrow> bdf \<Rightarrow> 's \<Rightarrow> standard_capability_id \<Rightarrow> u8 option option" where
  "find_capability h e b s target =
     map_option (\<lambda>it. map_option snd (List.find (\<lambda>(i, _). i = target) (caps_from h e b s it)))
       (cap_iter_new h e b s)"

lemma ext_next_count:
  "ext_next h e b s it = Some (Some (c, it')) \<Longrightarrow> x_count it < 64 \<and> x_count it' = x_count it + 1"
  by (auto simp: ext_next_def Let_def bind_eq_Some_conv split: if_splits)

text \<open>\<open>find_map\<close> stops at the first capability with the wanted id; a panic comes first only if it is
  reached.\<close>

function find_ext_from ::
    "'s bus_ops \<Rightarrow> ecam \<Rightarrow> bdf \<Rightarrow> 's \<Rightarrow> extended_capability_id \<Rightarrow> ext_iter \<Rightarrow> u16 option option" where
  "find_ext_from h e b s target it =
     (case ext_next h e b s it of
        None \<Rightarrow> None
      | Some None \<Rightarrow> Some None
      | Some (Some ((i, off), it')) \<Rightarrow>
          if i = target then Some (Some off) else find_ext_from h e b s target it')"
  by pat_completeness auto
termination
  by (relation "measure (\<lambda>(h, e, b, s, t, it). 64 - x_count it)") (auto dest: ext_next_count)

declare find_ext_from.simps [simp del]

definition find_extended_capability ::
    "'s bus_ops \<Rightarrow> ecam \<Rightarrow> bdf \<Rightarrow> 's \<Rightarrow> extended_capability_id \<Rightarrow> u16 option option" where
  "find_extended_capability h e b s target = find_ext_from h e b s target ext_iter_new"

section \<open>Capability structures\<close>

record power_management_cap =
  pm_offset :: u8
  pme_support :: u16
  d1_support :: bool
  d2_support :: bool

definition pm_read :: "'s bus_ops \<Rightarrow> ecam \<Rightarrow> bdf \<Rightarrow> u8 \<Rightarrow> 's \<Rightarrow> power_management_cap option" where
  "pm_read h e b offset s =
     Option.bind (ecam_read_u16 h e b (ucast offset + 2) s) (\<lambda>pmc.
       Some \<lparr>pm_offset = offset, pme_support = drop_bit 11 pmc AND 0x1F,
             d1_support = (pmc AND push_bit 9 1 \<noteq> 0), d2_support = (pmc AND push_bit 10 1 \<noteq> 0)\<rparr>)"

definition set_power_state ::
    "power_management_cap \<Rightarrow> 's bus_ops \<Rightarrow> ecam \<Rightarrow> bdf \<Rightarrow> u8 \<Rightarrow> 's \<Rightarrow> 's option" where
  "set_power_state c h e b st s =
     Option.bind (ecam_read_u16 h e b (ucast (pm_offset c) + 4) s) (\<lambda>pmcsr.
       ecam_write_u16 h e b (ucast (pm_offset c) + 4) ((pmcsr AND NOT 0x03) OR (ucast st AND 0x03)) s)"

record msi_cap =
  msi_offset :: u8
  is_64bit :: bool
  per_vector_masking :: bool
  multiple_message_capable :: u8

definition msi_read :: "'s bus_ops \<Rightarrow> ecam \<Rightarrow> bdf \<Rightarrow> u8 \<Rightarrow> 's \<Rightarrow> msi_cap option" where
  "msi_read h e b offset s =
     Option.bind (ecam_read_u16 h e b (ucast offset + 2) s) (\<lambda>msg_ctrl.
       Some \<lparr>msi_offset = offset, is_64bit = (msg_ctrl AND push_bit 7 1 \<noteq> 0),
             per_vector_masking = (msg_ctrl AND push_bit 8 1 \<noteq> 0),
             multiple_message_capable = push_bit (unat (drop_bit 1 msg_ctrl AND 0x07)) 1\<rparr>)"

record msix_cap =
  msix_offset :: u8
  table_size :: u16
  table_bir :: u8
  table_offset :: u32
  pba_bir :: u8
  pba_offset :: u32

definition msix_read :: "'s bus_ops \<Rightarrow> ecam \<Rightarrow> bdf \<Rightarrow> u8 \<Rightarrow> 's \<Rightarrow> msix_cap option" where
  "msix_read h e b offset s =
     Option.bind (ecam_read_u16 h e b (ucast offset + 2) s) (\<lambda>msg_ctrl.
     Option.bind (ecam_read_u32 h e b (ucast offset + 4) s) (\<lambda>table_raw.
     Option.bind (ecam_read_u32 h e b (ucast offset + 8) s) (\<lambda>pba_raw.
       Some \<lparr>msix_offset = offset, table_size = (msg_ctrl AND 0x07FF) + 1,
             table_bir = ucast (table_raw AND 0x07), table_offset = table_raw AND NOT 0x07,
             pba_bir = ucast (pba_raw AND 0x07), pba_offset = pba_raw AND NOT 0x07\<rparr>)))"

definition msix_enable :: "msix_cap \<Rightarrow> 's bus_ops \<Rightarrow> ecam \<Rightarrow> bdf \<Rightarrow> 's \<Rightarrow> 's option" where
  "msix_enable c h e b s =
     Option.bind (ecam_read_u16 h e b (ucast (msix_offset c) + 2) s) (\<lambda>msg_ctrl.
       ecam_write_u16 h e b (ucast (msix_offset c) + 2)
         ((msg_ctrl OR push_bit 15 1) AND NOT (push_bit 14 1)) s)"

definition msix_disable :: "msix_cap \<Rightarrow> 's bus_ops \<Rightarrow> ecam \<Rightarrow> bdf \<Rightarrow> 's \<Rightarrow> 's option" where
  "msix_disable c h e b s =
     Option.bind (ecam_read_u16 h e b (ucast (msix_offset c) + 2) s) (\<lambda>msg_ctrl.
       ecam_write_u16 h e b (ucast (msix_offset c) + 2) (msg_ctrl AND NOT (push_bit 15 1)) s)"

record pcie_cap =
  pc_offset :: u8
  device_type :: u8
  max_payload_size_bytes :: usize
  max_read_request_bytes :: usize
  current_link_speed_gen :: u8
  current_link_width :: u8

definition pcie_read :: "'s bus_ops \<Rightarrow> ecam \<Rightarrow> bdf \<Rightarrow> u8 \<Rightarrow> 's \<Rightarrow> pcie_cap option" where
  "pcie_read h e b offset s =
     Option.bind (ecam_read_u16 h e b (ucast offset + 2) s) (\<lambda>pcie_flags.
     Option.bind (ecam_read_u16 h e b (ucast offset + 8) s) (\<lambda>dev_ctl.
     Option.bind (ecam_read_u16 h e b (ucast offset + 18) s) (\<lambda>link_status.
       let mps_code = unat (drop_bit 5 dev_ctl AND 0x07);
           mrrs_code = unat (drop_bit 12 dev_ctl AND 0x07)
       in Some \<lparr>pc_offset = offset, device_type = ucast (drop_bit 4 pcie_flags AND 0x0F),
                max_payload_size_bytes = push_bit mps_code 128,
                max_read_request_bytes = push_bit mrrs_code 128,
                current_link_speed_gen = ucast (link_status AND 0x0F),
                current_link_width = ucast (drop_bit 4 link_status AND 0x3F)\<rparr>)))"

record aer_cap =
  aer_offset :: u16
  uncorrectable_status :: u32
  correctable_status :: u32

definition aer_read :: "'s bus_ops \<Rightarrow> ecam \<Rightarrow> bdf \<Rightarrow> u16 \<Rightarrow> 's \<Rightarrow> aer_cap option" where
  "aer_read h e b offset s =
     Option.bind (ecam_read_u32 h e b (offset + 0x04) s) (\<lambda>u.
     Option.bind (ecam_read_u32 h e b (offset + 0x10) s) (\<lambda>c.
       Some \<lparr>aer_offset = offset, uncorrectable_status = u, correctable_status = c\<rparr>))"

definition clear_errors :: "aer_cap \<Rightarrow> 's bus_ops \<Rightarrow> ecam \<Rightarrow> bdf \<Rightarrow> 's \<Rightarrow> 's option" where
  "clear_errors c h e b s =
     Option.bind (ecam_read_u32 h e b (aer_offset c + 0x04) s) (\<lambda>uncorr.
     Option.bind (ecam_write_u32 h e b (aer_offset c + 0x04) uncorr s) (\<lambda>s1.
     Option.bind (ecam_read_u32 h e b (aer_offset c + 0x10) s1) (\<lambda>corr.
       ecam_write_u32 h e b (aer_offset c + 0x10) corr s1)))"

record sriov_cap =
  sriov_offset :: u16
  initial_vfs :: u16
  total_vfs :: u16
  num_vfs :: u16
  vf_stride :: u16
  vf_device_id :: u16

definition sriov_read :: "'s bus_ops \<Rightarrow> ecam \<Rightarrow> bdf \<Rightarrow> u16 \<Rightarrow> 's \<Rightarrow> sriov_cap option" where
  "sriov_read h e b offset s =
     Option.bind (ecam_read_u16 h e b (offset + 0x0C) s) (\<lambda>iv.
     Option.bind (ecam_read_u16 h e b (offset + 0x0E) s) (\<lambda>tv.
     Option.bind (ecam_read_u16 h e b (offset + 0x10) s) (\<lambda>nv.
     Option.bind (ecam_read_u16 h e b (offset + 0x16) s) (\<lambda>vs.
     Option.bind (ecam_read_u16 h e b (offset + 0x1A) s) (\<lambda>vd.
       Some \<lparr>sriov_offset = offset, initial_vfs = iv, total_vfs = tv, num_vfs = nv,
             vf_stride = vs, vf_device_id = vd\<rparr>)))))"

definition enable_vfs :: "sriov_cap \<Rightarrow> 's bus_ops \<Rightarrow> ecam \<Rightarrow> bdf \<Rightarrow> u16 \<Rightarrow> 's \<Rightarrow> 's option" where
  "enable_vfs c h e b n s =
     Option.bind (ecam_write_u16 h e b (sriov_offset c + 0x10) n s) (\<lambda>s1.
     Option.bind (ecam_read_u16 h e b (sriov_offset c + 0x08) s1) (\<lambda>ctrl.
       ecam_write_u16 h e b (sriov_offset c + 0x08) (ctrl OR 0x01) s1))"

section \<open>The window\<close>

definition bdf_ok :: "bdf \<Rightarrow> bool" where
  "bdf_ok b \<longleftrightarrow> device b < 32 \<and> func b < 8"

lemma cfg_offset_bit:
  assumes "bdf_ok b" and "offset \<le> 0x0FFF"
  shows "bit (cfg_offset e b offset) n \<longleftrightarrow>
    n < 12 \<and> bit offset n \<or> 12 \<le> n \<and> n < 15 \<and> bit (func b) (n - 12) \<or>
    15 \<le> n \<and> n < 20 \<and> bit (device b) (n - 15) \<or> 20 \<le> n \<and> n < 28 \<and> bit (bus b - start_bus e) (n - 20)"
proof -
  have "offset < 2 ^ 12" using assms(2) by (simp add: word_less_nat_alt word_le_nat_alt)
  note o = bit_lt_pow2 [OF this]
  have "func b < 2 ^ 3" "device b < 2 ^ 5" using assms(1) by (simp_all add: bdf_ok_def)
  note f = this [THEN bit_lt_pow2]
  have u: "bit (bus b - start_bus e) k \<Longrightarrow> k < 8" for k using bit_imp_le_length by fastforce
  consider "n < 12" | "12 \<le> n" "n < 15" | "15 \<le> n" "n < 20" | "20 \<le> n" "n < 28" | "28 \<le> n" by linarith
  then show ?thesis
  proof cases
    case 5
    then show ?thesis using o [of n] f(1) [of "n - 12"] f(2) [of "n - 15"] u [of "n - 20"]
      by (auto simp: cfg_offset_def bit_simps)
  next
    case 4
    then show ?thesis using o [of n] f(1) [of "n - 12"] f(2) [of "n - 15"]
      by (auto simp: cfg_offset_def bit_simps)
  next
    case 3
    then show ?thesis using o [of n] f(1) [of "n - 12"] by (auto simp: cfg_offset_def bit_simps)
  next
    case 2
    then show ?thesis using o [of n] by (auto simp: cfg_offset_def bit_simps)
  next
    case 1
    then show ?thesis by (auto simp: cfg_offset_def bit_simps)
  qed
qed

lemma cfg_offset_inj:
  assumes eq: "cfg_offset e b o1 = cfg_offset e c o2"
    and ok: "bdf_ok b" "bdf_ok c" "o1 \<le> 0x0FFF" "o2 \<le> 0x0FFF"
  shows "bus b = bus c \<and> device b = device c \<and> func b = func c \<and> o1 = o2"
proof -
  have bits: "bit (cfg_offset e b o1) n = bit (cfg_offset e c o2) n" for n using eq by simp
  note bits = bits [unfolded cfg_offset_bit [OF ok(1,3)] cfg_offset_bit [OF ok(2,4)]]
  have lim: "o1 < 2 ^ 12" "o2 < 2 ^ 12" "func b < 2 ^ 3" "func c < 2 ^ 3" "device b < 2 ^ 5" "device c < 2 ^ 5"
    using ok by (simp_all add: bdf_ok_def word_less_nat_alt word_le_nat_alt)
  have "o1 = o2"
  proof (rule bit_word_eqI)
    fix n show "bit o1 n = bit o2 n"
    proof (cases "n < 12")
      case True
      then show ?thesis using bits [of n] by simp
    next
      case False
      then show ?thesis using lt_pow2_bit [OF lim(1)] lt_pow2_bit [OF lim(2)] by simp
    qed
  qed
  moreover have "func b = func c"
  proof (rule bit_word_eqI)
    fix n show "bit (func b) n = bit (func c) n"
    proof (cases "n < 3")
      case True
      then show ?thesis using bits [of "n + 12"] by simp
    next
      case False
      then show ?thesis using lt_pow2_bit [OF lim(3)] lt_pow2_bit [OF lim(4)] by simp
    qed
  qed
  moreover have "device b = device c"
  proof (rule bit_word_eqI)
    fix n show "bit (device b) n = bit (device c) n"
    proof (cases "n < 5")
      case True
      then show ?thesis using bits [of "n + 15"] by simp
    next
      case False
      then show ?thesis using lt_pow2_bit [OF lim(5)] lt_pow2_bit [OF lim(6)] by simp
    qed
  qed
  moreover have "bus b - start_bus e = bus c - start_bus e"
  proof (rule bit_word_eqI)
    fix n assume "n < LENGTH(8)"
    then show "bit (bus b - start_bus e) n = bit (bus c - start_bus e) n" using bits [of "n + 20"] by simp
  qed
  ultimately show ?thesis by simp
qed

lemma cfg_offset_less:
  assumes "bdf_ok b" and "offset \<le> 0x0FFF"
  shows "unat (cfg_offset e b offset) < 2 ^ 28"
proof -
  have "cfg_offset e b offset AND mask 28 = cfg_offset e b offset"
    by (rule bit_word_eqI) (auto simp: bit_simps cfg_offset_bit [OF assms])
  then have "unat (cfg_offset e b offset) = unat (cfg_offset e b offset) mod 2 ^ 28"
    by (metis unat_and_mask)
  then show ?thesis by (metis mod_less_divisor zero_less_numeral zero_less_power)
qed

section \<open>Capability lists end\<close>

abbreviation cap_slots :: "(standard_capability_id \<times> u8) list \<Rightarrow> nat list" where
  "cap_slots cs \<equiv> map (\<lambda>(_, off). unat (off div 4)) cs"

lemma caps_from_slots:
  "distinct (cap_slots (caps_from h e b s it)) \<and>
   (\<forall>n \<in> set (cap_slots (caps_from h e b s it)). 16 \<le> n \<and> n < 64 \<and> \<not> bit (visited it) n)"
proof (induction h e b s it rule: caps_from.induct)
  case (1 h e b s it)
  show ?case
  proof (cases "cap_next h e b s it")
    case None
    then show ?thesis by (simp add: caps_from.simps [of h e b s it])
  next
    case (Some r)
    then obtain i off it' where n: "cap_next h e b s it = Some ((i, off), it')" by (cases r) auto
    note c = cap_next_Some [OF n] and v = cap_next_visits [OF n]
    have IH: "distinct (cap_slots (caps_from h e b s it'))"
      "\<forall>n \<in> set (cap_slots (caps_from h e b s it')). 16 \<le> n \<and> n < 64 \<and> \<not> bit (visited it') n"
      using 1 [OF n refl] by simp_all
    have slot: "16 \<le> unat (off div 4)" "unat (off div 4) < 64"
      using c(2,3) by (simp_all add: unat_div word_le_nat_alt)
    have old: "\<not> bit (visited it') n \<Longrightarrow> \<not> bit (visited it) n \<and> n \<noteq> unat (off div 4)" if "n < 64" for n
      using that by (auto simp: v(2) bit_simps)
    have "caps_from h e b s it = (i, off) # caps_from h e b s it'"
      by (simp add: caps_from.simps [of h e b s it] n)
    then show ?thesis using IH slot v(1) old by (auto simp del: set_map)
  qed
qed

lemma caps_from_length: "length (caps_from h e b s it) \<le> 48"
proof -
  have "set (cap_slots (caps_from h e b s it)) \<subseteq> {16..<64}" using caps_from_slots by fastforce
  then have "card (set (cap_slots (caps_from h e b s it))) \<le> card {16..<64 :: nat}"
    by (intro card_mono) simp_all
  then show ?thesis using caps_from_slots [of h e b s it] by (simp add: distinct_card del: set_map)
qed

lemma caps_from_distinct: "distinct (map snd (caps_from h e b s it))"
proof -
  have "distinct (map (\<lambda>off. unat (off div 4)) (map snd (caps_from h e b s it)))"
    using caps_from_slots [of h e b s it] by (simp add: case_prod_unfold comp_def)
  then show ?thesis by (rule distinct_map [THEN iffD1, THEN conjunct1])
qed

section \<open>Properties\<close>

text \<open>C34: Two accesses through a window of 48-bit physical memory that both reach a device and give
  the same address are accesses to the same register of the same function.\<close>

theorem pcie_ecam_injective:
  assumes "unat (phys_base e) + 2 ^ 28 \<le> 2 ^ 48" and "bdf_ok b" and "bdf_ok c"
    and "offset_ptr e b o1 = Some ptr" and "offset_ptr e c o2 = Some ptr"
  shows "b = c \<and> o1 = o2"
proof -
  have r: "o1 \<le> 0x0FFF" "o2 \<le> 0x0FFF" "segment b = segment c"
    and p: "ptr = phys_addr_to_dmap (phys_base e + cfg_offset e b o1)"
      "ptr = phys_addr_to_dmap (phys_base e + cfg_offset e c o2)"
    using assms(4,5) by (auto simp: offset_ptr_def not_less split: if_splits)
  have low: "unat (phys_base e + cfg_offset e b o1) < 2 ^ 48"
      "unat (phys_base e + cfg_offset e c o2) < 2 ^ 48"
    using cfg_offset_less [OF assms(2) r(1), of e] cfg_offset_less [OF assms(3) r(2), of e] assms(1)
    by (simp_all add: unat_word_ariths)
  have "phys_base e + cfg_offset e b o1 = phys_base e + cfg_offset e c o2"
    using p dmap_low(2) [OF low(1)] dmap_low(2) [OF low(2)] by simp
  then have "cfg_offset e b o1 = cfg_offset e c o2" by simp
  from cfg_offset_inj [OF this assms(2,3) r(1,2)] r(3) show ?thesis by simp
qed

theorem pcie_ecam_injective_witness:
  "offset_ptr (ecam_new 0x4010000000 0 0 255) (bdf_new 0 1 2 3) 0x10 = Some (phys_addr_to_dmap 0x4010113010) \<and>
   {(b, off). bdf_ok b \<and> offset_ptr (ecam_new 0x4010000000 0 0 255) b off = Some (phys_addr_to_dmap 0x4010113010)} =
   {(bdf_new 0 1 2 3, 0x10)}"
proof -
  let ?e = "ecam_new 0x4010000000 0 0 255"
  have ok: "bdf_ok (bdf_new 0 1 2 3)" by (simp add: bdf_ok_def bdf_new_def)
  have at: "offset_ptr ?e (bdf_new 0 1 2 3) 0x10 = Some (phys_addr_to_dmap 0x4010113010)"
    by (simp add: offset_ptr_def ecam_new_def bdf_new_def cfg_offset_def)
  have "unat (phys_base ?e) + 2 ^ 28 \<le> 2 ^ 48" by (simp add: ecam_new_def)
  from pcie_ecam_injective [OF this _ ok _ at]
  have "x = (bdf_new 0 1 2 3, 0x10)"
    if "bdf_ok (fst x)" "offset_ptr ?e (fst x) (snd x) = Some (phys_addr_to_dmap 0x4010113010)" for x
    using that by (simp add: prod_eq_iff)
  then have "{(b, off). bdf_ok b \<and> offset_ptr ?e b off = Some (phys_addr_to_dmap 0x4010113010)} \<subseteq>
      {(bdf_new 0 1 2 3, 0x10)}" by fastforce
  with at ok show ?thesis by blast
qed

text \<open>C35: Whatever a device answers, the walk over its standard capabilities ends after at most 48
  entries, and no offset is returned twice: also a list that points back into itself.\<close>

theorem pcie_capabilities_bounded:
  "length (caps_from h e b s it) \<le> 48 \<and> distinct (map snd (caps_from h e b s it)) \<and>
   (\<exists>r. cap_iter_new h e b s = Some r) \<and> (\<exists>r. find_capability h e b s target = Some r)"
proof -
  have "\<exists>r. cap_iter_new h e b s = Some r" by (simp add: cap_iter_new_def ecam_read_u16_def)
  then show ?thesis
    by (auto simp: caps_from_length caps_from_distinct find_capability_def)
qed

text \<open>The walk over the extended capabilities panics when it follows a pointer whose two low bits
  are not zero: unlike the pointers of the standard list they are not masked, and the read of the
  next header asserts its alignment.\<close>

theorem pcie_extended_unaligned_panics:
  assumes "ecam_read_u32 h e b 0x100 s = Some hdr" and "hdr \<noteq> 0" and "hdr \<noteq> 0xFFFFFFFF"
    and "extended_cap_from (ucast (hdr AND 0xFFFF)) \<noteq> target"
    and "0x100 \<le> (ucast (drop_bit 20 hdr AND 0xFFF) :: u16)"
    and "(ucast (drop_bit 20 hdr AND 0xFFF) :: u16) \<le> 0xFFC"
    and "(ucast (drop_bit 20 hdr AND 0xFFF) :: u16) mod 4 \<noteq> 0"
  shows "find_extended_capability h e b s target = None"
proof -
  let ?n = "ucast (drop_bit 20 hdr AND 0xFFF) :: u16"
  let ?it = "ext_iter_new\<lparr>x_next_ptr := ?n, x_count := 1\<rparr>"
  have one: "ext_next h e b s ext_iter_new = Some (Some ((extended_cap_from (ucast (hdr AND 0xFFFF)), 0x100), ?it))"
    using assms(1-3) by (simp add: ext_next_def ext_iter_new_def Let_def)
  have "\<not> ?n < 0x100" "\<not> 0xFFC < ?n" using assms(5,6) by (simp_all add: not_less)
  then have two: "ext_next h e b s ?it = None"
    using assms(7) by (simp add: ext_next_def ecam_read_u32_def)
  then have "find_ext_from h e b s target ?it = None"
    by (subst find_ext_from.simps) simp
  then show ?thesis
    using assms(4)
    by (simp add: find_extended_capability_def find_ext_from.simps [of h e b s target ext_iter_new] one)
qed

text \<open>A function of which every 32-bit register reads as \<open>0x10200003\<close>, a serial number capability whose
  pointer is \<open>0x102\<close>.\<close>

theorem pcie_extended_unaligned_panics_witness:
  "find_extended_capability
     \<lparr>rd8 = \<lambda>_ _. 0, rd16 = \<lambda>_ _. 0, rd32 = \<lambda>_ _. 0x10200003,
      wr8 = \<lambda>s _ _. s, wr16 = \<lambda>s _ _. s, wr32 = \<lambda>s _ _. s\<rparr>
     (ecam_new 0x4010000000 0 0 255) (bdf_new 0 0 0 0) () AdvancedErrorReporting = None"
  by (rule pcie_extended_unaligned_panics [where hdr = "0x10200003"])
    (simp_all add: ecam_read_u32_def offset_ptr_def ecam_new_def bdf_new_def extended_cap_from_def)

end
