(* ===== verification/Pcie_Devices.thy ===== *)
theory Pcie_Devices
  imports Pcie_Config Device_Tree "HOL-Library.Monad_Syntax"
begin

text \<open>
  Discovery of PCIe functions: the probing of base address registers
  (\<open>kernel/drivers/pcie/src/bar.rs\<close>) and the scan of the buses into the device tree (\<open>scan.rs\<close>).
\<close>

section \<open>Base address registers\<close>

datatype bar_type =
  Memory32 u32 u32 bool
| Memory64 u64 u64 bool
| Io u32 u32

definition CMD_REG_OFFSET :: u16 where "CMD_REG_OFFSET = 0x04"

definition bar_offset :: "nat \<Rightarrow> u16" where
  "bar_offset i = 0x10 + of_nat (i * 4)"

text \<open>Reading a register, its mask after writing all ones, and putting the value back.\<close>

definition probe_reg ::
    "'s bus_ops \<Rightarrow> ecam \<Rightarrow> bdf \<Rightarrow> u16 \<Rightarrow> 's \<Rightarrow> (u32 \<times> u32 \<times> 's) option" where
  "probe_reg h e b offset s =
     do { original_val \<leftarrow> ecam_read_u32 h e b offset s;
          s1 \<leftarrow> ecam_write_u32 h e b offset 0xFFFFFFFF s;
          msk \<leftarrow> ecam_read_u32 h e b offset s1;
          s2 \<leftarrow> ecam_write_u32 h e b offset original_val s1;
          Some (original_val, msk, s2) }"

function probe_loop ::
    "'s bus_ops \<Rightarrow> ecam \<Rightarrow> bdf \<Rightarrow> nat \<Rightarrow> bar_type list \<Rightarrow> 's \<Rightarrow> (bar_type list \<times> 's) option" where
  "probe_loop h e b bar_i bars s =
     (if bar_i < 6 then
        do { (original_val, msk, s2) \<leftarrow> probe_reg h e b (bar_offset bar_i) s;
             let is_io = (original_val AND 0x1 \<noteq> 0);
                 type_bits = drop_bit 1 original_val AND 0x3;
                 prefetchable = (drop_bit 3 original_val AND 0x1 \<noteq> 0)
             in if is_io then
                  if msk = 0 \<or> msk = NOT 0 then probe_loop h e b (bar_i + 1) bars s2
                  else
                    probe_loop h e b (bar_i + 1)
                      (bars @ [Io (original_val AND 0xFFFFFFFC) (NOT (msk AND 0xFFFFFFFC) + 1)]) s2
                else if type_bits = 0 then
                  if msk = 0 \<or> msk = NOT 0 then probe_loop h e b (bar_i + 1) bars s2
                  else
                    probe_loop h e b (bar_i + 1)
                      (bars @ [Memory32 (original_val AND 0xFFFFFFF0) (NOT (msk AND 0xFFFFFFF0) + 1)
                                 prefetchable]) s2
                else if type_bits = 2 then
                  if bar_i \<ge> 5 then probe_loop h e b (bar_i + 1) bars s2
                  else
                    do { (original_high, mask_high, s3) \<leftarrow> probe_reg h e b (bar_offset bar_i + 4) s2;
                         let raw_mask = push_bit 32 (ucast mask_high) OR (ucast msk AND 0xFFFFFFF0) :: u64;
                             addr = push_bit 32 (ucast original_high) OR (ucast original_val AND 0xFFFFFFF0)
                         in if raw_mask = 0 then probe_loop h e b (bar_i + 2) bars s3
                            else
                              probe_loop h e b (bar_i + 2)
                                (bars @ [Memory64 addr (NOT raw_mask + 1) prefetchable]) s3 }
                else probe_loop h e b (bar_i + 1) bars s2 }
      else Some (bars, s))"
  by pat_completeness auto
termination
  by (relation "measure (\<lambda>(h, e, b, i, _). 6 - i)") auto

declare probe_loop.simps [simp del]

text \<open>The guard writes the command register back when it is dropped.\<close>

definition probe_bars :: "'s bus_ops \<Rightarrow> ecam \<Rightarrow> bdf \<Rightarrow> 's \<Rightarrow> (bar_type list \<times> 's) option" where
  "probe_bars h e b s =
     do { original_command \<leftarrow> ecam_read_u16 h e b CMD_REG_OFFSET s;
          s1 \<leftarrow> ecam_write_u16 h e b CMD_REG_OFFSET (original_command AND NOT 0x03) s;
          (bars, s2) \<leftarrow> probe_loop h e b 0 [] s1;
          s3 \<leftarrow> ecam_write_u16 h e b CMD_REG_OFFSET original_command s2;
          Some (bars, s3) }"

section \<open>Scanning the buses\<close>

definition hex_lower :: "nat \<Rightarrow> 'a::len word \<Rightarrow> rust_string" where
  "hex_lower n w =
     map (\<lambda>i. let d = unat (drop_bit (4 * (n - 1 - i)) w AND 0xF) in
              if d < 10 then 0x30 + of_nat d else 0x61 + of_nat (d - 10)) [0..<n]"

definition bar_resources :: "bar_type \<Rightarrow> resource list" where
  "bar_resources bar =
     (case bar of
        Memory32 addr sz _ \<Rightarrow> [resource.Mmio (ucast addr) (ucast addr + ucast sz)]
      | Memory64 addr sz _ \<Rightarrow> [resource.Mmio addr (addr + sz)]
      | Io _ _ \<Rightarrow> [])"

definition pci_compat :: "u16 \<Rightarrow> u16 \<Rightarrow> u8 \<Rightarrow> u8 \<Rightarrow> rust_string list" where
  "pci_compat vendor_id dev_id class_code subclass =
     [str_bytes ''pci'' @ hex_lower 4 vendor_id @ str_bytes '','' @ hex_lower 4 dev_id,
      str_bytes ''pci-class-'' @ hex_lower 2 class_code @ hex_lower 2 subclass,
      str_bytes ''pci-device'']"

lemma bus_decreases: "x < (y :: u8) \<Longrightarrow> 255 - unat y < 255 - unat x"
  using unsigned_less [of y, where ?'a = nat] by (simp add: word_less_nat_alt)

text \<open>
  \<open>scan_bus\<close> and \<open>scan_function\<close> call each other; the loops over devices and functions are lists of
  the numbers still to come. A bridge is followed only to a higher bus, which bounds the recursion.
\<close>

function scan_bus :: "'s bus_ops \<Rightarrow> ecam \<Rightarrow> u8 \<Rightarrow> 's \<times> device_tree \<Rightarrow> ('s \<times> device_tree) option"
  and scan_devices ::
    "'s bus_ops \<Rightarrow> ecam \<Rightarrow> u8 \<Rightarrow> u8 list \<Rightarrow> 's \<times> device_tree \<Rightarrow> ('s \<times> device_tree) option"
  and scan_functions ::
    "'s bus_ops \<Rightarrow> ecam \<Rightarrow> u8 \<Rightarrow> u8 \<Rightarrow> u8 list \<Rightarrow> 's \<times> device_tree \<Rightarrow> ('s \<times> device_tree) option"
  and scan_function :: "'s bus_ops \<Rightarrow> ecam \<Rightarrow> bdf \<Rightarrow> 's \<times> device_tree \<Rightarrow> ('s \<times> device_tree) option" where
  "scan_bus h e bs st = scan_devices h e bs (map of_nat [0..<32]) st"
| "scan_devices h e bs [] st = Some st"
| "scan_devices h e bs (d # ds) st =
     (let b = bdf_new (e_segment e) bs d 0 in
      do { vendor \<leftarrow> ecam_read_u16 h e b 0x00 (fst st);
           if vendor = NOT 0 then scan_devices h e bs ds st
           else
             do { st1 \<leftarrow> scan_function h e b st;
                  st2 \<leftarrow> (if ecam_read_u8 h e b 0x0E (fst st1) AND 0x80 \<noteq> 0
                           then scan_functions h e bs d (map of_nat [1..<8]) st1
                           else Some st1);
                  scan_devices h e bs ds st2 } })"
| "scan_functions h e bs d [] st = Some st"
| "scan_functions h e bs d (f # fs) st =
     (let b = bdf_new (e_segment e) bs d f in
      do { vendor \<leftarrow> ecam_read_u16 h e b 0x00 (fst st);
           st1 \<leftarrow> (if vendor \<noteq> NOT 0 then scan_function h e b st else Some st);
           scan_functions h e bs d fs st1 })"
| "scan_function h e b st =
     do { vendor_id \<leftarrow> ecam_read_u16 h e b 0x00 (fst st);
          dev_id \<leftarrow> ecam_read_u16 h e b 0x02 (fst st);
          let class_code = ecam_read_u8 h e b 0x0B (fst st);
              subclass = ecam_read_u8 h e b 0x0A (fst st);
              header_type = ecam_read_u8 h e b 0x0E (fst st) AND 0x07
          in if header_type = 0x00 then
               do { (bars, s') \<leftarrow> probe_bars h e b (fst st);
                    (_, t') \<leftarrow> add_device None Other (pci_compat vendor_id dev_id class_code subclass)
                                 (concat (map bar_resources bars)) Regular (snd st);
                    Some (s', t') }
             else if header_type = 0x01 then
               let secondary_bus = ecam_read_u8 h e b 0x19 (fst st);
                   subordinate_bus = ecam_read_u8 h e b 0x1A (fst st)
               in if secondary_bus > bus b \<and> secondary_bus \<le> subordinate_bus
                  then scan_bus h e secondary_bus st
                  else Some st
             else Some st }"
  by pat_completeness auto
termination
  by (relation "measures
    [\<lambda>x. case x of Inl (Inl (_, _, bs, _)) \<Rightarrow> 255 - unat bs | Inl (Inr (_, _, bs, _)) \<Rightarrow> 255 - unat bs
           | Inr (Inl (_, _, bs, _)) \<Rightarrow> 255 - unat bs | Inr (Inr (_, _, b, _)) \<Rightarrow> 255 - unat (bus b),
     \<lambda>x. case x of Inl (Inl _) \<Rightarrow> 1000 | Inl (Inr (_, _, _, ds, _)) \<Rightarrow> 20 * length ds + 1
           | Inr (Inl (_, _, _, _, fs, _)) \<Rightarrow> 2 * length fs + 1 | Inr (Inr _) \<Rightarrow> 0]")
    (auto simp: bdf_new_def bus_decreases)

lemmas scan_simps = scan_bus.simps scan_devices.simps scan_functions.simps scan_function.simps

declare scan_simps [simp del]

definition enumerate_segment :: "'s bus_ops \<Rightarrow> ecam \<Rightarrow> 's \<times> device_tree \<Rightarrow> ('s \<times> device_tree) option" where
  "enumerate_segment h e st = scan_bus h e (start_bus e) st"

section \<open>What base address registers are\<close>

text \<open>
  The registers of a function at their addresses, and how the PCI specification says they behave: a
  write to a base address register sets the bits that it implements, \<open>wm\<close>, the others read as
  \<open>fx\<close>; writing a value that was read restores the register, the last write counts, and the command
  register does not change them.
\<close>

definition cfg_ptr :: "ecam \<Rightarrow> bdf \<Rightarrow> u16 \<Rightarrow> usize" where
  "cfg_ptr e b offset = phys_addr_to_dmap (phys_base e + cfg_offset e b offset)"

definition mapped :: "ecam \<Rightarrow> bdf \<Rightarrow> bool" where
  "mapped e b \<longleftrightarrow> segment b = e_segment e \<and> start_bus e \<le> bus b \<and> bus b \<le> end_bus e"

definition bar_laws :: "'s bus_ops \<Rightarrow> ecam \<Rightarrow> bdf \<Rightarrow> (nat \<Rightarrow> u32) \<Rightarrow> (nat \<Rightarrow> u32) \<Rightarrow> bool" where
  "bar_laws h e b wm fx \<longleftrightarrow>
     (let cmd = cfg_ptr e b CMD_REG_OFFSET in
      (\<forall>s v w. wr16 h (wr16 h s cmd v) cmd w = wr16 h s cmd w) \<and>
      (\<forall>s. wr16 h s cmd (rd16 h s cmd) = s) \<and>
      (\<forall>i < 6. let p = cfg_ptr e b (bar_offset i) in
         (\<forall>s v w. wr32 h (wr32 h s p v) p w = wr32 h s p w) \<and>
         (\<forall>s. wr32 h s p (rd32 h s p) = s) \<and>
         (\<forall>s v. rd32 h (wr32 h s p v) p = (v AND wm i) OR fx i) \<and>
         (\<forall>s v. rd32 h (wr16 h s cmd v) p = rd32 h s p)))"

text \<open>Decoding the registers, given as their values and their masks.\<close>

fun decode_bars :: "(u32 \<times> u32) list \<Rightarrow> bar_type list" where
  "decode_bars [] = []"
| "decode_bars ((v, m) # regs) =
     (let pf = bit v 3 in
      if bit v 0 then
        (if m = 0 \<or> m = - 1 then [] else [Io (v AND NOT 3) (- (m AND NOT 3))]) @ decode_bars regs
      else if \<not> bit v 1 \<and> \<not> bit v 2 then
        (if m = 0 \<or> m = - 1 then [] else [Memory32 (v AND NOT 0xF) (- (m AND NOT 0xF)) pf]) @ decode_bars regs
      else if \<not> bit v 1 \<and> bit v 2 then
        (case regs of
           [] \<Rightarrow> []
         | (vh, mh) # regs' \<Rightarrow>
             let raw = push_bit 32 (ucast mh) OR ucast (m AND NOT 0xF) :: u64 in
             (if raw = 0 then []
              else [Memory64 (push_bit 32 (ucast vh) OR ucast (v AND NOT 0xF)) (- raw) pf]) @
             decode_bars regs')
      else decode_bars regs)"

lemma offset_ptr_mapped: "mapped e b \<Longrightarrow> offset \<le> 0x0FFF \<Longrightarrow> offset_ptr e b offset = Some (cfg_ptr e b offset)"
  by (simp add: offset_ptr_def mapped_def cfg_ptr_def)

lemma bar_offsets:
  assumes "i < 6"
  shows "bar_offset i \<le> 0x0FFF" "bar_offset i mod 4 = 0" "bar_offset i + 4 = bar_offset (Suc i)"
proof -
  have "i = 0 \<or> i = 1 \<or> i = 2 \<or> i = 3 \<or> i = 4 \<or> i = 5" using assms by linarith
  then show "bar_offset i \<le> 0x0FFF" "bar_offset i mod 4 = 0" "bar_offset i + 4 = bar_offset (Suc i)"
    by (auto simp: bar_offset_def)
qed

lemma probe_reg_laws:
  assumes "bar_laws h e b wm fx" and "mapped e b" and "i < 6"
  shows "probe_reg h e b (bar_offset i) s =
    Some (rd32 h s (cfg_ptr e b (bar_offset i)), wm i OR fx i, s)"
proof -
  let ?p = "cfg_ptr e b (bar_offset i)"
  have law: "wr32 h (wr32 h s ?p v) ?p w = wr32 h s ?p w" "wr32 h s ?p (rd32 h s ?p) = s"
    "rd32 h (wr32 h s ?p v) ?p = (v AND wm i) OR fx i" for s v w
    using assms(1,3) by (simp_all add: bar_laws_def Let_def)
  have ones: "(0xFFFFFFFF :: u32) = - 1" by simp
  show ?thesis
    using bar_offsets [OF assms(3)]
    by (simp add: probe_reg_def ecam_read_u32_def ecam_write_u32_def offset_ptr_mapped [OF assms(2)] law ones)
qed

text \<open>The tests of the source on single bits.\<close>

lemma bar_bits:
  fixes v :: u32
  shows "v AND 0x1 \<noteq> 0 \<longleftrightarrow> bit v 0" and "bit (drop_bit 3 v) 0 \<longleftrightarrow> bit v 3"
    and "drop_bit 1 v AND 0x3 = 0 \<longleftrightarrow> \<not> bit v 1 \<and> \<not> bit v 2"
    and "drop_bit 1 v AND 0x3 = 2 \<longleftrightarrow> \<not> bit v 1 \<and> bit v 2"
proof -
  have m: "(3 :: u32) = mask 2" by (simp add: mask_eq_exp_minus_1)
  have one: "x AND 1 \<noteq> 0 \<longleftrightarrow> bit x 0" for x :: u32 using and_exp_eq_0_iff_not_bit [of x 0] by simp
  show "v AND 0x1 \<noteq> 0 \<longleftrightarrow> bit v 0" by (rule one)
  show "bit (drop_bit 3 v) 0 \<longleftrightarrow> bit v 3" by (simp add: bit_drop_bit_eq)
  have two: "x AND 3 = c \<longleftrightarrow> (bit x 0 \<longleftrightarrow> bit c 0) \<and> (bit x 1 \<longleftrightarrow> bit c 1)"
    if c: "c = 0 \<or> c = 2" for x c :: u32
  proof
    assume "x AND 3 = c"
    then have "bit (x AND 3) n = bit c n" for n by simp
    from this [of 0] this [of 1] show "(bit x 0 \<longleftrightarrow> bit c 0) \<and> (bit x 1 \<longleftrightarrow> bit c 1)"
      unfolding m by (simp add: bit_simps)
  next
    assume bits: "(bit x 0 \<longleftrightarrow> bit c 0) \<and> (bit x 1 \<longleftrightarrow> bit c 1)"
    show "x AND 3 = c"
    proof (rule bit_word_eqI)
      fix n :: nat
      have "n = 0 \<or> n = 1 \<or> 2 \<le> n" by linarith
      moreover have "2 \<le> n \<Longrightarrow> \<not> bit c n" using c by (auto simp: bit_2_iff)
      ultimately show "bit (x AND 3) n = bit c n" unfolding m using bits by (auto simp: bit_simps)
    qed
  qed
  have shifted: "bit (drop_bit 1 v) 0 = bit v 1" "bit (drop_bit 1 v) 1 = bit v 2"
    by (simp_all add: bit_drop_bit_eq numeral_2_eq_2)
  show "drop_bit 1 v AND 0x3 = 0 \<longleftrightarrow> \<not> bit v 1 \<and> \<not> bit v 2"
    using two [of 0 "drop_bit 1 v"] unfolding shifted by simp
  show "drop_bit 1 v AND 0x3 = 2 \<longleftrightarrow> \<not> bit v 1 \<and> bit v 2"
    using two [of 2 "drop_bit 1 v"] unfolding shifted by (simp add: bit_2_iff)
qed

lemma bar_masks:
  "(0xFFFFFFFC :: u32) = NOT 3" "(0xFFFFFFF0 :: u32) = NOT 0xF" "NOT x + 1 = - (x :: 'a::len word)"
  "ucast m AND (0xFFFFFFF0 :: u64) = ucast (m AND NOT 0xF :: u32)"
proof -
  show "(0xFFFFFFFC :: u32) = NOT 3" "(0xFFFFFFF0 :: u32) = NOT 0xF" by simp_all
  show "NOT x + 1 = - x" by (simp add: minus_eq_not_plus_1)
  have "(0xFFFFFFF0 :: u64) = ucast (NOT 0xF :: u32)" by simp
  then show "ucast m AND (0xFFFFFFF0 :: u64) = ucast (m AND NOT 0xF :: u32)"
    by (simp only: unsigned_and_eq)
qed

lemma probe_loop_end: "probe_loop h e b 6 bars s = Some (bars, s)"
  by (simp add: probe_loop.simps)

lemma probe_loop_laws:
  assumes "bar_laws h e b wm fx" and "mapped e b"
  shows "i \<le> 6 \<Longrightarrow> probe_loop h e b i bars s =
    Some (bars @ decode_bars (map (\<lambda>j. (rd32 h s (cfg_ptr e b (bar_offset j)), wm j OR fx j)) [i..<6]), s)"
proof (induction "6 - i" arbitrary: i bars rule: less_induct)
  case less
  let ?r = "\<lambda>j. (rd32 h s (cfg_ptr e b (bar_offset j)), wm j OR fx j)"
  show ?case
  proof (cases "i < 6")
    case False
    with less.prems have "i = 6" by simp
    then show ?thesis by (simp add: probe_loop_end)
  next
    case True
    note reg = probe_reg_laws [OF assms True]
    have step: "map ?r [i..<6] = ?r i # map ?r [Suc i..<6]" using True by (simp add: upt_conv_Cons)
    have IH1: "probe_loop h e b (Suc i) bars s = Some (bars @ decode_bars (map ?r [Suc i..<6]), s)" for bars
      using less.hyps [of "Suc i"] True by simp
    let ?v = "rd32 h s (cfg_ptr e b (bar_offset i))"
    note unfold = reg bar_bits bar_masks Let_def bind.bind_lunit prod.case
    consider "bit ?v 0" | "\<not> bit ?v 0" "\<not> bit ?v 1" "\<not> bit ?v 2" | "\<not> bit ?v 0" "bit ?v 1"
      | "\<not> bit ?v 0" "\<not> bit ?v 1" "bit ?v 2" by blast
    then show ?thesis
    proof cases
      case 4
      show ?thesis
      proof (cases "i = 5")
        case True
        with 4 show ?thesis
          unfolding step
          by (subst probe_loop.simps, simp only: reg [unfolded True] True unfold) (simp add: probe_loop_end)
      next
        case False
        with True have lt: "Suc i < 6" by simp
        note reg' = probe_reg_laws [OF assms lt]
        have step': "map ?r [Suc i..<6] = ?r (Suc i) # map ?r [Suc (Suc i)..<6]" using lt by (simp add: upt_conv_Cons)
        have IH2: "probe_loop h e b (Suc (Suc i)) bars s = Some (bars @ decode_bars (map ?r [Suc (Suc i)..<6]), s)"
          for bars using less.hyps [of "Suc (Suc i)"] lt by simp
        have "\<not> 5 \<le> i" using lt by simp
        with 4 show ?thesis
          unfolding step step'
          by (subst probe_loop.simps, simp only: reg' bar_offsets(3) [OF True] True unfold) (simp add: IH2)
      qed
    qed (subst step, subst probe_loop.simps, simp only: True unfold, simp add: IH1)+
  qed
qed

lemma probe_bars_laws:
  assumes "bar_laws h e b wm fx" and "mapped e b"
  shows "probe_bars h e b s =
    Some (decode_bars (map (\<lambda>j. (rd32 h s (cfg_ptr e b (bar_offset j)), wm j OR fx j)) [0..<6]), s)"
proof -
  let ?cmd = "cfg_ptr e b CMD_REG_OFFSET"
  have law: "wr16 h (wr16 h s ?cmd v) ?cmd w = wr16 h s ?cmd w" "wr16 h s ?cmd (rd16 h s ?cmd) = s"
    "j < 6 \<Longrightarrow> rd32 h (wr16 h s ?cmd v) (cfg_ptr e b (bar_offset j)) = rd32 h s (cfg_ptr e b (bar_offset j))"
    for s v w j
    using assms(1) by (simp_all add: bar_laws_def Let_def)
  have regs: "map (\<lambda>j. (rd32 h (wr16 h s ?cmd v) (cfg_ptr e b (bar_offset j)), wm j OR fx j)) [0..<6] =
      map (\<lambda>j. (rd32 h s (cfg_ptr e b (bar_offset j)), wm j OR fx j)) [0..<6]" for v
    by (simp add: law)
  have cmd: "offset_ptr e b CMD_REG_OFFSET = Some ?cmd" "CMD_REG_OFFSET mod 2 = 0"
    using offset_ptr_mapped [OF assms(2), of CMD_REG_OFFSET] by (simp_all add: CMD_REG_OFFSET_def)
  show ?thesis
    by (simp add: probe_bars_def ecam_read_u16_def ecam_write_u16_def cmd law(1,2)
        probe_loop_laws [OF assms, of 0] regs del: upt.simps)
qed

section \<open>Sizes\<close>

text \<open>
  A base address register as the specification describes it: its size \<open>2 ^ k\<close> and its address. The
  value that the register reads and the mask that it reads after all ones were written. A register of
  the I/O space decodes 32 address bits, or 16 with the upper half hardwired to zero.
\<close>

datatype bar_desc =
  NoBar
| Mem32Bar nat bool u32
| IoBar nat u32
| Io16Bar nat u32
| Mem64Bar nat bool u64

definition pf_bit :: "bool \<Rightarrow> u32" where
  "pf_bit pf = (if pf then 8 else 0)"

definition type_64 :: u32 where
  "type_64 = 4"

fun bar_regs :: "bar_desc \<Rightarrow> (u32 \<times> u32) list" where
  "bar_regs NoBar = [(0, 0)]"
| "bar_regs (Mem32Bar k pf a) = [(a OR pf_bit pf, NOT (mask k) OR pf_bit pf)]"
| "bar_regs (IoBar k a) = [(a OR 1, NOT (mask k) OR 1)]"
| "bar_regs (Io16Bar k a) = [(a OR 1, (mask 16 AND NOT (mask k)) OR 1)]"
| "bar_regs (Mem64Bar k pf a) =
     [(ucast a OR type_64 OR pf_bit pf, ucast (NOT (mask k) :: u64) OR type_64 OR pf_bit pf),
      (ucast (drop_bit 32 a), ucast (drop_bit 32 (NOT (mask k) :: u64)))]"

fun bar_desc_ok :: "bar_desc \<Rightarrow> bool" where
  "bar_desc_ok NoBar = True"
| "bar_desc_ok (Mem32Bar k pf a) \<longleftrightarrow> 4 \<le> k \<and> k < 32 \<and> a AND mask k = 0"
| "bar_desc_ok (IoBar k a) \<longleftrightarrow> 2 \<le> k \<and> k < 32 \<and> a AND mask k = 0"
| "bar_desc_ok (Io16Bar k a) \<longleftrightarrow> 2 \<le> k \<and> k < 16 \<and> a AND mask k = 0 \<and> a < 2 ^ 16"
| "bar_desc_ok (Mem64Bar k pf a) \<longleftrightarrow> 4 \<le> k \<and> k < 64 \<and> a AND mask k = 0"

text \<open>
  What the code makes of a register. For an I/O register of 16 address bits it takes the hardwired zeros
  for address bits too, and the size comes out \<open>0xFFFF0000\<close> too large.
\<close>

fun bar_of :: "bar_desc \<Rightarrow> bar_type list" where
  "bar_of NoBar = []"
| "bar_of (Mem32Bar k pf a) = [Memory32 a (2 ^ k) pf]"
| "bar_of (IoBar k a) = [Io a (2 ^ k)]"
| "bar_of (Io16Bar k a) = [Io a (0xFFFF0000 + 2 ^ k)]"
| "bar_of (Mem64Bar k pf a) = [Memory64 a (2 ^ k) pf]"

lemma aligned_bit: "(a :: 'a::len word) AND mask k = 0 \<Longrightarrow> n < k \<Longrightarrow> \<not> bit a n"
proof
  assume z: "a AND mask k = 0" and n: "n < k" and b: "bit a n"
  from b n bit_imp_le_length [OF b] have "bit (a AND mask k) n" by (simp add: bit_simps)
  then show False using z by simp
qed

lemma neg_not_mask: "- (NOT (mask k)) = (2 ^ k :: 'a::len word)"
  by (simp add: minus_eq_not_plus_1 mask_eq_exp_minus_1)

lemma type_64_bit: "bit type_64 n \<longleftrightarrow> n = 2"
proof -
  have "(4 :: u32) = 2 ^ 2" by simp
  then show ?thesis unfolding type_64_def by (simp only: bit_exp_iff) (auto simp: possible_bit_def)
qed

lemma pf_bit_bit: "bit (pf_bit pf) n \<longleftrightarrow> pf \<and> n = 3"
proof -
  have "(8 :: u32) = 2 ^ 3" by simp
  then have "bit (8 :: u32) n \<longleftrightarrow> n = 3" by (simp only: bit_exp_iff) (auto simp: possible_bit_def)
  then show ?thesis by (cases pf) (simp_all only: pf_bit_def if_True if_False bit_0_eq bot_apply, simp_all)
qed

lemmas low_masks =
  mask_eq_exp_minus_1 [of 2, where ?'a = u32, simplified, symmetric]
  mask_eq_exp_minus_1 [of 4, where ?'a = u32, simplified, symmetric]

text \<open>A mask is neither all zeros nor all ones when some bit is set and another is not.\<close>

lemma mask_implemented: "bit (m :: u32) i \<Longrightarrow> \<not> bit m j \<Longrightarrow> j < 32 \<Longrightarrow> m \<noteq> 0 \<and> m \<noteq> - 1"
  by auto

lemma decode_mem32:
  assumes "4 \<le> k" "k < 32" "a AND mask k = 0"
  shows "decode_bars ((a OR pf_bit pf, NOT (mask k) OR pf_bit pf) # regs) = Memory32 a (2 ^ k) pf # decode_bars regs"
proof -
  have low: "n < 4 \<Longrightarrow> \<not> bit a n" for n using aligned_bit [OF assms(3), of n] assms(1) by simp
  have "NOT (mask k) OR pf_bit pf \<noteq> 0 \<and> NOT (mask k) OR pf_bit pf \<noteq> - 1"
    by (rule mask_implemented [of _ 31 0]) (use assms in \<open>simp_all add: bit_simps pf_bit_bit\<close>)
  moreover have "(a OR pf_bit pf) AND NOT 0xF = a" unfolding low_masks
    by (rule bit_word_eqI) (auto simp: bit_simps pf_bit_bit dest: low)
  moreover have "(NOT (mask k) OR pf_bit pf) AND NOT 0xF = NOT (mask k)" unfolding low_masks
    using assms(1) by (intro bit_word_eqI) (auto simp: bit_simps pf_bit_bit)
  ultimately show ?thesis
    using low [of 0] low [of 1] low [of 2] low [of 3] by (simp add: bit_or_iff pf_bit_bit neg_not_mask)
qed

lemma decode_io:
  assumes "2 \<le> k" "k < 32" "a AND mask k = 0"
  shows "decode_bars ((a OR 1, NOT (mask k) OR 1) # regs) = Io a (2 ^ k) # decode_bars regs"
proof -
  have low: "n < 2 \<Longrightarrow> \<not> bit a n" for n using aligned_bit [OF assms(3), of n] assms(1) by simp
  have "NOT (mask k) OR 1 \<noteq> (0 :: u32) \<and> NOT (mask k) OR 1 \<noteq> (- 1 :: u32)"
    by (rule mask_implemented [of _ 31 1]) (use assms in \<open>simp_all add: bit_simps\<close>)
  moreover have "(a OR 1) AND NOT 3 = a" unfolding low_masks
    by (rule bit_word_eqI) (auto simp: bit_simps bit_1_iff dest: low)
  moreover have "(NOT (mask k) OR 1) AND NOT 3 = (NOT (mask k) :: u32)" unfolding low_masks
    using assms(1) by (intro bit_word_eqI) (auto simp: bit_simps bit_1_iff)
  moreover have "bit (a OR 1) 0" by (simp add: bit_or_iff)
  ultimately show ?thesis by (simp add: neg_not_mask)
qed

lemma neg_mask_16:
  assumes "2 \<le> k" "k < 16"
  shows "- (mask 16 AND NOT (mask k)) = (0xFFFF0000 + 2 ^ k :: u32)"
proof -
  have "k = 2 \<or> k = 3 \<or> k = 4 \<or> k = 5 \<or> k = 6 \<or> k = 7 \<or> k = 8 \<or> k = 9 \<or> k = 10 \<or> k = 11 \<or>
      k = 12 \<or> k = 13 \<or> k = 14 \<or> k = 15" using assms by presburger
  then show ?thesis by (elim disjE) (simp_all add: mask_eq_exp_minus_1)
qed

lemma decode_io16:
  assumes "2 \<le> k" "k < 16" "a AND mask k = 0"
  shows "decode_bars ((a OR 1, (mask 16 AND NOT (mask k)) OR 1) # regs) = Io a (0xFFFF0000 + 2 ^ k) # decode_bars regs"
proof -
  have low: "n < 2 \<Longrightarrow> \<not> bit a n" for n using aligned_bit [OF assms(3), of n] assms(1) by simp
  have "(mask 16 AND NOT (mask k)) OR 1 \<noteq> (0 :: u32) \<and> (mask 16 AND NOT (mask k)) OR 1 \<noteq> (- 1 :: u32)"
    by (rule mask_implemented [of _ 15 1]) (use assms in \<open>simp_all add: bit_simps\<close>)
  moreover have "(a OR 1) AND NOT 3 = a" unfolding low_masks
    by (rule bit_word_eqI) (auto simp: bit_simps bit_1_iff dest: low)
  moreover have "((mask 16 AND NOT (mask k)) OR 1) AND NOT 3 = (mask 16 AND NOT (mask k) :: u32)" unfolding low_masks
    using assms(1) by (intro bit_word_eqI) (auto simp: bit_simps bit_1_iff)
  moreover have "bit (a OR 1) 0" by (simp add: bit_or_iff)
  ultimately show ?thesis using neg_mask_16 [OF assms(1,2)] by simp
qed

lemma decode_mem64:
  fixes a :: u64
  assumes "4 \<le> k" "k < 64" "a AND mask k = 0"
  shows "decode_bars ((ucast a OR type_64 OR pf_bit pf, ucast (NOT (mask k) :: u64) OR type_64 OR pf_bit pf) #
      (ucast (drop_bit 32 a), ucast (drop_bit 32 (NOT (mask k) :: u64))) # regs) =
    Memory64 a (2 ^ k) pf # decode_bars regs"
proof -
  have low: "n < 4 \<Longrightarrow> \<not> bit a n" for n using aligned_bit [OF assms(3), of n] assms(1) by simp
  have join: "push_bit 32 (ucast (ucast (drop_bit 32 w) :: u32)) OR
      ucast ((ucast w OR type_64 OR pf_bit pf) AND NOT 0xF) = w" if "\<And>n. bit w n \<Longrightarrow> 4 \<le> n" for w :: u64
    unfolding low_masks
    by (rule bit_word_eqI) (auto simp: bit_simps type_64_bit pf_bit_bit dest: that)
  have m: "bit (NOT (mask k) :: u64) n \<Longrightarrow> 4 \<le> n" for n using assms(1) by (auto simp: bit_simps)
  have h: "bit a n \<Longrightarrow> 4 \<le> n" for n using low [of n] by linarith
  have "bit (NOT (mask k) :: u64) 63" using assms by (simp add: bit_simps)
  then have nz: "NOT (mask k) \<noteq> (0 :: u64)" by auto
  have "push_bit 32 (ucast (ucast (drop_bit 32 a) :: u32)) OR ucast ((ucast a OR type_64 OR pf_bit pf) AND NOT 0xF) = a"
    by (rule join) (rule h)
  moreover have "push_bit 32 (ucast (ucast (drop_bit 32 (NOT (mask k) :: u64)) :: u32)) OR
      ucast ((ucast (NOT (mask k) :: u64) OR type_64 OR pf_bit pf) AND NOT 0xF) = (NOT (mask k) :: u64)"
    by (rule join) (rule m)
  ultimately show ?thesis
    using low [of 0] low [of 1] low [of 2] low [of 3] nz
    by (simp add: Let_def bit_or_iff type_64_bit pf_bit_bit neg_not_mask bit_simps)
qed

lemma decode_bar:
  assumes "bar_desc_ok d"
  shows "decode_bars (bar_regs d @ regs) = bar_of d @ decode_bars regs"
  using assms
  by (cases d) (simp_all add: decode_mem32 decode_io decode_io16 decode_mem64 del: decode_bars.simps, simp)

lemma decode_layout:
  "\<forall>d \<in> set ds. bar_desc_ok d \<Longrightarrow> decode_bars (concat (map bar_regs ds)) = concat (map bar_of ds)"
  by (induction ds) (simp_all add: decode_bar)

section \<open>The scan\<close>

lemma probe_reg_total: "offset mod 4 = 0 \<Longrightarrow> \<exists>v m s'. probe_reg h e b offset s = Some (v, m, s')"
  by (simp add: probe_reg_def ecam_read_u32_def ecam_write_u32_def)

lemma probe_loop_total: "i \<le> 7 \<Longrightarrow> \<exists>r. probe_loop h e b i bars s = Some r"
proof (induction "7 - i" arbitrary: i bars s rule: less_induct)
  case less
  show ?case
  proof (cases "i < 6")
    case False
    then show ?thesis by (simp add: probe_loop.simps)
  next
    case True
    have IH: "\<exists>r. probe_loop h e b (i + 1) bars s = Some r" "\<exists>r. probe_loop h e b (i + 2) bars s = Some r"
      if "i < 6" for bars s
      using less.hyps [of "i + 1"] less.hyps [of "i + 2"] that by simp_all
    obtain v m s2 where r: "probe_reg h e b (bar_offset i) s = Some (v, m, s2)"
      using probe_reg_total [OF bar_offsets(2) [OF True], of h e b s] by blast
    have "\<exists>vh mh s3. probe_reg h e b (bar_offset i + 4) s2 = Some (vh, mh, s3)" if "i < 5"
    proof -
      have "bar_offset (Suc i) mod 4 = 0" by (rule bar_offsets(2)) (use that in simp)
      then show ?thesis using probe_reg_total bar_offsets(3) [OF True] by metis
    qed
    with r IH True show ?thesis
      by (subst probe_loop.simps) (auto simp: Let_def simp del: add_2_eq_Suc' add_2_eq_Suc)
  qed
qed

lemma probe_bars_total: "\<exists>bars s'. probe_bars h e b s = Some (bars, s')"
proof -
  have "CMD_REG_OFFSET mod 2 = 0" by (simp add: CMD_REG_OFFSET_def)
  then obtain c s1 where 1: "ecam_read_u16 h e b CMD_REG_OFFSET s = Some c"
    "ecam_write_u16 h e b CMD_REG_OFFSET (c AND NOT 3) s = Some s1"
    by (auto simp: ecam_read_u16_def ecam_write_u16_def)
  obtain bars s2 where 2: "probe_loop h e b 0 [] s1 = Some (bars, s2)"
    using probe_loop_total [of 0 h e b "[]" s1] by auto
  obtain s3 where "ecam_write_u16 h e b CMD_REG_OFFSET c s2 = Some s3"
    using \<open>CMD_REG_OFFSET mod 2 = 0\<close> by (auto simp: ecam_write_u16_def)
  with 1 2 show ?thesis by (simp add: probe_bars_def)
qed

text \<open>What a part of the scan does: it does not panic, the tree grows, and devices whose registers
  follow the specification are left as they were.\<close>

definition lawful :: "'s bus_ops \<Rightarrow> ecam \<Rightarrow> bool" where
  "lawful h e \<longleftrightarrow> (\<forall>b. mapped e b \<longrightarrow> (\<exists>wm fx. bar_laws h e b wm fx))"

definition scans :: "'s bus_ops \<Rightarrow> ecam \<Rightarrow> 's \<times> device_tree \<Rightarrow> ('s \<times> device_tree) option \<Rightarrow> bool" where
  "scans h e st r \<longleftrightarrow> (dt_wf (snd st) \<longrightarrow>
     (\<exists>s' t' k. r = Some (s', t') \<and> dt.grown (snd st) k t' \<and> (lawful h e \<longrightarrow> s' = fst st)))"

lemma scans_refl: "scans h e st (Some st)"
  using dt.grown_refl [of "snd st"] by (auto simp: scans_def prod_eq_iff)

lemma scans_bind:
  assumes "scans h e st m" and "\<And>st'. m = Some st' \<Longrightarrow> scans h e st' (f st')"
  shows "scans h e st (m \<bind> f)"
  unfolding scans_def
proof
  assume "dt_wf (snd st)"
  with assms(1) obtain s1 t1 k where 1: "m = Some (s1, t1)" "dt.grown (snd st) k t1" "lawful h e \<longrightarrow> s1 = fst st"
    by (auto simp: scans_def)
  then have "dt_wf (snd (s1, t1))" by (simp add: dt.grown_def)
  with assms(2) [OF 1(1)] obtain s2 t2 j
    where 2: "f (s1, t1) = Some (s2, t2)" "dt.grown t1 j t2" "lawful h e \<longrightarrow> s2 = s1"
    by (auto simp: scans_def)
  show "\<exists>s' t' k. m \<bind> f = Some (s', t') \<and> dt.grown (snd st) k t' \<and> (lawful h e \<longrightarrow> s' = fst st)"
    using 1 2 dt.grown_trans [OF 1(2) 2(2)] by auto
qed

lemma scans_read16:
  assumes "offset mod 2 = 0" and "\<And>v. ecam_read_u16 h e b offset s = Some v \<Longrightarrow> scans h e st (f v)"
  shows "scans h e st (ecam_read_u16 h e b offset s \<bind> f)"
  using assms by (simp add: ecam_read_u16_def)

lemma scans_endpoint:
  assumes "mapped e b"
  shows "scans h e st
    (do { (bars, s') \<leftarrow> probe_bars h e b (fst st);
          (_, t') \<leftarrow> add_device None class ids (res bars) priority (snd st);
          Some (s', t') })"
  unfolding scans_def
proof
  assume wf: "dt_wf (snd st)"
  obtain bars s' where p: "probe_bars h e b (fst st) = Some (bars, s')" using probe_bars_total [of h e b "fst st"] by blast
  have same: "lawful h e \<longrightarrow> s' = fst st"
    using p probe_bars_laws [OF _ assms] assms by (force simp: lawful_def)
  obtain t' where "add_data None (class, ids, res bars, priority) (snd st) = Some (dt_count (snd st), t')"
    and "dt.grown (snd st) (Suc 0) t'"
    using dt.grown_add [OF dt.grown_refl [OF wf], of None] by (metis option.distinct(1))
  with p same show "\<exists>s'' t'' k. (do { (bars, s') \<leftarrow> probe_bars h e b (fst st);
        (_, t') \<leftarrow> add_device None class ids (res bars) priority (snd st); Some (s', t') }) = Some (s'', t'') \<and>
      dt.grown (snd st) k t'' \<and> (lawful h e \<longrightarrow> s'' = fst st)"
    by (auto simp: add_data_def)
qed

lemma unmapped_header: "\<not> mapped e b \<Longrightarrow> ecam_read_u8 h e b offset s = 0xFF"
  by (auto simp: ecam_read_u8_def offset_ptr_def mapped_def)

lemma scan_scans:
  "scans h e st (scan_bus h e bs st)" "scans h e st (scan_devices h e bs ds st)"
  "scans h e st (scan_functions h e bs d fs st)" "scans h e st (scan_function h e b st)"
proof (induction h e bs st and h e bs ds st and h e bs d fs st and h e b st
    rule: scan_bus_scan_devices_scan_functions_scan_function.induct)
  case (6 h e b st)
  obtain v w where r: "ecam_read_u16 h e b 0 (fst st) = Some v" "ecam_read_u16 h e b 2 (fst st) = Some w"
    by (simp add: ecam_read_u16_def)
  show ?case
  proof (cases "mapped e b")
    case True
    then show ?thesis
      by (subst scan_function.simps) (auto simp: r Let_def intro!: scans_endpoint scans_refl 6 [OF r])
  next
    case False
    then show ?thesis
      by (subst scan_function.simps)
        (auto simp: Let_def unmapped_header intro!: scans_read16 scans_refl)
  qed
next
  case (3 h e bs d ds st)
  show ?case
    by (subst scan_simps, unfold Let_def, intro scans_read16)
      (simp, auto intro!: scans_bind scans_refl 3 simp: Let_def simp del: One_nat_def)
next
  case (5 h e bs d f fs st)
  show ?case
    by (subst scan_simps, unfold Let_def, intro scans_read16)
      (simp, auto intro!: scans_bind scans_refl 5 simp: Let_def)
qed (auto simp: scan_simps(1,2,4) intro!: scans_refl)

section \<open>Properties\<close>

text \<open>C24: Probing a function whose registers follow the specification returns exactly the base address
  registers that it implements, with their addresses, and leaves every register of the function as it
  was. The sizes are right for memory registers and for I/O registers of 32 address bits; for an I/O
  register of 16 address bits the size is \<open>0xFFFF0000\<close> too large.\<close>

theorem pcie_probe_bars_exact:
  assumes "bar_laws h e b wm fx" and "mapped e b" and "\<forall>d \<in> set ds. bar_desc_ok d"
    and "map (\<lambda>j. (rd32 h s (cfg_ptr e b (bar_offset j)), wm j OR fx j)) [0..<6] = concat (map bar_regs ds)"
  shows "probe_bars h e b s = Some (concat (map bar_of ds), s)"
  using probe_bars_laws [OF assms(1,2)] decode_layout [OF assms(3)] assms(4) by simp

text \<open>The witness is a function with one 4 KiB memory register, of which it stores the upper 20 bits.\<close>

definition example_ecam :: ecam where
  "example_ecam = ecam_new 0x4010000000 0 0 255"

definition example_hw :: "(u16 \<times> 20 word) bus_ops" where
  "example_hw =
     \<lparr>rd8 = \<lambda>_ _. 0, rd16 = \<lambda>s _. fst s,
      rd32 = \<lambda>s p. if p = cfg_ptr example_ecam (bdf_new 0 0 1 0) 0x10 then push_bit 12 (ucast (snd s)) else 0,
      wr8 = \<lambda>s _ _. s, wr16 = \<lambda>s _ v. (v, snd s),
      wr32 = \<lambda>s p v. if p = cfg_ptr example_ecam (bdf_new 0 0 1 0) 0x10 then (fst s, ucast (drop_bit 12 v)) else s\<rparr>"

lemma example_ptrs:
  assumes "i < 6"
  shows "cfg_ptr example_ecam (bdf_new 0 0 1 0) (bar_offset i) = cfg_ptr example_ecam (bdf_new 0 0 1 0) 0x10 \<longleftrightarrow> i = 0"
proof -
  have "i = 0 \<or> i = 1 \<or> i = 2 \<or> i = 3 \<or> i = 4 \<or> i = 5" using assms by linarith
  then show ?thesis
    by (auto simp: bar_offset_def cfg_ptr_def example_ecam_def ecam_new_def bdf_new_def cfg_offset_def
        phys_addr_to_dmap_def is_kernel_address_def DMAP_START_def VA_WIDTH_def)
qed

lemma example_laws:
  "bar_laws example_hw example_ecam (bdf_new 0 0 1 0) (\<lambda>i. if i = 0 then NOT (mask 12) else 0) (\<lambda>_. 0)"
proof -
  have s: "ucast (drop_bit 12 (push_bit 12 (ucast r :: u32))) = r" for r :: "20 word"
    by (rule bit_word_eqI) (auto simp: bit_simps)
  have v: "push_bit 12 (ucast (ucast (drop_bit 12 w) :: 20 word)) = w AND NOT (mask 12)" for w :: u32
    by (rule bit_word_eqI) (auto simp: bit_simps)
  show ?thesis
    unfolding bar_laws_def Let_def using example_ptrs
    by (auto simp: example_hw_def s v)
qed

theorem pcie_probe_bars_exact_witness:
  "probe_bars example_hw example_ecam (bdf_new 0 0 1 0) (7, 0x10000) =
   Some ([Memory32 0x10000000 0x1000 False], (7, 0x10000))"
proof -
  let ?ds = "[Mem32Bar 12 False 0x10000000, NoBar, NoBar, NoBar, NoBar, NoBar]"
  have ok: "\<forall>d \<in> set ?ds. bar_desc_ok d" by (simp add: mask_eq_exp_minus_1)
  have m: "mapped example_ecam (bdf_new 0 0 1 0)"
    by (simp add: mapped_def example_ecam_def ecam_new_def bdf_new_def)
  have regs: "map (\<lambda>j. (rd32 example_hw (7, 0x10000) (cfg_ptr example_ecam (bdf_new 0 0 1 0) (bar_offset j)),
      (if j = 0 then NOT (mask 12) else 0) OR 0)) [0..<6] = concat (map bar_regs ?ds)"
    using example_ptrs by (simp add: example_hw_def pf_bit_def upt_rec)
  show ?thesis
    using pcie_probe_bars_exact [OF example_laws m ok regs] by simp
qed

text \<open>C25: Whatever the devices answer, the scan of a segment ends without a panic, with a well-formed
  tree in which the devices found before are unchanged; and if the registers follow the
  specification, the scan leaves all of them as they were.\<close>

theorem pcie_scan_safe:
  assumes "dt_wf t"
  shows "\<exists>s' t'. enumerate_segment h e (s, t) = Some (s', t') \<and> dt_wf t' \<and> dt_extends t t' \<and>
    (lawful h e \<longrightarrow> s' = s)"
  using scan_scans(1) [of h e "(s, t)" "start_bus e"] assms
  by (auto simp: enumerate_segment_def scans_def dt.grown_def)

text \<open>The witness is a segment in which no function answers.\<close>

theorem pcie_scan_safe_witness:
  "\<exists>t'. enumerate_segment
       \<lparr>rd8 = \<lambda>_ _. 0xFF, rd16 = \<lambda>_ _. 0xFFFF, rd32 = \<lambda>_ _. 0xFFFFFFFF,
        wr8 = \<lambda>s _ _. s, wr16 = \<lambda>s _ _. s, wr32 = \<lambda>s _ _. s\<rparr> example_ecam ((), dt_new) = Some ((), t') \<and>
     dt_wf t' \<and> dt_extends dt_new t'"
  using pcie_scan_safe [OF dt_wf_new, where s = "()" and e = example_ecam and
      h = "\<lparr>rd8 = \<lambda>_ _. 0xFF, rd16 = \<lambda>_ _. 0xFFFF, rd32 = \<lambda>_ _. 0xFFFFFFFF,
        wr8 = \<lambda>s _ _. s, wr16 = \<lambda>s _ _. s, wr32 = \<lambda>s _ _. s\<rparr>"]
  by simp

end
