(* ===== verification/Gicv3_Driver.thy ===== *)
theory Gicv3_Driver
  imports Mars_Effects Gic_Registers Lpi_Alloc Vm_Core
begin

text \<open>
  The GICv3 driver of \<open>klib/src/interrupt/gicv3/mod.rs\<close>: the distributor and redistributors, the ITS
  with its command queue, and the mapping of device events to LPIs. The hardware and the memory it
  shares with the driver are a state of any type behind the accesses of \<open>gic_ops\<close>; a read may change
  that state, so that registers can move on between two reads. Register and field positions are
  those of the declarations in \<open>Gic_Registers\<close>. Calls run one after the other: locks are free when
  they are taken, and barriers and cache maintenance have no effect of their own.
\<close>

section \<open>Interface\<close>

datatype interrupt_error =
    InvalidInterruptId | NotSupported | MsiNotSupported | HandlerNotFound | OutOfMemory
  | NoAvailableLpi | LpiAlreadyUsed | CommandQueueFull | HardwareStalled | CommandTimeout
  | DeviceNotFound

definition ITS_CACHEABILITY :: u8 where "ITS_CACHEABILITY = 5"
definition ITS_SHAREABILITY :: u8 where "ITS_SHAREABILITY = 1"
definition ITS_PAGE_SHIFT :: nat where "ITS_PAGE_SHIFT = 12"
definition ITS_PAGE_SIZE :: nat where "ITS_PAGE_SIZE = 2 ^ ITS_PAGE_SHIFT"
definition ITS_PAGE_ALIGN :: nat where "ITS_PAGE_ALIGN = 2 ^ 16"
definition LPI_START :: u32 where "LPI_START = 8192"
definition MAX_LPI_ID :: u32 where "MAX_LPI_ID = 2 ^ (14 + 1) - 1"

text \<open>
  Volatile accesses, the global allocator, and the CPU interface (\<open>InterruptInterface\<close> and the system
  registers that \<open>init\<close> writes directly). \<open>dealloc\<close> takes the address and the size.
\<close>

record 's gic_ops =
  m_rd8 :: "'s \<Rightarrow> u64 \<Rightarrow> u8 \<times> 's"
  m_rd32 :: "'s \<Rightarrow> u64 \<Rightarrow> u32 \<times> 's"
  m_rd64 :: "'s \<Rightarrow> u64 \<Rightarrow> u64 \<times> 's"
  m_wr8 :: "'s \<Rightarrow> u64 \<Rightarrow> u8 \<Rightarrow> 's"
  m_wr32 :: "'s \<Rightarrow> u64 \<Rightarrow> u32 \<Rightarrow> 's"
  m_wr64 :: "'s \<Rightarrow> u64 \<Rightarrow> u64 \<Rightarrow> 's"
  m_fill :: "'s \<Rightarrow> u64 \<Rightarrow> u8 \<Rightarrow> nat \<Rightarrow> 's"
  alloc_zeroed :: "'s \<Rightarrow> nat \<Rightarrow> nat \<Rightarrow> u64 \<times> 's"
  dealloc :: "'s \<Rightarrow> u64 \<Rightarrow> nat \<Rightarrow> 's"
  read_iar :: "'s \<Rightarrow> u32 \<times> 's"
  write_eoir :: "'s \<Rightarrow> u32 \<Rightarrow> 's"
  enable_group1 :: "'s \<Rightarrow> 's"
  set_priority_mask :: "'s \<Rightarrow> u8 \<Rightarrow> 's"
  set_sre :: "'s \<Rightarrow> 's"
  write_bpr1 :: "'s \<Rightarrow> u64 \<Rightarrow> 's"

datatype irq_target = Distributor | Redistributor

record 'f irq_handler =
  ih_target :: irq_target
  dispatch_fn :: 'f

record its_cmd_queue =
  q_base :: u64
  write_offset :: nat
  num_entries :: nat

text \<open>
  The driver's state next to that of the hardware. \<open>ih_borrows\<close> counts the shared borrows of the
  handler table that are held while a handler runs. \<open>init_state\<close> is the static \<open>INIT_STATE\<close>.
\<close>

record ('s, 'f) gic_v3 =
  hw :: 's
  distributor :: u64
  redistributors :: "u64 list"
  its :: "u64 option"
  interrupt_handlers :: "'f irq_handler option list"
  ih_borrows :: nat
  lpi_handlers :: "u32 \<rightharpoonup> 'f irq_handler"
  device_itts :: "u32 \<rightharpoonup> u64 \<times> nat"
  cmd_queue :: "its_cmd_queue option"
  lpi_prop_table :: "u64 option"
  g_lpi_alloc :: lpi_allocator
  lpi_to_event :: "u32 \<rightharpoonup> u32 \<times> u32 \<times> u32"
  event_mappings :: "u32 \<times> u32 \<rightharpoonup> u32"
  init_state :: nat

type_synonym ('s, 'f, 'a) gicm = "(('s, 'f) gic_v3, interrupt_error, 'a) run"

definition gic_new :: "'s \<Rightarrow> u64 \<Rightarrow> u64 list \<Rightarrow> u64 option \<Rightarrow> ('s, 'f) gic_v3" where
  "gic_new s dist redists its_regs =
     \<lparr>hw = s, distributor = dist, redistributors = redists, its = its_regs,
      interrupt_handlers = replicate 1020 None, ih_borrows = 0, lpi_handlers = Map.empty,
      device_itts = Map.empty, cmd_queue = None, lpi_prop_table = None,
      g_lpi_alloc = lpi_new LPI_START MAX_LPI_ID, lpi_to_event = Map.empty,
      event_mappings = Map.empty, init_state = 0\<rparr>"

section \<open>Register accesses\<close>

text \<open>The address of element \<open>i\<close> of a member of a register block; an index out of range panics.\<close>

definition reg_ptr :: "struct_decl \<Rightarrow> string \<Rightarrow> nat \<Rightarrow> u64 \<Rightarrow> u64 option" where
  "reg_ptr d n i base =
     (case map_of (sd_fields d) n of
        None \<Rightarrow> None
      | Some (off, sz, cnt) \<Rightarrow> if i < cnt then Some (base + of_nat (off + i * sz)) else None)"

definition with_reg ::
  "struct_decl \<Rightarrow> string \<Rightarrow> nat \<Rightarrow> u64 \<Rightarrow> (u64 \<Rightarrow> ('s, 'f, 'a) gicm) \<Rightarrow> ('s, 'f, 'a) gicm" where
  "with_reg d n i base f g = (case reg_ptr d n i base of None \<Rightarrow> None | Some a \<Rightarrow> f a g)"

definition fld :: "register_decl \<Rightarrow> string \<Rightarrow> reg_field" where
  "fld d n =
     (case map_of (rd_fields d) n of None \<Rightarrow> \<lparr>OFFSET = 0, WIDTH = 0\<rparr> | Some (f, _) \<Rightarrow> f)"

definition hw_read :: "('s \<Rightarrow> u64 \<Rightarrow> 'v \<times> 's) \<Rightarrow> u64 \<Rightarrow> ('s, 'f, 'v) gicm" where
  "hw_read rd a g = (let (v, s) = rd (hw g) a in Some (Inr v, g\<lparr>hw := s\<rparr>))"

definition hw_do :: "('s \<Rightarrow> 's) \<Rightarrow> ('s, 'f, unit) gicm" where
  "hw_do act g = Some (Inr (), g\<lparr>hw := act (hw g)\<rparr>)"

definition hw_write :: "('s \<Rightarrow> u64 \<Rightarrow> 'v \<Rightarrow> 's) \<Rightarrow> u64 \<Rightarrow> 'v \<Rightarrow> ('s, 'f, unit) gicm" where
  "hw_write wr a v = hw_do (\<lambda>s. wr s a v)"

definition hw_alloc :: "'s gic_ops \<Rightarrow> nat \<Rightarrow> nat \<Rightarrow> ('s, 'f, u64) gicm" where
  "hw_alloc h sz al g = (let (p, s) = alloc_zeroed h (hw g) sz al in Some (Inr p, g\<lparr>hw := s\<rparr>))"

definition read_field ::
  "('s \<Rightarrow> u64 \<Rightarrow> 'w::len word \<times> 's) \<Rightarrow> ('w word \<Rightarrow> 'v) \<Rightarrow> reg_field \<Rightarrow> u64 \<Rightarrow> ('s, 'f, 'v) gicm" where
  "read_field rd from_bits f a = pbind (hw_read rd a) (\<lambda>raw. pret (field_lift from_bits f raw))"

definition modify_field ::
  "('s \<Rightarrow> u64 \<Rightarrow> 'w::len word \<times> 's) \<Rightarrow> ('s \<Rightarrow> u64 \<Rightarrow> 'w word \<Rightarrow> 's) \<Rightarrow> ('v \<Rightarrow> 'w word) \<Rightarrow> reg_field \<Rightarrow> 'v \<Rightarrow>
   u64 \<Rightarrow> ('s, 'f, unit) gicm" where
  "modify_field rd wr into_bits f v a =
     pbind (hw_read rd a) (\<lambda>old. hw_write wr a (modifier_set into_bits f v old))"

section \<open>Waiting and addressing\<close>

text \<open>\<open>this_cpu!().id\<close> is the argument \<open>cpu\<close>.\<close>

definition redistributor_mut :: "nat \<Rightarrow> ('s, 'f, u64) gicm" where
  "redistributor_mut cpu g =
     (if cpu < length (redistributors g) then Some (Inr (redistributors g ! cpu), g) else None)"

definition wait_for_distributor_rwp :: "'s gic_ops \<Rightarrow> ('s, 'f, unit) gicm" where
  "wait_for_distributor_rwp h g =
     with_reg GicdRegisters ''ctl'' 0 (distributor g) (\<lambda>a.
       spin_while (read_field (m_rd32 h) bool_from_bits (fld GicdCtlr ''RegisterWritePending'') a)) g"

definition wait_for_redistributor_rwp :: "'s gic_ops \<Rightarrow> nat \<Rightarrow> ('s, 'f, unit) gicm" where
  "wait_for_redistributor_rwp h cpu =
     pbind (redistributor_mut cpu) (\<lambda>redist.
       with_reg GicrRegisters ''ctl'' 0 redist (\<lambda>a.
         spin_while (read_field (m_rd32 h) bool_from_bits (fld GicrCtlr ''RegisterWritePending'') a)))"

definition rdbase_for_redist :: "'s gic_ops \<Rightarrow> nat \<Rightarrow> ('s, 'f, u64 option) gicm" where
  "rdbase_for_redist h index g =
     (case its g of
        None \<Rightarrow> pret None g
      | Some its_p \<Rightarrow>
          if index < length (redistributors g) then
            let redist_ptr = redistributors g ! index; phys_addr = phys_addr_to_dmap redist_ptr in
            with_reg GicrRegisters ''type_'' 0 redist_ptr (\<lambda>ra.
              pbind (read_field (m_rd64 h) (widen_from_bits :: u64 \<Rightarrow> u16) (fld GicrTyper ''ProcessorNumber'') ra)
                (\<lambda>proc_num.
              with_reg GitsRegisters ''type_'' 0 its_p (\<lambda>ia.
                pbind (read_field (m_rd64 h) bool_from_bits (fld GitsTyper ''PTA'') ia) (\<lambda>pta.
                  pret (Some (if pta then drop_bit 16 phys_addr else ucast proc_num)))))) g
          else pret None g)"

section \<open>The command queue\<close>

definition MAX_SPINS :: nat where "MAX_SPINS = 1000000"
definition MAX_RETRIES :: nat where "MAX_RETRIES = 3"

text \<open>
  The closure that fills in a command is the list of its \<open>modify_field\<close> calls: the index of the word,
  the field and the value, widened to the word.
\<close>

type_synonym cmd_fields = "(nat \<times> reg_field \<times> u64) list"

definition build_cmd :: "'s gic_ops \<Rightarrow> u64 \<Rightarrow> cmd_fields \<Rightarrow> ('s, 'f, unit) gicm" where
  "build_cmd h ptr fs =
     pfor fs (\<lambda>(i, f, v). modify_field (m_rd64 h) (m_wr64 h) widen_into_bits f v (ptr + of_nat (8 * i)))"

text \<open>Polling for the completion of a command.\<close>

fun cmd_poll :: "'s gic_ops \<Rightarrow> u64 \<Rightarrow> u64 \<Rightarrow> nat \<Rightarrow> nat \<Rightarrow> nat \<Rightarrow> ('s, 'f, unit) gicm" where
  "cmd_poll h creadr cwriter next_write_offset 0 retries = pfail CommandTimeout"
| "cmd_poll h creadr cwriter next_write_offset (Suc n) retries =
     pbind (read_field (m_rd64 h) (widen_from_bits :: u64 \<Rightarrow> u16) (fld GitsCreadr ''Offset'') creadr) (\<lambda>off.
       if unat off = next_write_offset then pret ()
       else pbind (read_field (m_rd64 h) bool_from_bits (fld GitsCreadr ''Stalled'') creadr) (\<lambda>stalled.
         if stalled then
           if retries < MAX_RETRIES then
             pthen (modify_field (m_rd64 h) (m_wr64 h) bool_into_bits (fld GitsCwriter ''Retry'') True cwriter)
               (cmd_poll h creadr cwriter next_write_offset n (retries + 1))
           else pfail HardwareStalled
         else cmd_poll h creadr cwriter next_write_offset n retries))"

definition set_write_offset :: "nat \<Rightarrow> ('s, 'f, unit) gicm" where
  "set_write_offset n g =
     Some (Inr (), g\<lparr>cmd_queue := map_option (\<lambda>q. q\<lparr>write_offset := n\<rparr>) (cmd_queue g)\<rparr>)"

text \<open>Writing the command into its slot and publishing it.\<close>

definition emit_cmd :: "'s gic_ops \<Rightarrow> u64 \<Rightarrow> u64 \<Rightarrow> nat \<Rightarrow> cmd_fields \<Rightarrow> ('s, 'f, unit) gicm" where
  "emit_cmd h ptr cwriter next_write_offset fs =
     pthen (pfor [0..<4] (\<lambda>i. hw_write (m_wr64 h) (ptr + of_nat (8 * i)) 0))
    (pthen (build_cmd h ptr fs)
    (pthen (set_write_offset next_write_offset)
       (modify_field (m_rd64 h) (m_wr64 h) (widen_into_bits :: u16 \<Rightarrow> u64) (fld GitsCwriter ''Offset'')
          (of_nat next_write_offset) cwriter)))"

definition push_cmd :: "'s gic_ops \<Rightarrow> cmd_fields \<Rightarrow> ('s, 'f, unit) gicm" where
  "push_cmd h fs g =
     (case its g of
        None \<Rightarrow> pfail NotSupported g
      | Some its_p \<Rightarrow>
          (case cmd_queue g of
             None \<Rightarrow> pfail NotSupported g
           | Some queue \<Rightarrow>
               with_reg GitsRegisters ''creadr'' 0 its_p (\<lambda>creadr.
                 pbind (read_field (m_rd64 h) (widen_from_bits :: u64 \<Rightarrow> u16) (fld GitsCreadr ''Offset'') creadr)
                   (\<lambda>current_creadr.
                   if num_entries queue = 0 then (\<lambda>_. None)
                   else
                     let next_write_offset = (write_offset queue + 1) mod num_entries queue in
                     if next_write_offset = unat current_creadr then pfail CommandQueueFull
                     else
                       with_reg GitsRegisters ''cwriter'' 0 its_p (\<lambda>cwriter.
                         pthen (emit_cmd h (q_base queue + of_nat (write_offset queue * 32)) cwriter
                                  next_write_offset fs)
                           (cmd_poll h creadr cwriter next_write_offset MAX_SPINS 0)))) g))"

text \<open>The commands.\<close>

definition push_mapd :: "'s gic_ops \<Rightarrow> u32 \<Rightarrow> u64 \<Rightarrow> u32 \<Rightarrow> bool \<Rightarrow> ('s, 'f, unit) gicm" where
  "push_mapd h device_id itt_addr num_events_log2 valid =
     (let size = if num_events_log2 > 0 then num_events_log2 - 1 else 0 in
      push_cmd h
        [(0, fld ItsCmdWord0 ''Cmd'', 0x08),
         (0, fld ItsCmdWord0 ''DeviceId'', ucast device_id),
         (1, fld ItsMapdWord1 ''Size'', ucast (ucast size :: u8)),
         (2, fld ItsMapdWord2 ''IttAddr'', drop_bit 8 itt_addr),
         (2, fld ItsMapdWord2 ''Valid'', bool_into_bits valid)])"

definition push_mapc :: "'s gic_ops \<Rightarrow> u32 \<Rightarrow> u64 \<Rightarrow> bool \<Rightarrow> ('s, 'f, unit) gicm" where
  "push_mapc h icid rdbase_val valid =
     push_cmd h
       [(0, fld ItsCmdWord0 ''Cmd'', 0x09),
        (2, fld ItsMapcWord2 ''Icid'', ucast (ucast icid :: u16)),
        (2, fld ItsMapcWord2 ''RdBase'', rdbase_val),
        (2, fld ItsMapcWord2 ''Valid'', bool_into_bits valid)]"

definition push_mapti :: "'s gic_ops \<Rightarrow> u32 \<Rightarrow> u32 \<Rightarrow> u32 \<Rightarrow> u32 \<Rightarrow> ('s, 'f, unit) gicm" where
  "push_mapti h device_id event_id lpi_id icid =
     push_cmd h
       [(0, fld ItsCmdWord0 ''Cmd'', 0x0A),
        (0, fld ItsCmdWord0 ''DeviceId'', ucast device_id),
        (1, fld ItsMaptiWord1 ''EventId'', ucast event_id),
        (1, fld ItsMaptiWord1 ''pIntId'', ucast lpi_id),
        (2, fld ItsMaptiWord2 ''Icid'', ucast (ucast icid :: u16))]"

definition push_invall :: "'s gic_ops \<Rightarrow> u32 \<Rightarrow> ('s, 'f, unit) gicm" where
  "push_invall h icid =
     push_cmd h
       [(0, fld ItsCmdWord0 ''Cmd'', 0x0D),
        (2, fld ItsInvallWord2 ''Icid'', ucast (ucast icid :: u16))]"

definition push_sync :: "'s gic_ops \<Rightarrow> u64 \<Rightarrow> ('s, 'f, unit) gicm" where
  "push_sync h rdbase_val =
     push_cmd h
       [(0, fld ItsCmdWord0 ''Cmd'', 0x05),
        (2, fld ItsSyncWord2 ''RdBase'', rdbase_val)]"

definition push_discard :: "'s gic_ops \<Rightarrow> u32 \<Rightarrow> u32 \<Rightarrow> ('s, 'f, unit) gicm" where
  "push_discard h device_id event_id =
     push_cmd h
       [(0, fld ItsCmdWord0 ''Cmd'', 0x0F),
        (0, fld ItsCmdWord0 ''DeviceId'', ucast device_id),
        (1, fld ItsDiscardWord1 ''EventId'', ucast event_id)]"

definition push_inv :: "'s gic_ops \<Rightarrow> u32 \<Rightarrow> u32 \<Rightarrow> ('s, 'f, unit) gicm" where
  "push_inv h device_id event_id =
     push_cmd h
       [(0, fld ItsCmdWord0 ''Cmd'', 0x0C),
        (0, fld ItsCmdWord0 ''DeviceId'', ucast device_id),
        (1, fld ItsInvWord1 ''EventId'', ucast event_id)]"

text \<open>Synchronising with one redistributor, if it has an address.\<close>

definition sync_redist :: "'s gic_ops \<Rightarrow> nat \<Rightarrow> ('s, 'f, unit) gicm" where
  "sync_redist h index =
     pbind (rdbase_for_redist h index) (\<lambda>rd. case rd of None \<Rightarrow> pret () | Some rdbase \<Rightarrow> push_sync h rdbase)"

text \<open>Changing the property byte of an LPI; \<open>update_fn\<close> is one \<open>modify_field\<close>.\<close>

definition update_lpi_prop :: "'s gic_ops \<Rightarrow> u32 \<Rightarrow> reg_field \<Rightarrow> u8 \<Rightarrow> ('s, 'f, unit) gicm" where
  "update_lpi_prop h int_id f v g =
     (case lpi_prop_table g of
        None \<Rightarrow> pret () g
      | Some prop_phys \<Rightarrow>
          pthen (modify_field (m_rd8 h) (m_wr8 h) widen_into_bits f v
                   (phys_addr_to_dmap prop_phys + ucast (int_id - LPI_START)))
            (\<lambda>g'. if its g' = None then pret () g'
                  else case lpi_to_event g' int_id of
                    None \<Rightarrow> pret () g'
                  | Some (device_id, event_id, icid) \<Rightarrow>
                      pthen (push_inv h device_id event_id) (sync_redist h (unat icid)) g') g)"

section \<open>Initialisation\<close>

definition set_u8 :: "register_decl \<Rightarrow> string \<Rightarrow> u8 \<Rightarrow> u64 \<Rightarrow> u64" where
  "set_u8 d n = modifier_set widen_into_bits (fld d n)"

definition set_u64 :: "register_decl \<Rightarrow> string \<Rightarrow> u64 \<Rightarrow> u64 \<Rightarrow> u64" where
  "set_u64 d n = modifier_set widen_into_bits (fld d n)"

definition set_flag :: "register_decl \<Rightarrow> string \<Rightarrow> bool \<Rightarrow> u64 \<Rightarrow> u64" where
  "set_flag d n = modifier_set bool_into_bits (fld d n)"

definition must_alloc :: "'s gic_ops \<Rightarrow> nat \<Rightarrow> ('s, 'f, u64) gicm" where
  "must_alloc h pages =
     pbind (hw_alloc h (pages * ITS_PAGE_SIZE) ITS_PAGE_ALIGN) (\<lambda>p g. if p = 0 then None else pret p g)"

definition init_baser :: "'s gic_ops \<Rightarrow> u64 \<Rightarrow> ('s, 'f, unit) gicm" where
  "init_baser h a =
     pbind (read_field (m_rd64 h) (widen_from_bits :: u64 \<Rightarrow> u8) (fld GitsBaser ''Type'') a) (\<lambda>ty.
       if ty = 1 \<or> ty = 4 then
         let pages = if ty = 4 then 1 else 16 in
         pbind (must_alloc h pages) (\<lambda>p.
           pbind (hw_read (m_rd64 h) a) (\<lambda>raw.
             hw_write (m_wr64 h) a
               (set_flag GitsBaser ''Valid'' True
               (set_u8 GitsBaser ''Size'' (of_nat (pages - 1))
               (set_u64 GitsBaser ''PhysicalAddress'' (drop_bit ITS_PAGE_SHIFT (dmap_addr_to_phys p))
               (set_u8 GitsBaser ''OuterCacheability'' ITS_CACHEABILITY
               (set_u8 GitsBaser ''InnerCacheability'' ITS_CACHEABILITY
               (set_u8 GitsBaser ''Shareability'' 1
               (set_u8 GitsBaser ''PageSize'' 0 raw)))))))))
       else pret ())"

definition init_its :: "'s gic_ops \<Rightarrow> ('s, 'f, unit) gicm" where
  "init_its h g =
     (case its g of
        None \<Rightarrow> pret () g
      | Some its_p \<Rightarrow>
          with_reg GitsRegisters ''ctl'' 0 its_p (\<lambda>ctl.
            pthen (modify_field (m_rd32 h) (m_wr32 h) bool_into_bits (fld GitsCtlr ''Enabled'') False ctl)
           (pthen (spin_while (pbind (read_field (m_rd32 h) bool_from_bits (fld GitsCtlr ''Quiescent'') ctl)
                     (\<lambda>q. pret (\<not> q))))
           (pthen (pfor [0..<8] (\<lambda>i. with_reg GitsRegisters ''baser'' i its_p (init_baser h)))
           (pbind (must_alloc h 16) (\<lambda>cmd_ptr.
              with_reg GitsRegisters ''cbaser'' 0 its_p (\<lambda>cbaser.
                pbind (hw_read (m_rd64 h) cbaser) (\<lambda>raw.
                pthen (hw_write (m_wr64 h) cbaser
                  (set_flag GitsCbasER ''Valid'' True
                  (set_u8 GitsCbasER ''Size'' (of_nat (16 - 1))
                  (set_u64 GitsCbasER ''PhysicalAddress'' (drop_bit ITS_PAGE_SHIFT (dmap_addr_to_phys cmd_ptr))
                  (set_u8 GitsCbasER ''OuterCacheability'' ITS_CACHEABILITY
                  (set_u8 GitsCbasER ''InnerCacheability'' ITS_CACHEABILITY
                  (set_u8 GitsCbasER ''Shareability'' ITS_SHAREABILITY raw)))))))
               (pthen (\<lambda>g'. pret () (g'\<lparr>cmd_queue :=
                   Some \<lparr>q_base = cmd_ptr, write_offset = 0, num_entries = 16 * ITS_PAGE_SIZE div 32\<rparr>\<rparr>))
                 (modify_field (m_rd32 h) (m_wr32 h) bool_into_bits (fld GitsCtlr ''Enabled'') True ctl))))))))) g)"

definition write_dist32 :: "'s gic_ops \<Rightarrow> string \<Rightarrow> nat \<Rightarrow> u32 \<Rightarrow> ('s, 'f, unit) gicm" where
  "write_dist32 h n i v g = with_reg GicdRegisters n i (distributor g) (\<lambda>a. hw_write (m_wr32 h) a v) g"

definition write_dist8 :: "'s gic_ops \<Rightarrow> string \<Rightarrow> nat \<Rightarrow> u8 \<Rightarrow> ('s, 'f, unit) gicm" where
  "write_dist8 h n i v g = with_reg GicdRegisters n i (distributor g) (\<lambda>a. hw_write (m_wr8 h) a v) g"

definition modify_dist_ctl :: "'s gic_ops \<Rightarrow> string \<Rightarrow> bool \<Rightarrow> ('s, 'f, unit) gicm" where
  "modify_dist_ctl h n b g =
     with_reg GicdRegisters ''ctl'' 0 (distributor g)
       (modify_field (m_rd32 h) (m_wr32 h) bool_into_bits (fld GicdCtlr n) b) g"

text \<open>The LPI property table, allocated without a test for null, and the ITS.\<close>

definition init_lpis :: "'s gic_ops \<Rightarrow> ('s, 'f, unit) gicm" where
  "init_lpis h =
     pbind (hw_alloc h (16 * ITS_PAGE_SIZE) ITS_PAGE_ALIGN) (\<lambda>prop_ptr.
       pthen (\<lambda>g. pret () (g\<lparr>lpi_prop_table := Some (dmap_addr_to_phys prop_ptr)\<rparr>))
      (pthen (hw_do (\<lambda>s. m_fill h s prop_ptr 0xA0 (16 * ITS_PAGE_SIZE)))
         (init_its h)))"

text \<open>The part of \<open>init\<close> that the first processor runs.\<close>

definition init_distributor :: "'s gic_ops \<Rightarrow> ('s, 'f, unit) gicm" where
  "init_distributor h =
     pthen (modify_dist_ctl h ''EnableGroup1'' False)
    (pthen (wait_for_distributor_rwp h)
    (pthen (modify_dist_ctl h ''Are'' True)
    (pthen (wait_for_distributor_rwp h)
    (pthen (pfor [1..<32] (\<lambda>i.
         pthen (write_dist32 h ''iclear_enable'' i 0xFFFFFFFF)
        (pthen (write_dist32 h ''iclear_pend'' i 0xFFFFFFFF)
           (write_dist32 h ''igroup'' i 0xFFFFFFFF))))
    (pthen (pfor [32..<1020] (\<lambda>i. write_dist8 h ''ipriority'' i 0xA0))
    (pthen (\<lambda>g. if its g = None then pret () g else init_lpis h g)
    (pthen (modify_dist_ctl h ''EnableGroup1'' True)
    (pthen (wait_for_distributor_rwp h)
       (\<lambda>g. pret () (g\<lparr>init_state := 2\<rparr>))))))))))"

definition write_redist32 :: "'s gic_ops \<Rightarrow> u64 \<Rightarrow> string \<Rightarrow> u32 \<Rightarrow> ('s, 'f, unit) gicm" where
  "write_redist32 h redist n v = with_reg GicrRegisters n 0 redist (\<lambda>a. hw_write (m_wr32 h) a v)"

text \<open>The LPI part of the redistributor. A property table that is not there panics.\<close>

definition init_redist_lpis :: "'s gic_ops \<Rightarrow> nat \<Rightarrow> u64 \<Rightarrow> ('s, 'f, unit) gicm" where
  "init_redist_lpis h cpu redist =
     pbind (hw_alloc h (16 * ITS_PAGE_SIZE) ITS_PAGE_ALIGN) (\<lambda>pend_ptr g.
       case lpi_prop_table g of
         None \<Rightarrow> None
       | Some prop_phys \<Rightarrow>
           pthen (with_reg GicrRegisters ''property_bar'' 0 redist (\<lambda>pb.
             pbind (hw_read (m_rd64 h) pb) (\<lambda>raw.
               hw_write (m_wr64 h) pb
                 (set_u8 GicrPropBar ''OuterCacheability'' ITS_CACHEABILITY
                 (set_u8 GicrPropBar ''InnerCacheability'' ITS_CACHEABILITY
                 (set_u8 GicrPropBar ''Shareability'' ITS_SHAREABILITY
                 (set_u8 GicrPropBar ''IDBits'' 14
                 (set_u64 GicrPropBar ''PhysicalAddress'' (drop_bit ITS_PAGE_SHIFT prop_phys) raw))))))))
          (pthen (with_reg GicrRegisters ''pending_bar'' 0 redist (\<lambda>pb.
             hw_write (m_wr64 h) pb (dmap_addr_to_phys pend_ptr OR
               (push_bit 10 (ucast ITS_SHAREABILITY) OR push_bit 7 (ucast ITS_CACHEABILITY) OR
                push_bit 56 (ucast ITS_CACHEABILITY)))))
          (pthen (with_reg GicrRegisters ''ctl'' 0 redist
             (modify_field (m_rd32 h) (m_wr32 h) bool_into_bits (fld GicrCtlr ''EnableLPIs'') True))
             (pbind (rdbase_for_redist h cpu) (\<lambda>rd. case rd of
                None \<Rightarrow> pret ()
              | Some rdbase \<Rightarrow>
                  pthen (push_mapc h (of_nat cpu) rdbase True)
                 (pthen (push_invall h (of_nat cpu)) (push_sync h rdbase)))))) g)"

definition init_redistributor :: "'s gic_ops \<Rightarrow> nat \<Rightarrow> ('s, 'f, unit) gicm" where
  "init_redistributor h cpu =
     pbind (redistributor_mut cpu) (\<lambda>redist.
       pthen (with_reg GicrRegisters ''wake'' 0 redist
         (modify_field (m_rd32 h) (m_wr32 h) bool_into_bits (fld GicrWaker ''ProcessorSleep'') False))
      (pthen (with_reg GicrRegisters ''wake'' 0 redist (\<lambda>w.
         spin_while (read_field (m_rd32 h) bool_from_bits (fld GicrWaker ''ProcessorSleep'') w)))
      (pthen (with_reg GicrRegisters ''wake'' 0 redist (\<lambda>w.
         spin_while (read_field (m_rd32 h) bool_from_bits (fld GicrWaker ''ChildrenAsleep'') w)))
      (pthen (write_redist32 h redist ''iclear_enable0'' 0xFFFFFFFF)
      (pthen (write_redist32 h redist ''iclear_pend0'' 0xFFFFFFFF)
      (pthen (write_redist32 h redist ''igroup0'' 0xFFFFFFFF)
      (pthen (write_redist32 h redist ''igroup_mod'' 0xFFFFFFFF)
      (pthen (\<lambda>g. if its g = None then pret () g else init_redist_lpis h cpu redist g)
      (pthen (wait_for_redistributor_rwp h cpu)
         (pfor [0..<32] (\<lambda>i. with_reg GicrRegisters ''ipriority'' i redist (\<lambda>a.
            hw_write (m_wr8 h) a 0xA0))))))))))))"

text \<open>
  While a processor waits for the first one, the others go on: \<open>others\<close> is what they do between two
  looks at \<open>INIT_STATE\<close>.
\<close>

definition gic_init ::
  "'s gic_ops \<Rightarrow> (('s, 'f) gic_v3 \<Rightarrow> ('s, 'f) gic_v3) \<Rightarrow> nat \<Rightarrow> ('s, 'f, unit) gicm" where
  "gic_init h others cpu =
     pthen (hw_do (set_sre h))
    (pthen (hw_do (\<lambda>s. write_bpr1 h s 0))
    (pthen (hw_do (enable_group1 h))
    (pthen (hw_do (\<lambda>s. set_priority_mask h s 0xFF))
    (pthen (\<lambda>g. if init_state g = 0 then init_distributor h (g\<lparr>init_state := 1\<rparr>)
                else spin_while (\<lambda>g. Some (Inr (init_state g \<noteq> 2), if init_state g \<noteq> 2 then others g else g)) g)
       (init_redistributor h cpu)))))"

section \<open>Interrupts\<close>

definition is_lpi :: "u32 \<Rightarrow> bool" where
  "is_lpi int_id \<longleftrightarrow> LPI_START \<le> int_id \<and> int_id \<le> MAX_LPI_ID"

definition enable_interrupt :: "'s gic_ops \<Rightarrow> nat \<Rightarrow> u32 \<Rightarrow> ('s, 'f, unit) gicm" where
  "enable_interrupt h cpu int_id =
     (if int_id < 32 then
        pbind (redistributor_mut cpu) (\<lambda>redist.
          pthen (write_redist32 h redist ''iset_enable0'' (push_bit (unat int_id) 1))
            (wait_for_redistributor_rwp h cpu))
      else if int_id < 1020 then
        pthen (write_dist32 h ''iset_enable'' (unat (int_id div 32)) (push_bit (unat (int_id mod 32)) 1))
          (wait_for_distributor_rwp h)
      else if is_lpi int_id then update_lpi_prop h int_id (fld LpiProp ''Enabled'') (bool_into_bits True)
      else pfail InvalidInterruptId)"

definition disable_interrupt :: "'s gic_ops \<Rightarrow> nat \<Rightarrow> u32 \<Rightarrow> ('s, 'f, unit) gicm" where
  "disable_interrupt h cpu int_id =
     (if int_id < 32 then
        pbind (redistributor_mut cpu) (\<lambda>redist.
          pthen (write_redist32 h redist ''iclear_enable0'' (push_bit (unat int_id) 1))
            (wait_for_redistributor_rwp h cpu))
      else if int_id < 1020 then
        pthen (write_dist32 h ''iclear_enable'' (unat (int_id div 32)) (push_bit (unat (int_id mod 32)) 1))
          (wait_for_distributor_rwp h)
      else if is_lpi int_id then update_lpi_prop h int_id (fld LpiProp ''Enabled'') (bool_into_bits False)
      else pfail InvalidInterruptId)"

definition acknowledge_interrupt :: "'s gic_ops \<Rightarrow> ('s, 'f, u32 option) gicm" where
  "acknowledge_interrupt h g =
     (let (int_id, s) = read_iar h (hw g) in
      pret (if int_id = 1023 then None else Some int_id) (g\<lparr>hw := s\<rparr>))"

definition end_of_interrupt :: "'s gic_ops \<Rightarrow> u32 \<Rightarrow> ('s, 'f, unit) gicm" where
  "end_of_interrupt h int_id =
     (if int_id < 1020 \<or> is_lpi int_id then hw_do (\<lambda>s. write_eoir h s int_id) else pfail InvalidInterruptId)"

definition gic_set_priority :: "'s gic_ops \<Rightarrow> nat \<Rightarrow> u32 \<Rightarrow> u8 \<Rightarrow> ('s, 'f, unit) gicm" where
  "gic_set_priority h cpu int_id priority =
     (if int_id < 32 then
        pbind (redistributor_mut cpu) (\<lambda>redist.
          with_reg GicrRegisters ''ipriority'' (unat int_id) redist (\<lambda>a. hw_write (m_wr8 h) a priority))
      else if int_id < 1020 then write_dist8 h ''ipriority'' (unat int_id) priority
      else if is_lpi int_id then update_lpi_prop h int_id (fld LpiProp ''Priority'') (drop_bit 2 priority)
      else pfail InvalidInterruptId)"

definition set_affinity :: "'s gic_ops \<Rightarrow> u32 \<Rightarrow> u64 \<Rightarrow> ('s, 'f, unit) gicm" where
  "set_affinity h int_id affinity g =
     (if int_id < 32 then pfail NotSupported g
      else if int_id \<ge> 1020 then pfail InvalidInterruptId g
      else with_reg GicdRegisters ''irouter'' (unat int_id) (distributor g)
             (\<lambda>a. hw_write (m_wr64 h) a affinity) g)"

definition register_handler :: "u32 \<Rightarrow> 'f irq_handler \<Rightarrow> ('s, 'f, unit) gicm" where
  "register_handler int_id handler g =
     (if int_id < 1020 then
        if ih_borrows g > 0 then pfail NotSupported g
        else pret () (g\<lparr>interrupt_handlers := (interrupt_handlers g)[unat int_id := Some handler]\<rparr>)
      else if is_lpi int_id then pret () (g\<lparr>lpi_handlers := (lpi_handlers g)(int_id \<mapsto> handler)\<rparr>)
      else pfail InvalidInterruptId g)"

text \<open>\<open>call\<close> runs a handler, which may use the driver. Below 1020 the table stays borrowed meanwhile.\<close>

definition on_interrupt ::
  "('f \<Rightarrow> u32 \<Rightarrow> ('s, 'f, unit) gicm) \<Rightarrow> u32 \<Rightarrow> ('s, 'f, unit) gicm" where
  "on_interrupt call int_id g =
     (if int_id < 1020 then
        case interrupt_handlers g ! unat int_id of
          None \<Rightarrow> pfail HandlerNotFound g
        | Some hnd \<Rightarrow>
            (case call (dispatch_fn hnd) int_id (g\<lparr>ih_borrows := ih_borrows g + 1\<rparr>) of
               None \<Rightarrow> None
             | Some (r, g') \<Rightarrow> Some (r, g'\<lparr>ih_borrows := ih_borrows g' - 1\<rparr>))
      else if is_lpi int_id then
        case lpi_handlers g int_id of
          None \<Rightarrow> pfail HandlerNotFound g
        | Some hnd \<Rightarrow> call (dispatch_fn hnd) int_id g
      else pfail InvalidInterruptId g)"

section \<open>Message-signalled interrupts\<close>

definition next_multiple_of :: "u64 \<Rightarrow> u64 \<Rightarrow> u64" where
  "next_multiple_of x m = (if x mod m = 0 then x else x + (m - x mod m))"

definition itt_bytes :: "u32 \<Rightarrow> u64 \<Rightarrow> u64" where
  "itt_bytes num_events_log2 entry_size =
     next_multiple_of ((if unat num_events_log2 < 64 then 2 ^ unat num_events_log2 else 0) * entry_size) 256"

definition insert_itt :: "'s gic_ops \<Rightarrow> u32 \<Rightarrow> u64 \<Rightarrow> nat \<Rightarrow> ('s, 'f, unit) gicm" where
  "insert_itt h device_id p sz g =
     (let g' = g\<lparr>device_itts := (device_itts g)(device_id \<mapsto> (p, sz))\<rparr> in
      case device_itts g device_id of
        None \<Rightarrow> pret () g'
      | Some (old_ptr, old_size) \<Rightarrow> hw_do (\<lambda>s. dealloc h s old_ptr old_size) g')"

definition msi_register_device :: "'s gic_ops \<Rightarrow> u32 \<Rightarrow> u32 \<Rightarrow> ('s, 'f, unit) gicm" where
  "msi_register_device h device_id num_events_log2 g =
     (case its g of
        None \<Rightarrow> pfail MsiNotSupported g
      | Some its_p \<Rightarrow>
          with_reg GitsRegisters ''type_'' 0 its_p (\<lambda>ta.
            pbind (read_field (m_rd64 h) (widen_from_bits :: u64 \<Rightarrow> u8) (fld GitsTyper ''ITTEntrySize'') ta)
              (\<lambda>entry_size.
              let itt_size = itt_bytes num_events_log2 (ucast entry_size + 1) in
              if unat itt_size > 2 ^ 63 - 256 then pfail OutOfMemory
              else
                pbind (hw_alloc h (unat itt_size) 256) (\<lambda>itt_ptr.
                  if itt_ptr = 0 then pfail NotSupported
                  else
                    pthen (push_mapd h device_id (dmap_addr_to_phys itt_ptr) num_events_log2 True)
                      (insert_itt h device_id itt_ptr (unat itt_size))))) g)"

definition msi_unregister_device :: "'s gic_ops \<Rightarrow> u32 \<Rightarrow> ('s, 'f, unit) gicm" where
  "msi_unregister_device h device_id =
     pthen (\<lambda>g. if its g = None then pret () g else push_mapd h device_id 0 0 False g)
       (\<lambda>g. let g' = g\<lparr>device_itts := (device_itts g)(device_id := None)\<rparr> in
            case device_itts g device_id of
              None \<Rightarrow> pret () g'
            | Some (p, sz) \<Rightarrow> hw_do (\<lambda>s. dealloc h s p sz) g')"

text \<open>The choice of the LPI: the one that is asked for, or the next free one.\<close>

definition take_lpi :: "u32 option \<Rightarrow> ('s, 'f, u32) gicm" where
  "take_lpi lpi_id g =
     (case lpi_id of
        Some lpi \<Rightarrow>
          (case lpi_reserve (g_lpi_alloc g) lpi of
             None \<Rightarrow> None
           | Some (Inl _, a) \<Rightarrow> pfail LpiAlreadyUsed (g\<lparr>g_lpi_alloc := a\<rparr>)
           | Some (Inr _, a) \<Rightarrow> pret lpi (g\<lparr>g_lpi_alloc := a\<rparr>))
      | None \<Rightarrow>
          (case lpi_alloc (g_lpi_alloc g) of
             (None, a) \<Rightarrow> pfail NoAvailableLpi (g\<lparr>g_lpi_alloc := a\<rparr>)
           | (Some lpi, a) \<Rightarrow> pret lpi (g\<lparr>g_lpi_alloc := a\<rparr>)))"

definition release_lpi :: "u32 \<Rightarrow> ('s, 'f, unit) gicm" where
  "release_lpi lpi g =
     (case lpi_free (g_lpi_alloc g) lpi of None \<Rightarrow> None | Some a \<Rightarrow> pret () (g\<lparr>g_lpi_alloc := a\<rparr>))"

definition record_event :: "u32 \<Rightarrow> u32 \<Rightarrow> u32 \<Rightarrow> u32 \<Rightarrow> ('s, 'f, unit) gicm" where
  "record_event device_id event_id lpi icid g =
     pret () (g\<lparr>event_mappings := (event_mappings g)((device_id, event_id) \<mapsto> lpi),
               lpi_to_event := (lpi_to_event g)(lpi \<mapsto> (device_id, event_id, icid))\<rparr>)"

definition msi_map_event :: "'s gic_ops \<Rightarrow> u32 \<Rightarrow> u32 \<Rightarrow> u32 option \<Rightarrow> u32 \<Rightarrow> ('s, 'f, u32) gicm" where
  "msi_map_event h device_id event_id lpi_id icid =
     pbind (take_lpi lpi_id) (\<lambda>lpi g.
       if its g \<noteq> None then
         pthen (push_mapti h device_id event_id lpi icid)
        (pthen (record_event device_id event_id lpi icid) (pret lpi)) g
       else pthen (release_lpi lpi) (pfail MsiNotSupported) g)"

definition forget_event :: "u32 \<Rightarrow> u32 \<Rightarrow> ('s, 'f, unit) gicm" where
  "forget_event device_id event_id g =
     (let g1 = g\<lparr>event_mappings := (event_mappings g)((device_id, event_id) := None)\<rparr> in
      case event_mappings g (device_id, event_id) of
        None \<Rightarrow> pret () g1
      | Some lpi \<Rightarrow>
          pthen (release_lpi lpi) (\<lambda>g2. pret () (g2\<lparr>lpi_handlers := (lpi_handlers g2)(lpi := None)\<rparr>))
            (g1\<lparr>lpi_to_event := (lpi_to_event g1)(lpi := None)\<rparr>))"

definition msi_unmap_event :: "'s gic_ops \<Rightarrow> u32 \<Rightarrow> u32 \<Rightarrow> ('s, 'f, unit) gicm" where
  "msi_unmap_event h device_id event_id g =
     (if its g = None then pret () g
      else
        pthen (push_discard h device_id event_id)
       (pthen (\<lambda>g'. pfor [0..<length (redistributors g')] (sync_redist h) g')
          (forget_event device_id event_id)) g)"

definition msi_invall :: "'s gic_ops \<Rightarrow> u32 \<Rightarrow> ('s, 'f, unit) gicm" where
  "msi_invall h icid g =
     (if its g = None then pret () g
      else pthen (push_invall h icid) (sync_redist h (unat icid)) g)"

definition msi_get_doorbell :: "('s, 'f, u64) gicm" where
  "msi_get_doorbell g =
     (case its g of
        None \<Rightarrow> pfail MsiNotSupported g
      | Some its_p \<Rightarrow>
          with_reg GitsRegisters ''translator'' 0 its_p (\<lambda>a. pret (dmap_addr_to_phys a)) g)"

section \<open>What the accesses leave alone\<close>

text \<open>Where the ring of commands is. A state in which only the hardware and the write offset may have changed.\<close>

definition ring :: "('s, 'f) gic_v3 \<Rightarrow> (u64 \<times> nat) option" where
  "ring g = map_option (\<lambda>q. (q_base q, num_entries q)) (cmd_queue g)"

definition queue_ok :: "('s, 'f) gic_v3 \<Rightarrow> bool" where
  "queue_ok g \<longleftrightarrow> (\<forall>b n. ring g = Some (b, n) \<longrightarrow> 0 < n)"

definition same_tables :: "('s, 'f) gic_v3 \<Rightarrow> ('s, 'f) gic_v3 \<Rightarrow> bool" where
  "same_tables g g' \<longleftrightarrow> g'\<lparr>hw := hw g, cmd_queue := cmd_queue g\<rparr> = g \<and> ring g' = ring g"

lemma same_tablesE:
  assumes "same_tables g g'"
  obtains s q where "g' = g\<lparr>hw := s, cmd_queue := q\<rparr>" and "ring g' = ring g"
proof
  show "g' = g\<lparr>hw := hw g', cmd_queue := cmd_queue g'\<rparr>" and "ring g' = ring g"
    using assms by (cases g; cases g'; simp add: same_tables_def)+
qed

lemma same_tables_refl [simp]: "same_tables g g"
  by (simp add: same_tables_def)

lemma same_tables_trans: "same_tables a b \<Longrightarrow> same_tables b c \<Longrightarrow> same_tables a c"
  by (elim same_tablesE) (simp add: same_tables_def)

lemma same_tables_hw [simp]: "same_tables g (g\<lparr>hw := s\<rparr>)"
  by (simp add: same_tables_def ring_def)

lemma same_tables_queue_ok: "same_tables g g' \<Longrightarrow> queue_ok g \<Longrightarrow> queue_ok g'"
  by (simp add: same_tables_def queue_ok_def)

text \<open>Methods that keep the tables, and return.\<close>

definition tame :: "('s, 'f, 'a) gicm \<Rightarrow> bool" where
  "tame m \<longleftrightarrow> (\<forall>g. queue_ok g \<longrightarrow> (\<exists>r g'. m g = Some (r, g') \<and> same_tables g g'))"

lemma tameI: "(\<And>g. queue_ok g \<Longrightarrow> \<exists>r g'. m g = Some (r, g') \<and> same_tables g g') \<Longrightarrow> tame m"
  by (simp add: tame_def)

lemma tameD: "tame m \<Longrightarrow> queue_ok g \<Longrightarrow> \<exists>r g'. m g = Some (r, g') \<and> same_tables g g'"
  by (simp add: tame_def)

named_theorems tame_intro \<open>methods that return and keep the tables\<close>

lemma tame_pret [tame_intro]: "tame (pret x)"
  by (simp add: tame_def pret_def)

lemma tame_pfail [tame_intro]: "tame (pfail e)"
  by (simp add: tame_def pfail_def)

lemma tame_pbind [tame_intro]:
  assumes "tame m" and "\<And>x. tame (f x)"
  shows "tame (pbind m f)"
proof (rule tameI)
  fix g :: "('a, 'b) gic_v3"
  assume ok: "queue_ok g"
  obtain r g1 where m: "m g = Some (r, g1)" "same_tables g g1" using tameD [OF assms(1) ok] by blast
  show "\<exists>r g'. pbind m f g = Some (r, g') \<and> same_tables g g'"
  proof (cases r)
    case (Inl e)
    with m show ?thesis by (simp add: pbind_def)
  next
    case (Inr x)
    obtain r' g2 where "f x g1 = Some (r', g2)" "same_tables g1 g2"
      using tameD [OF assms(2) same_tables_queue_ok [OF m(2) ok]] by blast
    with m Inr show ?thesis by (auto simp: pbind_def intro: same_tables_trans)
  qed
qed

lemma tame_if [tame_intro]: "(b \<Longrightarrow> tame m) \<Longrightarrow> (\<not> b \<Longrightarrow> tame k) \<Longrightarrow> tame (if b then m else k)"
  by simp

lemma tame_option [tame_intro]:
  "(x = None \<Longrightarrow> tame m) \<Longrightarrow> (\<And>y. x = Some y \<Longrightarrow> tame (k y)) \<Longrightarrow> tame (case x of None \<Rightarrow> m | Some y \<Rightarrow> k y)"
  by (cases x) auto

lemma tame_pfor [tame_intro]: "(\<And>x. x \<in> set xs \<Longrightarrow> tame (body x)) \<Longrightarrow> tame (pfor xs body)"
  by (induction xs) (auto intro!: tame_intro)

lemma tame_hw_read [tame_intro]: "tame (hw_read rd a)"
  by (auto simp: tame_def hw_read_def split: prod.splits)

lemma tame_hw_do [tame_intro]: "tame (hw_do act)"
  by (simp add: tame_def hw_do_def)

lemma tame_hw_write [tame_intro]: "tame (hw_write wr a v)"
  by (simp add: hw_write_def tame_intro)

lemma tame_hw_alloc [tame_intro]: "tame (hw_alloc h sz al)"
  by (auto simp: tame_def hw_alloc_def split: prod.splits)

lemma tame_field [tame_intro]: "tame (read_field rd from_bits f a)" "tame (modify_field rd wr into_bits f v a)"
  unfolding read_field_def modify_field_def by (intro tame_intro)+

lemma tame_set_write_offset [tame_intro]: "tame (set_write_offset n)"
  by (simp add: tame_def set_write_offset_def same_tables_def ring_def option.map_comp comp_def)

lemma tame_emit_cmd [tame_intro]: "tame (emit_cmd h ptr cw n fs)"
  unfolding emit_cmd_def build_cmd_def by (auto intro!: tame_intro split: prod.splits)

lemma tame_cmd_poll [tame_intro]: "tame (cmd_poll h cr cw n fuel retries)"
  by (induction fuel arbitrary: retries) (auto intro!: tame_intro)

section \<open>Positions of the registers that the driver uses\<close>

lemma its_ptrs [simp]:
  "reg_ptr GitsRegisters ''ctl'' 0 b = Some b"
  "reg_ptr GitsRegisters ''type_'' 0 b = Some (b + 0x8)"
  "reg_ptr GitsRegisters ''cbaser'' 0 b = Some (b + 0x80)"
  "reg_ptr GitsRegisters ''cwriter'' 0 b = Some (b + 0x88)"
  "reg_ptr GitsRegisters ''creadr'' 0 b = Some (b + 0x90)"
  "reg_ptr GitsRegisters ''translator'' 0 b = Some (b + 0x10040)"
  by (simp_all add: reg_ptr_def GitsRegisters_def)

lemma its_baser_ptr [simp]:
  "reg_ptr GitsRegisters ''baser'' i b = (if i < 8 then Some (b + of_nat (0x100 + 8 * i)) else None)"
  by (simp add: reg_ptr_def GitsRegisters_def mult.commute)

lemma gicr_ptrs [simp]:
  "reg_ptr GicrRegisters ''ctl'' 0 b = Some b"
  "reg_ptr GicrRegisters ''type_'' 0 b = Some (b + 0x8)"
  "reg_ptr GicrRegisters ''wake'' 0 b = Some (b + 0x14)"
  "reg_ptr GicrRegisters ''property_bar'' 0 b = Some (b + 0x70)"
  "reg_ptr GicrRegisters ''pending_bar'' 0 b = Some (b + 0x78)"
  "reg_ptr GicrRegisters ''igroup0'' 0 b = Some (b + 0x10080)"
  "reg_ptr GicrRegisters ''iset_enable0'' 0 b = Some (b + 0x10100)"
  "reg_ptr GicrRegisters ''iclear_enable0'' 0 b = Some (b + 0x10180)"
  "reg_ptr GicrRegisters ''iclear_pend0'' 0 b = Some (b + 0x10280)"
  "reg_ptr GicrRegisters ''igroup_mod'' 0 b = Some (b + 0x10D00)"
  by (simp_all add: reg_ptr_def GicrRegisters_def)

lemma gicr_ipriority_ptr [simp]:
  "reg_ptr GicrRegisters ''ipriority'' i b = (if i < 32 then Some (b + of_nat (0x10400 + i)) else None)"
  by (simp add: reg_ptr_def GicrRegisters_def)

lemma gicd_ptrs [simp]:
  "reg_ptr GicdRegisters ''ctl'' 0 b = Some b"
  "reg_ptr GicdRegisters ''igroup'' i b = (if i < 32 then Some (b + of_nat (0x80 + 4 * i)) else None)"
  "reg_ptr GicdRegisters ''iset_enable'' i b = (if i < 32 then Some (b + of_nat (0x100 + 4 * i)) else None)"
  "reg_ptr GicdRegisters ''iclear_enable'' i b = (if i < 32 then Some (b + of_nat (0x180 + 4 * i)) else None)"
  "reg_ptr GicdRegisters ''iclear_pend'' i b = (if i < 32 then Some (b + of_nat (0x280 + 4 * i)) else None)"
  "reg_ptr GicdRegisters ''ipriority'' i b = (if i < 1024 then Some (b + of_nat (0x400 + i)) else None)"
  "reg_ptr GicdRegisters ''irouter'' i b = (if i < 992 then Some (b + of_nat (0x6100 + 8 * i)) else None)"
  by (simp_all add: reg_ptr_def GicdRegisters_def mult.commute)

lemma with_reg_simp [simp]: "reg_ptr d n i b = Some a \<Longrightarrow> with_reg d n i b f = f a"
  by (rule ext) (simp add: with_reg_def)

section \<open>Commands return\<close>

lemma tame_push_cmd [tame_intro]: "tame (push_cmd h fs :: ('s, 'f, unit) gicm)"
proof (rule tameI)
  fix g :: "('s, 'f) gic_v3"
  assume ok: "queue_ok g"
  show "\<exists>r g'. push_cmd h fs g = Some (r, g') \<and> same_tables g g'"
  proof (cases "its g = None \<or> cmd_queue g = None")
    case True
    then show ?thesis by (auto simp: push_cmd_def pfail_def split: option.splits)
  next
    case False
    then obtain p q where pq: "its g = Some p" "cmd_queue g = Some q" by auto
    with ok have n: "num_entries q \<noteq> 0" by (simp add: queue_ok_def ring_def)
    let ?k = "\<lambda>cur. let next = (write_offset q + 1) mod num_entries q in
        if next = unat cur then pfail CommandQueueFull
        else pthen (emit_cmd h (q_base q + of_nat (write_offset q * 32)) (p + 0x88) next fs)
               (cmd_poll h (p + 0x90) (p + 0x88) next MAX_SPINS 0)"
    have "push_cmd h fs g = pbind (read_field (m_rd64 h) (widen_from_bits :: u64 \<Rightarrow> u16)
        (fld GitsCreadr ''Offset'') (p + 0x90)) ?k g"
      using pq n by (simp add: push_cmd_def Let_def cong: if_cong)
    moreover have "tame (pbind (read_field (m_rd64 h) (widen_from_bits :: u64 \<Rightarrow> u16)
        (fld GitsCreadr ''Offset'') (p + 0x90)) ?k)"
      by (intro tame_intro) (auto simp: Let_def intro!: tame_intro)
    ultimately show ?thesis using tameD [OF _ ok] by metis
  qed
qed

lemma tame_pushes [tame_intro]:
  "tame (push_mapd h d a n v)" "tame (push_mapc h i rd v)" "tame (push_mapti h d e l i)"
  "tame (push_invall h i)" "tame (push_sync h rd)" "tame (push_discard h d e)" "tame (push_inv h d e)"
  by (simp_all add: push_mapd_def push_mapc_def push_mapti_def push_invall_def push_sync_def
      push_discard_def push_inv_def Let_def tame_push_cmd)

text \<open>A method that looks at the driver's state first.\<close>

lemma tame_state: "(\<And>g. \<exists>k. m g = k g \<and> tame k) \<Longrightarrow> tame m"
  by (rule tameI) (metis tameD)

lemma tame_rdbase [tame_intro]: "tame (rdbase_for_redist h i)"
proof (rule tame_state)
  fix g
  show "\<exists>k. rdbase_for_redist h i g = k g \<and> tame k"
  proof (cases "its g")
    case None
    then show ?thesis by (auto simp: rdbase_for_redist_def intro: tame_intro)
  next
    case (Some p)
    show ?thesis
    proof (cases "i < length (redistributors g)")
      case True
      define r where "r = redistributors g ! i"
      have "rdbase_for_redist h i g =
          pbind (read_field (m_rd64 h) (widen_from_bits :: u64 \<Rightarrow> u16) (fld GicrTyper ''ProcessorNumber'') (r + 8))
            (\<lambda>n. pbind (read_field (m_rd64 h) bool_from_bits (fld GitsTyper ''PTA'') (p + 8))
              (\<lambda>pta. pret (Some (if pta then drop_bit 16 (phys_addr_to_dmap r) else ucast n)))) g"
        using Some True by (simp add: rdbase_for_redist_def Let_def r_def cong: if_cong)
      then show ?thesis by (auto intro!: exI conjI tame_intro)
    next
      case False
      with Some show ?thesis by (auto simp: rdbase_for_redist_def intro: tame_intro)
    qed
  qed
qed

lemma tame_sync [tame_intro]: "tame (sync_redist h i)"
  unfolding sync_redist_def by (intro tame_intro)

lemma tame_msi_invall [tame_intro]: "tame (msi_invall h i)"
proof (rule tame_state)
  fix g
  show "\<exists>k. msi_invall h i g = k g \<and> tame k"
    by (cases "its g = None") (auto simp: msi_invall_def intro!: exI conjI [OF refl] tame_intro)
qed

lemma tame_update_lpi_prop [tame_intro]: "tame (update_lpi_prop h l f v)"
proof (rule tame_state)
  fix g
  have rest: "tame (\<lambda>g'. if its g' = None then pret () g'
      else case lpi_to_event g' l of None \<Rightarrow> pret () g'
        | Some (d, e, icid) \<Rightarrow> pthen (push_inv h d e) (sync_redist h (unat icid)) g')"
    by (rule tame_state)
      (auto split: option.splits prod.splits intro!: exI conjI [OF refl] tame_intro)
  show "\<exists>k. update_lpi_prop h l f v g = k g \<and> tame k"
    by (cases "lpi_prop_table g")
      (auto simp: update_lpi_prop_def intro!: exI conjI [OF refl] tame_intro rest)
qed

section \<open>The invariant of the driver\<close>

text \<open>
  Every mapped event owns its LPI, the reverse table agrees with it, and every LPI of the reverse
  table is allocated.
\<close>

definition gic_inv :: "('s, 'f) gic_v3 \<Rightarrow> bool" where
  "gic_inv g \<longleftrightarrow>
     lpi_inv (g_lpi_alloc g) \<and> lpi_ids (g_lpi_alloc g) = {LPI_START .. MAX_LPI_ID} \<and>
     queue_ok g \<and> length (interrupt_handlers g) = 1020 \<and>
     owned (lpi_used_set (g_lpi_alloc g)) (event_mappings g) \<and>
     (\<forall>d e l. event_mappings g (d, e) = Some l \<longrightarrow> (\<exists>icid. lpi_to_event g l = Some (d, e, icid))) \<and>
     dom (lpi_to_event g) \<subseteq> lpi_used_set (g_lpi_alloc g)"

definition keeps :: "('s, 'f, 'a) gicm \<Rightarrow> bool" where
  "keeps m \<longleftrightarrow> (\<forall>g. gic_inv g \<longrightarrow> ensures m g (\<lambda>_. gic_inv))"

named_theorems keeps_intro \<open>methods that keep the invariant\<close>

lemma keepsI: "(\<And>g r g'. gic_inv g \<Longrightarrow> m g = Some (r, g') \<Longrightarrow> gic_inv g') \<Longrightarrow> keeps m"
  by (simp add: keeps_def ensures_def)

lemma keepsD: "keeps m \<Longrightarrow> gic_inv g \<Longrightarrow> m g = Some (r, g') \<Longrightarrow> gic_inv g'"
  by (simp add: keeps_def ensures_def)

lemma gic_inv_same: "same_tables g g' \<Longrightarrow> gic_inv g \<Longrightarrow> gic_inv g'"
  by (erule same_tablesE) (auto simp: gic_inv_def queue_ok_def)

lemma tame_keeps: "tame m \<Longrightarrow> keeps m"
  by (rule keepsI) (metis gic_inv_same gic_inv_def tameD option.inject prod.inject)

lemma tame_run:
  assumes "tame m" and "gic_inv g"
  obtains r g' where "m g = Some (r, g')" and "same_tables g g'" and "gic_inv g'"
proof -
  from assms(2) have "queue_ok g" by (simp add: gic_inv_def)
  then obtain r g' where r: "m g = Some (r, g')" "same_tables g g'" using tameD [OF assms(1)] by blast
  show thesis by (rule that [OF r gic_inv_same [OF r(2) assms(2)]])
qed

lemma keeps_pbind [keeps_intro]: "keeps m \<Longrightarrow> (\<And>x. keeps (f x)) \<Longrightarrow> keeps (pbind m f)"
  unfolding keeps_def by (intro allI impI, rule ensures_pbind [where R = "\<lambda>_. gic_inv"]) auto

lemma keeps_pfor [keeps_intro]: "(\<And>x. x \<in> set xs \<Longrightarrow> keeps (body x)) \<Longrightarrow> keeps (pfor xs body)"
  by (induction xs) (simp_all add: tame_keeps [OF tame_pret] keeps_pbind)

lemma keeps_state: "(\<And>g. keeps (m g)) \<Longrightarrow> keeps (\<lambda>g. m g g)"
  by (auto simp: keeps_def ensures_def)

lemma keeps_none [keeps_intro]: "keeps (\<lambda>_. None)"
  by (simp add: keeps_def ensures_def)

lemma keeps_if [keeps_intro]: "(b \<Longrightarrow> keeps m) \<Longrightarrow> (\<not> b \<Longrightarrow> keeps k) \<Longrightarrow> keeps (if b then m else k)"
  by simp

lemma keeps_option [keeps_intro]:
  "(x = None \<Longrightarrow> keeps m) \<Longrightarrow> (\<And>y. x = Some y \<Longrightarrow> keeps (k y)) \<Longrightarrow> keeps (case x of None \<Rightarrow> m | Some y \<Rightarrow> k y)"
  by (cases x) auto

lemma keeps_case_state:
  "keeps m \<Longrightarrow> (\<And>y. keeps (k y)) \<Longrightarrow> keeps (\<lambda>g. case x g of None \<Rightarrow> m g | Some y \<Rightarrow> k y g)"
  by (rule keepsI) (metis keepsD option.case(1) option.case(2) option.exhaust)

lemma keeps_if_state: "keeps m \<Longrightarrow> keeps k \<Longrightarrow> keeps (\<lambda>g. if b g then m g else k g)"
  by (rule keepsI) (metis keepsD)

lemma keeps_spin [keeps_intro]:
  assumes "keeps c"
  shows "keeps (spin_while c)"
proof -
  have "ensures (spin_while c) g (\<lambda>_ g'. gic_inv g \<longrightarrow> gic_inv g')" for g
    by (rule ensures_spin_while) (use assms in \<open>auto simp: keeps_def ensures_def\<close>)
  then show ?thesis by (simp add: keeps_def ensures_def)
qed

lemma keeps_with_reg [keeps_intro]:
  "(\<And>a. keeps (f a)) \<Longrightarrow> keeps (with_reg d n i b f)"
  by (auto simp: with_reg_def [abs_def] keeps_def ensures_def split: option.splits)

text \<open>Updates of fields that the invariant does not mention.\<close>

lemma keeps_update:
  assumes "\<And>g. gic_inv g \<Longrightarrow> gic_inv (u g)"
  shows "keeps (\<lambda>g. pret x (u g))"
  using assms by (simp add: keeps_def ensures_def pret_def)

lemmas tame_leaf = tame_pret tame_pfail tame_hw_read tame_hw_do tame_hw_write tame_hw_alloc tame_field
  tame_pushes tame_rdbase tame_sync tame_update_lpi_prop tame_msi_invall

lemmas keeps_leaf = tame_leaf [THEN tame_keeps]

lemma keeps_redistributor_mut [keeps_intro]: "keeps (redistributor_mut cpu)"
  by (auto simp: redistributor_mut_def keeps_def ensures_def split: if_splits)

lemma keeps_waits [keeps_intro]:
  "keeps (wait_for_distributor_rwp h)" "keeps (wait_for_redistributor_rwp h cpu)"
proof -
  show "keeps (wait_for_distributor_rwp h)"
    unfolding wait_for_distributor_rwp_def [abs_def]
    by (rule keeps_state [where m = "\<lambda>g. with_reg _ _ _ (distributor g) _"]) (intro keeps_intro keeps_leaf)
  show "keeps (wait_for_redistributor_rwp h cpu)"
    unfolding wait_for_redistributor_rwp_def by (intro keeps_intro keeps_leaf)
qed

lemma keeps_writes [keeps_intro]:
  "keeps (write_dist32 h n i v)" "keeps (write_dist8 h n i w)" "keeps (write_redist32 h r n v)"
  "keeps (modify_dist_ctl h n b)"
  unfolding write_dist32_def [abs_def] write_dist8_def [abs_def] write_redist32_def modify_dist_ctl_def [abs_def]
  by (intro keeps_with_reg keeps_leaf keeps_state [where m = "\<lambda>g. with_reg _ _ _ (distributor g) _"])+

lemma gic_inv_updates [simp]:
  "gic_inv (g\<lparr>init_state := n\<rparr>) = gic_inv g" "gic_inv (g\<lparr>lpi_prop_table := t\<rparr>) = gic_inv g"
  "gic_inv (g\<lparr>device_itts := m\<rparr>) = gic_inv g" "gic_inv (g\<lparr>lpi_handlers := l\<rparr>) = gic_inv g"
  "gic_inv (g\<lparr>ih_borrows := k\<rparr>) = gic_inv g" "gic_inv (g\<lparr>hw := s\<rparr>) = gic_inv g"
  by (simp_all add: gic_inv_def queue_ok_def ring_def)

lemma keeps_must_alloc [keeps_intro]: "keeps (must_alloc h pages)"
proof -
  have "keeps (\<lambda>g. if p = 0 then None else pret p g)" for p :: u64
    by (simp add: keeps_def ensures_def pret_def)
  then show ?thesis unfolding must_alloc_def by (intro keeps_intro keeps_leaf)
qed

lemma keeps_init_baser [keeps_intro]: "keeps (init_baser h a)"
  unfolding init_baser_def Let_def by (intro keeps_intro keeps_leaf)

lemma keeps_new_queue: "0 < n \<Longrightarrow> keeps (\<lambda>g. pret x (g\<lparr>cmd_queue := Some \<lparr>q_base = b, write_offset = w, num_entries = n\<rparr>\<rparr>))"
  by (rule keeps_update) (simp add: gic_inv_def queue_ok_def ring_def)

lemma keeps_init_its [keeps_intro]: "keeps (init_its h)"
  unfolding init_its_def [abs_def]
  by (intro keeps_case_state keeps_intro keeps_new_queue keeps_leaf) (simp add: ITS_PAGE_SIZE_def ITS_PAGE_SHIFT_def)

lemma keeps_init_lpis [keeps_intro]: "keeps (init_lpis h)"
  unfolding init_lpis_def by (intro keeps_intro keeps_leaf keeps_update) simp_all

lemma keeps_init_distributor [keeps_intro]: "keeps (init_distributor h)"
  unfolding init_distributor_def
  by (intro keeps_intro keeps_if_state keeps_leaf keeps_update) simp_all

lemma keeps_init_redistributor [keeps_intro]: "keeps (init_redistributor h cpu)"
  unfolding init_redistributor_def init_redist_lpis_def
  by (intro keeps_intro keeps_if_state keeps_case_state keeps_leaf)

text \<open>The other processors keep the invariant while this one waits for them.\<close>

definition others_ok :: "(('s, 'f) gic_v3 \<Rightarrow> ('s, 'f) gic_v3) \<Rightarrow> bool" where
  "others_ok others \<longleftrightarrow> (\<forall>g. gic_inv g \<longrightarrow> gic_inv (others g))"

lemma keeps_gic_init:
  assumes "others_ok others"
  shows "keeps (gic_init h others cpu)"
proof -
  have first: "keeps (\<lambda>g. init_distributor h (g\<lparr>init_state := 1\<rparr>))"
    by (rule keepsI) (metis keepsD [OF keeps_init_distributor] gic_inv_updates(1))
  have wait: "keeps (\<lambda>g. Some (Inr (init_state g \<noteq> 2), if init_state g \<noteq> 2 then others g else g))"
    using assms by (simp add: keeps_def ensures_def others_ok_def)
  show ?thesis
    unfolding gic_init_def by (intro keeps_intro keeps_if_state first wait keeps_leaf)
qed

section \<open>Interrupts\<close>

lemma keeps_interrupts:
  "keeps (enable_interrupt h cpu i)" "keeps (disable_interrupt h cpu i)" "keeps (acknowledge_interrupt h)"
  "keeps (end_of_interrupt h i)" "keeps (gic_set_priority h cpu i p)" "keeps (set_affinity h i a)"
proof -
  show "keeps (enable_interrupt h cpu i)" "keeps (disable_interrupt h cpu i)" "keeps (end_of_interrupt h i)"
      "keeps (gic_set_priority h cpu i p)"
    unfolding enable_interrupt_def disable_interrupt_def end_of_interrupt_def gic_set_priority_def
    by (intro keeps_intro keeps_leaf)+
  show "keeps (acknowledge_interrupt h)"
    by (auto simp: keeps_def ensures_def acknowledge_interrupt_def pret_def split: prod.splits)
  show "keeps (set_affinity h i a)"
    unfolding set_affinity_def [abs_def]
    by (intro keeps_if_state keeps_leaf keeps_state [where m = "\<lambda>g. with_reg _ _ _ (distributor g) _"]
        keeps_with_reg)
qed

lemma keeps_register_handler: "keeps (register_handler i k)"
  by (auto simp: keeps_def ensures_def register_handler_def pret_def pfail_def gic_inv_def queue_ok_def ring_def
      split: if_splits)

lemma keeps_on_interrupt:
  assumes "\<And>f i. keeps (call f i)"
  shows "keeps (on_interrupt call i)"
proof -
  have below: "keeps (\<lambda>g. case call (dispatch_fn k) i (g\<lparr>ih_borrows := ih_borrows g + 1\<rparr>) of
      None \<Rightarrow> None | Some (r, g') \<Rightarrow> Some (r, g'\<lparr>ih_borrows := ih_borrows g' - 1\<rparr>))" for k
  proof (rule keepsI)
    fix g r g'
    assume inv: "gic_inv g"
      and run: "(case call (dispatch_fn k) i (g\<lparr>ih_borrows := ih_borrows g + 1\<rparr>) of
        None \<Rightarrow> None | Some (r, g') \<Rightarrow> Some (r, g'\<lparr>ih_borrows := ih_borrows g' - 1\<rparr>)) = Some (r, g')"
    then obtain g1 where c: "call (dispatch_fn k) i (g\<lparr>ih_borrows := ih_borrows g + 1\<rparr>) = Some (r, g1)"
      and g': "g' = g1\<lparr>ih_borrows := ih_borrows g1 - 1\<rparr>" by (auto split: option.splits)
    have "gic_inv (g\<lparr>ih_borrows := ih_borrows g + 1\<rparr>)" using inv by simp
    from keepsD [OF assms this c] show "gic_inv g'" by (simp add: g')
  qed
  show ?thesis
    unfolding on_interrupt_def [abs_def]
    by (rule keeps_if_state [OF keeps_case_state [OF keeps_leaf(2) below]
          keeps_if_state [OF keeps_case_state [OF keeps_leaf(2) assms] keeps_leaf(2)]])
qed

section \<open>Message-signalled interrupts\<close>

lemma take_lpi_cases:
  assumes "gic_inv g"
  obtains (taken) l a where "take_lpi x g = Some (Inr l, g\<lparr>g_lpi_alloc := a\<rparr>)"
      and "l \<in> {LPI_START .. MAX_LPI_ID}" and "l \<notin> lpi_used_set (g_lpi_alloc g)"
      and "lpi_inv a" and "lpi_ids a = {LPI_START .. MAX_LPI_ID}"
      and "lpi_used_set a = insert l (lpi_used_set (g_lpi_alloc g))"
      and "\<And>k. owned (lpi_used_set a) ((event_mappings g)(k \<mapsto> l))"
    | (refused) e a where "take_lpi x g = Some (Inl e, g\<lparr>g_lpi_alloc := a\<rparr>)"
      and "e = LpiAlreadyUsed \<or> e = NoAvailableLpi"
      and "lpi_inv a" and "lpi_ids a = {LPI_START .. MAX_LPI_ID}"
      and "lpi_used_set a = lpi_used_set (g_lpi_alloc g)"
proof -
  from assms have inv: "lpi_inv (g_lpi_alloc g)" and ids: "lpi_ids (g_lpi_alloc g) = {LPI_START .. MAX_LPI_ID}"
    and own: "owned (lpi_used_set (g_lpi_alloc g)) (event_mappings g)" by (auto simp: gic_inv_def)
  show thesis
  proof (cases x)
    case None
    obtain r a where r: "lpi_alloc (g_lpi_alloc g) = (r, a)" by fastforce
    show thesis
    proof (cases r)
      case None
      then show thesis
        using refused [of NoAvailableLpi a] lpis.take_any_law [OF inv r] r \<open>x = None\<close> ids
        by (simp add: take_lpi_def pfail_def)
    next
      case (Some l)
      then show thesis
        using taken [of l a] lpis.take_any_law [OF inv r] r \<open>x = None\<close> ids
          lpis.owned_take_any [OF inv own r [unfolded Some]]
        by (simp add: take_lpi_def pret_def)
    qed
  next
    case (Some l)
    obtain r a where r: "lpi_reserve (g_lpi_alloc g) l = Some (r, a)"
      using lpis.take_id_law [OF inv, of l] by blast
    show thesis
    proof (cases r)
      case (Inl u)
      then show thesis
        using refused [of LpiAlreadyUsed a] lpis.take_id_law [OF inv, of l] r Some ids
        by (simp add: take_lpi_def pfail_def)
    next
      case (Inr u)
      then show thesis
        using taken [of l a] lpis.take_id_law [OF inv, of l] r Some ids
          lpis.owned_take_id [OF inv own, of l u a] by (simp add: take_lpi_def pret_def)
    qed
  qed
qed

text \<open>With an LPI taken but not yet mapped, the invariant holds as well.\<close>

lemma gic_inv_alloc:
  assumes "gic_inv g" and "lpi_inv a" and "lpi_ids a = {LPI_START .. MAX_LPI_ID}"
    and "lpi_used_set (g_lpi_alloc g) \<subseteq> lpi_used_set a"
  shows "gic_inv (g\<lparr>g_lpi_alloc := a\<rparr>)"
  using assms by (auto simp: gic_inv_def owned_def queue_ok_def ring_def)

lemma keeps_msi_devices:
  "keeps (msi_register_device h d n)" "keeps (msi_unregister_device h d)"
proof -
  have ins: "keeps (insert_itt h d p sz)" for p sz
    by (rule keepsI) (auto simp: insert_itt_def Let_def hw_do_def pret_def split: option.splits)
  show "keeps (msi_register_device h d n)"
    unfolding msi_register_device_def [abs_def] Let_def
    by (intro keeps_case_state keeps_intro keeps_leaf ins)
  have del: "keeps (\<lambda>g. let g' = g\<lparr>device_itts := (device_itts g)(d := None)\<rparr> in
      case device_itts g d of None \<Rightarrow> pret () g' | Some (p, sz) \<Rightarrow> hw_do (\<lambda>s. dealloc h s p sz) g')"
    by (rule keepsI) (auto simp: Let_def hw_do_def pret_def split: option.splits)
  show "keeps (msi_unregister_device h d)"
    unfolding msi_unregister_device_def by (intro keeps_intro keeps_if_state keeps_leaf del)
qed

text \<open>What \<open>msi_map_event\<close> can do.\<close>

lemma msi_map_event_cases:
  assumes inv: "gic_inv g" and run: "msi_map_event h d e x c g = Some (r, g')"
  obtains (no_id) err a where "r = Inl err" and "err = LpiAlreadyUsed \<or> err = NoAvailableLpi"
      and "g' = g\<lparr>g_lpi_alloc := a\<rparr>" and "lpi_used_set a = lpi_used_set (g_lpi_alloc g)" and "gic_inv g'"
    | (no_its) a where "r = Inl MsiNotSupported" and "its g = None" and "g' = g\<lparr>g_lpi_alloc := a\<rparr>"
      and "lpi_used_set a = lpi_used_set (g_lpi_alloc g)" and "gic_inv g'"
    | (failed) l a err where "r = Inl err" and "its g \<noteq> None" and "l \<in> {LPI_START .. MAX_LPI_ID}"
      and "l \<notin> lpi_used_set (g_lpi_alloc g)" and "lpi_used_set a = insert l (lpi_used_set (g_lpi_alloc g))"
      and "push_mapti h d e l c (g\<lparr>g_lpi_alloc := a\<rparr>) = Some (Inl err, g')"
      and "same_tables (g\<lparr>g_lpi_alloc := a\<rparr>) g'" and "gic_inv g'"
    | (mapped) l a g1 where "r = Inr l" and "its g \<noteq> None" and "l \<in> {LPI_START .. MAX_LPI_ID}"
      and "l \<notin> lpi_used_set (g_lpi_alloc g)" and "lpi_used_set a = insert l (lpi_used_set (g_lpi_alloc g))"
      and "push_mapti h d e l c (g\<lparr>g_lpi_alloc := a\<rparr>) = Some (Inr (), g1)"
      and "same_tables (g\<lparr>g_lpi_alloc := a\<rparr>) g1"
      and "g' = g1\<lparr>event_mappings := (event_mappings g)((d, e) \<mapsto> l),
                   lpi_to_event := (lpi_to_event g)(l \<mapsto> (d, e, c))\<rparr>" and "gic_inv g'"
  using inv
proof (cases rule: take_lpi_cases [of g x])
  case (refused err a)
  then show thesis
    using no_id [of err a] run gic_inv_alloc [OF inv refused(3,4)] refused by (simp add: msi_map_event_def pbind_def)
next
  case (taken l a)
  let ?g = "g\<lparr>g_lpi_alloc := a\<rparr>"
  have inv1: "gic_inv ?g" using gic_inv_alloc [OF inv taken(4,5)] taken(6) by auto
  show thesis
  proof (cases "its g = None")
    case True
    obtain a' where a': "lpi_free a l = Some a'" "lpi_inv a'" "lpi_ids a' = lpi_ids a"
        "lpi_used_set a' = lpi_used_set a - {l}"
      using lpis.give_back_law [OF taken(4), of l] by blast
    then have "lpi_used_set a' = lpi_used_set (g_lpi_alloc g)" using taken(3,6) by simp
    moreover have "gic_inv (g\<lparr>g_lpi_alloc := a'\<rparr>)"
      using gic_inv_alloc [OF inv a'(2)] a'(3) taken(5) calculation by simp
    ultimately show thesis
      using no_its [of a'] True run taken(1) a'(1)
      by (simp add: msi_map_event_def pbind_def release_lpi_def pret_def pfail_def)
  next
    case False
    obtain r1 g1 where p: "push_mapti h d e l c ?g = Some (r1, g1)" "same_tables ?g g1"
      by (rule tame_run [OF tame_pushes(3) inv1])
    show thesis
    proof (cases r1)
      case (Inl err)
      with p run taken(1) False have "r = Inl err" "g' = g1" by (simp_all add: msi_map_event_def pbind_def)
      with failed [of err l a] p Inl taken(2,3,6) False gic_inv_same [OF p(2) inv1] show thesis by simp
    next
      case (Inr u)
      from p(2) obtain s q where g1: "g1 = ?g\<lparr>hw := s, cmd_queue := q\<rparr>" "ring g1 = ring ?g"
        by (rule same_tablesE)
      with p run taken(1) False Inr have r: "r = Inr l"
        and g': "g' = g1\<lparr>event_mappings := (event_mappings g)((d, e) \<mapsto> l),
                   lpi_to_event := (lpi_to_event g)(l \<mapsto> (d, e, c))\<rparr>"
        by (simp_all add: msi_map_event_def pbind_def record_event_def pret_def)
      have "event_mappings g x \<noteq> Some l" for x
        using inv taken(3) unfolding gic_inv_def owned_def ran_def by blast
      then have "gic_inv g'"
        using inv1 taken(6,7) g1 by (auto simp: g' gic_inv_def queue_ok_def ring_def split: if_splits)
      with mapped [of l a g1] r g' p Inr taken(2,3,6) False show thesis by simp
    qed
  qed
qed

lemma forget_event_run:
  assumes inv: "gic_inv g"
  shows "\<exists>g'. forget_event d e g = Some (Inr (), g') \<and> gic_inv g' \<and>
    event_mappings g' = (event_mappings g)((d, e) := None) \<and>
    lpi_used_set (g_lpi_alloc g') = lpi_used_set (g_lpi_alloc g) - set_option (event_mappings g (d, e))"
proof (cases "event_mappings g (d, e)")
  case None
  then have "(event_mappings g)((d, e) := None) = event_mappings g" by (rule fun_upd_idem)
  with None inv show ?thesis by (simp add: forget_event_def pret_def)
next
  case (Some l)
  from inv have a: "lpi_inv (g_lpi_alloc g)" "owned (lpi_used_set (g_lpi_alloc g)) (event_mappings g)"
    by (simp_all add: gic_inv_def)
  obtain a' where a': "lpi_free (g_lpi_alloc g) l = Some a'" "lpi_inv a'" "lpi_ids a' = lpi_ids (g_lpi_alloc g)"
      "lpi_used_set a' = lpi_used_set (g_lpi_alloc g) - {l}"
    using lpis.give_back_law [OF a(1), of l] by blast
  have own: "owned (lpi_used_set a') ((event_mappings g)((d, e) := None))"
    by (rule lpis.owned_give_back [OF a Some a'(1)])
  have other: "event_mappings g x \<noteq> Some l" if "x \<noteq> (d, e)" for x
    using that a(2) Some inj_onD [of "event_mappings g" "dom (event_mappings g)" x "(d, e)"]
    by (auto simp: owned_def domI)
  let ?g = "g\<lparr>event_mappings := (event_mappings g)((d, e) := None), lpi_to_event := (lpi_to_event g)(l := None),
      g_lpi_alloc := a', lpi_handlers := (lpi_handlers g)(l := None)\<rparr>"
  have "forget_event d e g = Some (Inr (), ?g)"
    using Some a'(1) by (simp add: forget_event_def Let_def pbind_def release_lpi_def pret_def)
  moreover have "gic_inv ?g"
    using inv a' own other
    by (auto simp: gic_inv_def queue_ok_def ring_def domIff split: if_splits)
  ultimately show ?thesis using a'(4) Some by simp
qed

lemma tame_sync_all: "tame (\<lambda>g. pfor [0..<length (redistributors g)] (sync_redist h) g)"
  by (rule tame_state) (blast intro: tame_pfor tame_sync)

lemma msi_unmap_event_run:
  assumes inv: "gic_inv g"
  shows "\<exists>r g'. msi_unmap_event h d e g = Some (r, g') \<and> gic_inv g'"
proof (cases "its g = None")
  case True
  with inv show ?thesis by (simp add: msi_unmap_event_def pret_def)
next
  case False
  let ?m = "pthen (push_discard h d e) (\<lambda>g'. pfor [0..<length (redistributors g')] (sync_redist h) g')"
  obtain r g1 where m: "?m g = Some (r, g1)" "gic_inv g1"
    by (rule tame_run [OF tame_pbind [OF tame_pushes(6) tame_sync_all] inv])
  have "msi_unmap_event h d e g = pthen ?m (forget_event d e) g"
    using False by (auto simp: msi_unmap_event_def pbind_def split: option.splits sum.splits)
  with m forget_event_run [OF m(2), of d e] show ?thesis by (cases r) (auto simp: pbind_def)
qed

lemma keeps_msi_map: "keeps (msi_map_event h d e x c)"
  by (rule keepsI) (erule (1) msi_map_event_cases)

lemma keeps_msi_unmap: "keeps (msi_unmap_event h d e)"
  by (rule keepsI) (metis msi_unmap_event_run option.inject prod.inject)

section \<open>Reachable states\<close>

text \<open>
  The states that calls of the driver lead to, in any order. A handler runs between \<open>enter\<close> and
  \<open>leave\<close>, and may use the driver.
\<close>

inductive gic_reachable ::
  "'s gic_ops \<Rightarrow> (('s, 'f) gic_v3 \<Rightarrow> ('s, 'f) gic_v3) \<Rightarrow> ('s, 'f) gic_v3 \<Rightarrow> bool" for h others where
  new: "gic_reachable h others (gic_new s dist redists its_regs)"
| init: "gic_reachable h others g \<Longrightarrow> gic_init h others cpu g = Some (r, g') \<Longrightarrow> gic_reachable h others g'"
| enable: "gic_reachable h others g \<Longrightarrow> enable_interrupt h cpu i g = Some (r, g') \<Longrightarrow> gic_reachable h others g'"
| disable: "gic_reachable h others g \<Longrightarrow> disable_interrupt h cpu i g = Some (r, g') \<Longrightarrow> gic_reachable h others g'"
| acknowledge: "gic_reachable h others g \<Longrightarrow> acknowledge_interrupt h g = Some (ri, g') \<Longrightarrow> gic_reachable h others g'"
| eoi: "gic_reachable h others g \<Longrightarrow> end_of_interrupt h i g = Some (r, g') \<Longrightarrow> gic_reachable h others g'"
| priority: "gic_reachable h others g \<Longrightarrow> gic_set_priority h cpu i p g = Some (r, g') \<Longrightarrow> gic_reachable h others g'"
| affinity: "gic_reachable h others g \<Longrightarrow> set_affinity h i a g = Some (r, g') \<Longrightarrow> gic_reachable h others g'"
| handler: "gic_reachable h others g \<Longrightarrow> register_handler i k g = Some (r, g') \<Longrightarrow> gic_reachable h others g'"
| enter: "gic_reachable h others g \<Longrightarrow> gic_reachable h others (g\<lparr>ih_borrows := ih_borrows g + 1\<rparr>)"
| leave: "gic_reachable h others g \<Longrightarrow> gic_reachable h others (g\<lparr>ih_borrows := ih_borrows g - 1\<rparr>)"
| add_device: "gic_reachable h others g \<Longrightarrow> msi_register_device h d n g = Some (r, g') \<Longrightarrow> gic_reachable h others g'"
| remove_device: "gic_reachable h others g \<Longrightarrow> msi_unregister_device h d g = Some (r, g') \<Longrightarrow> gic_reachable h others g'"
| map_event: "gic_reachable h others g \<Longrightarrow> msi_map_event h d e x c g = Some (rl, g') \<Longrightarrow> gic_reachable h others g'"
| unmap_event: "gic_reachable h others g \<Longrightarrow> msi_unmap_event h d e g = Some (r, g') \<Longrightarrow> gic_reachable h others g'"
| invall: "gic_reachable h others g \<Longrightarrow> msi_invall h c g = Some (r, g') \<Longrightarrow> gic_reachable h others g'"

lemma gic_new_inv: "gic_inv (gic_new s dist redists its_regs)"
proof -
  have "lpi_inv (lpi_new LPI_START MAX_LPI_ID)"
    using lpi_new_inv [of LPI_START MAX_LPI_ID] by (simp add: LPI_START_def MAX_LPI_ID_def)
  then show ?thesis
    by (simp add: gic_inv_def gic_new_def queue_ok_def ring_def owned_def lpi_ids_def lpi_new_def Let_def)
qed

lemma gic_reachable_inv: "gic_reachable h others g \<Longrightarrow> others_ok others \<Longrightarrow> gic_inv g"
proof (induction rule: gic_reachable.induct)
  case (init g cpu r g')
  then show ?case using keepsD [OF keeps_gic_init] by blast
qed (auto intro: gic_new_inv keepsD [OF keeps_interrupts(1)] keepsD [OF keeps_interrupts(2)]
    keepsD [OF keeps_interrupts(3)] keepsD [OF keeps_interrupts(4)] keepsD [OF keeps_interrupts(5)]
    keepsD [OF keeps_interrupts(6)] keepsD [OF keeps_register_handler] keepsD [OF keeps_msi_devices(1)]
    keepsD [OF keeps_msi_devices(2)] keepsD [OF keeps_msi_map] keepsD [OF keeps_msi_unmap]
    keepsD [OF tame_keeps [OF tame_msi_invall]])

end
