(* ===== verification/Gicv3_Spec.thy ===== *)
theory Gicv3_Spec
  imports Gicv3_Driver
begin

text \<open>
  What the GICv3 driver guarantees, and where it does not do what it means to: ownership of LPIs by
  events, calls that return, the commands that reach the ring of the ITS, interrupt routing and the
  address of a redistributor.
\<close>

section \<open>A small controller\<close>

text \<open>
  For the examples: an ITS at \<open>0x8080000\<close> that executes every command at once. Its state is the value
  of the write pointer register, which the read pointer follows.
\<close>

definition example_gic :: "u64 gic_ops" where
  "example_gic =
     \<lparr>m_rd8 = \<lambda>s _. (0, s), m_rd32 = \<lambda>s a. (if a = 0x8080000 then 0x80000000 else 0, s), m_rd64 = \<lambda>s _. (s, s),
      m_wr8 = \<lambda>s _ _. s, m_wr32 = \<lambda>s _ _. s, m_wr64 = \<lambda>s a v. if a = 0x8080088 then v else s,
      m_fill = \<lambda>s _ _ _. s, alloc_zeroed = \<lambda>s _ _. (0x10000, s), dealloc = \<lambda>s _ _. s,
      read_iar = \<lambda>s. (1023, s), write_eoir = \<lambda>s _. s, enable_group1 = \<lambda>s. s,
      set_priority_mask = \<lambda>s _. s, set_sre = \<lambda>s. s, write_bpr1 = \<lambda>s _. s\<rparr>"

definition example_new :: "(u64, unit) gic_v3" where
  "example_new = gic_new 0 0x8000000 [0x80A0000] (Some 0x8080000)"

lemma pbind_step: "m p = Some (Inr x, p') \<Longrightarrow> pbind m f p = f x p'"
  by (simp add: pbind_def)

lemma example_access:
  fixes g :: "(u64, unit) gic_v3"
  shows "modify_field (m_rd32 example_gic) (m_wr32 example_gic) into f v a g = Some (Inr (), g)"
    "hw_write (m_wr32 example_gic) a v32 g = Some (Inr (), g)"
    "hw_write (m_wr8 example_gic) a v8 g = Some (Inr (), g)"
    "hw_read (m_rd64 example_gic) a g = Some (Inr (hw g), g)"
    "hw_write (m_wr64 example_gic) a v64 g =
       Some (Inr (), if a = 0x8080088 then g\<lparr>hw := v64\<rparr> else g)"
    "read_field (m_rd64 example_gic) from64 f a g = Some (Inr (field_lift from64 f (hw g)), g)"
    "read_field (m_rd32 example_gic) from32 f a g =
       Some (Inr (field_lift from32 f (if a = 0x8080000 then 0x80000000 else 0)), g)"
    "hw_alloc example_gic sz al g = Some (Inr 0x10000, g)"
  by (auto simp: modify_field_def hw_write_def hw_do_def hw_read_def hw_alloc_def read_field_def pbind_def
      pret_def example_gic_def)

lemma no_wait:
  "c p = Some (Inr False, p) \<Longrightarrow> spin_while c p = Some (Inr (), p)"
  by (simp add: spin_while.simps)

lemma example_distributor:
  fixes g :: "(u64, unit) gic_v3"
  assumes "distributor g = 0x8000000"
  shows "modify_dist_ctl example_gic n b g = Some (Inr (), g)"
    "wait_for_distributor_rwp example_gic g = Some (Inr (), g)"
    "i < 32 \<Longrightarrow> write_dist32 example_gic ''iclear_enable'' i v g = Some (Inr (), g)"
    "i < 32 \<Longrightarrow> write_dist32 example_gic ''iclear_pend'' i v g = Some (Inr (), g)"
    "i < 32 \<Longrightarrow> write_dist32 example_gic ''igroup'' i v g = Some (Inr (), g)"
    "i < 1024 \<Longrightarrow> write_dist8 example_gic ''ipriority'' i w g = Some (Inr (), g)"
  by (simp_all add: modify_dist_ctl_def wait_for_distributor_rwp_def write_dist32_def write_dist8_def assms
      example_access no_wait field_lift_def bool_from_bits_def)

definition example_queue :: its_cmd_queue where
  "example_queue = \<lparr>q_base = 0x10000, write_offset = 0, num_entries = 2048\<rparr>"

lemma example_init_its:
  fixes g :: "(u64, unit) gic_v3"
  assumes "its g = Some 0x8080000" and "hw g = 0"
  shows "init_its example_gic g = Some (Inr (), g\<lparr>cmd_queue := Some example_queue\<rparr>)"
proof -
  have quiescent: "spin_while (pbind (read_field (m_rd32 example_gic) bool_from_bits
      (fld GitsCtlr ''Quiescent'') 0x8080000) (\<lambda>q. pret (\<not> q))) g = Some (Inr (), g)"
    by (rule no_wait) (simp add: pbind_def example_access pret_def field_lift_def fld_def GitsCtlr_def
        bool_from_bits_def low_mask_def)
  have basers: "pfor [0..<8] (\<lambda>i. with_reg GitsRegisters ''baser'' i 0x8080000 (init_baser example_gic)) g =
      Some (Inr (), g)"
    by (rule pfor_idle)
      (simp add: init_baser_def pbind_step example_access assms(2) field_lift_def widen_from_bits_def pret_def
        del: upt_rec_numeral)
  show ?thesis
    using assms
    by (simp add: init_its_def pbind_step example_access quiescent basers must_alloc_def pret_def
        example_queue_def ITS_PAGE_SIZE_def ITS_PAGE_SHIFT_def cong: pbind_eval_cong del: upt_rec_numeral)
qed

lemma example_init_distributor:
  fixes g :: "(u64, unit) gic_v3"
  assumes "its g = Some 0x8080000" and "hw g = 0" and "distributor g = 0x8000000"
  shows "init_distributor example_gic g =
    Some (Inr (), g\<lparr>lpi_prop_table := Some 0x10000, cmd_queue := Some example_queue, init_state := 2\<rparr>)"
proof -
  have spis: "pfor [1..<32] (\<lambda>i. pthen (write_dist32 example_gic ''iclear_enable'' i 0xFFFFFFFF)
      (pthen (write_dist32 example_gic ''iclear_pend'' i 0xFFFFFFFF)
        (write_dist32 example_gic ''igroup'' i 0xFFFFFFFF))) g = Some (Inr (), g)"
    by (rule pfor_idle) (simp add: pbind_step example_distributor assms del: upt_rec_numeral)
  have prios: "pfor [32..<1020] (\<lambda>i. write_dist8 example_gic ''ipriority'' i 0xA0) g = Some (Inr (), g)"
    by (rule pfor_idle) (simp add: example_distributor assms del: upt_rec_numeral)
  have fill: "m_fill example_gic s p v n = s" for s p v n by (simp add: example_gic_def)
  have lpis: "init_lpis example_gic g =
      Some (Inr (), g\<lparr>lpi_prop_table := Some 0x10000, cmd_queue := Some example_queue\<rparr>)"
    using assms
    by (simp add: init_lpis_def pbind_step example_access pret_def hw_do_def fill example_init_its
        dmap_addr_to_phys_def DMAP_START_def VA_WIDTH_def cong: pbind_eval_cong)
  show ?thesis
    using assms spis prios lpis
    by (simp add: init_distributor_def pbind_step example_distributor pret_def cong: pbind_eval_cong
        del: One_nat_def upt_rec_numeral)
qed

lemma example_build:
  fixes g :: "(u64, unit) gic_v3"
  assumes "\<forall>(i, f, v) \<in> set fs. ptr + of_nat (8 * i) \<noteq> 0x8080088"
  shows "build_cmd example_gic ptr fs g = Some (Inr (), g)"
  unfolding build_cmd_def
proof (rule pfor_idle)
  fix x
  assume x: "x \<in> set fs"
  obtain i f v where xi: "x = (i, f, v)" by (cases x) auto
  have a: "ptr + of_nat (8 * i) \<noteq> 0x8080088" using assms x by (auto simp: xi)
  then show "(case x of (i, f, v) \<Rightarrow> modify_field (m_rd64 example_gic) (m_wr64 example_gic) widen_into_bits f v
      (ptr + of_nat (8 * i))) g = Some (Inr (), g)"
    by (simp add: xi modify_field_def pbind_step example_access del: of_nat_mult)
qed

lemma example_push:
  fixes g :: "(u64, unit) gic_v3"
  assumes "its g = Some 0x8080000" and "cmd_queue g = Some (example_queue\<lparr>write_offset := w\<rparr>)"
    and "hw g = of_nat (32 * w)" and w: "w = 0 \<or> w = 1 \<or> w = 2 \<or> w = 3 \<or> w = 4"
    and fs: "\<forall>(i, f, v) \<in> set fs. i < 4"
  shows "push_cmd example_gic fs g =
    Some (Inr (), g\<lparr>hw := of_nat (32 * (w + 1)), cmd_queue := Some (example_queue\<lparr>write_offset := w + 1\<rparr>)\<rparr>)"
proof -
  let ?ptr = "0x10000 + of_nat (w * 32) :: u64"
  have away: "?ptr + of_nat (8 * i) \<noteq> 0x8080088" if "i < 4" for i
  proof -
    have "i = 0 \<or> i = 1 \<or> i = 2 \<or> i = 3" using that by linarith
    then show ?thesis using w by auto
  qed
  have zero: "pfor [0..<4] (\<lambda>i. hw_write (m_wr64 example_gic) (?ptr + of_nat (8 * i)) 0) g = Some (Inr (), g)"
    by (rule pfor_idle) (use away in \<open>simp add: example_access del: upt_rec_numeral of_nat_mult\<close>)
  have build: "build_cmd example_gic ?ptr fs g = Some (Inr (), g)"
    by (rule example_build) (use fs away in fastforce)
  have off: "field_lift (widen_from_bits :: u64 \<Rightarrow> u16) (fld GitsCreadr ''Offset'') (of_nat (32 * n)) = of_nat n"
    if "n = 0 \<or> n = 1 \<or> n = 2 \<or> n = 3 \<or> n = 4 \<or> n = 5" for n
    using that
    by (auto simp: field_lift_def fld_def GitsCreadr_def low_mask_def widen_from_bits_def mask_eq_exp_minus_1)
  define n where "n = w + 1"
  have cw: "modifier_set (widen_into_bits :: u16 \<Rightarrow> u64) (fld GitsCwriter ''Offset'') (of_nat n) (of_nat (32 * w)) =
      of_nat (32 * n)"
    using w by (auto simp: n_def modifier_set_def field_mask_def field_lower_def fld_def GitsCwriter_def low_mask_def
        widen_into_bits_def mask_eq_exp_minus_1)
  have emit: "emit_cmd example_gic ?ptr 0x8080088 n fs g =
      Some (Inr (), g\<lparr>hw := of_nat (32 * n), cmd_queue := Some (example_queue\<lparr>write_offset := n\<rparr>)\<rparr>)"
    unfolding emit_cmd_def
    by (simp add: pbind_step zero build set_write_offset_def modify_field_def example_access assms(2,3) cw
        del: of_nat_mult of_nat_add upt_rec_numeral)
  have poll: "cmd_poll example_gic 0x8080090 0x8080088 n MAX_SPINS 0
      (g\<lparr>hw := of_nat (32 * n), cmd_queue := Some (example_queue\<lparr>write_offset := n\<rparr>)\<rparr>) =
      Some (Inr (), g\<lparr>hw := of_nat (32 * n), cmd_queue := Some (example_queue\<lparr>write_offset := n\<rparr>)\<rparr>)"
  proof -
    have n4: "n = 0 \<or> n = 1 \<or> n = 2 \<or> n = 3 \<or> n = 4 \<or> n = 5" using w by (auto simp: n_def)
    obtain k where k: "MAX_SPINS = Suc k" using not0_implies_Suc [of MAX_SPINS] by (auto simp: MAX_SPINS_def)
    have "unat (of_nat n :: u16) = n" using w by (auto simp: n_def)
    then show ?thesis
      unfolding k using off [OF n4] by (simp add: n_def [symmetric] pbind_step example_access pret_def del: of_nat_mult of_nat_add)
  qed
  have offw: "field_lift (widen_from_bits :: u64 \<Rightarrow> u16) (fld GitsCreadr ''Offset'') (of_nat (32 * w)) = of_nat w"
    using off [of w] w by blast
  have slot: "(w + 1) mod 2048 = n" "n \<noteq> unat (of_nat w :: u16)" using w by (auto simp: n_def)
  show ?thesis
    unfolding n_def [symmetric] using emit poll slot offw assms(1-3)
    by (simp add: push_cmd_def example_queue_def pbind_step example_access Let_def mult.commute
        del: of_nat_mult of_nat_add)
qed

lemma example_pushes:
  fixes g :: "(u64, unit) gic_v3"
  assumes "its g = Some 0x8080000" and "cmd_queue g = Some (example_queue\<lparr>write_offset := w\<rparr>)"
    and "hw g = of_nat (32 * w)" and "w = 0 \<or> w = 1 \<or> w = 2 \<or> w = 3 \<or> w = 4"
  shows "push_mapc example_gic i rd v g = Some (Inr (), g\<lparr>hw := of_nat (32 * (w + 1)),
      cmd_queue := Some (example_queue\<lparr>write_offset := w + 1\<rparr>)\<rparr>)"
    and "push_invall example_gic i g = Some (Inr (), g\<lparr>hw := of_nat (32 * (w + 1)),
      cmd_queue := Some (example_queue\<lparr>write_offset := w + 1\<rparr>)\<rparr>)"
    and "push_sync example_gic rd g = Some (Inr (), g\<lparr>hw := of_nat (32 * (w + 1)),
      cmd_queue := Some (example_queue\<lparr>write_offset := w + 1\<rparr>)\<rparr>)"
    and "push_mapti example_gic d e l i g = Some (Inr (), g\<lparr>hw := of_nat (32 * (w + 1)),
      cmd_queue := Some (example_queue\<lparr>write_offset := w + 1\<rparr>)\<rparr>)"
    and "push_mapd example_gic d p n v g = Some (Inr (), g\<lparr>hw := of_nat (32 * (w + 1)),
      cmd_queue := Some (example_queue\<lparr>write_offset := w + 1\<rparr>)\<rparr>)"
  unfolding push_mapc_def push_invall_def push_sync_def push_mapti_def push_mapd_def Let_def
  by (rule example_push [OF assms], simp)+

text \<open>The state after \<open>init\<close> on the only processor.\<close>

definition example_ready :: "(u64, unit) gic_v3" where
  "example_ready = example_new\<lparr>lpi_prop_table := Some 0x10000, init_state := 2, hw := 96,
     cmd_queue := Some (example_queue\<lparr>write_offset := 3\<rparr>)\<rparr>"

lemma example_redistributor:
  fixes g :: "(u64, unit) gic_v3"
  assumes "its g = Some 0x8080000" and "hw g = 0" and "redistributors g = [0x80A0000]"
    and "cmd_queue g = Some example_queue" and "lpi_prop_table g = Some p"
  shows "init_redistributor example_gic 0 g =
    Some (Inr (), g\<lparr>hw := 96, cmd_queue := Some (example_queue\<lparr>write_offset := 3\<rparr>)\<rparr>)"
proof -
  let ?g = "\<lambda>w. g\<lparr>hw := of_nat (32 * w), cmd_queue := Some (example_queue\<lparr>write_offset := w\<rparr>)\<rparr>"
  have q0: "example_queue\<lparr>write_offset := 0\<rparr> = example_queue" by (simp add: example_queue_def)
  have g0: "?g 0 = g" using assms(2,4) by (simp add: q0)
  have base: "rdbase_for_redist example_gic 0 g = Some (Inr (Some 0), g)"
    using assms by (simp add: rdbase_for_redist_def pbind_step example_access pret_def field_lift_def
        bool_from_bits_def widen_from_bits_def Let_def)
  have cmds: "pthen (push_mapc example_gic i 0 True) (pthen (push_invall example_gic i) (push_sync example_gic 0)) g =
      Some (Inr (), ?g 3)" for i
    using example_pushes(1) [of "?g 0" 0 i 0 True] example_pushes(2) [of "?g 1" 1 i]
      example_pushes(3) [of "?g 2" 2 0] assms(1,2,4)
    unfolding g0 by (simp add: pbind_step eval_nat_numeral q0)
  have lpis: "init_redist_lpis example_gic 0 0x80A0000 g = Some (Inr (), ?g 3)"
    using assms base cmds
    by (simp add: init_redist_lpis_def pbind_step example_access)
  have prios: "pfor [0..<32] (\<lambda>i. with_reg GicrRegisters ''ipriority'' i 0x80A0000 (\<lambda>a.
      hw_write (m_wr8 example_gic) a 0xA0)) (?g 3) = Some (Inr (), ?g 3)"
    by (rule pfor_idle) (simp add: example_access del: upt_rec_numeral)
  have mut: "redistributor_mut 0 x = Some (Inr 0x80A0000, x)"
    if "redistributors x = redistributors g" for x :: "(u64, unit) gic_v3"
    using assms(3) that by (simp add: redistributor_mut_def)
  show ?thesis
    using assms lpis prios
    by (simp add: init_redistributor_def pbind_step mut example_access write_redist32_def no_wait
        wait_for_redistributor_rwp_def field_lift_def bool_from_bits_def del: upt_rec_numeral)
qed

lemma example_init: "gic_init example_gic id 0 example_new = Some (Inr (), example_ready)"
proof -
  have cpu: "set_sre example_gic s = s" "write_bpr1 example_gic s v = s" "enable_group1 example_gic s = s"
      "set_priority_mask example_gic s w = s" for s v w
    by (simp_all add: example_gic_def)
  have sel: "its example_new = Some 0x8080000" "hw example_new = 0" "distributor example_new = 0x8000000"
      "redistributors example_new = [0x80A0000]" "init_state example_new = 0"
    by (simp_all add: example_new_def gic_new_def)
  show ?thesis
    by (simp add: gic_init_def pbind_step hw_do_def cpu sel example_init_distributor example_redistributor
        example_ready_def)
qed

lemma example_reachable: "gic_reachable example_gic id example_ready"
  using gic_reachable.init [OF gic_reachable.new example_init [unfolded example_new_def]] .

lemma example_lpi_8192:
  "\<exists>a. lpi_reserve (lpi_new LPI_START MAX_LPI_ID) 8192 = Some (Inr (), a)"
proof -
  have "lpi_inv (lpi_new LPI_START MAX_LPI_ID)" "\<not> lpi_used (lpi_new LPI_START MAX_LPI_ID) 8192"
    using lpi_new_inv [of LPI_START MAX_LPI_ID] by (simp_all add: LPI_START_def MAX_LPI_ID_def)
  moreover have "lpi_in_range (lpi_new LPI_START MAX_LPI_ID) 8192"
    by (simp add: lpi_in_range_def lpi_new_def Let_def LPI_START_def MAX_LPI_ID_def)
  ultimately show ?thesis using lpi_reserve_cases [of "lpi_new LPI_START MAX_LPI_ID" 8192] by auto
qed

lemma example_mapped:
  "\<exists>g. msi_map_event example_gic 7 0 (Some 8192) 0 example_ready = Some (Inr 8192, g) \<and>
     event_mappings g (7, 0) = Some 8192"
proof -
  obtain a where a: "lpi_reserve (lpi_new LPI_START MAX_LPI_ID) 8192 = Some (Inr (), a)"
    using example_lpi_8192 by blast
  have sel: "g_lpi_alloc example_ready = lpi_new LPI_START MAX_LPI_ID" "its example_ready = Some 0x8080000"
      "cmd_queue example_ready = Some (example_queue\<lparr>write_offset := 3\<rparr>)" "hw example_ready = of_nat (32 * 3)"
    by (simp_all add: example_ready_def example_new_def gic_new_def)
  show ?thesis
    using example_pushes(4) [of "example_ready\<lparr>g_lpi_alloc := a\<rparr>" 3 7 0 8192 0] sel
    by (simp add: msi_map_event_def take_lpi_def pbind_step a pret_def record_event_def)
qed

section \<open>Calls return\<close>

lemma insert_itt_returns: "\<exists>r g'. insert_itt h d p sz g = Some (r, g')"
  by (simp add: insert_itt_def Let_def pret_def hw_do_def split: option.splits)

lemma returns_pbind:
  assumes "tame m" and "gic_inv g" and "\<And>x g'. \<exists>r g2. f x g' = Some (r, g2)"
  shows "\<exists>r g'. pbind m f g = Some (r, g')"
proof -
  obtain r g1 where m: "m g = Some (r, g1)" by (rule tame_run [OF assms(1,2)])
  then show ?thesis using assms(3) by (cases r) (simp_all add: pbind_def)
qed

lemma msi_unregister_returns:
  assumes "gic_inv g"
  shows "\<exists>r g'. msi_unregister_device h d g = Some (r, g')"
  unfolding msi_unregister_device_def
proof (rule returns_pbind [OF _ assms])
  show "tame (\<lambda>g. if its g = None then pret () g else push_mapd h d 0 0 False g)"
    by (rule tame_state) (metis tame_pret tame_pushes(1))
qed (simp add: Let_def pret_def hw_do_def split: option.splits)

lemma msi_register_returns:
  assumes inv: "gic_inv g"
  shows "\<exists>r g'. msi_register_device h d n g = Some (r, g')"
proof (cases "its g")
  case None
  then show ?thesis by (simp add: msi_register_device_def pfail_def)
next
  case (Some p)
  let ?sz = "\<lambda>es :: u8. itt_bytes n (ucast es + 1)"
  let ?rd = "read_field (m_rd64 h) (widen_from_bits :: u64 \<Rightarrow> u8) (fld GitsTyper ''ITTEntrySize'') (p + 8)"
  obtain r1 g1 where r1: "?rd g = Some (r1, g1)" "gic_inv g1" by (rule tame_run [OF tame_field(1) inv])
  show ?thesis
  proof (cases r1)
    case (Inl e)
    with r1 Some show ?thesis by (simp add: msi_register_device_def pbind_def)
  next
    case (Inr es)
    obtain r2 g2 where r2: "hw_alloc h (unat (?sz es)) 256 g1 = Some (r2, g2)" "gic_inv g2"
      by (rule tame_run [OF tame_hw_alloc r1(2)])
    show ?thesis
    proof (cases r2)
      case (Inl e)
      with r1 r2 Inr Some show ?thesis
        by (simp add: msi_register_device_def pbind_def Let_def pfail_def)
    next
      case (Inr ptr)
      have "\<exists>r g'. pthen (push_mapd h d (dmap_addr_to_phys ptr) n True) (insert_itt h d ptr (unat (?sz es))) g2 =
          Some (r, g')"
        by (rule returns_pbind [OF tame_pushes(1) r2(2)]) (rule insert_itt_returns)
      with r1 r2 Inr \<open>r1 = Inr es\<close> Some show ?thesis
        by (simp add: msi_register_device_def pbind_step Let_def pfail_def)
    qed
  qed
qed

lemma msi_map_returns:
  assumes inv: "gic_inv g"
  shows "\<exists>r g'. msi_map_event h d e x c g = Some (r, g')"
  using inv
proof (cases rule: take_lpi_cases [of g x])
  case (refused err a)
  then show ?thesis by (simp add: msi_map_event_def pbind_def)
next
  case (taken l a)
  have inv1: "gic_inv (g\<lparr>g_lpi_alloc := a\<rparr>)" using gic_inv_alloc [OF inv taken(4,5)] taken(6) by auto
  show ?thesis
  proof (cases "its g = None")
    case True
    then show ?thesis
      using taken(1) lpis.give_back_law [OF taken(4), of l]
      by (auto simp: msi_map_event_def pbind_step release_lpi_def pret_def pfail_def)
  next
    case False
    have "\<exists>r g'. pthen (push_mapti h d e l c) (pthen (record_event d e l c) (pret l)) (g\<lparr>g_lpi_alloc := a\<rparr>) =
        Some (r, g')"
      by (rule returns_pbind [OF tame_pushes(3) inv1]) (simp add: pbind_def record_event_def pret_def)
    then show ?thesis using taken(1) False by (simp add: msi_map_event_def pbind_step)
  qed
qed

section \<open>Commands in the ring\<close>

text \<open>
  The 64-bit words of the ring, and what is assumed of the memory behind them: a write is read back,
  it changes no other word, and accesses elsewhere change no word of the ring.
\<close>

definition ring_words :: "its_cmd_queue \<Rightarrow> u64 set" where
  "ring_words q = {q_base q + of_nat (8 * i) | i. i < 4 * num_entries q}"

definition ring_memory :: "'s gic_ops \<Rightarrow> ('s \<Rightarrow> u64 \<Rightarrow> u64) \<Rightarrow> u64 set \<Rightarrow> bool" where
  "ring_memory h mem R \<longleftrightarrow>
     (\<forall>s a v x. x \<in> R \<longrightarrow> mem (m_wr64 h s a v) x = (if x = a then v else mem s x)) \<and>
     (\<forall>s a x. x \<in> R \<longrightarrow> mem (snd (m_rd64 h s a)) x = mem s x) \<and>
     (\<forall>s x. x \<in> R \<longrightarrow> fst (m_rd64 h s x) = mem s x)"

text \<open>Word \<open>i\<close> of a command: the fields set one after the other in a word that is zero.\<close>

definition cmd_word :: "cmd_fields \<Rightarrow> nat \<Rightarrow> u64" where
  "cmd_word fs i =
     fold (\<lambda>(j, f, v) w. if j = i then modifier_set widen_into_bits f v w else w) fs 0"

lemma hw_read_run: "\<exists>v s. hw_read rd a g = Some (Inr v, g\<lparr>hw := s\<rparr>)"
  by (cases "rd (hw g) a") (auto simp: hw_read_def)

lemma modify_field_run: "\<exists>s. modify_field rd wr into f v a g = Some (Inr (), g\<lparr>hw := s\<rparr>)"
proof -
  obtain old s where "hw_read rd a g = Some (Inr old, g\<lparr>hw := s\<rparr>)" using hw_read_run [of rd a g] by blast
  then show ?thesis by (auto simp: modify_field_def pbind_step hw_write_def hw_do_def)
qed

lemma ring_read:
  assumes "ring_memory h mem R" and "hw_read (m_rd64 h) a g = Some (r, g')" and "x \<in> R"
  shows "mem (hw g') x = mem (hw g) x" and "a = x \<Longrightarrow> r = Inr (mem (hw g) x)"
  using assms by (auto simp: hw_read_def ring_memory_def split: prod.splits) (metis fst_conv snd_conv)+

lemma ring_write:
  assumes "ring_memory h mem R" and "hw_write (m_wr64 h) a v g = Some (r, g')" and "x \<in> R"
  shows "mem (hw g') x = (if x = a then v else mem (hw g) x)"
  using assms by (auto simp: hw_write_def hw_do_def ring_memory_def)

lemma ring_modify:
  assumes R: "ring_memory h mem R" and "modify_field (m_rd64 h) (m_wr64 h) into f v a g = Some (r, g')" and "x \<in> R"
  shows "mem (hw g') x = (if x = a then modifier_set into f v (mem (hw g) x) else mem (hw g) x)"
proof -
  obtain old g1 where rd: "hw_read (m_rd64 h) a g = Some (Inr old, g1)"
    and wr: "hw_write (m_wr64 h) a (modifier_set into f v old) g1 = Some (r, g')"
    using assms(2) by (auto simp: modify_field_def pbind_def hw_read_def split: prod.splits)
  show ?thesis
    using ring_read [OF R rd assms(3)] ring_write [OF R wr assms(3)] by auto
qed

lemma slot_eq: "i < 4 \<Longrightarrow> j < 4 \<Longrightarrow> (ptr :: u64) + of_nat (8 * i) = ptr + of_nat (8 * j) \<longleftrightarrow> i = j"
proof -
  assume "i < 4" "j < 4"
  then have "unat (of_nat (8 * i) :: u64) = 8 * i" "unat (of_nat (8 * j) :: u64) = 8 * j"
    by (simp_all only: unat_of_nat take_bit_nat_eq_self_iff) simp_all
  then have "(of_nat (8 * i) :: u64) = of_nat (8 * j) \<longleftrightarrow> i = j" by (metis mult_cancel1 zero_neq_numeral)
  then show ?thesis by (simp only: add_left_cancel)
qed

lemma ring_build:
  assumes R: "ring_memory h mem R" and "build_cmd h ptr fs g = Some (r, g')"
    and "\<forall>(i, f, v) \<in> set fs. i < 4"
  shows "\<lbrakk>x \<in> R; \<And>i. i < 4 \<Longrightarrow> x \<noteq> ptr + of_nat (8 * i)\<rbrakk> \<Longrightarrow> mem (hw g') x = mem (hw g) x"
    and "\<lbrakk>i < 4; ptr + of_nat (8 * i) \<in> R\<rbrakk> \<Longrightarrow> mem (hw g') (ptr + of_nat (8 * i)) =
      fold (\<lambda>(j, f, v) w. if j = i then modifier_set widen_into_bits f v w else w) fs
        (mem (hw g) (ptr + of_nat (8 * i)))"
  using assms(2,3)
proof (induction fs arbitrary: g)
  case Nil
  { case 1 then show ?case by (simp add: build_cmd_def pret_def) }
  { case 2 then show ?case by (simp add: build_cmd_def pret_def) }
next
  case (Cons y fs)
  obtain j f v where y: "y = (j, f, v)" by (cases y) auto
  let ?m = "modify_field (m_rd64 h) (m_wr64 h) widen_into_bits f v (ptr + of_nat (8 * j))"
  have split: "\<exists>g1. ?m g = Some (Inr (), g1) \<and> build_cmd h ptr fs g1 = Some (r, g')"
    if "build_cmd h ptr (y # fs) g = Some (r, g')" for g
    using that by (auto simp: build_cmd_def y pbind_def modify_field_def hw_read_def hw_write_def hw_do_def
        split: prod.splits)
  { case 1
    then obtain g1 where g1: "?m g = Some (Inr (), g1)" "build_cmd h ptr fs g1 = Some (r, g')"
      using split by blast
    show ?case using Cons.IH(1) [OF 1(1,2) g1(2)] 1 ring_modify [OF R g1(1) 1(1)] by (simp add: y) }
  { case 2
    then obtain g1 where g1: "?m g = Some (Inr (), g1)" "build_cmd h ptr fs g1 = Some (r, g')"
      using split by blast
    show ?case
      using Cons.IH(2) [OF 2(1,2) g1(2)] 2 ring_modify [OF R g1(1) 2(2)] slot_eq [of i j ptr]
      by (auto simp: y simp del: of_nat_mult) }
qed

lemma ring_clear:
  assumes R: "ring_memory h mem R" and "pfor js (\<lambda>i. hw_write (m_wr64 h) (ptr + of_nat (8 * i)) 0) g = Some (r, g')"
    and "x \<in> R"
  shows "r = Inr () \<and> mem (hw g') x = (if \<exists>i \<in> set js. x = ptr + of_nat (8 * i) then 0 else mem (hw g) x)"
  using assms(2)
proof (induction js arbitrary: g)
  case Nil
  then show ?case by (simp add: pret_def)
next
  case (Cons j js)
  let ?w = "hw_write (m_wr64 h) (ptr + of_nat (8 * j)) 0"
  obtain g1 where w: "?w g = Some (Inr (), g1)" by (simp add: hw_write_def hw_do_def)
  then have "pfor js (\<lambda>i. hw_write (m_wr64 h) (ptr + of_nat (8 * i)) 0) g1 = Some (r, g')"
    using Cons.prems by (simp add: pbind_step del: of_nat_mult)
  from Cons.IH [OF this] ring_write [OF R w assms(3)] show ?case by auto
qed

lemma ring_poll:
  assumes R: "ring_memory h mem R" and "cw \<notin> R" and "x \<in> R"
    and "cmd_poll h cr cw n fuel retries g = Some (r, g')"
  shows "mem (hw g') x = mem (hw g) x"
  using assms(4)
proof (induction fuel arbitrary: retries g)
  case 0
  then show ?case by (simp add: pfail_def)
next
  case (Suc fuel)
  let ?rd = "hw_read (m_rd64 h) cr"
  obtain v1 g1 where r1: "?rd g = Some (Inr v1, g1)" using hw_read_run [of "m_rd64 h" cr g] by blast
  obtain v2 g2 where r2: "?rd g1 = Some (Inr v2, g2)" using hw_read_run [of "m_rd64 h" cr g1] by blast
  obtain g3 where r3: "modify_field (m_rd64 h) (m_wr64 h) bool_into_bits (fld GitsCwriter ''Retry'') True cw g2 =
      Some (Inr (), g3)"
    using modify_field_run [of "m_rd64 h" "m_wr64 h" bool_into_bits "fld GitsCwriter ''Retry''" True cw g2] by blast
  have "x \<noteq> cw" using assms(2,3) by blast
  then have same: "mem (hw g1) x = mem (hw g) x" "mem (hw g2) x = mem (hw g) x" "mem (hw g3) x = mem (hw g) x"
    using ring_read(1) [OF R r1 assms(3)] ring_read(1) [OF R r2 assms(3)] ring_modify [OF R r3 assms(3)] by simp_all
  have "g' = g1 \<or> g' = g2 \<or> (\<exists>k. cmd_poll h cr cw n fuel k g2 = Some (r, g') \<or> cmd_poll h cr cw n fuel k g3 = Some (r, g'))"
    using Suc.prems r1 r2 r3
    by (auto simp: read_field_def pbind_step pret_def pfail_def split: if_splits)
  then show ?case using same Suc.IH by metis
qed

lemma slot_in_ring:
  "write_offset q < num_entries q \<Longrightarrow> i < 4 \<Longrightarrow>
   q_base q + of_nat (write_offset q * 32) + of_nat (8 * i) \<in> ring_words q"
proof -
  assume "write_offset q < num_entries q" "i < 4"
  moreover have "of_nat (write_offset q * 32) + of_nat (8 * i) = (of_nat (8 * (4 * write_offset q + i)) :: u64)"
    by simp
  ultimately show ?thesis
    unfolding ring_words_def add.assoc by (intro CollectI exI [of _ "4 * write_offset q + i"]) simp
qed

text \<open>What a command that was pushed left in the ring.\<close>

lemma push_cmd_ring:
  assumes R: "ring_memory h mem (ring_words q)" and its: "its g = Some p" and q: "cmd_queue g = Some q"
    and cw: "p + 0x88 \<notin> ring_words q" and w: "write_offset q < num_entries q"
    and fs: "\<forall>(i, f, v) \<in> set fs. i < 4" and run: "push_cmd h fs g = Some (Inr (), g')"
  shows "i < 4 \<Longrightarrow> mem (hw g') (q_base q + of_nat (write_offset q * 32) + of_nat (8 * i)) = cmd_word fs i"
    and "\<lbrakk>x \<in> ring_words q; \<And>i. i < 4 \<Longrightarrow> x \<noteq> q_base q + of_nat (write_offset q * 32) + of_nat (8 * i)\<rbrakk> \<Longrightarrow>
      mem (hw g') x = mem (hw g) x"
proof -
  let ?ptr = "q_base q + of_nat (write_offset q * 32)"
  let ?next = "(write_offset q + 1) mod num_entries q"
  obtain cur s where rd: "hw_read (m_rd64 h) (p + 0x90) g = Some (Inr cur, g\<lparr>hw := s\<rparr>)"
    using hw_read_run [of "m_rd64 h" "p + 0x90" g] by blast
  let ?g1 = "g\<lparr>hw := s\<rparr>"
  let ?clear = "pfor [0..<4] (\<lambda>i. hw_write (m_wr64 h) (?ptr + of_nat (8 * i)) 0)"
  have "pthen (emit_cmd h ?ptr (p + 0x88) ?next fs) (cmd_poll h (p + 0x90) (p + 0x88) ?next MAX_SPINS 0) ?g1 =
      Some (Inr (), g')"
    using run w rd its q by (auto simp: push_cmd_def read_field_def pbind_step pret_def Let_def pfail_def split: if_splits)
  then obtain g5 where emit: "emit_cmd h ?ptr (p + 0x88) ?next fs ?g1 = Some (Inr (), g5)"
    and poll: "cmd_poll h (p + 0x90) (p + 0x88) ?next MAX_SPINS 0 g5 = Some (Inr (), g')"
    by (auto elim!: pbind_Inr)
  from emit obtain g2 g3 g4 where c: "?clear ?g1 = Some (Inr (), g2)" and b: "build_cmd h ?ptr fs g2 = Some (Inr (), g3)"
    and o: "set_write_offset ?next g3 = Some (Inr (), g4)"
    and m: "modify_field (m_rd64 h) (m_wr64 h) (widen_into_bits :: u16 \<Rightarrow> u64) (fld GitsCwriter ''Offset'')
          (of_nat ?next) (p + 0x88) g4 = Some (Inr (), g5)"
    unfolding emit_cmd_def by (elim pbind_Inr) simp
  have o': "hw g4 = hw g3" using o by (auto simp: set_write_offset_def)
  have late: "mem (hw g') x = mem (hw g3) x" if "x \<in> ring_words q" for x
    using ring_poll [OF R cw that poll] ring_modify [OF R m that] cw that o' by auto
  have early: "mem (hw g2) x = (if \<exists>i \<in> set [0..<4]. x = ?ptr + of_nat (8 * i) then 0 else mem (hw g) x)"
    if "x \<in> ring_words q" for x
    using ring_clear [OF R c that] ring_read(1) [OF R rd that] by simp
  show "mem (hw g') (?ptr + of_nat (8 * i)) = cmd_word fs i" if "i < 4"
    using late [OF slot_in_ring [OF w that]] ring_build(2) [OF R b fs that slot_in_ring [OF w that]]
      early [OF slot_in_ring [OF w that]] that
    by (auto simp: cmd_word_def simp del: upt_rec_numeral)
  show "mem (hw g') x = mem (hw g) x"
    if "x \<in> ring_words q" "\<And>i. i < 4 \<Longrightarrow> x \<noteq> ?ptr + of_nat (8 * i)"
    using late [OF that(1)] ring_build(1) [OF R b fs that] early [OF that(1)] that(2)
    by (auto simp del: upt_rec_numeral)
qed

lemma high_field:
  "modifier_set widen_into_bits \<lparr>OFFSET = 32, WIDTH = 32\<rparr> b (w :: u64) = take_bit 32 w OR push_bit 32 (b :: u64)"
  by (rule bit_word_eqI) (auto simp: bit_modifier_set field_in_def widen_into_bits_def bit_simps)

lemma one_field:
  assumes "0 < k" "k \<le> 64"
  shows "modifier_set widen_into_bits \<lparr>OFFSET = 0, WIDTH = k\<rparr> a (0 :: u64) = take_bit k (a :: u64)"
  by (rule bit_word_eqI)
    (use assms in \<open>auto simp: bit_modifier_set field_in_def widen_into_bits_def bit_simps\<close>)

definition mapti_fields :: "u32 \<Rightarrow> u32 \<Rightarrow> u32 \<Rightarrow> u32 \<Rightarrow> cmd_fields" where
  "mapti_fields d e l c =
     [(0, fld ItsCmdWord0 ''Cmd'', 0x0A), (0, fld ItsCmdWord0 ''DeviceId'', ucast d),
      (1, fld ItsMaptiWord1 ''EventId'', ucast e), (1, fld ItsMaptiWord1 ''pIntId'', ucast l),
      (2, fld ItsMaptiWord2 ''Icid'', ucast (ucast c :: u16))]"

lemma mapti_words:
  "map (cmd_word (mapti_fields d e l c)) [0..<4] =
   [0x0A OR push_bit 32 (ucast d), ucast e OR push_bit 32 (ucast l), ucast (ucast c :: u16), 0]"
proof -
  have t: "take_bit 32 (ucast x :: u64) = ucast x" for x :: u32
    by (rule bit_word_eqI) (auto simp: bit_simps dest: bit_imp_le_length)
  have t16: "take_bit 16 (ucast x :: u64) = ucast x" for x :: u16
    by (rule bit_word_eqI) (auto simp: bit_simps dest: bit_imp_le_length)
  have f: "fld ItsCmdWord0 ''Cmd'' = \<lparr>OFFSET = 0, WIDTH = 8\<rparr>" "fld ItsCmdWord0 ''DeviceId'' = \<lparr>OFFSET = 32, WIDTH = 32\<rparr>"
      "fld ItsMaptiWord1 ''EventId'' = \<lparr>OFFSET = 0, WIDTH = 32\<rparr>" "fld ItsMaptiWord1 ''pIntId'' = \<lparr>OFFSET = 32, WIDTH = 32\<rparr>"
      "fld ItsMaptiWord2 ''Icid'' = \<lparr>OFFSET = 0, WIDTH = 16\<rparr>"
    by (simp_all add: fld_def ItsCmdWord0_def ItsMaptiWord1_def ItsMaptiWord2_def)
  show ?thesis
    by (simp add: cmd_word_def mapti_fields_def f high_field one_field t t16 upt_rec)
qed

section \<open>Properties\<close>

text \<open>C10: In every state that calls of the driver lead to, every mapped event owns its LPI: no two
  events share one, each is a number of the LPI range that the allocator holds as used, and the reverse
  table, which is used to invalidate an LPI, names the event.\<close>

theorem gic_events_own_lpis:
  assumes "gic_reachable h others g" and "others_ok others"
  shows "inj_on (event_mappings g) (dom (event_mappings g)) \<and>
    ran (event_mappings g) \<subseteq> lpi_used_set (g_lpi_alloc g) \<inter> {LPI_START .. MAX_LPI_ID} \<and>
    (\<forall>d e l. event_mappings g (d, e) = Some l \<longrightarrow> (\<exists>icid. lpi_to_event g l = Some (d, e, icid)))"
proof -
  have inv: "gic_inv g" by (rule gic_reachable_inv [OF assms])
  then have "lpi_used_set (g_lpi_alloc g) \<subseteq> {LPI_START .. MAX_LPI_ID}"
    by (auto simp: gic_inv_def lpi_used_set_def lpi_used_def lpi_in_range_def lpi_ids_def)
  with inv show ?thesis by (auto simp: gic_inv_def owned_def)
qed

theorem gic_events_own_lpis_witness:
  "\<exists>g. event_mappings g (7, 0) = Some 8192 \<and> inj_on (event_mappings g) (dom (event_mappings g)) \<and>
     ran (event_mappings g) \<subseteq> lpi_used_set (g_lpi_alloc (g :: (u64, unit) gic_v3)) \<inter> {LPI_START .. MAX_LPI_ID}"
proof -
  obtain g where g: "msi_map_event example_gic 7 0 (Some 8192) 0 example_ready = Some (Inr 8192, g)"
    "event_mappings g (7, 0) = Some 8192" using example_mapped by blast
  have "gic_reachable example_gic id g" by (rule gic_reachable.map_event [OF example_reachable g(1)])
  from gic_events_own_lpis [OF this] g(2) show ?thesis by (auto simp: others_ok_def)
qed

text \<open>C18: In every such state the calls for message-signalled interrupts return: whatever the ITS does,
  waiting for a command ends after a bounded number of reads, with success or with an error.\<close>

theorem gic_msi_calls_return:
  assumes "gic_reachable h others g" and "others_ok others"
  shows "(\<exists>y. msi_map_event h d e x c g = Some y) \<and> (\<exists>y. msi_unmap_event h d e g = Some y) \<and>
    (\<exists>y. msi_register_device h d n g = Some y) \<and> (\<exists>y. msi_unregister_device h d g = Some y) \<and>
    (\<exists>y. msi_invall h c g = Some y)"
proof -
  have inv: "gic_inv g" by (rule gic_reachable_inv [OF assms])
  have "\<exists>y. msi_invall h c g = Some y" by (rule tame_run [OF tame_msi_invall inv]) blast
  then show ?thesis
    using msi_map_returns [OF inv] msi_unmap_event_run [OF inv] msi_register_returns [OF inv]
      msi_unregister_returns [OF inv] by blast
qed

theorem gic_msi_calls_return_witness:
  "(\<exists>y. msi_map_event example_gic 7 1 None 0 example_ready = Some y) \<and>
   (\<exists>y. msi_unmap_event example_gic 7 1 example_ready = Some y)"
  using gic_msi_calls_return [OF example_reachable, of 7 1 None 0 0] by (simp add: others_ok_def)

text \<open>C38: When the command of \<open>msi_map_event\<close> fails, the LPI that was taken for it stays allocated although
  no event owns it: nothing gives it back.\<close>

theorem gic_failed_map_leaks:
  assumes "gic_reachable h others g" and "others_ok others"
    and "msi_map_event h d e x c g = Some (Inl err, g')" and "its g \<noteq> None"
    and "err \<noteq> LpiAlreadyUsed" and "err \<noteq> NoAvailableLpi"
  shows "\<exists>l. l \<notin> lpi_used_set (g_lpi_alloc g) \<and> lpi_used_set (g_lpi_alloc g') = insert l (lpi_used_set (g_lpi_alloc g)) \<and>
    event_mappings g' = event_mappings g \<and> lpi_to_event g' l = None"
  using gic_reachable_inv [OF assms(1,2)] assms(3)
proof (cases rule: msi_map_event_cases)
  case (failed l a err')
  have "l \<notin> dom (lpi_to_event g)"
    using gic_reachable_inv [OF assms(1,2)] failed(4) unfolding gic_inv_def by blast
  then have "lpi_to_event g l = None" by (simp only: domIff not_not)
  moreover obtain s q where "g' = g\<lparr>g_lpi_alloc := a, hw := s, cmd_queue := q\<rparr>"
    using failed(7) by (rule same_tablesE)
  ultimately show ?thesis using failed(4,5) by (intro exI [of _ l]) simp
qed (use assms(4-6) in simp_all)

theorem gic_failed_map_leaks_witness:
  "\<exists>l g'. msi_map_event example_gic 7 0 (Some 8192) 0 example_new = Some (Inl NotSupported, g') \<and>
     lpi_used_set (g_lpi_alloc g') = insert l (lpi_used_set (g_lpi_alloc example_new)) \<and> event_mappings g' = Map.empty"
proof -
  obtain a where a: "lpi_reserve (lpi_new LPI_START MAX_LPI_ID) 8192 = Some (Inr (), a)"
    using example_lpi_8192 by blast
  have r: "gic_reachable example_gic id example_new" unfolding example_new_def by (rule gic_reachable.new)
  have run: "msi_map_event example_gic 7 0 (Some 8192) 0 example_new =
      Some (Inl NotSupported, example_new\<lparr>g_lpi_alloc := a\<rparr>)"
    by (simp add: msi_map_event_def take_lpi_def pbind_def example_new_def gic_new_def a pret_def pfail_def
        push_mapti_def push_cmd_def)
  show ?thesis
    using gic_failed_map_leaks [OF r _ run] run by (auto simp: others_ok_def example_new_def gic_new_def)
qed

text \<open>C17: When \<open>msi_map_event\<close> succeeds, the slot of the ring at the write offset holds the MAPTI command for
  the device, the event, the LPI that is returned and the collection, no other word of the ring has
  changed, and the LPI is one that was free.\<close>

theorem gic_map_event_command:
  assumes "gic_inv g" and "its g = Some p" and "cmd_queue g = Some q" and "write_offset q < num_entries q"
    and "ring_memory h mem (ring_words q)" and "p + 0x88 \<notin> ring_words q"
    and "msi_map_event h d e x c g = Some (Inr l, g')"
  shows "let slot = map (\<lambda>i. q_base q + of_nat (write_offset q * 32) + of_nat (8 * i)) [0..<4] in
    map (mem (hw g')) slot =
      [0x0A OR push_bit 32 (ucast d), ucast e OR push_bit 32 (ucast l), ucast (ucast c :: u16), 0] \<and>
    (\<forall>a \<in> ring_words q - set slot. mem (hw g') a = mem (hw g) a) \<and>
    l \<notin> lpi_used_set (g_lpi_alloc g) \<and> event_mappings g' = (event_mappings g)((d, e) \<mapsto> l)"
  using assms(1,7)
proof (cases rule: msi_map_event_cases)
  case (mapped l' a g1)
  let ?ptr = "q_base q + of_nat (write_offset q * 32)"
  have fs: "\<forall>(i, f, v) \<in> set (mapti_fields d e l c). i < 4" by (simp add: mapti_fields_def)
  have run: "push_cmd h (mapti_fields d e l c) (g\<lparr>g_lpi_alloc := a\<rparr>) = Some (Inr (), g1)"
    using mapped(1,6) by (simp add: push_mapti_def mapti_fields_def)
  have at: "its (g\<lparr>g_lpi_alloc := a\<rparr>) = Some p" "cmd_queue (g\<lparr>g_lpi_alloc := a\<rparr>) = Some q"
    using assms(2,3) by simp_all
  note ring = push_cmd_ring [OF assms(5) at assms(6,4) fs run]
  have hw: "hw g' = hw g1" using mapped(8) by simp
  have words: "map (\<lambda>i. mem (hw g') (?ptr + of_nat (8 * i))) [0..<4] = map (cmd_word (mapti_fields d e l c)) [0..<4]"
    unfolding hw by (rule map_cong [OF refl], rule ring(1)) simp
  have rest: "mem (hw g') b = mem (hw g) b"
    if "b \<in> ring_words q" "b \<notin> set (map (\<lambda>i. ?ptr + of_nat (8 * i)) [0..<4])" for b
  proof -
    have "b \<noteq> ?ptr + of_nat (8 * i)" if "i < 4" for i
    proof
      assume "b = ?ptr + of_nat (8 * i)"
      then have "b \<in> set (map (\<lambda>i. ?ptr + of_nat (8 * i)) [0..<4])"
        unfolding set_map set_upt using that by (intro image_eqI [of _ _ i]) simp_all
      with \<open>b \<notin> _\<close> show False by blast
    qed
    then show ?thesis using ring(2) [OF that(1)] hw by simp
  qed
  have "l \<notin> lpi_used_set (g_lpi_alloc g)" "event_mappings g' = (event_mappings g)((d, e) \<mapsto> l)"
    using mapped(1,4,8) by simp_all
  moreover have "map (mem (hw g')) (map (\<lambda>i. ?ptr + of_nat (8 * i)) [0..<4]) =
      [0x0A OR push_bit 32 (ucast d), ucast e OR push_bit 32 (ucast l), ucast (ucast c :: u16), 0]"
    unfolding map_map comp_def words by (rule mapti_words)
  ultimately show ?thesis unfolding Let_def using rest by blast
qed simp_all

text \<open>The witness is an ITS with memory of its own behind the ring, whose read pointer follows the write pointer.\<close>

definition memory_gic :: "(u64 \<Rightarrow> u64) gic_ops" where
  "memory_gic =
     \<lparr>m_rd8 = \<lambda>s _. (0, s), m_rd32 = \<lambda>s _. (0, s),
      m_rd64 = \<lambda>s a. (if a = 0x8080090 then s 0x8080088 else s a, s),
      m_wr8 = \<lambda>s _ _. s, m_wr32 = \<lambda>s _ _. s, m_wr64 = \<lambda>s a v. s(a := v),
      m_fill = \<lambda>s _ _ _. s, alloc_zeroed = \<lambda>s _ _. (0x10000, s), dealloc = \<lambda>s _ _. s,
      read_iar = \<lambda>s. (1023, s), write_eoir = \<lambda>s _. s, enable_group1 = \<lambda>s. s,
      set_priority_mask = \<lambda>s _. s, set_sre = \<lambda>s. s, write_bpr1 = \<lambda>s _. s\<rparr>"

definition memory_state :: "(u64 \<Rightarrow> u64, unit) gic_v3" where
  "memory_state = (gic_new (\<lambda>_. 0) 0x8000000 [0x80A0000] (Some 0x8080000))\<lparr>cmd_queue := Some example_queue\<rparr>"

lemma memory_ring:
  "0x8080088 \<notin> ring_words example_queue" "0x8080090 \<notin> ring_words example_queue"
  "ring_memory memory_gic (\<lambda>s. s) (ring_words example_queue)"
proof -
  have low: "unat x < 0x20000" if x: "x \<in> ring_words example_queue" for x
  proof -
    obtain i where i: "x = 0x10000 + of_nat (8 * i)" "i < 8192"
      using x by (auto simp: ring_words_def example_queue_def simp del: of_nat_mult)
    have "unat (of_nat (8 * i) :: u64) = 8 * i"
      using i(2) by (simp only: unat_of_nat take_bit_nat_eq_self_iff) simp
    then show ?thesis using i by (simp add: unat_word_ariths)
  qed
  show out: "0x8080088 \<notin> ring_words example_queue" "0x8080090 \<notin> ring_words example_queue"
    using low [of "0x8080088"] low [of "0x8080090"] by auto
  then show "ring_memory memory_gic (\<lambda>s. s) (ring_words example_queue)"
    by (auto simp: ring_memory_def memory_gic_def)
qed

lemma memory_inv: "gic_inv memory_state"
proof -
  have "gic_inv (gic_new (\<lambda>_. 0) 0x8000000 [0x80A0000] (Some 0x8080000) :: (u64 \<Rightarrow> u64, unit) gic_v3)"
    by (rule gic_new_inv)
  then show ?thesis by (simp add: memory_state_def gic_inv_def queue_ok_def ring_def example_queue_def)
qed

lemma memory_map:
  "\<exists>g. msi_map_event memory_gic 7 3 (Some 8192) 0 memory_state = Some (Inr 8192, g)"
proof -
  obtain a where a: "lpi_reserve (lpi_new LPI_START MAX_LPI_ID) 8192 = Some (Inr (), a)"
    using example_lpi_8192 by blast
  obtain k where k: "MAX_SPINS = Suc k" using not0_implies_Suc [of MAX_SPINS] by (auto simp: MAX_SPINS_def)
  show ?thesis
    by (simp add: msi_map_event_def take_lpi_def pbind_def memory_state_def gic_new_def a pret_def record_event_def
        push_mapti_def push_cmd_def k emit_cmd_def build_cmd_def memory_gic_def example_queue_def hw_read_def
        hw_write_def hw_do_def modify_field_def read_field_def set_write_offset_def upt_rec
        fld_def GitsCreadr_def GitsCwriter_def field_lift_def modifier_set_def field_mask_def field_lower_def
        low_mask_def widen_from_bits_def widen_into_bits_def mask_eq_exp_minus_1
        ItsCmdWord0_def ItsMaptiWord1_def ItsMaptiWord2_def)
qed

theorem gic_map_event_command_witness:
  "\<exists>g. msi_map_event memory_gic 7 3 (Some 8192) 0 memory_state = Some (Inr 8192, g) \<and>
     map (hw g) [0x10000, 0x10008, 0x10010, 0x10018] = [0x70000000A, 0x200000000003, 0, 0]"
proof -
  obtain g where g: "msi_map_event memory_gic 7 3 (Some 8192) 0 memory_state = Some (Inr 8192, g)"
    using memory_map by blast
  have at: "its memory_state = Some 0x8080000" "cmd_queue memory_state = Some example_queue"
    by (simp_all add: memory_state_def gic_new_def)
  have w: "write_offset example_queue < num_entries example_queue" by (simp add: example_queue_def)
  have cw: "0x8080000 + 0x88 \<notin> ring_words example_queue" using memory_ring(1) by simp
  show ?thesis
    using gic_map_event_command [OF memory_inv at w memory_ring(3) cw g] g
    by (simp add: Let_def upt_rec example_queue_def)
qed



text \<open>C40: For an ITS that addresses redistributors by physical address, \<open>rdbase_for_redist\<close> does not give that
  address: the driver holds pointers of the direct map and applies the translation to the direct map once
  more, which leaves them as they are. Bits of the RdBase field of a command differ from the address.\<close>

theorem gic_rdbase_not_physical:
  assumes "its g = Some p" and "i < length (redistributors g)" and "redistributors g ! i = phys_addr_to_dmap a"
    and "a < 2 ^ 48" and "rdbase_for_redist h i g = Some (Inr (Some rd), g')"
    and "\<forall>s. field_lift bool_from_bits (fld GitsTyper ''PTA'') (fst (m_rd64 h s (p + 8)))"
  shows "rd = drop_bit 16 a OR 0xFFFF00000000 \<and> take_bit 36 rd \<noteq> drop_bit 16 a"
proof -
  let ?r = "phys_addr_to_dmap a"
  obtain v s where r1: "hw_read (m_rd64 h) (?r + 8) g = Some (Inr v, g\<lparr>hw := s\<rparr>)"
    using hw_read_run [of "m_rd64 h" "?r + 8" g] by blast
  obtain v' s' where r2: "hw_read (m_rd64 h) (p + 8) (g\<lparr>hw := s\<rparr>) = Some (Inr v', g\<lparr>hw := s'\<rparr>)"
    using hw_read_run [of "m_rd64 h" "p + 8" "g\<lparr>hw := s\<rparr>"] by auto
  have "field_lift bool_from_bits (fld GitsTyper ''PTA'') v'"
    using assms(6) r2 by (auto simp: hw_read_def split: prod.splits) (metis fst_conv)
  then have rd: "rd = drop_bit 16 (phys_addr_to_dmap ?r)"
    using assms(1-3,5) r1 r2 by (simp add: rdbase_for_redist_def Let_def read_field_def pbind_step pret_def)
  have low: "unat a < 2 ^ 48" using assms(4) by (simp add: word_less_nat_alt)
  have r: "?r = a OR DMAP_START" by (rule dmap_low [OF low])
  then have k: "is_kernel_address ?r" by (simp add: bit_48_kernel bit_or_iff bit_DMAP_START)
  have top: "(0xFFFF00000000 :: u64) = push_bit 32 (mask 16)" by (simp add: mask_eq_exp_minus_1)
  have "rd = drop_bit 16 a OR push_bit 32 (mask 16)"
    by (rule bit_word_eqI)
      (auto simp: rd k r phys_addr_to_dmap_def [of "a OR DMAP_START"] bit_simps bit_DMAP_START
        simp del: push_bit_mask_eq dest: low_word_bits [OF low])
  moreover from this have "bit (take_bit 36 rd) 35" by (simp add: bit_simps del: push_bit_mask_eq)
  moreover have "\<not> bit (drop_bit 16 a) 35" using low_word_bits [OF low, of 51] by (auto simp: bit_simps)
  ultimately show ?thesis unfolding top by metis
qed

text \<open>The witness is the frame at \<open>0x80A0000\<close> of an ITS that has PTA set; bit 19 of its type register is PTA.\<close>

theorem gic_rdbase_not_physical_witness:
  "\<exists>rd g'. rdbase_for_redist (example_gic\<lparr>m_rd64 := \<lambda>s _. (0x80000, s)\<rparr>) 0
      (example_new\<lparr>redistributors := [phys_addr_to_dmap 0x80A0000]\<rparr>) = Some (Inr (Some rd), g') \<and>
     rd = 0xFFFF0000080A"
proof -
  let ?h = "example_gic\<lparr>m_rd64 := \<lambda>s _. (0x80000, s)\<rparr>"
  let ?g = "example_new\<lparr>redistributors := [phys_addr_to_dmap 0x80A0000]\<rparr>"
  have pta: "field_lift bool_from_bits (fld GitsTyper ''PTA'') (0x80000 :: u64)"
    by (simp add: field_lift_def fld_def GitsTyper_def bool_from_bits_def low_mask_def)
  have i: "its ?g = Some 0x8080000" by (simp add: example_new_def gic_new_def)
  obtain rd g' where run: "rdbase_for_redist ?h 0 ?g = Some (Inr (Some rd), g')"
    using i pta
    by (auto simp: rdbase_for_redist_def Let_def read_field_def hw_read_def pbind_def pret_def)
  show ?thesis
    using gic_rdbase_not_physical [OF i _ _ _ run, of "0x80A0000"] pta run by auto
qed

end
