(* ===== verification/Pcie_Msix.thy ===== *)
theory Pcie_Msix
  imports Pcie_Config Gicv3_Spec
begin

text \<open>
  MSI-X of \<open>kernel/drivers/pcie/src/interrupt.rs\<close>: the table of vectors in device memory and
  \<open>enable_msix\<close>, which maps the vectors of a function to LPIs through the registered interrupt
  controller (\<open>klib/src/interrupt/singleton.rs\<close>). The controller is used through the methods of the
  trait \<open>InterruptController\<close> only; the locale below says what they promise, and the GICv3 driver is
  shown to keep the promise. The state is that of the bus and that of the controller.
\<close>

section \<open>The controller in use\<close>

record 'c msi_ops =
  ctrl_register_device :: "u32 \<Rightarrow> u32 \<Rightarrow> ('c, interrupt_error, unit) run"
  ctrl_map_event :: "u32 \<Rightarrow> u32 \<Rightarrow> u32 option \<Rightarrow> u32 \<Rightarrow> ('c, interrupt_error, u32) run"
  ctrl_get_doorbell :: "('c, interrupt_error, u64) run"

text \<open>The static that holds the controller: it is set once, and used only when it is set.\<close>

definition set_interrupt_controller :: "'i \<Rightarrow> 'i option \<Rightarrow> 'i option option" where
  "set_interrupt_controller imp cell = (if cell = None then Some (Some imp) else None)"

definition get_interrupt_controller :: "'i option \<Rightarrow> 'i option" where
  "get_interrupt_controller cell = cell"

section \<open>The table\<close>

record msix_table =
  mt_base :: usize
  vector_count :: nat

definition from_raw_parts :: "usize \<Rightarrow> nat \<Rightarrow> msix_table" where
  "from_raw_parts base n = \<lparr>mt_base = base, vector_count = n\<rparr>"

definition table_is_empty :: "msix_table \<Rightarrow> bool" where
  "table_is_empty t \<longleftrightarrow> vector_count t = 0"

definition entry_ptr :: "msix_table \<Rightarrow> nat \<Rightarrow> usize" where
  "entry_ptr t index = mt_base t + of_nat (index * 16)"

definition table_entry :: "msix_table \<Rightarrow> nat \<Rightarrow> usize option" where
  "table_entry t index = (if index \<ge> vector_count t then None else Some (entry_ptr t index))"

text \<open>The iterator over the entries, and all that it yields.\<close>

definition table_iter_next :: "msix_table \<Rightarrow> nat \<Rightarrow> (usize \<times> nat) option" where
  "table_iter_next t current =
     (if current \<ge> vector_count t then None else Some (entry_ptr t current, current + 1))"

definition table_entries :: "msix_table \<Rightarrow> usize list" where
  "table_entries t = map (entry_ptr t) [0..<vector_count t]"

definition OFFSET_ADDR_LOW :: usize where "OFFSET_ADDR_LOW = 0x00"
definition OFFSET_ADDR_HIGH :: usize where "OFFSET_ADDR_HIGH = 0x04"
definition OFFSET_DATA :: usize where "OFFSET_DATA = 0x08"
definition OFFSET_VEC_CTRL :: usize where "OFFSET_VEC_CTRL = 0x0C"
definition VEC_CTRL_MASK_BIT :: u32 where "VEC_CTRL_MASK_BIT = push_bit 0 1"

definition set_address :: "'s bus_ops \<Rightarrow> usize \<Rightarrow> u64 \<Rightarrow> 's \<Rightarrow> 's" where
  "set_address h p addr s =
     wr32 h (wr32 h s (p + OFFSET_ADDR_LOW) (ucast addr)) (p + OFFSET_ADDR_HIGH) (ucast (drop_bit 32 addr))"

definition entry_address :: "'s bus_ops \<Rightarrow> usize \<Rightarrow> 's \<Rightarrow> u64" where
  "entry_address h p s =
     push_bit 32 (ucast (rd32 h s (p + OFFSET_ADDR_HIGH))) OR ucast (rd32 h s (p + OFFSET_ADDR_LOW))"

definition set_data :: "'s bus_ops \<Rightarrow> usize \<Rightarrow> u32 \<Rightarrow> 's \<Rightarrow> 's" where
  "set_data h p data s = wr32 h s (p + OFFSET_DATA) data"

definition entry_data :: "'s bus_ops \<Rightarrow> usize \<Rightarrow> 's \<Rightarrow> u32" where
  "entry_data h p s = rd32 h s (p + OFFSET_DATA)"

definition set_masked :: "'s bus_ops \<Rightarrow> usize \<Rightarrow> bool \<Rightarrow> 's \<Rightarrow> 's" where
  "set_masked h p masked s =
     (let ctrl_ptr = p + OFFSET_VEC_CTRL; current = rd32 h s ctrl_ptr in
      wr32 h s ctrl_ptr (if masked then current OR VEC_CTRL_MASK_BIT else current AND NOT VEC_CTRL_MASK_BIT))"

definition is_masked :: "'s bus_ops \<Rightarrow> usize \<Rightarrow> 's \<Rightarrow> bool" where
  "is_masked h p s \<longleftrightarrow> rd32 h s (p + OFFSET_VEC_CTRL) AND VEC_CTRL_MASK_BIT \<noteq> 0"

definition entry_configure :: "'s bus_ops \<Rightarrow> usize \<Rightarrow> u64 \<Rightarrow> u32 \<Rightarrow> bool \<Rightarrow> 's \<Rightarrow> 's" where
  "entry_configure h p doorbell event_id masked s =
     set_masked h p masked (set_data h p event_id (set_address h p doorbell s))"

section \<open>Enabling\<close>

record msix_info =
  mi_cap_offset :: u8
  mi_table_bir :: u8
  mi_table_offset :: u32
  mi_table_size :: u16

definition get_msix_info :: "'s bus_ops \<Rightarrow> ecam \<Rightarrow> bdf \<Rightarrow> 's \<Rightarrow> msix_info option option" where
  "get_msix_info h e b s =
     (case find_capability h e b s MsiX of
        None \<Rightarrow> None
      | Some None \<Rightarrow> Some None
      | Some (Some cap_offset) \<Rightarrow>
          map_option (\<lambda>msix. Some \<lparr>mi_cap_offset = cap_offset, mi_table_bir = table_bir msix,
                       mi_table_offset = table_offset msix, mi_table_size = table_size msix\<rparr>)
            (msix_read h e b cap_offset s))"

text \<open>\<open>n.next_power_of_two().trailing_zeros()\<close>: the least exponent of a power of two that is not below \<open>n\<close>.\<close>

definition pow2_exponent :: "nat \<Rightarrow> nat" where
  "pow2_exponent n = length (takeWhile (\<lambda>k. 2 ^ k < n) [0..<32])"

text \<open>The two loops over the table.\<close>

definition mask_all :: "'s bus_ops \<Rightarrow> msix_table \<Rightarrow> 's \<Rightarrow> 's" where
  "mask_all h t s = fold (\<lambda>p. set_masked h p True) (table_entries t) s"

fun map_vectors ::
    "'c msi_ops \<Rightarrow> 's bus_ops \<Rightarrow> msix_table \<Rightarrow> u32 \<Rightarrow> u32 \<Rightarrow> u64 \<Rightarrow> nat list \<Rightarrow> u32 list \<Rightarrow> 's \<Rightarrow> 'c \<Rightarrow>
     (u32 list \<times> 's \<times> 'c) option" where
  "map_vectors ctrl h t dev_id num_cpus doorbell [] lpis s c = Some (lpis, s, c)"
| "map_vectors ctrl h t dev_id num_cpus doorbell (i # is) lpis s c =
     (let event_id = of_nat i in
      case ctrl_map_event ctrl dev_id event_id None (event_id mod num_cpus) c of
        None \<Rightarrow> None
      | Some (Inr lpi, c') \<Rightarrow>
          map_vectors ctrl h t dev_id num_cpus doorbell is (lpis @ [lpi])
            (entry_configure h (entry_ptr t i) doorbell event_id False s) c'
      | Some (Inl _, c') \<Rightarrow> map_vectors ctrl h t dev_id num_cpus doorbell is lpis s c')"

definition bus_do :: "('s \<Rightarrow> 's option) \<Rightarrow> ('s \<times> 'c, string, unit) run" where
  "bus_do f = (\<lambda>(s, c). map_option (\<lambda>s'. (Inr (), (s', c))) (f s))"

text \<open>
  \<open>cpu_count\<close> is \<open>PerCpu::all().len()\<close>; \<open>cell\<close> is the static with the controller. The errors of the
  controller become messages.
\<close>

definition msi_setup ::
    "'c msi_ops \<Rightarrow> u32 \<Rightarrow> u32 \<Rightarrow> ('s \<times> 'c, string, u64) run" where
  "msi_setup ctrl dev_id num_events_log2 = (\<lambda>(s, c).
     case ctrl_register_device ctrl dev_id num_events_log2 c of
       None \<Rightarrow> None
     | Some (Inl _, c1) \<Rightarrow> Some (Inl ''MSI device registration fail'', (s, c1))
     | Some (Inr _, c1) \<Rightarrow>
         (case ctrl_get_doorbell ctrl c1 of
            None \<Rightarrow> None
          | Some (Inl _, c2) \<Rightarrow> Some (Inl ''Failed to get MSI doorbell'', (s, c2))
          | Some (Inr doorbell, c2) \<Rightarrow> Some (Inr doorbell, (s, c2))))"

definition map_table ::
    "'c msi_ops \<Rightarrow> 's bus_ops \<Rightarrow> msix_table \<Rightarrow> u32 \<Rightarrow> nat \<Rightarrow> nat \<Rightarrow> u64 \<Rightarrow> ('s \<times> 'c, string, u32 list) run" where
  "map_table ctrl h t dev_id cpu_count num_vectors doorbell = (\<lambda>(s, c).
     case map_vectors ctrl h t dev_id (max (of_nat cpu_count) 1) doorbell [0..<num_vectors] [] (mask_all h t s) c of
       None \<Rightarrow> None
     | Some (lpis, s', c') \<Rightarrow>
         Some (if lpis = [] then Inl ''Failed to map any MSI-X vectors'' else Inr lpis, (s', c')))"

definition enable_msix ::
    "'c msi_ops option \<Rightarrow> nat \<Rightarrow> 's bus_ops \<Rightarrow> ecam \<Rightarrow> bdf \<Rightarrow> msix_table \<Rightarrow> ('s \<times> 'c, string, u32 list) run" where
  "enable_msix cell cpu_count h e b t = (\<lambda>(s, c).
     case find_capability h e b s MsiX of
       None \<Rightarrow> None
     | Some None \<Rightarrow> pfail ''MSI-X capability not found'' (s, c)
     | Some (Some cap_offset) \<Rightarrow>
         (case msix_read h e b cap_offset s of
            None \<Rightarrow> None
          | Some msix \<Rightarrow>
              let num_vectors = min (unat (table_size msix)) (vector_count t) in
              if num_vectors = 0 then pfail ''MSI-X table capacity is 0'' (s, c)
              else
                pthen (bus_do (enable_memory_space h e b))
               (pthen (bus_do (enable_bus_master h e b))
                  (case get_interrupt_controller cell of
                     None \<Rightarrow> (\<lambda>_. None)
                   | Some ctrl \<Rightarrow>
                       pbind (msi_setup ctrl (device_id b) (of_nat (pow2_exponent (unat (table_size msix))))) (\<lambda>doorbell.
                       pbind (map_table ctrl h t (device_id b) cpu_count num_vectors doorbell) (\<lambda>mapped_lpis.
                       pthen (bus_do (msix_enable msix h e b)) (pret mapped_lpis))))) (s, c)))"

section \<open>Table memory\<close>

text \<open>
  Word \<open>k\<close> of entry \<open>i\<close>: address low, address high, data, vector control. What is assumed of a table in
  device memory: the words do not wrap around, a write is read back (in the control word, its mask bit) and
  changes no other word, and accesses to the configuration space change no word.
\<close>

definition table_word :: "msix_table \<Rightarrow> nat \<Rightarrow> nat \<Rightarrow> usize" where
  "table_word t i k = mt_base t + of_nat (16 * i + 4 * k)"

definition table_laws :: "'s bus_ops \<Rightarrow> msix_table \<Rightarrow> bool" where
  "table_laws h t \<longleftrightarrow>
     16 * vector_count t \<le> 2 ^ 32 \<and>
     (\<forall>s i k j l v. i < vector_count t \<longrightarrow> k < 4 \<longrightarrow> j < vector_count t \<longrightarrow> l < 4 \<longrightarrow> (i, k) \<noteq> (j, l) \<longrightarrow>
        rd32 h (wr32 h s (table_word t i k) v) (table_word t j l) = rd32 h s (table_word t j l)) \<and>
     (\<forall>s i k v. i < vector_count t \<longrightarrow> k < 3 \<longrightarrow> rd32 h (wr32 h s (table_word t i k) v) (table_word t i k) = v) \<and>
     (\<forall>s i v. i < vector_count t \<longrightarrow>
        bit (rd32 h (wr32 h s (table_word t i 3) v) (table_word t i 3)) 0 = bit v 0) \<and>
     (\<forall>s a v i k. i < vector_count t \<longrightarrow> k < 4 \<longrightarrow>
        rd32 h (wr16 h s a v) (table_word t i k) = rd32 h s (table_word t i k))"

lemma entry_words:
  "entry_ptr t i + OFFSET_ADDR_LOW = table_word t i 0" "entry_ptr t i + OFFSET_ADDR_HIGH = table_word t i 1"
  "entry_ptr t i + OFFSET_DATA = table_word t i 2" "entry_ptr t i + OFFSET_VEC_CTRL = table_word t i 3"
  by (simp_all add: entry_ptr_def table_word_def OFFSET_ADDR_LOW_def OFFSET_ADDR_HIGH_def OFFSET_DATA_def
      OFFSET_VEC_CTRL_def mult.commute)

definition same_entry :: "'s bus_ops \<Rightarrow> msix_table \<Rightarrow> nat \<Rightarrow> 's \<Rightarrow> 's \<Rightarrow> bool" where
  "same_entry h t i s s' \<longleftrightarrow> (\<forall>k<4. rd32 h s' (table_word t i k) = rd32 h s (table_word t i k))"

lemma same_entry_refl [simp]: "same_entry h t i s s"
  by (simp add: same_entry_def)

lemma same_entry_trans: "same_entry h t i a b \<Longrightarrow> same_entry h t i b c \<Longrightarrow> same_entry h t i a c"
  by (simp add: same_entry_def)

lemma same_entry_masked: "same_entry h t i s s' \<Longrightarrow> is_masked h (entry_ptr t i) s' = is_masked h (entry_ptr t i) s"
  by (simp add: same_entry_def is_masked_def entry_words)

text \<open>What an entry that delivers event \<open>i\<close> to the doorbell holds.\<close>

definition delivers :: "'s bus_ops \<Rightarrow> msix_table \<Rightarrow> u64 \<Rightarrow> nat \<Rightarrow> 's \<Rightarrow> bool" where
  "delivers h t doorbell i s \<longleftrightarrow>
     entry_address h (entry_ptr t i) s = doorbell \<and> entry_data h (entry_ptr t i) s = of_nat i \<and>
     \<not> is_masked h (entry_ptr t i) s"

lemma mask_bit: "(w AND VEC_CTRL_MASK_BIT \<noteq> 0) = bit w 0"
  by (simp add: VEC_CTRL_MASK_BIT_def and_one_eq bit_0 odd_iff_mod_2_eq_one)

lemma mask_bit_set: "bit (w OR VEC_CTRL_MASK_BIT) 0" "\<not> bit (w AND NOT VEC_CTRL_MASK_BIT) 0"
  by (simp_all add: VEC_CTRL_MASK_BIT_def bit_simps)

lemma is_masked_bit: "is_masked h (entry_ptr t i) s = bit (rd32 h s (table_word t i 3)) 0"
  by (simp only: is_masked_def entry_words mask_bit)

lemma same_entry_delivers: "same_entry h t i s s' \<Longrightarrow> delivers h t d i s \<Longrightarrow> delivers h t d i s'"
  by (simp add: same_entry_def delivers_def is_masked_def entry_address_def entry_data_def entry_words)

lemma set_masked_effect:
  assumes "table_laws h t" and "i < vector_count t"
  shows "is_masked h (entry_ptr t i) (set_masked h (entry_ptr t i) m s) = m"
    and "\<lbrakk>j < vector_count t; j \<noteq> i\<rbrakk> \<Longrightarrow> same_entry h t j s (set_masked h (entry_ptr t i) m s)"
  using assms
  by (auto simp: is_masked_bit set_masked_def Let_def entry_words mask_bit_set same_entry_def table_laws_def)

lemma words_join: "push_bit 32 (ucast (ucast (drop_bit 32 a) :: u32)) OR ucast (ucast a :: u32) = (a :: u64)"
  by (rule bit_word_eqI) (auto simp: bit_simps)

lemma entry_configure_effect:
  assumes "table_laws h t" and "i < vector_count t"
  shows "delivers h t d i (entry_configure h (entry_ptr t i) d (of_nat i) False s)"
    and "\<lbrakk>j < vector_count t; j \<noteq> i\<rbrakk> \<Longrightarrow>
      same_entry h t j s (entry_configure h (entry_ptr t i) d (of_nat i) False s)"
proof -
  have w: "rd32 h (wr32 h s (table_word t i k) v) (table_word t j l) = rd32 h s (table_word t j l)"
    if "k < 4" "j < vector_count t" "l < 4" "(i, k) \<noteq> (j, l)" for s k j l v
    using assms that unfolding table_laws_def by blast
  have r: "rd32 h (wr32 h s (table_word t i k) v) (table_word t i k) = v" if "k < 3" for s k v
    using assms that unfolding table_laws_def by blast
  have b: "bit (rd32 h (wr32 h s (table_word t i 3) v) (table_word t i 3)) 0 = bit v 0" for s v
    using assms unfolding table_laws_def by blast
  note defs = entry_configure_def set_masked_def set_data_def set_address_def entry_words Let_def
  show "delivers h t d i (entry_configure h (entry_ptr t i) d (of_nat i) False s)"
    using assms(2)
    by (simp add: delivers_def defs entry_address_def entry_data_def is_masked_bit mask_bit_set w r b words_join)
  show "same_entry h t j s (entry_configure h (entry_ptr t i) d (of_nat i) False s)"
    if "j < vector_count t" "j \<noteq> i"
    using that by (simp add: same_entry_def defs w)
qed

lemma mask_all_effect:
  assumes "table_laws h t" and "i < vector_count t"
  shows "is_masked h (entry_ptr t i) (mask_all h t s)"
proof -
  have "is_masked h (entry_ptr t i) (fold (\<lambda>p. set_masked h p True) (map (entry_ptr t) is) s)"
    if "set is \<subseteq> {..<vector_count t}" "i \<in> set is \<or> is_masked h (entry_ptr t i) s" for "is" s
    using that
  proof (induction "is" arbitrary: s)
    case (Cons j js)
    then have "is_masked h (entry_ptr t i) (set_masked h (entry_ptr t j) True s) \<or> i \<in> set js"
      using set_masked_effect(1) [OF assms(1), where i = j and m = True and s = s] assms(2)
        same_entry_masked [OF set_masked_effect(2) [OF assms(1), where i = j and j = i and m = True and s = s]] by auto
    with Cons show ?case by auto
  qed simp
  then show ?thesis using assms(2) unfolding mask_all_def table_entries_def by (simp add: subset_iff)
qed

section \<open>The capability is aligned\<close>

lemma caps_from_aligned:
  "next_ptr it AND 3 = 0 \<Longrightarrow> (i, off) \<in> set (caps_from h e b s it) \<Longrightarrow> off AND 3 = 0"
proof (induction h e b s it rule: caps_from.induct)
  case (1 h e b s it)
  show ?case
  proof (cases "cap_next h e b s it")
    case None
    with 1(3) show ?thesis by (simp add: caps_from.simps)
  next
    case (Some r)
    obtain j o' it' where r: "r = ((j, o'), it')" by (metis prod.collapse)
    have "o' = next_ptr it" using Some r by (auto simp: cap_next_def Let_def split: if_splits)
    with 1 Some r cap_next_visits(3) [of h e b s it j o' it'] show ?thesis
      by (auto simp: caps_from.simps [of h e b s it])
  qed
qed

lemma find_capability_aligned:
  assumes "find_capability h e b s target = Some (Some off)"
  shows "off AND 3 = 0"
proof -
  obtain it where it: "cap_iter_new h e b s = Some it"
    and f: "map_option snd (List.find (\<lambda>(i, _). i = target) (caps_from h e b s it)) = Some off"
    using assms by (auto simp: find_capability_def)
  have "(x AND 0xFC) AND 3 = 0" for x :: u8 by (simp add: and.assoc)
  then have a: "next_ptr it AND 3 = 0" using it by (auto simp: cap_iter_new_def)
  obtain i where "List.find (\<lambda>(i, _). i = target) (caps_from h e b s it) = Some (i, off)" using f by auto
  then have "(i, off) \<in> set (caps_from h e b s it)" by (auto simp: find_Some_iff intro: nth_mem) (metis nth_mem)
  then show ?thesis by (rule caps_from_aligned [OF a])
qed

lemma aligned_offset:
  assumes "(off :: u8) AND 3 = 0"
  shows "(ucast off + 2 :: u16) mod 2 = 0" and "(ucast off + 4 :: u16) mod 4 = 0" and "(ucast off + 8 :: u16) mod 4 = 0"
proof -
  have "off AND 3 = off AND mask 2" by (simp add: mask_eq_exp_minus_1)
  then have m: "unat off mod 4 = 0" using assms unat_and_mask [of off 2] by simp
  have lt: "unat off < 256" using unsigned_less [of off, where ?'a = nat] by simp
  have u: "unat (ucast off :: u16) = unat off" using lt by (simp add: unsigned_ucast_eq take_bit_nat_eq_self_iff)
  have p: "unat (ucast off + k :: u16) = unat off + unat k" if "unat k < 1000" for k :: u16
    using that u lt by (simp add: unat_word_ariths)
  have "unat ((ucast off + 2 :: u16) mod 2) = 0" "unat ((ucast off + 4 :: u16) mod 4) = 0"
      "unat ((ucast off + 8 :: u16) mod 4) = 0"
    using m p [of 2] p [of 4] p [of 8] by (simp_all add: unat_mod_distrib) presburger+
  then show "(ucast off + 2 :: u16) mod 2 = 0" "(ucast off + 4 :: u16) mod 4 = 0" "(ucast off + 8 :: u16) mod 4 = 0"
    by (simp_all add: word_unat_eq_iff)
qed

section \<open>What a controller promises\<close>

text \<open>
  The vectors \<open>M\<close> of a device have been mapped: their entries deliver to the doorbell, each owns an id of its
  own that was not taken before, and all other entries and events are as they were.
\<close>

definition vectors_mapped ::
    "'s bus_ops \<Rightarrow> msix_table \<Rightarrow> u64 \<Rightarrow> u32 \<Rightarrow> u32 set \<Rightarrow> (u32 \<times> u32 \<rightharpoonup> u32) \<Rightarrow> (u32 \<times> u32 \<rightharpoonup> u32) \<Rightarrow> nat set \<Rightarrow>
     's \<Rightarrow> 's \<Rightarrow> bool" where
  "vectors_mapped h t d dev taken own own' M s s' \<longleftrightarrow>
     (\<forall>i \<in> M. delivers h t d i s' \<and> (\<exists>l. own' (dev, of_nat i) = Some l \<and> l \<notin> taken)) \<and>
     inj_on (\<lambda>i. own' (dev, of_nat i)) M \<and>
     (\<forall>i < vector_count t. i \<notin> M \<longrightarrow> same_entry h t i s s') \<and>
     (\<forall>x. x \<notin> (\<lambda>i. (dev, of_nat i)) ` M \<longrightarrow> own' x = own x)"

lemma vectors_mapped_none: "vectors_mapped h t d dev taken own own {} s s"
  by (simp add: vectors_mapped_def)

lemma vectors_mapped_more:
  "vectors_mapped h t d dev taken' own own' M s s' \<Longrightarrow> taken \<subseteq> taken' \<Longrightarrow>
   vectors_mapped h t d dev taken own own' M s s'"
  unfolding vectors_mapped_def by blast

lemma of_nat_u32_inj:
  "a < 2 ^ 32 \<Longrightarrow> b < 2 ^ 32 \<Longrightarrow> (of_nat a :: u32) = of_nat b \<longleftrightarrow> a = b"
proof -
  assume "a < 2 ^ 32" "b < 2 ^ 32"
  then have "unat (of_nat a :: u32) = a" "unat (of_nat b :: u32) = b"
    by (simp_all only: unat_of_nat take_bit_nat_eq_self_iff) simp_all
  then show ?thesis by metis
qed

lemma vectors_mapped_step:
  assumes T: "table_laws h t" and j: "j < vector_count t" "j \<notin> M" "M \<subseteq> {..<vector_count t}"
    and l: "l \<notin> taken" "own1 = own((dev, of_nat j) \<mapsto> l)"
    and rest: "vectors_mapped h t d dev (insert l taken) own1 own' M
      (entry_configure h (entry_ptr t j) d (of_nat j) False s) s'"
  shows "vectors_mapped h t d dev taken own own' (insert j M) s s'" and "own' (dev, of_nat j) = Some l"
proof -
  let ?s = "entry_configure h (entry_ptr t j) d (of_nat j) False s"
  have out: "(of_nat j :: u32) \<noteq> of_nat i" if "i \<in> M" for i
    using that j T of_nat_u32_inj [of j i] by (auto simp: table_laws_def)
  then have "(dev, of_nat j :: u32) \<notin> (\<lambda>i. (dev, of_nat i)) ` M" by auto
  then show own: "own' (dev, of_nat j) = Some l" using rest l(2) by (simp add: vectors_mapped_def)
  have "same_entry h t j ?s s'" using rest j(1,2) by (simp add: vectors_mapped_def)
  then have "delivers h t d j s'" by (rule same_entry_delivers) (rule entry_configure_effect(1) [OF T j(1)])
  moreover have "same_entry h t i s s'" if "i < vector_count t" "i \<noteq> j" "i \<notin> M" for i
  proof (rule same_entry_trans [OF entry_configure_effect(2) [OF T j(1) that(1,2)]])
    show "same_entry h t i ?s s'" using rest that(1,3) by (simp add: vectors_mapped_def)
  qed
  moreover have fresh: "\<exists>k. own' (dev, of_nat i) = Some k \<and> k \<notin> taken \<and> k \<noteq> l" if "i \<in> M" for i
    using rest that unfolding vectors_mapped_def by blast
  moreover have "inj_on (\<lambda>i. own' (dev, of_nat i)) (insert j M)"
  proof -
    have "own' (dev, of_nat j) \<noteq> own' (dev, of_nat i)" if "i \<in> M" for i using fresh [OF that] own by auto
    then show ?thesis using rest unfolding vectors_mapped_def inj_on_insert by blast
  qed
  moreover have "own' x = own x" if "x \<notin> (\<lambda>i. (dev, of_nat i)) ` insert j M" for x
  proof -
    have "own' x = own1 x" using rest that unfolding vectors_mapped_def by blast
    then show ?thesis using that l(2) by auto
  qed
  moreover have "delivers h t d i s'" if "i \<in> M" for i using rest that by (simp add: vectors_mapped_def)
  ultimately show "vectors_mapped h t d dev taken own own' (insert j M) s s'"
    unfolding vectors_mapped_def using own l(1) by blast
qed

text \<open>Accesses to the configuration space leave the table alone, and those at aligned offsets return.\<close>

lemma write_u16_same_entry:
  "table_laws h t \<Longrightarrow> i < vector_count t \<Longrightarrow> ecam_write_u16 h e b off v s = Some s' \<Longrightarrow> same_entry h t i s s'"
  by (auto simp: ecam_write_u16_def same_entry_def table_laws_def split: if_splits option.splits)

lemma config_steps:
  "\<exists>s'. enable_memory_space h e b s = Some s' \<and> (\<forall>t i. table_laws h t \<longrightarrow> i < vector_count t \<longrightarrow> same_entry h t i s s')"
  "\<exists>s'. enable_bus_master h e b s = Some s' \<and> (\<forall>t i. table_laws h t \<longrightarrow> i < vector_count t \<longrightarrow> same_entry h t i s s')"
  "msix_offset m AND 3 = 0 \<Longrightarrow>
   \<exists>s'. msix_enable m h e b s = Some s' \<and> (\<forall>t i. table_laws h t \<longrightarrow> i < vector_count t \<longrightarrow> same_entry h t i s s')"
proof -
  have step: "\<exists>s'. Option.bind (ecam_read_u16 h e b off s) (\<lambda>v. ecam_write_u16 h e b off (f v) s) = Some s' \<and>
      (\<forall>t i. table_laws h t \<longrightarrow> i < vector_count t \<longrightarrow> same_entry h t i s s')" if off: "off mod 2 = 0" for off f
  proof -
    obtain v where r: "ecam_read_u16 h e b off s = Some v" using off by (simp add: ecam_read_u16_def)
    obtain s' where w: "ecam_write_u16 h e b off (f v) s = Some s'" using off by (simp add: ecam_write_u16_def)
    with r write_u16_same_entry [OF _ _ w] show ?thesis by simp
  qed
  show "\<exists>s'. enable_memory_space h e b s = Some s' \<and> (\<forall>t i. table_laws h t \<longrightarrow> i < vector_count t \<longrightarrow> same_entry h t i s s')"
    unfolding enable_memory_space_def by (rule step) simp
  show "\<exists>s'. enable_bus_master h e b s = Some s' \<and> (\<forall>t i. table_laws h t \<longrightarrow> i < vector_count t \<longrightarrow> same_entry h t i s s')"
    unfolding enable_bus_master_def by (rule step) simp
  show "\<exists>s'. msix_enable m h e b s = Some s' \<and> (\<forall>t i. table_laws h t \<longrightarrow> i < vector_count t \<longrightarrow> same_entry h t i s s')"
    if "msix_offset m AND 3 = 0"
    unfolding msix_enable_def by (rule step) (rule aligned_offset(1) [OF that])
qed

lemma msix_read_aligned:
  assumes "off AND 3 = 0"
  shows "\<exists>m. msix_read h e b off s = Some m \<and> msix_offset m = off"
  using aligned_offset [OF assms] by (simp add: msix_read_def ecam_read_u16_def ecam_read_u32_def)

lemma vectors_mapped_then:
  assumes "vectors_mapped h t d dev taken own own' M s s'" and "M \<subseteq> {..<vector_count t}"
    and "\<And>i. i < vector_count t \<Longrightarrow> same_entry h t i s' s2"
  shows "vectors_mapped h t d dev taken own own' M s s2"
proof -
  have "delivers h t d i s2" if "i \<in> M" for i
    using assms that same_entry_delivers [of h t i s' s2 d] by (auto simp: vectors_mapped_def)
  moreover have "same_entry h t i s s2" if "i < vector_count t" "i \<notin> M" for i
    using assms(1,3) that same_entry_trans [of h t i s s' s2] by (auto simp: vectors_mapped_def)
  ultimately show ?thesis using assms(1) unfolding vectors_mapped_def by blast
qed

lemma filter_upt_sorted: "M \<subseteq> {..<k} \<Longrightarrow> filter (\<lambda>i. i \<in> M) [0..<k] = sorted_list_of_set M"
  by (rule sorted_distinct_set_unique)
    (auto simp: sorted_wrt_filter set_sorted_list_of_set finite_subset [of M "{..<k}"])

text \<open>
  What an enabled table looks like: the vectors \<open>M\<close> deliver their event number to the doorbell and own distinct
  ids that were not taken before, every other vector is masked, and no other event is touched.
\<close>

definition msix_enabled ::
    "'s bus_ops \<Rightarrow> msix_table \<Rightarrow> u64 \<Rightarrow> u32 \<Rightarrow> u32 set \<Rightarrow> (u32 \<times> u32 \<rightharpoonup> u32) \<Rightarrow> (u32 \<times> u32 \<rightharpoonup> u32) \<Rightarrow> nat set \<Rightarrow> 's \<Rightarrow> bool" where
  "msix_enabled h t d dev taken own own' M s \<longleftrightarrow>
     (\<forall>i < vector_count t. if i \<in> M
        then delivers h t d i s \<and> (\<exists>l. own' (dev, of_nat i) = Some l \<and> l \<notin> taken)
        else is_masked h (entry_ptr t i) s) \<and>
     inj_on (\<lambda>i. own' (dev, of_nat i)) M \<and> (\<forall>x. x \<notin> (\<lambda>i. (dev, of_nat i)) ` M \<longrightarrow> own' x = own x)"

lemma msix_enabledI:
  assumes "table_laws h t" and "vectors_mapped h t d dev taken own own' M (mask_all h t s) s'"
  shows "msix_enabled h t d dev taken own own' M s'"
proof -
  have "is_masked h (entry_ptr t i) s'" if "i < vector_count t" "i \<notin> M" for i
    using assms that mask_all_effect [OF assms(1) that(1), of s] same_entry_masked [of h t i "mask_all h t s" s']
    by (simp add: vectors_mapped_def)
  then show ?thesis using assms(2) unfolding msix_enabled_def vectors_mapped_def by auto
qed

locale msi_controller =
  fixes ctrl :: "'c msi_ops" and ok :: "'c \<Rightarrow> bool" and owner :: "'c \<Rightarrow> u32 \<times> u32 \<rightharpoonup> u32" and taken :: "'c \<Rightarrow> u32 set"
    and bell :: "'c \<Rightarrow> u64"
  assumes register_law: "ok c \<Longrightarrow> \<exists>r c'. ctrl_register_device ctrl d n c = Some (r, c') \<and> ok c' \<and>
      owner c' = owner c \<and> taken c' = taken c \<and> bell c' = bell c"
    and doorbell_law: "ok c \<Longrightarrow> \<exists>r c'. ctrl_get_doorbell ctrl c = Some (r, c') \<and> ok c' \<and>
      owner c' = owner c \<and> taken c' = taken c \<and> (\<forall>d. r = Inr d \<longrightarrow> d = bell c)"
    and map_law: "ok c \<Longrightarrow> \<exists>r c'. ctrl_map_event ctrl d e x cpu c = Some (r, c') \<and> ok c' \<and>
      (case r of Inl _ \<Rightarrow> owner c' = owner c \<and> taken c \<subseteq> taken c'
       | Inr l \<Rightarrow> l \<notin> taken c \<and> owner c' = (owner c)((d, e) \<mapsto> l) \<and> taken c' = insert l (taken c))"
begin

lemma map_vectors_effect:
  assumes T: "table_laws h t" and "ok c" and "distinct is" and "set is \<subseteq> {..<vector_count t}"
  shows "\<exists>M s' c'. M \<subseteq> set is \<and> ok c' \<and>
    map_vectors ctrl h t dev n d is lpis s c =
      Some (lpis @ map (\<lambda>i. the (owner c' (dev, of_nat i))) (filter (\<lambda>i. i \<in> M) is), s', c') \<and>
    vectors_mapped h t d dev (taken c) (owner c) (owner c') M s s'"
  using assms(2-4)
proof (induction "is" arbitrary: lpis s c)
  case Nil
  then show ?case by (intro exI [of _ "{}"]) (simp add: vectors_mapped_none)
next
  case (Cons j js)
  have j: "j < vector_count t" "j \<notin> set js" and js: "distinct js" "set js \<subseteq> {..<vector_count t}"
    using Cons.prems by auto
  obtain r c1 where m: "ctrl_map_event ctrl dev (of_nat j) None (of_nat j mod n) c = Some (r, c1)" "ok c1"
      "case r of Inl _ \<Rightarrow> owner c1 = owner c \<and> taken c \<subseteq> taken c1
       | Inr l \<Rightarrow> l \<notin> taken c \<and> owner c1 = (owner c)((dev, of_nat j) \<mapsto> l) \<and> taken c1 = insert l (taken c)"
    using map_law [OF Cons.prems(1), of dev "of_nat j" None "of_nat j mod n"] by blast
  show ?case
  proof (cases r)
    case (Inl err)
    obtain M s' c' where IH: "M \<subseteq> set js" "ok c'"
        "map_vectors ctrl h t dev n d js lpis s c1 =
          Some (lpis @ map (\<lambda>i. the (owner c' (dev, of_nat i))) (filter (\<lambda>i. i \<in> M) js), s', c')"
        "vectors_mapped h t d dev (taken c1) (owner c1) (owner c') M s s'"
      using Cons.IH [OF m(2) js, of lpis s] by blast
    then have "vectors_mapped h t d dev (taken c) (owner c) (owner c') M s s'"
      using m(3) Inl vectors_mapped_more by fastforce
    moreover have "j \<notin> M" using IH(1) j(2) by blast
    ultimately show ?thesis
      using IH Inl m(1) by (intro exI [of _ M] exI [of _ s'] exI [of _ c']) auto
  next
    case (Inr l)
    obtain M s' c' where IH: "M \<subseteq> set js" "ok c'"
        "map_vectors ctrl h t dev n d js (lpis @ [l]) (entry_configure h (entry_ptr t j) d (of_nat j) False s) c1 =
          Some ((lpis @ [l]) @ map (\<lambda>i. the (owner c' (dev, of_nat i))) (filter (\<lambda>i. i \<in> M) js), s', c')"
        "vectors_mapped h t d dev (taken c1) (owner c1) (owner c') M
          (entry_configure h (entry_ptr t j) d (of_nat j) False s) s'"
      using Cons.IH [OF m(2) js, of "lpis @ [l]"] by blast
    have jM: "j \<notin> M" "M \<subseteq> {..<vector_count t}" using IH(1) j(2) js(2) by auto
    have l: "l \<notin> taken c" "owner c1 = (owner c)((dev, of_nat j) \<mapsto> l)" "taken c1 = insert l (taken c)"
      using m(3) Inr by simp_all
    note step = vectors_mapped_step [OF T j(1) jM l(1,2) IH(4) [unfolded l(3)]]
    have "filter (\<lambda>i. i \<in> insert j M) (j # js) = j # filter (\<lambda>i. i \<in> M) js"
      using j(2) by (auto intro!: filter_cong)
    then show ?thesis
      using IH step Inr m(1) by (intro exI [of _ "insert j M"] exI [of _ s'] exI [of _ c']) auto
  qed
qed

text \<open>The whole of \<open>enable_msix\<close>.\<close>

lemma setup_effect:
  assumes "ok c"
  shows "\<exists>r c'. msi_setup ctrl dev n (s, c) = Some (r, (s, c')) \<and> ok c' \<and> owner c' = owner c \<and> taken c' = taken c \<and>
    (\<forall>d. r = Inr d \<longrightarrow> d = bell c)"
proof -
  obtain r1 c1 where r1: "ctrl_register_device ctrl dev n c = Some (r1, c1)" "ok c1" "owner c1 = owner c" "taken c1 = taken c"
      "bell c1 = bell c"
    using register_law [OF assms] by blast
  obtain r2 c2 where r2: "ctrl_get_doorbell ctrl c1 = Some (r2, c2)" "ok c2" "owner c2 = owner c1" "taken c2 = taken c1"
      "\<forall>d. r2 = Inr d \<longrightarrow> d = bell c1"
    using doorbell_law [OF r1(2)] by blast
  show ?thesis using r1 r2 by (cases r1; cases r2) (auto simp: msi_setup_def)
qed

lemma map_table_effect:
  assumes "table_laws h t" and "ok c" and "k \<le> vector_count t"
  shows "\<exists>r s' c' M. map_table ctrl h t dev cpus k d (s, c) = Some (r, (s', c')) \<and> ok c' \<and> M \<subseteq> {..<k} \<and>
    (\<forall>lpis. r = Inr lpis \<longrightarrow> M \<noteq> {} \<and> lpis = map (\<lambda>i. the (owner c' (dev, of_nat i))) (filter (\<lambda>i. i \<in> M) [0..<k])) \<and>
    vectors_mapped h t d dev (taken c) (owner c) (owner c') M (mask_all h t s) s'"
proof -
  have sub: "distinct [0..<k]" "set [0..<k] \<subseteq> {..<vector_count t}" using assms(3) by auto
  obtain M s' c' where m: "M \<subseteq> set [0..<k]" "ok c'"
      "map_vectors ctrl h t dev (max (of_nat cpus) 1) d [0..<k] [] (mask_all h t s) c =
        Some ([] @ map (\<lambda>i. the (owner c' (dev, of_nat i))) (filter (\<lambda>i. i \<in> M) [0..<k]), s', c')"
      "vectors_mapped h t d dev (taken c) (owner c) (owner c') M (mask_all h t s) s'"
    using map_vectors_effect [OF assms(1,2) sub, of dev "max (of_nat cpus) 1" d "[]" "mask_all h t s"] by blast
  let ?l = "map (\<lambda>i. the (owner c' (dev, of_nat i))) (filter (\<lambda>i. i \<in> M) [0..<k])"
  have run: "map_table ctrl h t dev cpus k d (s, c) =
      Some (if ?l = [] then Inl ''Failed to map any MSI-X vectors'' else Inr ?l, (s', c'))"
    using m(3) by (simp add: map_table_def)
  have sub': "M \<subseteq> {..<k}" and ne: "?l \<noteq> [] \<Longrightarrow> M \<noteq> {}" using m(1) by auto
  have res: "M \<noteq> {} \<and> lpis = ?l" if "(if ?l = [] then Inl ''Failed to map any MSI-X vectors'' else Inr ?l) = Inr lpis" for lpis
    using that ne by (simp split: if_splits)
  show ?thesis using run m(2,4) sub' res by blast
qed

lemma enable_msix_effect:
  assumes T: "table_laws h t" and c: "ok c"
  shows "\<exists>r s' c'. enable_msix (Some ctrl) cpus h e b t (s, c) = Some (r, (s', c')) \<and> ok c' \<and>
    (\<forall>lpis. r = Inr lpis \<longrightarrow> (\<exists>M. M \<noteq> {} \<and> M \<subseteq> {..<vector_count t} \<and>
       lpis = map (\<lambda>i. the (owner c' (device_id b, of_nat i))) (sorted_list_of_set M) \<and>
       msix_enabled h t (bell c) (device_id b) (taken c) (owner c) (owner c') M s'))"
proof -
  obtain f where f: "find_capability h e b s MsiX = Some f"
    by (cases "cap_iter_new h e b s") (auto simp: find_capability_def cap_iter_new_def ecam_read_u16_def)
  show ?thesis
  proof (cases f)
    case None
    with f c show ?thesis by (simp add: enable_msix_def pfail_def)
  next
    case (Some off)
    have al: "off AND 3 = 0" using find_capability_aligned [OF f [unfolded Some]] .
    obtain m where m: "msix_read h e b off s = Some m" "msix_offset m = off"
      using msix_read_aligned [OF al, of h e b s] by blast
    define k where "k = min (unat (table_size m)) (vector_count t)"
    show ?thesis
    proof (cases "k = 0")
      case True
      then show ?thesis using f Some m c by (simp add: enable_msix_def pfail_def k_def)
    next
      case False
      obtain s1 where s1: "enable_memory_space h e b s = Some s1" using config_steps(1) [of h e b s] by blast
      obtain s2 where s2: "enable_bus_master h e b s1 = Some s2" using config_steps(2) [of h e b s1] by blast
      let ?n = "of_nat (pow2_exponent (unat (table_size m)))"
      obtain r1 c1 where r1: "msi_setup ctrl (device_id b) ?n (s2, c) = Some (r1, (s2, c1))" "ok c1"
          "owner c1 = owner c" "taken c1 = taken c" "\<forall>d. r1 = Inr d \<longrightarrow> d = bell c"
        using setup_effect [OF c, of "device_id b" ?n s2] by blast
      have run: "enable_msix (Some ctrl) cpus h e b t (s, c) =
          pbind (msi_setup ctrl (device_id b) ?n) (\<lambda>d.
          pbind (map_table ctrl h t (device_id b) cpus k d) (\<lambda>lpis.
          pthen (bus_do (msix_enable m h e b)) (pret lpis))) (s2, c)"
        using f Some m False s1 s2
        by (simp add: enable_msix_def Let_def k_def [symmetric] pbind_def bus_do_def get_interrupt_controller_def)
      show ?thesis
      proof (cases r1)
        case (Inl err)
        with run r1 show ?thesis by (simp add: pbind_def)
      next
        case (Inr d)
        obtain r2 s3 c2 M where r2: "map_table ctrl h t (device_id b) cpus k d (s2, c1) = Some (r2, (s3, c2))"
            "ok c2" "M \<subseteq> {..<k}"
            "\<forall>lpis. r2 = Inr lpis \<longrightarrow> M \<noteq> {} \<and>
               lpis = map (\<lambda>i. the (owner c2 (device_id b, of_nat i))) (filter (\<lambda>i. i \<in> M) [0..<k])"
            "vectors_mapped h t d (device_id b) (taken c1) (owner c1) (owner c2) M (mask_all h t s2) s3"
          using map_table_effect [OF T r1(2), of k "device_id b" cpus d s2] k_def by (metis min.cobounded2)
        obtain s4 where s4: "msix_enable m h e b s3 = Some s4"
            "\<forall>t i. table_laws h t \<longrightarrow> i < vector_count t \<longrightarrow> same_entry h t i s3 s4"
          using config_steps(3) [of m h e b s3] al m(2) by blast
        have sub: "M \<subseteq> {..<vector_count t}" using r2(3) by (auto simp: k_def)
        have d: "d = bell c" using r1(5) \<open>r1 = Inr d\<close> by simp
        have en: "msix_enabled h t (bell c) (device_id b) (taken c) (owner c) (owner c2) M s4"
          by (rule msix_enabledI [OF T vectors_mapped_then [OF r2(5) [unfolded r1(3,4) d] sub]])
            (use s4(2) T in blast)
        show ?thesis
        proof (cases r2)
          case (Inl err)
          with run r1 r2 \<open>r1 = Inr d\<close> show ?thesis by (simp add: pbind_def)
        next
          case (Inr lpis)
          then have l: "M \<noteq> {}" "lpis = map (\<lambda>i. the (owner c2 (device_id b, of_nat i))) (sorted_list_of_set M)"
            using r2(3,4) filter_upt_sorted by simp_all
          have "enable_msix (Some ctrl) cpus h e b t (s, c) = Some (Inr lpis, (s4, c2))"
            using run r1(1) r2(1) \<open>r1 = Inr d\<close> Inr s4(1) by (simp add: pbind_def bus_do_def pret_def)
          then show ?thesis using r2(2) l sub en by blast
        qed
      qed
    qed
  qed
qed

end

section \<open>The GICv3 driver as the controller\<close>

definition gic_msi_ops :: "'s gic_ops \<Rightarrow> ('s, 'f) gic_v3 msi_ops" where
  "gic_msi_ops h =
     \<lparr>ctrl_register_device = msi_register_device h, ctrl_map_event = msi_map_event h,
      ctrl_get_doorbell = msi_get_doorbell\<rparr>"

definition gic_taken :: "('s, 'f) gic_v3 \<Rightarrow> u32 set" where
  "gic_taken g = lpi_used_set (g_lpi_alloc g)"

text \<open>The address that a device writes to: the register \<open>GITS_TRANSLATER\<close>.\<close>

definition gic_doorbell :: "('s, 'f) gic_v3 \<Rightarrow> u64" where
  "gic_doorbell g = (case its g of None \<Rightarrow> 0 | Some p \<Rightarrow> dmap_addr_to_phys (p + 0x10040))"

lemma tame_same_events:
  assumes "same_tables g g'"
  shows "event_mappings g' = event_mappings g" "gic_taken g' = gic_taken g" "its g' = its g"
  using assms by (elim same_tablesE; simp add: gic_taken_def)+

text \<open>The registration of a device keeps the events: it changes the table of ITTs only.\<close>

definition same_events :: "('s, 'f) gic_v3 \<Rightarrow> ('s, 'f) gic_v3 \<Rightarrow> bool" where
  "same_events g g' \<longleftrightarrow> event_mappings g' = event_mappings g \<and> gic_taken g' = gic_taken g \<and> its g' = its g"

definition same_ids :: "('s, 'f, 'a) gicm \<Rightarrow> bool" where
  "same_ids m \<longleftrightarrow> (\<forall>g r g'. gic_inv g \<longrightarrow> m g = Some (r, g') \<longrightarrow> gic_inv g' \<and> same_events g g')"

lemma same_idsI:
  "(\<And>g r g'. gic_inv g \<Longrightarrow> m g = Some (r, g') \<Longrightarrow> gic_inv g' \<and> same_events g g') \<Longrightarrow> same_ids m"
  by (simp add: same_ids_def)

lemma same_idsD: "same_ids m \<Longrightarrow> gic_inv g \<Longrightarrow> m g = Some (r, g') \<Longrightarrow> gic_inv g' \<and> same_events g g'"
  by (simp add: same_ids_def)

lemma same_ids_pbind:
  assumes "same_ids m" and "\<And>x. same_ids (f x)"
  shows "same_ids (pbind m f)"
proof (rule same_idsI)
  fix g r g'
  assume inv: "gic_inv g" and run: "pbind m f g = Some (r, g')"
  obtain r1 g1 where m: "m g = Some (r1, g1)" using run by (cases "m g") (auto simp: pbind_def)
  note 1 = same_idsD [OF assms(1) inv m]
  show "gic_inv g' \<and> same_events g g'"
  proof (cases r1)
    case (Inl e)
    with run m 1 show ?thesis by (simp add: pbind_def)
  next
    case (Inr x)
    with run m have "f x g1 = Some (r, g')" by (simp add: pbind_def)
    from same_idsD [OF assms(2) _ this] 1 show ?thesis by (simp add: same_events_def)
  qed
qed

lemma same_ids_tame: "tame m \<Longrightarrow> same_ids m"
  by (rule same_idsI) (metis same_events_def tame_run tame_same_events option.inject prod.inject)

lemma same_ids_with_reg: "(\<And>a. same_ids (f a)) \<Longrightarrow> same_ids (with_reg d n i b f)"
  by (auto simp: with_reg_def [abs_def] same_ids_def split: option.splits)

lemma same_ids_if: "(b \<Longrightarrow> same_ids m) \<Longrightarrow> (\<not> b \<Longrightarrow> same_ids k) \<Longrightarrow> same_ids (if b then m else k)"
  by simp

lemma same_ids_insert: "same_ids (insert_itt h d p sz)"
  by (auto simp: same_ids_def same_events_def gic_taken_def insert_itt_def Let_def hw_do_def pret_def split: option.splits)

lemma same_ids_case:
  assumes "same_ids m" and "\<And>y. same_ids (k y)"
  shows "same_ids (\<lambda>g. case x g of None \<Rightarrow> m g | Some y \<Rightarrow> k y g)"
  by (rule same_idsI) (use assms in \<open>auto dest: same_idsD split: option.splits\<close>)

lemma same_ids_register: "same_ids (msi_register_device h d n)"
  unfolding msi_register_device_def [abs_def] Let_def
  by (intro same_ids_case same_ids_with_reg same_ids_pbind same_ids_if same_ids_insert tame_leaf [THEN same_ids_tame])

lemma register_runs:
  assumes "gic_inv g"
  shows "\<exists>r g'. msi_register_device h d n g = Some (r, g') \<and> gic_inv g' \<and>
    event_mappings g' = event_mappings g \<and> gic_taken g' = gic_taken g \<and> gic_doorbell g' = gic_doorbell g"
  using msi_register_returns [OF assms, of h d n] same_idsD [OF same_ids_register [of h d n] assms]
  by (auto simp: same_events_def gic_doorbell_def)

lemma doorbell_runs:
  assumes "gic_inv g"
  shows "\<exists>r g'. msi_get_doorbell g = Some (r, g') \<and> gic_inv g' \<and>
    event_mappings g' = event_mappings g \<and> gic_taken g' = gic_taken g \<and> (\<forall>d. r = Inr d \<longrightarrow> d = gic_doorbell g)"
  using assms
  by (cases "its g") (simp_all add: msi_get_doorbell_def pfail_def with_reg_def pret_def gic_doorbell_def)

lemma map_runs:
  assumes inv: "gic_inv g"
  shows "\<exists>r g'. msi_map_event h d e x c g = Some (r, g') \<and> gic_inv g' \<and>
    (case r of Inl _ \<Rightarrow> event_mappings g' = event_mappings g \<and> gic_taken g \<subseteq> gic_taken g'
     | Inr l \<Rightarrow> l \<notin> gic_taken g \<and> event_mappings g' = (event_mappings g)((d, e) \<mapsto> l) \<and>
         gic_taken g' = insert l (gic_taken g))"
proof -
  obtain r g' where r: "msi_map_event h d e x c g = Some (r, g')" using msi_map_returns [OF inv] by force
  show ?thesis
    using inv r
  proof (cases rule: msi_map_event_cases)
    case (failed l a err)
    with r tame_same_events [OF failed(7)] show ?thesis by (auto simp: gic_taken_def)
  next
    case (mapped l a g1)
    with r tame_same_events [OF mapped(7)] show ?thesis by (auto simp: gic_taken_def)
  qed (use r in \<open>auto simp: gic_taken_def\<close>)
qed

interpretation gicm: msi_controller "gic_msi_ops h" gic_inv event_mappings gic_taken gic_doorbell for h
  by unfold_locales (simp_all add: gic_msi_ops_def register_runs doorbell_runs map_runs)

section \<open>Properties\<close>

text \<open>C9: With the GICv3 driver as the controller, in any state its calls lead to, \<open>enable_msix\<close> returns. When it
  succeeds, the LPIs it hands out belong to the vectors it unmasked: each of those delivers its own event number
  to the translation register of the ITS and owns an LPI that was free before and that no other event has; every
  other vector of the table stays masked, and no event of another device is touched.\<close>

theorem msix_enable_exact:
  assumes "gic_reachable gh others g" and "others_ok others" and "table_laws h t"
  shows "\<exists>r s' g'. enable_msix (Some (gic_msi_ops gh)) cpus h e b t (s, g) = Some (r, (s', g')) \<and> gic_inv g' \<and>
    (\<forall>lpis. r = Inr lpis \<longrightarrow> (\<exists>M. M \<noteq> {} \<and> M \<subseteq> {..<vector_count t} \<and>
       lpis = map (\<lambda>i. the (event_mappings g' (device_id b, of_nat i))) (sorted_list_of_set M) \<and>
       msix_enabled h t (gic_doorbell g) (device_id b) (gic_taken g) (event_mappings g) (event_mappings g') M s'))"
  by (rule gicm.enable_msix_effect [OF assms(3) gic_reachable_inv [OF assms(1,2)]])

text \<open>The witness: a function with one vector, whose table is a memory, and the driver after its initialisation.\<close>

definition example_function :: "(usize \<Rightarrow> u32) bus_ops" where
  "example_function =
     \<lparr>rd8 = \<lambda>_ p. if p AND 0xFF = 0x34 then 0x40 else if p AND 0xFF = 0x40 then 0x11 else 0,
      rd16 = \<lambda>_ p. if p AND 0xFF = 0x06 then 0x10 else 0, rd32 = \<lambda>s p. s p,
      wr8 = \<lambda>s _ _. s, wr16 = \<lambda>s _ _. s, wr32 = \<lambda>s p v. s(p := v)\<rparr>"

definition example_table :: msix_table where
  "example_table = from_raw_parts 0x10000000 1"

lemma example_table_laws: "table_laws example_function example_table"
proof -
  have four: "k = 0 \<or> k = 1 \<or> k = 2 \<or> k = 3" if "k < 4" for k :: nat using that by linarith
  have word: "table_word example_table 0 k \<noteq> table_word example_table 0 l" if "k < 4" "l < 4" "k \<noteq> l" for k l
    using four [OF that(1)] four [OF that(2)] that(3)
    by (elim disjE) (simp_all add: table_word_def example_table_def from_raw_parts_def)
  show ?thesis
    using word by (auto simp: table_laws_def example_table_def from_raw_parts_def example_function_def)
qed

lemma example_registered:
  "\<exists>g. msi_register_device example_gic 8 0 example_ready = Some (Inr (), g) \<and> its g = Some 0x8080000 \<and>
     cmd_queue g = Some (example_queue\<lparr>write_offset := 4\<rparr>) \<and> hw g = of_nat (32 * 4) \<and>
     g_lpi_alloc g = lpi_new LPI_START MAX_LPI_ID"
proof -
  have sel: "its example_ready = Some 0x8080000" "g_lpi_alloc example_ready = lpi_new LPI_START MAX_LPI_ID"
      "cmd_queue example_ready = Some (example_queue\<lparr>write_offset := 3\<rparr>)" "hw example_ready = of_nat (32 * 3)"
      "device_itts example_ready = Map.empty"
    by (simp_all add: example_ready_def example_new_def gic_new_def)
  show ?thesis
    using example_pushes(5) [of example_ready 3 8 _ 0 True] sel
    by (simp add: msi_register_device_def pbind_step example_access itt_bytes_def next_multiple_of_def Let_def
        field_lift_def fld_def GitsTyper_def low_mask_def widen_from_bits_def insert_itt_def pret_def mask_eq_exp_minus_1
        cong: pbind_eval_cong)
qed

lemma example_capability:
  "find_capability example_function (ecam_new 0x4010000000 0 0 255) (bdf_new 0 0 1 0) s MsiX = Some (Some 0x40)"
  "\<exists>m. msix_read example_function (ecam_new 0x4010000000 0 0 255) (bdf_new 0 0 1 0) 0x40 s = Some m \<and>
     table_size m = 1 \<and> msix_offset m = 0x40"
proof -
  note eval = ecam_read_u16_def ecam_read_u8_def ecam_read_u32_def offset_ptr_def cfg_offset_def ecam_new_def bdf_new_def
    example_function_def Let_def phys_addr_to_dmap_def DMAP_START_def VA_WIDTH_def standard_cap_from_def
  show "find_capability example_function (ecam_new 0x4010000000 0 0 255) (bdf_new 0 0 1 0) s MsiX = Some (Some 0x40)"
    by (simp add: find_capability_def cap_iter_new_def caps_from.simps [of _ _ _ _ "\<lparr>next_ptr = 0x40, visited = 0\<rparr>"]
        cap_next_def eval)
  show "\<exists>m. msix_read example_function (ecam_new 0x4010000000 0 0 255) (bdf_new 0 0 1 0) 0x40 s = Some m \<and>
     table_size m = 1 \<and> msix_offset m = 0x40"
    by (simp add: msix_read_def eval)
qed

lemma example_event:
  fixes g :: "(u64, unit) gic_v3"
  assumes "its g = Some 0x8080000" "cmd_queue g = Some (example_queue\<lparr>write_offset := 4\<rparr>)" "hw g = of_nat (32 * 4)"
    "g_lpi_alloc g = lpi_new LPI_START MAX_LPI_ID"
  shows "\<exists>l g'. msi_map_event example_gic d e None c g = Some (Inr l, g')"
proof -
  obtain r a where r: "lpi_alloc (lpi_new LPI_START MAX_LPI_ID) = (r, a)" by fastforce
  have inv: "lpi_inv (lpi_new LPI_START MAX_LPI_ID)" "\<not> lpi_used (lpi_new LPI_START MAX_LPI_ID) 8192"
    using lpi_new_inv [of LPI_START MAX_LPI_ID] by (simp_all add: LPI_START_def MAX_LPI_ID_def)
  have "8192 \<in> lpi_ids (lpi_new LPI_START MAX_LPI_ID)"
    by (simp add: lpi_in_range_ids [symmetric] lpi_in_range_def lpi_new_def Let_def LPI_START_def MAX_LPI_ID_def)
  with inv have "\<not> lpi_ids (lpi_new LPI_START MAX_LPI_ID) \<subseteq> lpi_used_set (lpi_new LPI_START MAX_LPI_ID)"
    by (auto simp: lpi_used_set_def)
  with lpis.take_any_law [OF inv(1) r] obtain l where l: "r = Some l" by (cases r) auto
  show ?thesis
    using example_pushes(4) [of "g\<lparr>g_lpi_alloc := a\<rparr>" 4 d e l c] assms r l
    by (simp add: msi_map_event_def take_lpi_def pbind_step pret_def record_event_def)
qed

lemma example_enables:
  "\<exists>l s' g'. enable_msix (Some (gic_msi_ops example_gic)) 1 example_function (ecam_new 0x4010000000 0 0 255)
     (bdf_new 0 0 1 0) example_table (s, example_ready) = Some (Inr [l], (s', g'))"
proof -
  let ?e = "ecam_new 0x4010000000 0 0 255" and ?b = "bdf_new 0 0 1 0" and ?h = example_function
  have dev: "device_id ?b = 8" by (simp add: device_id_def requester_id_def bdf_new_def)
  have pow: "pow2_exponent (Suc 0) = 0" by (simp add: pow2_exponent_def upt_rec)
  obtain g where g: "msi_register_device example_gic 8 0 example_ready = Some (Inr (), g)" "its g = Some 0x8080000"
      "cmd_queue g = Some (example_queue\<lparr>write_offset := 4\<rparr>)" "hw g = of_nat (32 * 4)"
      "g_lpi_alloc g = lpi_new LPI_START MAX_LPI_ID" using example_registered by blast
  obtain l g' where m: "msi_map_event example_gic 8 0 None 0 g = Some (Inr l, g')"
    using example_event [OF g(2-5)] by blast
  obtain m where c: "msix_read ?h ?e ?b 0x40 s = Some m" "table_size m = 1" "msix_offset m = 0x40"
    using example_capability(2) [of s] by blast
  obtain s1 where s1: "enable_memory_space ?h ?e ?b s = Some s1" using config_steps(1) [of ?h ?e ?b s] by blast
  obtain s2 where s2: "enable_bus_master ?h ?e ?b s1 = Some s2" using config_steps(2) [of ?h ?e ?b s1] by blast
  have en: "\<exists>s'. msix_enable m ?h ?e ?b x = Some s'" for x using config_steps(3) [of m ?h ?e ?b x] c(3) by auto
  obtain d where door: "msi_get_doorbell g = Some (Inr d, g)"
    using g(2) by (simp add: msi_get_doorbell_def with_reg_def pret_def)
  obtain s3 where s3: "msix_enable m ?h ?e ?b
      (entry_configure ?h (entry_ptr example_table 0) d 0 False (mask_all ?h example_table s2)) = Some s3"
    using en by blast
  have tab: "vector_count example_table = Suc 0" by (simp add: example_table_def from_raw_parts_def)
  show ?thesis
    by (simp add: enable_msix_def example_capability(1) c s1 s2 s3 Let_def tab pbind_def door
        bus_do_def get_interrupt_controller_def msi_setup_def gic_msi_ops_def dev pow g(1) map_table_def m pret_def upt_rec)
qed

theorem msix_enable_exact_witness:
  "\<exists>l s' g'. enable_msix (Some (gic_msi_ops example_gic)) 1 example_function (ecam_new 0x4010000000 0 0 255)
     (bdf_new 0 0 1 0) example_table (\<lambda>_. 0, example_ready) = Some (Inr [l], (s', g')) \<and>
     delivers example_function example_table (gic_doorbell example_ready) 0 s' \<and>
     event_mappings g' (8, 0) = Some l \<and> l \<notin> gic_taken example_ready"
proof -
  obtain l s' g' where run: "enable_msix (Some (gic_msi_ops example_gic)) 1 example_function
      (ecam_new 0x4010000000 0 0 255) (bdf_new 0 0 1 0) example_table (\<lambda>_. 0, example_ready) = Some (Inr [l], (s', g'))"
    using example_enables by blast
  have dev: "device_id (bdf_new 0 0 1 0) = 8" and one: "vector_count example_table = 1"
    by (simp_all add: device_id_def requester_id_def bdf_new_def example_table_def from_raw_parts_def)
  have ok: "others_ok id" by (simp add: others_ok_def)
  obtain r x y where r: "enable_msix (Some (gic_msi_ops example_gic)) 1 example_function
        (ecam_new 0x4010000000 0 0 255) (bdf_new 0 0 1 0) example_table (\<lambda>_. 0, example_ready) = Some (r, (x, y))"
      "\<forall>lpis. r = Inr lpis \<longrightarrow> (\<exists>M. M \<noteq> {} \<and> M \<subseteq> {..<vector_count example_table} \<and>
         lpis = map (\<lambda>i. the (event_mappings y (device_id (bdf_new 0 0 1 0), of_nat i))) (sorted_list_of_set M) \<and>
         msix_enabled example_function example_table (gic_doorbell example_ready) (device_id (bdf_new 0 0 1 0))
           (gic_taken example_ready) (event_mappings example_ready) (event_mappings y) M x)"
    using msix_enable_exact [OF example_reachable ok example_table_laws, of 1 "ecam_new 0x4010000000 0 0 255"
      "bdf_new 0 0 1 0" "\<lambda>_. 0"] by (elim exE conjE) (rule that)
  have eq: "r = Inr [l]" "x = s'" "y = g'" using run r(1) by simp_all
  obtain M where M: "M \<noteq> {}" "M \<subseteq> {..<1}" "[l] = map (\<lambda>i. the (event_mappings g' (8, of_nat i))) (sorted_list_of_set M)"
    "msix_enabled example_function example_table (gic_doorbell example_ready) 8 (gic_taken example_ready)
       (event_mappings example_ready) (event_mappings g') M s'"
    using r(2) [rule_format, OF eq(1), unfolded dev one eq(2,3)] by (elim exE conjE) (rule that)
  have M0: "M = {0}" using M(1,2) by auto
  from M(4) [unfolded msix_enabled_def one M0]
  have d: "delivers example_function example_table (gic_doorbell example_ready) 0 s'"
    and "\<exists>l. event_mappings g' (8, 0) = Some l \<and> l \<notin> gic_taken example_ready" by simp_all
  with M(3) [unfolded M0] have "event_mappings g' (8, 0) = Some l" "l \<notin> gic_taken example_ready" by auto
  with run d show ?thesis by blast
qed

end
