(* ===== verification/Page_Mapper.thy ===== *)
theory Page_Mapper
  imports Vm_Core "HOL-Library.Monad_Syntax" "HOL-Library.Sublist"
begin

text \<open>
  Translation tables, \<open>klib/src/pm/page/mapper.rs\<close>: mapping and unmapping of pages and blocks,
  cloning and freeing of whole trees. Tables are memory: a state gives the entries of the table at
  every address, and all changes go through it, so that aliasing of tables is visible. The entry type
  \<open>TTE16K48\<close> is code of another crate and appears as a record of its methods; the traits
  \<open>TableAllocator\<close> and \<open>AddressTranslator\<close> are a second record. \<open>None\<close> is a panic.
\<close>

section \<open>Entries, memory and traits\<close>

record ('e, 'ap, 'sh) tte_ops =
  is_valid :: "'e \<Rightarrow> bool"
  is_table :: "'e \<Rightarrow> bool"
  tte_address :: "'e \<Rightarrow> u64"
  set_is_valid :: "bool \<Rightarrow> 'e \<Rightarrow> 'e"
  set_is_table :: "'e \<Rightarrow> 'e"
  set_is_block :: "'e \<Rightarrow> 'e"
  set_tte_address :: "u64 \<Rightarrow> 'e \<Rightarrow> 'e"
  set_access :: "'e \<Rightarrow> 'e"
  set_access_permission :: "'ap \<Rightarrow> 'e \<Rightarrow> 'e"
  set_shareability :: "'sh \<Rightarrow> 'e \<Rightarrow> 'e"
  set_attr_index :: "u64 \<Rightarrow> 'e \<Rightarrow> 'e"
  set_executable :: "bool \<Rightarrow> 'e \<Rightarrow> 'e"
  set_privileged_executable :: "bool \<Rightarrow> 'e \<Rightarrow> 'e"
  new_table :: "u64 \<Rightarrow> 'e"
  calculate_index :: "u64 \<Rightarrow> nat \<Rightarrow> nat"

record ('e, 'a) pt_mem =
  store :: "u64 \<Rightarrow> nat \<Rightarrow> 'e"
  pool :: 'a

record ('e, 'a) table_ops =
  alloc_table :: "('e, 'a) pt_mem \<Rightarrow> (u64 \<times> ('e, 'a) pt_mem) option"
  free_table :: "u64 \<Rightarrow> ('e, 'a) pt_mem \<Rightarrow> ('e, 'a) pt_mem option"
  phys_to_dmap :: "u64 \<Rightarrow> u64"
  dmap_to_phys :: "u64 \<Rightarrow> u64"

text \<open>The arguments that describe a mapping.\<close>

record ('ap, 'sh) page_attrs =
  access :: 'ap
  share :: 'sh
  uxn :: bool
  pxn :: bool
  attr_index :: u64

definition set_entry :: "u64 \<Rightarrow> nat \<Rightarrow> 'e \<Rightarrow> ('e, 'a) pt_mem \<Rightarrow> ('e, 'a) pt_mem" where
  "set_entry t i e m = m\<lparr>store := (store m)(t := (store m t)(i := e))\<rparr>"

text \<open>Indexing with the slot of an address at a level: out of bounds is a panic.\<close>

definition slot_of :: "('e, 'ap, 'sh) tte_ops \<Rightarrow> u64 \<Rightarrow> nat \<Rightarrow> nat option" where
  "slot_of h va level = (let i = calculate_index h va level in if i < TABLE_ENTRIES then Some i else None)"

text \<open>The loop \<open>for x in xs\<close> of a body that may panic.\<close>

fun each :: "('x \<Rightarrow> 's \<Rightarrow> 's option) \<Rightarrow> 'x list \<Rightarrow> 's \<Rightarrow> 's option" where
  "each f [] s = Some s"
| "each f (x # xs) s = Option.bind (f x s) (each f xs)"

lemma each_append: "each f (xs @ ys) s = Option.bind (each f xs s) (each f ys)"
proof (induction xs arbitrary: s)
  case (Cons x xs)
  then show ?case by (cases "f x s") simp_all
qed simp

lemma each_one [simp]: "each f [x] s = f x s"
  by (cases "f x s") simp_all

section \<open>Mapping\<close>

text \<open>The table below an entry: the one that is there, or a new one that is entered.\<close>

definition next_table ::
    "('e, 'ap, 'sh) tte_ops \<Rightarrow> ('e, 'a) table_ops \<Rightarrow> ('e \<Rightarrow> bool) \<Rightarrow> u64 \<Rightarrow> nat \<Rightarrow> ('e, 'a) pt_mem \<Rightarrow>
     (u64 \<times> ('e, 'a) pt_mem) option" where
  "next_table h al present t i m =
     (let entry = store m t i in
      if present entry then Some (phys_to_dmap al (tte_address h entry), m)
      else do { (table, m1) \<leftarrow> alloc_table al m;
                Some (table,
                  set_entry t i
                    (set_tte_address h (dmap_to_phys al table) (set_is_table h (set_is_valid h True (store m1 t i)))) m1) })"

definition has_table :: "('e, 'ap, 'sh) tte_ops \<Rightarrow> 'e \<Rightarrow> bool" where
  "has_table h e \<longleftrightarrow> tte_address h e \<noteq> 0 \<and> is_table h e"

definition set_leaf :: "('e, 'ap, 'sh) tte_ops \<Rightarrow> ('ap, 'sh) page_attrs \<Rightarrow> u64 \<Rightarrow> 'e \<Rightarrow> 'e" where
  "set_leaf h a pa e =
     set_privileged_executable h (\<not> pxn a)
      (set_executable h (\<not> uxn a)
        (set_attr_index h (attr_index a)
          (set_shareability h (share a)
            (set_access_permission h (access a)
              (set_access h (set_tte_address h pa e))))))"

definition map_page ::
    "('e, 'ap, 'sh) tte_ops \<Rightarrow> ('e, 'a) table_ops \<Rightarrow> ('ap, 'sh) page_attrs \<Rightarrow> u64 \<Rightarrow> u64 \<Rightarrow> u64 \<Rightarrow>
     ('e, 'a) pt_mem \<Rightarrow> ('e, 'a) pt_mem option" where
  "map_page h al a root pa va m =
     do { i0 \<leftarrow> slot_of h va 0; i1 \<leftarrow> slot_of h va 1; i2 \<leftarrow> slot_of h va 2; i3 \<leftarrow> slot_of h va 3;
          (l1_table, m1) \<leftarrow> next_table h al (has_table h) root i0 m;
          (l2_table, m2) \<leftarrow> next_table h al (has_table h) l1_table i1 m1;
          (l3_table, m3) \<leftarrow> next_table h al (is_valid h) l2_table i2 m2;
          Some (set_entry l3_table i3
            (set_leaf h a pa (set_is_table h (set_is_valid h True (store m3 l3_table i3)))) m3) }"

definition map_l2_block ::
    "('e, 'ap, 'sh) tte_ops \<Rightarrow> ('e, 'a) table_ops \<Rightarrow> ('ap, 'sh) page_attrs \<Rightarrow> u64 \<Rightarrow> u64 \<Rightarrow> u64 \<Rightarrow>
     ('e, 'a) pt_mem \<Rightarrow> ('e, 'a) pt_mem option" where
  "map_l2_block h al a root pa va m =
     do { i0 \<leftarrow> slot_of h va 0; i1 \<leftarrow> slot_of h va 1; i2 \<leftarrow> slot_of h va 2;
          (l1_table, m1) \<leftarrow> next_table h al (has_table h) root i0 m;
          (l2_table, m2) \<leftarrow> next_table h al (has_table h) l1_table i1 m1;
          Some (set_entry l2_table i2
            (set_leaf h a pa (set_is_block h (set_is_valid h True (store m2 l2_table i2)))) m2) }"

definition map_region ::
    "('e, 'ap, 'sh) tte_ops \<Rightarrow> ('e, 'a) table_ops \<Rightarrow> ('ap, 'sh) page_attrs \<Rightarrow> u64 \<Rightarrow> u64 \<Rightarrow> u64 \<Rightarrow> u64 \<Rightarrow>
     ('e, 'a) pt_mem \<Rightarrow> ('e, 'a) pt_mem option" where
  "map_region h al a root pa va sz m =
     (if va AND PAGE_MASK \<noteq> 0 \<or> pa AND PAGE_MASK \<noteq> 0 \<or> sz AND PAGE_MASK \<noteq> 0 \<or> sz < of_nat PAGE_SIZE then None
      else
        each (\<lambda>i. map_page h al a root (pa + push_bit PAGE_SHIFT (of_nat i)) (va + push_bit PAGE_SHIFT (of_nat i)))
          [0..<unat (drop_bit PAGE_SHIFT sz)] m)"

definition L2_BLOCK_SIZE :: nat where "L2_BLOCK_SIZE = 2 ^ L2_BLOCK_SHIFT"
definition L1_BLOCK_SIZE :: nat where "L1_BLOCK_SIZE = 2 ^ L1_BLOCK_SHIFT"

definition BLOCKS_NEEDED :: nat where
  "BLOCKS_NEEDED = L1_BLOCK_SIZE div L2_BLOCK_SIZE"

definition id_map ::
    "('e, 'ap, 'sh) tte_ops \<Rightarrow> ('e, 'a) table_ops \<Rightarrow> ('ap, 'sh) page_attrs \<Rightarrow> u64 \<Rightarrow>
     ('e, 'a) pt_mem \<Rightarrow> ('e, 'a) pt_mem option" where
  "id_map h al a root =
     each (\<lambda>i. let current_addr = of_nat (i * L2_BLOCK_SIZE) in map_l2_block h al a root current_addr current_addr)
       [0..<BLOCKS_NEEDED]"

section \<open>Unmapping\<close>

definition is_table_empty :: "('e, 'ap, 'sh) tte_ops \<Rightarrow> u64 \<Rightarrow> ('e, 'a) pt_mem \<Rightarrow> bool" where
  "is_table_empty h t m \<longleftrightarrow> list_all (\<lambda>i. \<not> is_valid h (store m t i)) [0..<TABLE_ENTRIES]"

definition clear_entry :: "('e, 'ap, 'sh) tte_ops \<Rightarrow> u64 \<Rightarrow> nat \<Rightarrow> ('e, 'a) pt_mem \<Rightarrow> ('e, 'a) pt_mem" where
  "clear_entry h t i m = set_entry t i (set_tte_address h 0 (set_is_valid h False (store m t i))) m"

text \<open>Freeing a table that has become empty and clearing the entry above it, before \<open>upwards\<close> goes on.\<close>

definition prune ::
    "('e, 'ap, 'sh) tte_ops \<Rightarrow> ('e, 'a) table_ops \<Rightarrow> u64 \<Rightarrow> nat \<Rightarrow> u64 \<Rightarrow>
     (('e, 'a) pt_mem \<Rightarrow> ('e, 'a) pt_mem option) \<Rightarrow> ('e, 'a) pt_mem \<Rightarrow> ('e, 'a) pt_mem option" where
  "prune h al t i below upwards m =
     (if is_table_empty h below m
      then do { m1 \<leftarrow> free_table al below m; upwards (clear_entry h t i m1) }
      else Some m)"

definition unmap_page ::
    "('e, 'ap, 'sh) tte_ops \<Rightarrow> ('e, 'a) table_ops \<Rightarrow> u64 \<Rightarrow> u64 \<Rightarrow> ('e, 'a) pt_mem \<Rightarrow> ('e, 'a) pt_mem option" where
  "unmap_page h al root va m =
     do { i0 \<leftarrow> slot_of h va 0; i1 \<leftarrow> slot_of h va 1; i2 \<leftarrow> slot_of h va 2; i3 \<leftarrow> slot_of h va 3;
          let l0_entry = store m root i0;
          if \<not> is_valid h l0_entry \<or> \<not> is_table h l0_entry then Some m
          else do {
            let l1_table = phys_to_dmap al (tte_address h l0_entry);
            let l1_entry = store m l1_table i1;
            if \<not> is_valid h l1_entry \<or> \<not> is_table h l1_entry then Some m
            else do {
              let l2_table = phys_to_dmap al (tte_address h l1_entry);
              let l2_entry = store m l2_table i2;
              if \<not> is_valid h l2_entry \<or> \<not> is_table h l2_entry then Some m
              else do {
                let l3_table = phys_to_dmap al (tte_address h l2_entry);
                let l3_entry = store m l3_table i3;
                if \<not> is_valid h l3_entry then Some m
                else
                  prune h al l2_table i2 l3_table
                   (prune h al l1_table i1 l2_table
                     (prune h al root i0 l1_table Some))
                   (clear_entry h l3_table i3 m) } } } }"

definition unmap_region ::
    "('e, 'ap, 'sh) tte_ops \<Rightarrow> ('e, 'a) table_ops \<Rightarrow> u64 \<Rightarrow> u64 \<Rightarrow> u64 \<Rightarrow> ('e, 'a) pt_mem \<Rightarrow> ('e, 'a) pt_mem option" where
  "unmap_region h al root va sz m =
     (if va AND PAGE_MASK \<noteq> 0 \<or> sz AND PAGE_MASK \<noteq> 0 then None
      else each (\<lambda>i. unmap_page h al root (va + push_bit PAGE_SHIFT (of_nat i))) [0..<unat (drop_bit PAGE_SHIFT sz)] m)"

section \<open>Whole trees\<close>

text \<open>Cloning: the last level copies every entry, the others clone the tables below.\<close>

definition clone_l3 ::
    "('e, 'a) table_ops \<Rightarrow> u64 \<Rightarrow> ('e, 'a) pt_mem \<Rightarrow> (u64 \<times> ('e, 'a) pt_mem) option" where
  "clone_l3 al src m =
     do { (new, m1) \<leftarrow> alloc_table al m;
          m2 \<leftarrow> each (\<lambda>i m. Some (set_entry new i (store m src i) m)) [0..<TABLE_ENTRIES] m1;
          Some (new, m2) }"

definition clone_level ::
    "('e, 'ap, 'sh) tte_ops \<Rightarrow> ('e, 'a) table_ops \<Rightarrow>
     (u64 \<Rightarrow> ('e, 'a) pt_mem \<Rightarrow> (u64 \<times> ('e, 'a) pt_mem) option) \<Rightarrow>
     u64 \<Rightarrow> ('e, 'a) pt_mem \<Rightarrow> (u64 \<times> ('e, 'a) pt_mem) option" where
  "clone_level h al below src m =
     do { (new, m1) \<leftarrow> alloc_table al m;
          m2 \<leftarrow> each (\<lambda>i m.
                 let entry = store m src i in
                 if \<not> is_valid h entry then Some m
                 else if is_table h entry then
                   do { (child_dst, m') \<leftarrow> below (tte_address h entry) m;
                        Some (set_entry new i (set_tte_address h child_dst (store m' src i)) m') }
                 else Some (set_entry new i entry m)) [0..<TABLE_ENTRIES] m1;
          Some (new, m2) }"

definition clone_page_tables ::
    "('e, 'ap, 'sh) tte_ops \<Rightarrow> ('e, 'a) table_ops \<Rightarrow> u64 \<Rightarrow> ('e, 'a) pt_mem \<Rightarrow> (u64 \<times> ('e, 'a) pt_mem) option" where
  "clone_page_tables h al = clone_level h al (clone_level h al (clone_level h al (clone_l3 al)))"

text \<open>Freeing: the loops over the levels are nested in the code; only the lower half of the root is visited.\<close>

definition free_l3 ::
    "('e, 'ap, 'sh) tte_ops \<Rightarrow> ('e, 'a) table_ops \<Rightarrow> u64 \<Rightarrow> ('e, 'a) pt_mem \<Rightarrow> ('e, 'a) pt_mem option" where
  "free_l3 h al t m =
     do { m1 \<leftarrow> each (\<lambda>i m.
                 let entry = store m t i in
                 if \<not> is_valid h entry \<or> \<not> is_table h entry then Some m
                 else Some (set_entry t i (set_is_valid h False entry) m)) [0..<TABLE_ENTRIES] m;
          free_table al t m1 }"

definition free_level ::
    "('e, 'ap, 'sh) tte_ops \<Rightarrow> ('e, 'a) table_ops \<Rightarrow> (u64 \<Rightarrow> ('e, 'a) pt_mem \<Rightarrow> ('e, 'a) pt_mem option) \<Rightarrow> nat \<Rightarrow>
     u64 \<Rightarrow> ('e, 'a) pt_mem \<Rightarrow> ('e, 'a) pt_mem option" where
  "free_level h al below n t m =
     do { m1 \<leftarrow> each (\<lambda>i m.
                 let entry = store m t i in
                 if \<not> is_valid h entry \<or> \<not> is_table h entry then Some m
                 else below (phys_to_dmap al (tte_address h entry)) m) [0..<n] m;
          free_table al t m1 }"

definition free_tables ::
    "('e, 'ap, 'sh) tte_ops \<Rightarrow> ('e, 'a) table_ops \<Rightarrow> u64 \<Rightarrow> ('e, 'a) pt_mem \<Rightarrow> ('e, 'a) pt_mem option" where
  "free_tables h al root =
     free_level h al (free_level h al (free_level h al (free_l3 h al) TABLE_ENTRIES) TABLE_ENTRIES) 2 root"

section \<open>What is relied on\<close>

text \<open>
  The entry type: the setters set what they are named after and nothing else of validity, kind and
  address, for page addresses of 48 bits; an address is its four indices at page granularity.
\<close>

definition frame_address :: "u64 \<Rightarrow> bool" where
  "frame_address a \<longleftrightarrow> a AND PAGE_MASK = 0 \<and> a < 2 ^ 48"

definition kind_of :: "('e, 'ap, 'sh) tte_ops \<Rightarrow> 'e \<Rightarrow> bool \<times> bool \<times> u64" where
  "kind_of h e = (is_valid h e, is_table h e, tte_address h e)"

definition tte_laws :: "('e, 'ap, 'sh) tte_ops \<Rightarrow> bool" where
  "tte_laws h \<longleftrightarrow>
     (\<forall>e b. kind_of h (set_is_valid h b e) = (b, is_table h e, tte_address h e)) \<and>
     (\<forall>e. kind_of h (set_is_table h e) = (is_valid h e, True, tte_address h e)) \<and>
     (\<forall>e. kind_of h (set_is_block h e) = (is_valid h e, False, tte_address h e)) \<and>
     (\<forall>e a. frame_address a \<longrightarrow> kind_of h (set_tte_address h a e) = (is_valid h e, is_table h e, a)) \<and>
     (\<forall>e. kind_of h (set_access h e) = kind_of h e) \<and>
     (\<forall>e x. kind_of h (set_access_permission h x e) = kind_of h e) \<and>
     (\<forall>e x. kind_of h (set_shareability h x e) = kind_of h e) \<and>
     (\<forall>e x. kind_of h (set_attr_index h x e) = kind_of h e) \<and>
     (\<forall>e b. kind_of h (set_executable h b e) = kind_of h e) \<and>
     (\<forall>e b. kind_of h (set_privileged_executable h b e) = kind_of h e) \<and>
     (\<forall>a. frame_address a \<longrightarrow> kind_of h (new_table h a) = (True, True, a)) \<and>
     (\<forall>va level. level < 4 \<longrightarrow> calculate_index h va level < TABLE_ENTRIES) \<and>
     (\<forall>va vb. (\<forall>level < 4. calculate_index h va level = calculate_index h vb level) \<longleftrightarrow>
        drop_bit PAGE_SHIFT (take_bit 48 va) = drop_bit PAGE_SHIFT (take_bit 48 vb))"

lemma frame_address_0 [simp]: "frame_address 0"
  by (simp add: frame_address_def)

lemma tte_kinds:
  assumes "tte_laws h"
  shows "kind_of h (set_is_valid h b e) = (b, is_table h e, tte_address h e)"
    "kind_of h (set_is_table h e) = (is_valid h e, True, tte_address h e)"
    "kind_of h (set_is_block h e) = (is_valid h e, False, tte_address h e)"
    "frame_address a \<Longrightarrow> kind_of h (set_tte_address h a e) = (is_valid h e, is_table h e, a)"
    "kind_of h (set_access h e) = kind_of h e" "kind_of h (set_access_permission h ap e) = kind_of h e"
    "kind_of h (set_shareability h sh e) = kind_of h e" "kind_of h (set_attr_index h x e) = kind_of h e"
    "kind_of h (set_executable h b e) = kind_of h e" "kind_of h (set_privileged_executable h b e) = kind_of h e"
    "frame_address a \<Longrightarrow> kind_of h (new_table h a) = (True, True, a)"
  using assms unfolding tte_laws_def by simp_all

lemma kind_of_iff:
  "kind_of h e = (v, t, a) \<longleftrightarrow> is_valid h e = v \<and> is_table h e = t \<and> tte_address h e = a"
  by (simp add: kind_of_def)

lemma slot_of_laws:
  assumes "tte_laws h" and "level < 4"
  shows "slot_of h va level = Some (calculate_index h va level)" and "calculate_index h va level < TABLE_ENTRIES"
  using assms unfolding tte_laws_def slot_of_def by (simp_all add: Let_def)

text \<open>The entries that are written.\<close>

lemma set_leaf_kind:
  assumes "tte_laws h" and "frame_address pa"
  shows "kind_of h (set_leaf h a pa e) = (is_valid h e, is_table h e, pa)"
  using tte_kinds [OF assms(1)] assms(2) by (simp add: set_leaf_def kind_of_def)

lemma page_leaf_kind:
  assumes "tte_laws h" and "frame_address pa"
  shows "kind_of h (set_leaf h a pa (set_is_table h (set_is_valid h True e))) = (True, True, pa)"
    and "kind_of h (set_leaf h a pa (set_is_block h (set_is_valid h True e))) = (True, False, pa)"
    and "kind_of h (set_tte_address h pa (set_is_table h (set_is_valid h True e))) = (True, True, pa)"
    and "kind_of h (set_tte_address h 0 (set_is_valid h False e)) = (False, is_table h e, 0)"
  using tte_kinds [OF assms(1)] set_leaf_kind [OF assms] assms(2) by (simp_all add: kind_of_def)

section \<open>The walk\<close>

text \<open>The table at a path of indices, and the walk of the hardware: the number of levels left and the entry.\<close>

definition is_link :: "('e, 'ap, 'sh) tte_ops \<Rightarrow> 'e \<Rightarrow> bool" where
  "is_link h e \<longleftrightarrow> is_valid h e \<and> is_table h e"

fun table_at ::
    "('e, 'ap, 'sh) tte_ops \<Rightarrow> ('e, 'a) table_ops \<Rightarrow> ('e, 'a) pt_mem \<Rightarrow> u64 \<Rightarrow> nat list \<Rightarrow> u64 option" where
  "table_at h al m t [] = Some t"
| "table_at h al m t (i # p) =
     (if is_link h (store m t i) then table_at h al m (phys_to_dmap al (tte_address h (store m t i))) p else None)"

lemma table_at_one [simp]:
  "table_at h al m t [i] =
     (if is_link h (store m t i) then Some (phys_to_dmap al (tte_address h (store m t i))) else None)"
  by simp

declare table_at.simps(2) [simp del]

fun mmu_walk ::
    "('e, 'ap, 'sh) tte_ops \<Rightarrow> ('e, 'a) table_ops \<Rightarrow> ('e, 'a) pt_mem \<Rightarrow> u64 \<Rightarrow> nat list \<Rightarrow> (nat \<times> 'e) option" where
  "mmu_walk h al m t [] = None"
| "mmu_walk h al m t (i # p) =
     (let e = store m t i in
      if \<not> is_valid h e then None
      else if p = [] then (if is_table h e then Some (0, e) else None)
      else if is_table h e then mmu_walk h al m (phys_to_dmap al (tte_address h e)) p
      else if length p = 1 then Some (1, e) else None)"

definition indices :: "('e, 'ap, 'sh) tte_ops \<Rightarrow> u64 \<Rightarrow> nat list" where
  "indices h va = map (calculate_index h va) [0..<4]"

definition translate ::
    "('e, 'ap, 'sh) tte_ops \<Rightarrow> ('e, 'a) table_ops \<Rightarrow> ('e, 'a) pt_mem \<Rightarrow> u64 \<Rightarrow> u64 \<Rightarrow> (nat \<times> 'e) option" where
  "translate h al m root va = mmu_walk h al m root (indices h va)"

definition path_ok :: "nat list \<Rightarrow> bool" where
  "path_ok p \<longleftrightarrow> set p \<subseteq> {..<TABLE_ENTRIES}"

definition same_page :: "u64 \<Rightarrow> u64 \<Rightarrow> bool" where
  "same_page va vb \<longleftrightarrow> drop_bit PAGE_SHIFT (take_bit 48 va) = drop_bit PAGE_SHIFT (take_bit 48 vb)"

lemma path_ok_simps [simp]:
  "path_ok []" "path_ok (i # p) \<longleftrightarrow> i < TABLE_ENTRIES \<and> path_ok p" "path_ok (p @ q) \<longleftrightarrow> path_ok p \<and> path_ok q"
  by (auto simp: path_ok_def)

lemma indices_list:
  "indices h va = [calculate_index h va 0, calculate_index h va 1, calculate_index h va 2, calculate_index h va 3]"
  by (simp add: indices_def upt_rec eval_nat_numeral)

lemma indices_ok: "tte_laws h \<Longrightarrow> path_ok (indices h va)"
  by (simp add: indices_list slot_of_laws(2))

lemma indices_same:
  assumes "tte_laws h"
  shows "indices h va = indices h vb \<longleftrightarrow> same_page va vb"
proof -
  have "indices h va = indices h vb \<longleftrightarrow> (\<forall>level < 4. calculate_index h va level = calculate_index h vb level)"
    by (auto simp: indices_def)
  then show ?thesis using assms unfolding tte_laws_def same_page_def by metis
qed

lemma table_at_append: "table_at h al m t (p @ q) = Option.bind (table_at h al m t p) (\<lambda>x. table_at h al m x q)"
  by (induction p arbitrary: t) (auto simp: table_at.simps(2))

text \<open>A path sees only the entries it goes through.\<close>

lemma table_at_cong:
  assumes "\<And>p' i x. prefix (p' @ [i]) q \<Longrightarrow> table_at h al m t p' = Some x \<Longrightarrow> store m' x i = store m x i"
  shows "table_at h al m' t q = table_at h al m t q"
  using assms
proof (induction q rule: rev_induct)
  case (snoc i q)
  have "table_at h al m' t q = table_at h al m t q"
    by (rule snoc.IH, rule snoc.prems) simp_all
  with snoc.prems [of q i] show ?case by (cases "table_at h al m t q") (simp_all add: table_at_append)
qed simp

lemma mmu_walk_paths:
  "mmu_walk h al m t [a, b, c, d] =
    (case table_at h al m t [a, b, c] of
       Some t3 \<Rightarrow> (if is_link h (store m t3 d) then Some (0, store m t3 d) else None)
     | None \<Rightarrow>
       (case table_at h al m t [a, b] of
          None \<Rightarrow> None
        | Some t2 \<Rightarrow> (let e = store m t2 c in if is_valid h e \<and> \<not> is_table h e then Some (1, e) else None)))"
  by (simp add: is_link_def Let_def table_at.simps(2))

text \<open>
  A tree of tables. No table is used twice, entries that are not valid hold no address, which is what
  the tests of \<open>map_page\<close> rely on, and there are blocks at the third level only.
\<close>

definition entry_ok :: "('e, 'ap, 'sh) tte_ops \<Rightarrow> nat \<Rightarrow> 'e \<Rightarrow> bool" where
  "entry_ok h depth e \<longleftrightarrow>
     (if is_valid h e then (depth < 2 \<longrightarrow> is_table h e) \<and> (is_table h e \<longrightarrow> tte_address h e \<noteq> 0)
      else tte_address h e = 0)"

definition pt_ok ::
    "('e, 'ap, 'sh) tte_ops \<Rightarrow> ('e, 'a) table_ops \<Rightarrow> u64 set \<Rightarrow> ('e, 'a) pt_mem \<Rightarrow> u64 \<Rightarrow> bool" where
  "pt_ok h al L m root \<longleftrightarrow>
     (\<forall>p t. length p \<le> 3 \<longrightarrow> path_ok p \<longrightarrow> table_at h al m root p = Some t \<longrightarrow> t \<in> L) \<and>
     (\<forall>p q t. length p \<le> 3 \<longrightarrow> path_ok p \<longrightarrow> length q \<le> 3 \<longrightarrow> path_ok q \<longrightarrow>
        table_at h al m root p = Some t \<longrightarrow> table_at h al m root q = Some t \<longrightarrow> p = q) \<and>
     (\<forall>p t i. length p < 3 \<longrightarrow> path_ok p \<longrightarrow> i < TABLE_ENTRIES \<longrightarrow> table_at h al m root p = Some t \<longrightarrow>
        entry_ok h (length p) (store m t i))"

lemma pt_okD:
  assumes "pt_ok h al L m root"
  shows "length p \<le> 3 \<Longrightarrow> path_ok p \<Longrightarrow> table_at h al m root p = Some t \<Longrightarrow> t \<in> L"
    and "length p \<le> 3 \<Longrightarrow> path_ok p \<Longrightarrow> length q \<le> 3 \<Longrightarrow> path_ok q \<Longrightarrow>
      table_at h al m root p = Some t \<Longrightarrow> table_at h al m root q = Some t \<Longrightarrow> p = q"
    and "length p < 3 \<Longrightarrow> path_ok p \<Longrightarrow> i < TABLE_ENTRIES \<Longrightarrow> table_at h al m root p = Some t \<Longrightarrow>
      entry_ok h (length p) (store m t i)"
  using assms unfolding pt_ok_def by blast+

lemma set_entry_store:
  "store (set_entry t i e m) u j = (if u = t \<and> j = i then e else store m u j)"
  "pool (set_entry t i e m) = pool m"
  by (simp_all add: set_entry_def)

text \<open>Changing one entry of one table of the tree.\<close>

lemma set_entry_elsewhere:
  assumes ok: "pt_ok h al L m root" and t: "table_at h al m root p = Some t" "length p \<le> 3" "path_ok p"
    and q: "length q \<le> 3" "path_ok q" "\<not> prefix (p @ [i]) q"
  shows "table_at h al (set_entry t i e m) root q = table_at h al m root q"
proof (rule table_at_cong)
  fix p' j x
  assume p': "prefix (p' @ [j]) q" "table_at h al m root p' = Some x"
  obtain r where r: "q = p' @ [j] @ r" using p'(1) by (auto simp: prefix_def)
  have "p' = p" if "x = t"
    by (rule pt_okD(2) [OF ok, of p' p t]) (use that p'(2) t q(1,2) r in auto)
  then show "store (set_entry t i e m) x j = store m x j"
    using p'(1) q(3) by (auto simp: set_entry_store)
qed

text \<open>Memory that is no table of the tree does not matter.\<close>

lemma walk_outside:
  assumes ok: "pt_ok h al L m root" and "t \<notin> L" and ix: "length ix = 4" "path_ok ix"
  shows "mmu_walk h al (set_entry t i e m) root ix = mmu_walk h al m root ix"
proof -
  obtain w x y z where ix4: "ix = [w, x, y, z]" using ix(1) by (auto simp: numeral_eq_Suc length_Suc_conv)
  have oks: "path_ok [w, x, y]" "path_ok [w, x]" using ix(2) by (auto simp: ix4)
  have keep: "store (set_entry t i e m) u j = store m u j"
    if "table_at h al m root q = Some u" "length q \<le> 3" "path_ok q" for q u j
    using pt_okD(1) [OF ok that(2,3,1)] assms(2) by (auto simp: set_entry_store)
  have path: "table_at h al (set_entry t i e m) root q = table_at h al m root q" if q: "length q \<le> 3" "path_ok q" for q
  proof (rule table_at_cong)
    fix p' j u
    assume p': "prefix (p' @ [j]) q" "table_at h al m root p' = Some u"
    obtain r where "q = p' @ [j] @ r" using p'(1) by (auto simp: prefix_def)
    then show "store (set_entry t i e m) u j = store m u j" using keep [OF p'(2)] q by auto
  qed
  show ?thesis
    unfolding ix4 mmu_walk_paths
    using path [of "[w, x, y]"] path [of "[w, x]"] keep [of "[w, x, y]"] keep [of "[w, x]"] oks
    by (simp split: option.splits)
qed

lemma no_link_no_path:
  "table_at h al m root p = Some t \<Longrightarrow> \<not> is_link h (store m t i) \<Longrightarrow> prefix (p @ [i]) q \<Longrightarrow>
    table_at h al m root q = None"
  by (auto simp: prefix_def table_at_append table_at.simps(2))

text \<open>A tree that keeps its tables and has new ones only where there were none.\<close>

definition grows ::
    "('e, 'ap, 'sh) tte_ops \<Rightarrow> ('e, 'a) table_ops \<Rightarrow> ('a \<Rightarrow> u64 set) \<Rightarrow> u64 \<Rightarrow> ('e, 'a) pt_mem \<Rightarrow> ('e, 'a) pt_mem \<Rightarrow> bool" where
  "grows h al live root m m' \<longleftrightarrow>
     live (pool m) \<subseteq> live (pool m') \<and>
     (\<forall>q t. length q \<le> 3 \<longrightarrow> path_ok q \<longrightarrow>
        (table_at h al m root q = Some t \<longrightarrow> table_at h al m' root q = Some t) \<and>
        (table_at h al m' root q = Some t \<longrightarrow> table_at h al m root q = Some t \<or> t \<notin> live (pool m)))"

lemma grows_trans: "grows h al live root a b \<Longrightarrow> grows h al live root b c \<Longrightarrow> grows h al live root a c"
  unfolding grows_def by blast

lemma grows_refl: "grows h al live root m m"
  by (simp add: grows_def)

text \<open>
  A tree that only loses tables: those on one path of indices, and what it loses is no longer live. And a tree
  in which no table, the root and those at \<open>X\<close> apart, has become empty.
\<close>

definition lost ::
    "('e, 'ap, 'sh) tte_ops \<Rightarrow> ('e, 'a) table_ops \<Rightarrow> u64 \<Rightarrow> ('e, 'a) pt_mem \<Rightarrow> ('e, 'a) pt_mem \<Rightarrow> u64 set" where
  "lost h al root m m' =
     {t. \<exists>q. length q \<le> 3 \<and> path_ok q \<and> table_at h al m root q = Some t \<and> table_at h al m' root q = None}"

definition sheds ::
    "('e, 'ap, 'sh) tte_ops \<Rightarrow> ('e, 'a) table_ops \<Rightarrow> ('a \<Rightarrow> u64 set) \<Rightarrow> u64 \<Rightarrow> nat list \<Rightarrow>
     ('e, 'a) pt_mem \<Rightarrow> ('e, 'a) pt_mem \<Rightarrow> bool" where
  "sheds h al live root path m m' \<longleftrightarrow>
     (\<forall>q. length q \<le> 3 \<longrightarrow> path_ok q \<longrightarrow> table_at h al m' root q = table_at h al m root q \<or>
        table_at h al m' root q = None \<and> prefix q path) \<and>
     live (pool m') = live (pool m) - lost h al root m m'"

definition no_new_empty ::
    "('e, 'ap, 'sh) tte_ops \<Rightarrow> ('e, 'a) table_ops \<Rightarrow> u64 \<Rightarrow> nat list set \<Rightarrow> ('e, 'a) pt_mem \<Rightarrow> ('e, 'a) pt_mem \<Rightarrow> bool" where
  "no_new_empty h al root X m m' \<longleftrightarrow>
     (\<forall>q t. q \<noteq> [] \<longrightarrow> q \<notin> X \<longrightarrow> length q \<le> 3 \<longrightarrow> path_ok q \<longrightarrow> table_at h al m' root q = Some t \<longrightarrow>
        is_table_empty h t m' \<longrightarrow> is_table_empty h t m)"

lemma shedsD:
  assumes "sheds h al live root path m m'"
  shows "length q \<le> 3 \<Longrightarrow> path_ok q \<Longrightarrow>
      table_at h al m' root q = table_at h al m root q \<or> table_at h al m' root q = None \<and> prefix q path"
    and "live (pool m') = live (pool m) - lost h al root m m'"
  using assms unfolding sheds_def by simp_all

lemma lost_same: "(\<And>q. length q \<le> 3 \<Longrightarrow> path_ok q \<Longrightarrow> table_at h al m' root q = table_at h al m root q) \<Longrightarrow>
    lost h al root m m' = {}"
  by (auto simp: lost_def)

lemma sheds_same:
  assumes "\<And>q. length q \<le> 3 \<Longrightarrow> path_ok q \<Longrightarrow> table_at h al m' root q = table_at h al m root q"
    and "live (pool m') = live (pool m)"
  shows "sheds h al live root path m m'"
  using lost_same [OF assms(1)] assms by (simp add: sheds_def)

lemma lost_trans:
  assumes "sheds h al live root path a b" and "sheds h al live root path b c"
  shows "lost h al root a c = lost h al root a b \<union> lost h al root b c"
proof -
  have "table_at h al a root q = Some t \<and> table_at h al c root q = None \<longleftrightarrow>
      table_at h al a root q = Some t \<and> table_at h al b root q = None \<or>
      table_at h al b root q = Some t \<and> table_at h al c root q = None" if "length q \<le> 3" "path_ok q" for q t
    using shedsD(1) [OF assms(1) that] shedsD(1) [OF assms(2) that] by auto
  then show ?thesis unfolding lost_def by blast
qed

lemma sheds_trans:
  assumes "sheds h al live root path a b" and "sheds h al live root path b c"
  shows "sheds h al live root path a c"
proof -
  have "live (pool c) = live (pool a) - lost h al root a c"
    using shedsD(2) [OF assms(1)] shedsD(2) [OF assms(2)] lost_trans [OF assms] by auto
  moreover have "table_at h al c root q = table_at h al a root q \<or> table_at h al c root q = None \<and> prefix q path"
    if "length q \<le> 3" "path_ok q" for q
    using shedsD(1) [OF assms(1) that] shedsD(1) [OF assms(2) that] by auto
  ultimately show ?thesis by (simp add: sheds_def)
qed

section \<open>Tables that come and go\<close>

text \<open>What an allocator of tables promises: new tables are blank, nobody else's, and reached through the
  direct map; allocating and freeing leave the other tables alone.\<close>

locale table_supply =
  fixes al :: "('e, 'a) table_ops" and live :: "'a \<Rightarrow> u64 set" and ready :: "'a \<Rightarrow> bool"
    and spare :: "'a \<Rightarrow> nat" and blank :: 'e
  assumes alloc_law: "ready (pool m) \<Longrightarrow> alloc_table al m = Some (t, m') \<Longrightarrow>
      ready (pool m') \<and> spare (pool m) \<le> Suc (spare (pool m')) \<and> t \<notin> live (pool m) \<and> live (pool m') = insert t (live (pool m)) \<and>
      (\<forall>i < TABLE_ENTRIES. store m' t i = blank) \<and> (\<forall>u \<in> live (pool m). store m' u = store m u)"
    and spare_law: "ready (pool m) \<Longrightarrow> 0 < spare (pool m) \<Longrightarrow> alloc_table al m \<noteq> None"
    and reach_law: "ready a \<Longrightarrow> t \<in> live a \<Longrightarrow>
      phys_to_dmap al (dmap_to_phys al t) = t \<and> dmap_to_phys al t \<noteq> 0 \<and> frame_address (dmap_to_phys al t)"
begin

lemma graft_paths:
  assumes ok: "pt_ok h al (live (pool m)) m root" and t: "table_at h al m root p = Some t" "length p < 3" "path_ok p"
    and i: "i < TABLE_ENTRIES" and free: "\<not> is_link h (store m t i)" and "ready (pool m)"
    and a: "alloc_table al m = Some (n, m1)" and e: "is_link h e" "phys_to_dmap al (tte_address h e) = n"
    and blank: "\<not> is_valid h blank"
    and q: "length q \<le> 3" "path_ok q"
  shows "table_at h al (set_entry t i e m1) root q = (if q = p @ [i] then Some n else table_at h al m root q)"
proof -
  note new = alloc_law [OF \<open>ready (pool m)\<close> a]
  let ?m2 = "set_entry t i e m1"
  have tl: "t \<in> live (pool m)" using pt_okD(1) [OF ok _ t(3,1)] t(2) by simp
  have same: "table_at h al ?m2 root x = table_at h al m root x"
    if x: "length x \<le> 3" "path_ok x" "\<not> prefix (p @ [i]) x" for x
  proof (rule table_at_cong)
    fix p' j y
    assume p': "prefix (p' @ [j]) x" "table_at h al m root p' = Some y"
    obtain r where r: "x = p' @ [j] @ r" using p'(1) by (auto simp: prefix_def)
    have y: "y \<in> live (pool m)" by (rule pt_okD(1) [OF ok, of p']) (use p'(2) r x in auto)
    have "p' = p" if "y = t"
      by (rule pt_okD(2) [OF ok, of p' p t]) (use that p'(2) t x(1,2) r in auto)
    then show "store ?m2 y j = store m y j" using p'(1) x(3) y new by (auto simp: set_entry_store)
  qed
  have p: "table_at h al ?m2 root p = Some t" using same [of p] t by simp
  show ?thesis
  proof (cases "prefix (p @ [i]) q")
    case False
    then have "q \<noteq> p @ [i]" by auto
    with same [OF q False] show ?thesis by simp
  next
    case True
    then obtain r where r: "q = p @ [i] @ r" by (auto simp: prefix_def)
    have "n \<noteq> t" using new tl by auto
    have "table_at h al ?m2 n r = None" if "r \<noteq> []"
    proof (cases r)
      case (Cons j r')
      then have "store ?m2 n j = blank" using new q(2) r \<open>n \<noteq> t\<close> by (auto simp: set_entry_store)
      with blank Cons show ?thesis by (simp add: is_link_def table_at.simps(2))
    qed (use that in simp)
    then show ?thesis
      using p e no_link_no_path [OF t(1) free True] by (auto simp: r table_at_append table_at.simps(2) set_entry_store)
  qed
qed

lemma graft_ok:
  assumes ok: "pt_ok h al (live (pool m)) m root" and t: "table_at h al m root p = Some t" "length p < 3" "path_ok p"
    and i: "i < TABLE_ENTRIES" and free: "\<not> is_link h (store m t i)" and ready: "ready (pool m)"
    and a: "alloc_table al m = Some (n, m1)" and e: "is_link h e" "phys_to_dmap al (tte_address h e) = n"
      "tte_address h e \<noteq> 0"
    and blank: "\<not> is_valid h blank" "tte_address h blank = 0"
  shows "pt_ok h al (live (pool m1)) (set_entry t i e m1) root"
proof -
  note new = alloc_law [OF ready a]
  let ?m2 = "set_entry t i e m1"
  note paths = graft_paths [OF ok t i free ready a e(1,2) blank(1)]
  have fresh: "table_at h al m root q \<noteq> Some n" if "length q \<le> 3" "path_ok q" for q
    using pt_okD(1) [OF ok that] new by blast
  show ?thesis
    unfolding pt_ok_def
  proof (intro conjI allI impI)
    fix q x
    assume "length q \<le> 3" "path_ok q" "table_at h al ?m2 root q = Some x"
    then show "x \<in> live (pool m1)"
      using pt_okD(1) [OF ok, of q x] new paths [of q] by (auto split: if_splits)
  next
    fix q r x
    assume "length q \<le> 3" "path_ok q" "length r \<le> 3" "path_ok r"
      "table_at h al ?m2 root q = Some x" "table_at h al ?m2 root r = Some x"
    then show "q = r"
      using pt_okD(2) [OF ok, of q r x] paths [of q] paths [of r] fresh [of q] fresh [of r] by (auto split: if_splits)
  next
    fix q x j
    assume q: "length q < 3" "path_ok q" "j < TABLE_ENTRIES" "table_at h al ?m2 root q = Some x"
    show "entry_ok h (length q) (store ?m2 x j)"
    proof (cases "q = p @ [i]")
      case True
      then have "x = n" using q paths [of q] by simp
      moreover have "t \<in> live (pool m)" using pt_okD(1) [OF ok _ t(3,1)] t(2) by simp
      ultimately have "store ?m2 x j = blank" using new q(3) by (auto simp: set_entry_store)
      with blank show ?thesis by (simp add: entry_ok_def)
    next
      case False
      then have x: "table_at h al m root q = Some x" using q paths [of q] by simp
      show ?thesis
      proof (cases "x = t \<and> j = i")
        case True
        then have "q = p" using pt_okD(2) [OF ok, of q p t] x q t by simp
        with True e show ?thesis by (simp add: set_entry_store entry_ok_def is_link_def)
      next
        case False
        have "x \<in> live (pool m)" using pt_okD(1) [OF ok _ q(2) x] q(1) by simp
        with False have "store ?m2 x j = store m x j" using new by (auto simp: set_entry_store)
        then show ?thesis using pt_okD(3) [OF ok q(1-3) x] by simp
      qed
    qed
  qed
qed

text \<open>A new empty table changes no translation.\<close>

lemma graft_walk:
  assumes ok: "pt_ok h al (live (pool m)) m root" and t: "table_at h al m root p = Some t" "length p < 3" "path_ok p"
    and i: "i < TABLE_ENTRIES" and free: "\<not> is_valid h (store m t i)" and ready: "ready (pool m)"
    and a: "alloc_table al m = Some (n, m1)" and e: "is_link h e" "phys_to_dmap al (tte_address h e) = n"
    and blank: "\<not> is_valid h blank"
    and ix: "length ix = 4" "path_ok ix"
  shows "mmu_walk h al (set_entry t i e m1) root ix = mmu_walk h al m root ix"
proof -
  note new = alloc_law [OF ready a]
  let ?m2 = "set_entry t i e m1"
  have nl: "\<not> is_link h (store m t i)" using free by (simp add: is_link_def)
  note paths = graft_paths [OF ok t i nl ready a e(1,2) blank]
  obtain w x y z where ix4: "ix = [w, x, y, z]" using ix(1) by (auto simp: numeral_eq_Suc length_Suc_conv)
  have tl: "t \<in> live (pool m)" using pt_okD(1) [OF ok _ t(3,1)] t(2) by simp
  have nt: "n \<noteq> t" using new tl by auto
  have keep: "store ?m2 u j = store m u j"
    if "table_at h al m root q = Some u" "length q \<le> 3" "path_ok q" "q \<noteq> p \<or> j \<noteq> i" for q u j
  proof -
    have "u \<in> live (pool m)" using pt_okD(1) [OF ok that(2,3,1)] .
    moreover have "\<not> (u = t \<and> j = i)" using pt_okD(2) [OF ok that(2,3) _ t(3) that(1)] t that(4) by auto
    ultimately show ?thesis using new by (auto simp: set_entry_store)
  qed
  have ok3: "path_ok [w, x, y]" "path_ok [w, x]" "z < TABLE_ENTRIES" "y < TABLE_ENTRIES" using ix by (auto simp: ix4)
  show ?thesis
  proof (cases "[w, x, y] = p @ [i]")
    case True
    then have p2: "p = [w, x]" "y = i" by auto
    have "table_at h al m root [w, x, y] = None" by (rule no_link_no_path [OF t(1) nl]) (simp add: p2)
    moreover have "store ?m2 n z = blank" using new nt ok3(3) by (auto simp: set_entry_store)
    ultimately show ?thesis
      unfolding ix4 mmu_walk_paths using paths [of "[w, x, y]"] paths [of "[w, x]"] ok3 t(1) True p2 blank free
      by (simp add: is_link_def Let_def)
  next
    case False
    have "table_at h al ?m2 root [w, x, y] = table_at h al m root [w, x, y]" using paths [of "[w, x, y]"] ok3 False by simp
    moreover have "store ?m2 t3 z = store m t3 z" if "table_at h al m root [w, x, y] = Some t3" for t3
      by (rule keep [OF that]) (use ok3 t(2) in auto)
    moreover have "(case table_at h al ?m2 root [w, x] of None \<Rightarrow> None
        | Some t2 \<Rightarrow> let e = store ?m2 t2 y in if is_valid h e \<and> \<not> is_table h e then Some (1 :: nat, e) else None) =
      (case table_at h al m root [w, x] of None \<Rightarrow> None
        | Some t2 \<Rightarrow> let e = store m t2 y in if is_valid h e \<and> \<not> is_table h e then Some (1, e) else None)"
    proof (cases "[w, x] = p @ [i]")
      case True
      have "table_at h al m root [w, x] = None" by (rule no_link_no_path [OF t(1) nl]) (simp add: True)
      moreover have "store ?m2 n y = blank" using new nt ok3(4) by (auto simp: set_entry_store)
      moreover have "p = [w]" "i = x" using True by auto
      then have "table_at h al ?m2 root [w, x] = Some n" using paths [of "[w, x]"] ok3 by simp
      ultimately show ?thesis using blank by (simp add: Let_def)
    next
      case F2: False
      have "store ?m2 t2 y = store m t2 y" if "table_at h al m root [w, x] = Some t2" for t2
        using keep [OF that, of y] ok3 False by auto
      with paths [of "[w, x]"] ok3 F2 show ?thesis by (simp split: option.splits)
    qed
    ultimately show ?thesis
      unfolding ix4 mmu_walk_paths by (simp split: option.splits)
  qed
qed

lemma next_table_ok:
  assumes laws: "tte_laws h" and blank: "\<not> is_valid h blank" "tte_address h blank = 0"
    and ok: "pt_ok h al (live (pool m)) m root" and ready: "ready (pool m)"
    and t: "table_at h al m root p = Some t" "length p < 3" "path_ok p" and i: "i < TABLE_ENTRIES"
    and present: "present (store m t i) \<longleftrightarrow> is_link h (store m t i)"
    and free: "\<not> is_link h (store m t i) \<Longrightarrow> \<not> is_valid h (store m t i)"
    and run: "next_table h al present t i m = Some (n, m')"
  shows "pt_ok h al (live (pool m')) m' root \<and> ready (pool m') \<and> table_at h al m' root (p @ [i]) = Some n \<and>
    (\<forall>ix. length ix = 4 \<longrightarrow> path_ok ix \<longrightarrow> mmu_walk h al m' root ix = mmu_walk h al m root ix) \<and> grows h al live root m m'"
proof (cases "is_link h (store m t i)")
  case True
  with run present have "m' = m" "phys_to_dmap al (tte_address h (store m t i)) = n" by (auto simp: next_table_def)
  with True ok ready t(1) show ?thesis by (simp add: table_at_append grows_refl)
next
  case False
  then obtain m1 where a: "alloc_table al m = Some (n, m1)"
    and m': "m' = set_entry t i (set_tte_address h (dmap_to_phys al n) (set_is_table h (set_is_valid h True (store m1 t i)))) m1"
    using run present by (auto simp: next_table_def bind_eq_Some_conv)
  note new = alloc_law [OF ready a]
  let ?e = "set_tte_address h (dmap_to_phys al n) (set_is_table h (set_is_valid h True (store m1 t i)))"
  have r: "phys_to_dmap al (dmap_to_phys al n) = n" "dmap_to_phys al n \<noteq> 0" "frame_address (dmap_to_phys al n)"
    using reach_law [of "pool m1" n] new by auto
  have k: "is_link h ?e" "tte_address h ?e = dmap_to_phys al n"
    using page_leaf_kind(3) [OF laws r(3), of "store m1 t i"] by (simp_all add: kind_of_iff is_link_def)
  have e: "is_link h ?e" "phys_to_dmap al (tte_address h ?e) = n" "tte_address h ?e \<noteq> 0" using k r by simp_all
  have "grows h al live root m m'"
    using graft_paths [OF ok t i False ready a e(1,2) blank(1)] new no_link_no_path [OF t(1) False, of "p @ [i]"]
    by (auto simp: grows_def m' set_entry_store split: if_splits)
  then show ?thesis
    using graft_ok [OF ok t i False ready a e blank] new graft_walk [OF ok t i free [OF False] ready a e(1,2) blank(1)]
      graft_paths [OF ok t i False ready a e(1,2) blank(1), of "p @ [i]"] t i
    by (simp add: m' set_entry_store)
qed

text \<open>Writing a leaf of the last level.\<close>

lemma set_page_leaf:
  assumes ok: "pt_ok h al L m root" and t: "table_at h al m root [a, b, c] = Some t" "path_ok [a, b, c, d]"
  shows "pt_ok h al L (set_entry t d e m) root"
    and "length q \<le> 3 \<Longrightarrow> path_ok q \<Longrightarrow> table_at h al (set_entry t d e m) root q = table_at h al m root q"
    and "length ix = 4 \<Longrightarrow> path_ok ix \<Longrightarrow> mmu_walk h al (set_entry t d e m) root ix =
      (if ix = [a, b, c, d] then if is_link h e then Some (0, e) else None else mmu_walk h al m root ix)"
proof -
  let ?m = "set_entry t d e m"
  have path: "table_at h al ?m root q = table_at h al m root q" if "length q \<le> 3" "path_ok q" for q
    by (rule set_entry_elsewhere [OF ok t(1)]) (use t(2) that in \<open>auto dest: prefix_length_le\<close>)
  have keep: "store ?m u j = store m u j"
    if "table_at h al m root q = Some u" "length q \<le> 3" "path_ok q" "q \<noteq> [a, b, c] \<or> j \<noteq> d" for q u j
    using pt_okD(2) [OF ok that(2,3) _ _ that(1), of "[a, b, c]"] t that(4) by (auto simp: set_entry_store)
  show "length q \<le> 3 \<Longrightarrow> path_ok q \<Longrightarrow> table_at h al ?m root q = table_at h al m root q" by (rule path)
  have "entry_ok h (length q) (store ?m u j)"
    if "length q < 3" "path_ok q" "j < TABLE_ENTRIES" "table_at h al m root q = Some u" for q u j
  proof -
    have "q \<noteq> [a, b, c]" using that(1) by auto
    then show ?thesis using pt_okD(3) [OF ok that] keep [OF that(4), of j] that(1,2) by simp
  qed
  with ok path show "pt_ok h al L ?m root" unfolding pt_ok_def by simp
  assume ix: "length ix = 4" "path_ok ix"
  obtain w x y z where ix4: "ix = [w, x, y, z]" using ix(1) by (auto simp: numeral_eq_Suc length_Suc_conv)
  have oks: "path_ok [w, x, y]" "path_ok [w, x]" using ix(2) by (auto simp: ix4)
  have p2: "store ?m u y = store m u y" if "table_at h al m root [w, x] = Some u" for u
    using keep [OF that] oks by simp
  have p3: "store ?m u z = store m u z" if "table_at h al m root [w, x, y] = Some u" "ix \<noteq> [a, b, c, d]" for u
    using keep [OF that(1), of z] oks that(2) by (auto simp: ix4)
  show "mmu_walk h al ?m root ix =
      (if ix = [a, b, c, d] then if is_link h e then Some (0, e) else None else mmu_walk h al m root ix)"
  proof (cases "ix = [a, b, c, d]")
    case True
    then show ?thesis unfolding ix4 mmu_walk_paths using path [of "[a, b, c]"] t by (simp add: set_entry_store)
  next
    case False
    have "mmu_walk h al ?m root [w, x, y, z] = mmu_walk h al m root [w, x, y, z]"
      unfolding mmu_walk_paths using p2 p3 path [of "[w, x, y]"] path [of "[w, x]"] oks False
      by (simp split: option.splits)
    with False show ?thesis by (simp only: ix4 if_False)
  qed
qed

text \<open>The tables of the first two levels.\<close>

lemma upper_tables:
  assumes laws: "tte_laws h" and blank: "\<not> is_valid h blank" "tte_address h blank = 0"
    and ok: "pt_ok h al (live (pool m)) m root" and ready: "ready (pool m)"
    and r1: "next_table h al (has_table h) root (calculate_index h va 0) m = Some (t1, m1)"
    and r2: "next_table h al (has_table h) t1 (calculate_index h va 1) m1 = Some (t2, m2)"
  shows "pt_ok h al (live (pool m2)) m2 root \<and> ready (pool m2) \<and>
    table_at h al m2 root [calculate_index h va 0, calculate_index h va 1] = Some t2 \<and>
    (\<forall>ix. length ix = 4 \<longrightarrow> path_ok ix \<longrightarrow> mmu_walk h al m2 root ix = mmu_walk h al m root ix) \<and> grows h al live root m m2"
proof -
  let ?i = "calculate_index h va"
  have i: "?i k < TABLE_ENTRIES" if "k < 4" for k using slot_of_laws(2) [OF laws that] .
  note nt = next_table_ok [OF laws blank]
  have guard: "has_table h e \<longleftrightarrow> is_link h e" "\<not> is_link h e \<Longrightarrow> \<not> is_valid h e"
    if "entry_ok h k e" "k < 2" for k e
    using that by (auto simp: entry_ok_def has_table_def is_link_def split: if_splits)
  have s1: "pt_ok h al (live (pool m1)) m1 root \<and> ready (pool m1) \<and> table_at h al m1 root ([] @ [?i 0]) = Some t1 \<and>
      (\<forall>ix. length ix = 4 \<longrightarrow> path_ok ix \<longrightarrow> mmu_walk h al m1 root ix = mmu_walk h al m root ix) \<and> grows h al live root m m1"
  proof (rule nt [OF ok ready _ _ _ _ _ _ r1])
    have "entry_ok h 0 (store m root (?i 0))" using pt_okD(3) [OF ok, of "[]" "?i 0" root] i by simp
    from guard [OF this] show "has_table h (store m root (?i 0)) \<longleftrightarrow> is_link h (store m root (?i 0))"
      "\<not> is_link h (store m root (?i 0)) \<Longrightarrow> \<not> is_valid h (store m root (?i 0))" by simp_all
  qed (use i in simp_all)
  have s2: "pt_ok h al (live (pool m2)) m2 root \<and> ready (pool m2) \<and> table_at h al m2 root ([?i 0] @ [?i 1]) = Some t2 \<and>
      (\<forall>ix. length ix = 4 \<longrightarrow> path_ok ix \<longrightarrow> mmu_walk h al m2 root ix = mmu_walk h al m1 root ix) \<and> grows h al live root m1 m2"
  proof (rule nt [OF _ _ _ _ _ _ _ _ r2])
    have "entry_ok h 1 (store m1 t1 (?i 1))"
      using pt_okD(3) [OF conjunct1 [OF s1], of "[?i 0]" "?i 1" t1] s1 i by simp
    from guard [OF this] show "has_table h (store m1 t1 (?i 1)) \<longleftrightarrow> is_link h (store m1 t1 (?i 1))"
      "\<not> is_link h (store m1 t1 (?i 1)) \<Longrightarrow> \<not> is_valid h (store m1 t1 (?i 1))" by simp_all
  qed (use s1 i in simp_all)
  have "grows h al live root m m2" using s1 s2 grows_trans [of h al live root m m1 m2] by blast
  with s1 s2 show ?thesis by simp
qed

lemma map_page_all:
  assumes laws: "tte_laws h" and blank: "\<not> is_valid h blank" "tte_address h blank = 0"
    and ok: "pt_ok h al (live (pool m)) m root" and ready: "ready (pool m)" and pa: "frame_address pa"
    and nb: "\<nexists>e. translate h al m root va = Some (1, e)"
    and run: "map_page h al a root pa va m = Some m'"
  shows "pt_ok h al (live (pool m')) m' root \<and> ready (pool m') \<and>
    (\<exists>e. kind_of h (set_leaf h a pa e) = (True, True, pa) \<and>
      (\<forall>vb. translate h al m' root vb =
        (if same_page vb va then Some (0, set_leaf h a pa e) else translate h al m root vb))) \<and> grows h al live root m m'"
proof -
  let ?i = "calculate_index h va"
  have i: "slot_of h va k = Some (?i k)" "?i k < TABLE_ENTRIES" if "k < 4" for k
    using slot_of_laws [OF laws that] by blast+
  obtain t1 m1 t2 m2 t3 m3 where
      r1: "next_table h al (has_table h) root (?i 0) m = Some (t1, m1)" and
      r2: "next_table h al (has_table h) t1 (?i 1) m1 = Some (t2, m2)" and
      r3: "next_table h al (is_valid h) t2 (?i 2) m2 = Some (t3, m3)" and
      m': "m' = set_entry t3 (?i 3) (set_leaf h a pa (set_is_table h (set_is_valid h True (store m3 t3 (?i 3))))) m3"
    using run i by (auto simp: map_page_def bind_eq_Some_conv)
  have s2: "pt_ok h al (live (pool m2)) m2 root \<and> ready (pool m2) \<and> table_at h al m2 root [?i 0, ?i 1] = Some t2 \<and>
      (\<forall>ix. length ix = 4 \<longrightarrow> path_ok ix \<longrightarrow> mmu_walk h al m2 root ix = mmu_walk h al m root ix) \<and> grows h al live root m m2"
    by (rule upper_tables [OF laws blank ok ready r1 r2])
  have ix: "length (indices h vb) = 4" "path_ok (indices h vb)" for vb
    using indices_ok [OF laws] by (simp_all add: indices_def)
  have link: "is_valid h (store m2 t2 (?i 2)) \<longleftrightarrow> is_link h (store m2 t2 (?i 2))"
  proof (rule ccontr)
    assume "\<not> ?thesis"
    then have v: "is_valid h (store m2 t2 (?i 2))" "\<not> is_table h (store m2 t2 (?i 2))" by (auto simp: is_link_def)
    have "table_at h al m2 root ([?i 0, ?i 1] @ [?i 2]) = None"
      by (rule no_link_no_path [of _ _ _ _ "[?i 0, ?i 1]" t2 "?i 2"]) (use s2 v in \<open>auto simp: is_link_def\<close>)
    then have "mmu_walk h al m2 root (indices h va) = Some (1, store m2 t2 (?i 2))"
      unfolding indices_list mmu_walk_paths using s2 v by simp
    then show False using nb s2 ix by (auto simp: translate_def)
  qed
  have s3: "pt_ok h al (live (pool m3)) m3 root \<and> ready (pool m3) \<and>
      table_at h al m3 root ([?i 0, ?i 1] @ [?i 2]) = Some t3 \<and>
      (\<forall>ix. length ix = 4 \<longrightarrow> path_ok ix \<longrightarrow> mmu_walk h al m3 root ix = mmu_walk h al m2 root ix) \<and> grows h al live root m2 m3"
    by (rule next_table_ok [OF laws blank _ _ _ _ _ _ _ _ r3]) (use s2 i link in auto)
  let ?e = "set_is_table h (set_is_valid h True (store m3 t3 (?i 3)))"
  have k: "kind_of h (set_leaf h a pa ?e) = (True, True, pa)" by (rule page_leaf_kind(1) [OF laws pa])
  have p3: "table_at h al m3 root [?i 0, ?i 1, ?i 2] = Some t3" "path_ok [?i 0, ?i 1, ?i 2, ?i 3]"
    using s3 i by simp_all
  have ok': "pt_ok h al (live (pool m')) m' root" "ready (pool m')"
    using set_page_leaf(1) [OF conjunct1 [OF s3] p3] s3 by (simp_all add: m' set_entry_store)
  have "translate h al m' root vb =
      (if same_page vb va then Some (0, set_leaf h a pa ?e) else translate h al m root vb)" for vb
  proof -
    have "indices h vb = [?i 0, ?i 1, ?i 2, ?i 3] \<longleftrightarrow> same_page vb va"
      using indices_same [OF laws, of vb va] by (simp add: indices_list)
    then show ?thesis
      unfolding translate_def m' set_page_leaf(3) [OF conjunct1 [OF s3] p3 ix]
      using k s2 s3 ix by (simp add: kind_of_iff is_link_def)
  qed
  moreover have "grows h al live root m3 m'"
    using set_page_leaf(2) [OF conjunct1 [OF s3] p3] by (simp add: grows_def m' set_entry_store)
  then have "grows h al live root m m'" using s2 s3 grows_trans [of h al live root] by blast
  ultimately show ?thesis using k ok' by blast
qed

lemma map_page_ok:
  assumes "tte_laws h" "\<not> is_valid h blank" "tte_address h blank = 0" "pt_ok h al (live (pool m)) m root" "ready (pool m)"
    "frame_address pa" "\<nexists>e. translate h al m root va = Some (1, e)" "map_page h al a root pa va m = Some m'"
  shows "pt_ok h al (live (pool m')) m' root \<and> ready (pool m') \<and>
    (\<exists>e. kind_of h (set_leaf h a pa e) = (True, True, pa) \<and>
      (\<forall>vb. translate h al m' root vb =
        (if same_page vb va then Some (0, set_leaf h a pa e) else translate h al m root vb)))"
  using map_page_all [OF assms] by blast

text \<open>It returns as long as there are tables left: it takes at most three.\<close>

lemma next_table_returns:
  assumes "ready (pool m)" and "0 < spare (pool m)"
  shows "\<exists>n m'. next_table h al present t i m = Some (n, m') \<and> ready (pool m') \<and> spare (pool m) \<le> Suc (spare (pool m'))"
proof -
  obtain n m1 where a: "alloc_table al m = Some (n, m1)" using spare_law [OF assms] by auto
  then show ?thesis using assms(1) alloc_law [OF assms(1) a] by (simp add: next_table_def Let_def set_entry_store)
qed

lemma map_page_returns:
  assumes laws: "tte_laws h" and ready: "ready (pool m)" and enough: "3 \<le> spare (pool m)"
  shows "\<exists>m'. map_page h al a root pa va m = Some m' \<and> spare (pool m) \<le> 3 + spare (pool m') \<and> ready (pool m')"
proof -
  let ?i = "calculate_index h va"
  obtain t1 m1 where 1: "next_table h al (has_table h) root (?i 0) m = Some (t1, m1)" "ready (pool m1)"
      "spare (pool m) \<le> Suc (spare (pool m1))"
    using next_table_returns [OF ready, of h "has_table h" root "?i 0"] enough by auto
  then obtain t2 m2 where 2: "next_table h al (has_table h) t1 (?i 1) m1 = Some (t2, m2)" "ready (pool m2)"
      "spare (pool m1) \<le> Suc (spare (pool m2))"
    using next_table_returns [OF 1(2), of h "has_table h" t1 "?i 1"] enough by auto
  then obtain t3 m3 where 3: "next_table h al (is_valid h) t2 (?i 2) m2 = Some (t3, m3)" "ready (pool m3)"
      "spare (pool m2) \<le> Suc (spare (pool m3))"
    using next_table_returns [OF 2(2), of h "is_valid h" t2 "?i 2"] 1(3) enough by auto
  show ?thesis using 1 2 3 by (simp add: map_page_def slot_of_laws(1) [OF laws] set_entry_store)
qed

lemma map_l2_block_returns:
  assumes laws: "tte_laws h" and ready: "ready (pool m)" and enough: "2 \<le> spare (pool m)"
  shows "\<exists>m'. map_l2_block h al a root pa va m = Some m'"
proof -
  let ?i = "calculate_index h va"
  obtain t1 m1 where 1: "next_table h al (has_table h) root (?i 0) m = Some (t1, m1)" "ready (pool m1)"
      "spare (pool m) \<le> Suc (spare (pool m1))"
    using next_table_returns [OF ready, of h "has_table h" root "?i 0"] enough by auto
  then obtain t2 m2 where 2: "next_table h al (has_table h) t1 (?i 1) m1 = Some (t2, m2)"
    using next_table_returns [OF 1(2), of h "has_table h" t1 "?i 1"] enough by auto
  show ?thesis using 1 2 by (simp add: map_l2_block_def slot_of_laws(1) [OF laws])
qed

text \<open>A new root.\<close>

lemma fresh_root_ok:
  assumes "ready (pool m)" and a: "alloc_table al m = Some (root, m')" and "\<not> is_valid h blank" "tte_address h blank = 0"
  shows "pt_ok h al (live (pool m')) m' root" and "length ix = 4 \<Longrightarrow> path_ok ix \<Longrightarrow> mmu_walk h al m' root ix = None"
proof -
  note new = alloc_law [OF assms(1) a]
  have nl: "\<not> is_link h (store m' root i)" "\<not> is_valid h (store m' root i)" "tte_address h (store m' root i) = 0"
    if "i < TABLE_ENTRIES" for i
    using new that assms(3,4) by (simp_all add: is_link_def)
  have path: "table_at h al m' root q = (if q = [] then Some root else None)" if "path_ok q" for q
    using that nl by (cases q) (auto simp: table_at.simps)
  show "pt_ok h al (live (pool m')) m' root"
    unfolding pt_ok_def using path new nl by (auto simp: entry_ok_def split: if_splits)
  assume "length ix = 4" "path_ok ix"
  then show "mmu_walk h al m' root ix = None" using nl by (cases ix) (auto simp: Let_def)
qed

lemma map_pages_ok:
  assumes laws: "tte_laws h" and blank: "\<not> is_valid h blank" "tte_address h blank = 0"
    and pages: "\<And>i. i \<in> set is \<Longrightarrow> frame_address (pa + push_bit PAGE_SHIFT (of_nat i))"
    and ok: "pt_ok h al (live (pool m)) m root" and ready: "ready (pool m)"
    and nb: "\<And>i. i \<in> set is \<Longrightarrow> \<nexists>e. translate h al m root (va + push_bit PAGE_SHIFT (of_nat i)) = Some (1, e)"
    and run: "each (\<lambda>i. map_page h al a root (pa + push_bit PAGE_SHIFT (of_nat i)) (va + push_bit PAGE_SHIFT (of_nat i)))
      is m = Some m'"
    and apart: "distinct is" "\<And>i j. i \<in> set is \<Longrightarrow> j \<in> set is \<Longrightarrow>
      same_page (va + push_bit PAGE_SHIFT (of_nat i)) (va + push_bit PAGE_SHIFT (of_nat j)) \<Longrightarrow> i = j"
  shows "pt_ok h al (live (pool m')) m' root \<and> ready (pool m') \<and>
    (\<forall>i \<in> set is. \<exists>e. translate h al m' root (va + push_bit PAGE_SHIFT (of_nat i)) = Some (0, e) \<and>
       kind_of h e = (True, True, pa + push_bit PAGE_SHIFT (of_nat i))) \<and>
    (\<forall>vb. (\<forall>i \<in> set is. \<not> same_page vb (va + push_bit PAGE_SHIFT (of_nat i))) \<longrightarrow>
       translate h al m' root vb = translate h al m root vb)"
  using ok ready nb run pages apart
proof (induction "is" arbitrary: m)
  case (Cons i js)
  let ?va = "\<lambda>i. va + push_bit PAGE_SHIFT (of_nat i)" and ?pa = "\<lambda>i. pa + push_bit PAGE_SHIFT (of_nat i)"
  obtain m1 where m1: "map_page h al a root (?pa i) (?va i) m = Some m1"
      "each (\<lambda>i. map_page h al a root (?pa i) (?va i)) js m1 = Some m'"
    using Cons.prems(4) by (auto simp: bind_eq_Some_conv)
  have fa: "frame_address (?pa i)" by (rule Cons.prems(5)) simp
  have nbi: "\<nexists>e. translate h al m root (?va i) = Some (1, e)" using Cons.prems(3) by simp
  obtain e where 1: "pt_ok h al (live (pool m1)) m1 root" "ready (pool m1)"
      "kind_of h (set_leaf h a (?pa i) e) = (True, True, ?pa i)"
      "\<And>vb. translate h al m1 root vb =
        (if same_page vb (?va i) then Some (0, set_leaf h a (?pa i) e) else translate h al m root vb)"
    using map_page_ok [OF laws blank Cons.prems(1,2) fa nbi m1(1)] by blast
  have apart': "\<not> same_page (?va j) (?va i)" if "j \<in> set js" for j
    using Cons.prems(6) Cons.prems(7) [of j i] that by auto
  have IH: "pt_ok h al (live (pool m')) m' root \<and> ready (pool m') \<and>
      (\<forall>i \<in> set js. \<exists>e. translate h al m' root (?va i) = Some (0, e) \<and> kind_of h e = (True, True, ?pa i)) \<and>
      (\<forall>vb. (\<forall>i \<in> set js. \<not> same_page vb (?va i)) \<longrightarrow> translate h al m' root vb = translate h al m1 root vb)"
  proof (rule Cons.IH [OF 1(1,2) _ m1(2)])
    show "\<nexists>e. translate h al m1 root (?va j) = Some (1, e)" if "j \<in> set js" for j
      using 1(4) [of "?va j"] apart' [OF that] Cons.prems(3) [of j] that by simp
  qed (use Cons.prems in auto)
  have refl: "same_page (?va i) (?va i)" by (simp add: same_page_def)
  have "same_page (?va i) (?va j) \<longleftrightarrow> same_page (?va j) (?va i)" for j by (auto simp: same_page_def)
  then have "translate h al m' root (?va i) = translate h al m1 root (?va i)" using IH apart' by blast
  with 1(3,4) refl have "\<exists>e. translate h al m' root (?va i) = Some (0, e) \<and> kind_of h e = (True, True, ?pa i)" by simp
  with IH 1(4) show ?case by auto
qed simp

lemma map_pages_return:
  assumes laws: "tte_laws h" and "ready (pool m)" and "3 * length is \<le> spare (pool m)"
  shows "\<exists>m'. each (\<lambda>i. map_page h al a root (pa i) (va i)) is m = Some m'"
  using assms(2,3)
proof (induction "is" arbitrary: m)
  case (Cons i js)
  obtain m1 where m1: "map_page h al a root (pa i) (va i) m = Some m1" "spare (pool m) \<le> 3 + spare (pool m1)" "ready (pool m1)"
    using map_page_returns [OF laws Cons.prems(1), of a root "pa i" "va i"] Cons.prems(2) by auto
  with Cons.IH [of m1] Cons.prems(2) show ?case by simp
qed simp

text \<open>Where a block is mapped, \<open>map_page\<close> takes the memory of the block for a table.\<close>

lemma map_page_block:
  assumes laws: "tte_laws h" and ok: "pt_ok h al (live (pool m)) m root"
    and blk: "translate h al m root va = Some (1, e)"
  shows "map_page h al a root pa va m =
    (let b = phys_to_dmap al (tte_address h e); i3 = calculate_index h va 3 in
     Some (set_entry b i3 (set_leaf h a pa (set_is_table h (set_is_valid h True (store m b i3)))) m))"
proof -
  let ?i = "calculate_index h va"
  have i: "slot_of h va k = Some (?i k)" "?i k < TABLE_ENTRIES" if "k < 4" for k
    using slot_of_laws [OF laws that] by blast+
  have walk: "mmu_walk h al m root [?i 0, ?i 1, ?i 2, ?i 3] = Some (1, e)"
    using blk by (simp add: translate_def indices_list)
  have n3: "table_at h al m root [?i 0, ?i 1, ?i 2] = None"
    using walk unfolding mmu_walk_paths by (auto split: option.splits if_splits)
  then obtain t2 where t2: "table_at h al m root [?i 0, ?i 1] = Some t2" "e = store m t2 (?i 2)" "is_valid h e"
    using walk unfolding mmu_walk_paths by (auto simp: Let_def split: option.splits if_splits)
  let ?t1 = "phys_to_dmap al (tte_address h (store m root (?i 0)))"
  have l: "is_link h (store m root (?i 0))" "is_link h (store m ?t1 (?i 1))"
      "t2 = phys_to_dmap al (tte_address h (store m ?t1 (?i 1)))"
    using t2(1) by (auto simp: table_at.simps split: if_splits)
  have e0: "entry_ok h 0 (store m root (?i 0))" using pt_okD(3) [OF ok, of "[]" "?i 0" root] i by simp
  have e1: "entry_ok h 1 (store m ?t1 (?i 1))" using pt_okD(3) [OF ok, of "[?i 0]" "?i 1" ?t1] i l(1) by simp
  have "has_table h (store m root (?i 0))" "has_table h (store m ?t1 (?i 1))"
    using l e0 e1 by (auto simp: entry_ok_def is_link_def has_table_def)
  then show ?thesis using i t2 l by (simp add: map_page_def next_table_def Let_def)
qed

text \<open>Writing a block: what was mapped below its entry is unreachable.\<close>

lemma set_block_leaf:
  assumes ok: "pt_ok h al L m root" and t: "table_at h al m root [a, b] = Some t" "path_ok [a, b, c]"
    and e: "is_valid h e" "\<not> is_table h e"
  shows "pt_ok h al L (set_entry t c e m) root"
    and "length ix = 4 \<Longrightarrow> path_ok ix \<Longrightarrow> mmu_walk h al (set_entry t c e m) root ix =
      (if take 3 ix = [a, b, c] then Some (1, e) else mmu_walk h al m root ix)"
proof -
  let ?m = "set_entry t c e m"
  have keep: "store ?m u j = store m u j"
    if "table_at h al m root q = Some u" "length q \<le> 3" "path_ok q" "q \<noteq> [a, b] \<or> j \<noteq> c" for q u j
    using pt_okD(2) [OF ok that(2,3) _ _ that(1), of "[a, b]"] t that(4) by (auto simp: set_entry_store)
  have same: "table_at h al ?m root q = table_at h al m root q"
    if "length q \<le> 3" "path_ok q" "\<not> prefix [a, b, c] q" for q
    by (rule set_entry_elsewhere [OF ok t(1)]) (use t(2) that in simp_all)
  have tab: "table_at h al ?m root [a, b] = Some t" using same [of "[a, b]"] t by simp
  have gone: "table_at h al ?m root q = None" if "prefix [a, b, c] q" for q
    by (rule no_link_no_path [OF tab, where i = c]) (use e(2) that in \<open>simp_all add: is_link_def set_entry_store\<close>)
  have path: "table_at h al ?m root q = (if prefix [a, b, c] q then None else table_at h al m root q)"
    if "length q \<le> 3" "path_ok q" for q using same [OF that] gone by simp
  show "pt_ok h al L ?m root"
    unfolding pt_ok_def
  proof (intro conjI allI impI)
    fix q x
    assume "length q \<le> 3" "path_ok q" "table_at h al ?m root q = Some x"
    then show "x \<in> L" using pt_okD(1) [OF ok, of q x] path [of q] by (auto split: if_splits)
  next
    fix q r x
    assume "length q \<le> 3" "path_ok q" "length r \<le> 3" "path_ok r"
      "table_at h al ?m root q = Some x" "table_at h al ?m root r = Some x"
    then show "q = r" using pt_okD(2) [OF ok, of q r x] path [of q] path [of r] by (auto split: if_splits)
  next
    fix q x j
    assume q: "length q < 3" "path_ok q" "j < TABLE_ENTRIES" "table_at h al ?m root q = Some x"
    then have x: "table_at h al m root q = Some x" using path [of q] by (auto split: if_splits)
    show "entry_ok h (length q) (store ?m x j)"
    proof (cases "q = [a, b] \<and> j = c")
      case True
      with x t(1) e show ?thesis by (simp add: set_entry_store entry_ok_def)
    next
      case False
      then show ?thesis using pt_okD(3) [OF ok q(1-3) x] keep [OF x _ q(2), of j] q(1) by auto
    qed
  qed
  assume ix: "length ix = 4" "path_ok ix"
  obtain w x y z where ix4: "ix = [w, x, y, z]" using ix(1) by (auto simp: numeral_eq_Suc length_Suc_conv)
  have oks: "path_ok [w, x, y]" "path_ok [w, x]" using ix(2) by (auto simp: ix4)
  show "mmu_walk h al ?m root ix = (if take 3 ix = [a, b, c] then Some (1, e) else mmu_walk h al m root ix)"
  proof (cases "[w, x, y] = [a, b, c]")
    case True
    then show ?thesis
      unfolding ix4 mmu_walk_paths using gone [of "[a, b, c]"] tab e by (simp add: Let_def set_entry_store)
  next
    case False
    have "store ?m u y = store m u y" if "table_at h al m root [w, x] = Some u" for u
      by (rule keep [OF that]) (use oks False in auto)
    moreover have "store ?m u z = store m u z" if "table_at h al m root [w, x, y] = Some u" for u
      by (rule keep [OF that]) (use oks in auto)
    moreover have "table_at h al ?m root [w, x, y] = table_at h al m root [w, x, y]"
      "table_at h al ?m root [w, x] = table_at h al m root [w, x]"
      using same [of "[w, x, y]"] same [of "[w, x]"] oks False by auto
    ultimately have "mmu_walk h al ?m root [w, x, y, z] = mmu_walk h al m root [w, x, y, z]"
      unfolding mmu_walk_paths by (simp split: option.splits)
    moreover have "take 3 ix \<noteq> [a, b, c]" using False by (simp add: ix4 numeral_eq_Suc)
    ultimately show ?thesis by (simp only: ix4 if_False)
  qed
qed

lemma map_l2_block_ok:
  assumes laws: "tte_laws h" and blank: "\<not> is_valid h blank" "tte_address h blank = 0"
    and ok: "pt_ok h al (live (pool m)) m root" and ready: "ready (pool m)" and pa: "frame_address pa"
    and run: "map_l2_block h al a root pa va m = Some m'"
  shows "pt_ok h al (live (pool m')) m' root \<and> ready (pool m') \<and>
    (\<exists>e. kind_of h (set_leaf h a pa e) = (True, False, pa) \<and>
      (\<forall>vb. translate h al m' root vb =
        (if take 3 (indices h vb) = take 3 (indices h va) then Some (1, set_leaf h a pa e) else translate h al m root vb)))"
proof -
  let ?i = "calculate_index h va"
  have i: "slot_of h va k = Some (?i k)" "?i k < TABLE_ENTRIES" if "k < 4" for k
    using slot_of_laws [OF laws that] by blast+
  obtain t1 m1 t2 m2 where
      r1: "next_table h al (has_table h) root (?i 0) m = Some (t1, m1)" and
      r2: "next_table h al (has_table h) t1 (?i 1) m1 = Some (t2, m2)" and
      m': "m' = set_entry t2 (?i 2) (set_leaf h a pa (set_is_block h (set_is_valid h True (store m2 t2 (?i 2))))) m2"
    using run i by (auto simp: map_l2_block_def bind_eq_Some_conv)
  have s2: "pt_ok h al (live (pool m2)) m2 root" "ready (pool m2)"
      "table_at h al m2 root [?i 0, ?i 1] = Some t2"
      "\<forall>ix. length ix = 4 \<longrightarrow> path_ok ix \<longrightarrow> mmu_walk h al m2 root ix = mmu_walk h al m root ix"
    using upper_tables [OF laws blank ok ready r1 r2] by simp_all
  let ?e = "set_is_block h (set_is_valid h True (store m2 t2 (?i 2)))"
  have k: "kind_of h (set_leaf h a pa ?e) = (True, False, pa)" by (rule page_leaf_kind(2) [OF laws pa])
  then have e: "is_valid h (set_leaf h a pa ?e)" "\<not> is_table h (set_leaf h a pa ?e)" by (simp_all add: kind_of_iff)
  have po: "path_ok [?i 0, ?i 1, ?i 2]" using i by simp
  note leaf = set_block_leaf [OF s2(1,3) po e]
  have ix: "length (indices h vb) = 4" "path_ok (indices h vb)" for vb
    using indices_ok [OF laws] by (simp_all add: indices_def)
  have "translate h al m' root vb =
      (if take 3 (indices h vb) = take 3 (indices h va) then Some (1, set_leaf h a pa ?e) else translate h al m root vb)" for vb
  proof -
    have "take 3 (indices h va) = [?i 0, ?i 1, ?i 2]" by (simp add: indices_list numeral_eq_Suc)
    then show ?thesis unfolding translate_def m' leaf(2) [OF ix] using s2(4) ix by simp
  qed
  then show ?thesis using k leaf(1) s2(2) by (auto simp: m' set_entry_store)
qed

end

text \<open>An allocator that also takes tables back.\<close>

locale table_source = table_supply al live ready spare blank
  for al :: "('e, 'a) table_ops" and live :: "'a \<Rightarrow> u64 set" and ready :: "'a \<Rightarrow> bool" and spare :: "'a \<Rightarrow> nat" and blank :: 'e +
  assumes free_law: "ready (pool m) \<Longrightarrow> t \<in> live (pool m) \<Longrightarrow>
      \<exists>m'. free_table al t m = Some m' \<and> ready (pool m') \<and> live (pool m') = live (pool m) - {t} \<and>
        (\<forall>u \<in> live (pool m) - {t}. store m' u = store m u)"
begin

text \<open>Freeing an empty table and clearing the entry above it changes no translation.\<close>

lemma prune_step:
  assumes laws: "tte_laws h" and ok: "pt_ok h al (live (pool m)) m root" and ready: "ready (pool m)"
    and t: "table_at h al m root p = Some t" "table_at h al m root (p @ [i]) = Some c" "length p < 3" "path_ok p"
    and i: "i < TABLE_ENTRIES" and empty: "is_table_empty h c m"
  shows "\<exists>m1. free_table al c m = Some m1 \<and> ready (pool m1) \<and>
    pt_ok h al (live (pool m1)) (clear_entry h t i m1) root \<and> live (pool m1) = live (pool m) - {c} \<and>
    (\<forall>q. length q \<le> 3 \<longrightarrow> path_ok q \<longrightarrow>
      table_at h al (clear_entry h t i m1) root q = (if q = p @ [i] then None else table_at h al m root q)) \<and>
    (\<forall>u q j. table_at h al m root q = Some u \<longrightarrow> length q \<le> 3 \<longrightarrow> path_ok q \<longrightarrow> q \<noteq> p @ [i] \<longrightarrow> (q, j) \<noteq> (p, i) \<longrightarrow>
      store (clear_entry h t i m1) u j = store m u j) \<and>
    (\<forall>ix. length ix = 4 \<longrightarrow> path_ok ix \<longrightarrow>
      mmu_walk h al (clear_entry h t i m1) root ix = mmu_walk h al m root ix)"
proof -
  have cl: "c \<in> live (pool m)" using pt_okD(1) [OF ok _ _ t(2)] t(3,4) i by simp
  obtain m1 where m1: "free_table al c m = Some m1" "ready (pool m1)" "live (pool m1) = live (pool m) - {c}"
      "\<forall>u \<in> live (pool m) - {c}. store m1 u = store m u" using free_law [OF ready cl] by blast
  let ?m = "clear_entry h t i m1"
  have nl: "\<not> is_link h (store m c j)" "\<not> is_valid h (store m c j)" if "j < TABLE_ENTRIES" for j
    using empty that by (auto simp: is_table_empty_def list_all_iff is_link_def)
  have tc: "q = p @ [i]" if "table_at h al m root q = Some c" "length q \<le> 3" "path_ok q" for q
    using pt_okD(2) [OF ok that(2,3) _ _ that(1) t(2)] t(3,4) i by simp
  have tt: "q = p" if "table_at h al m root q = Some t" "length q \<le> 3" "path_ok q" for q
    using pt_okD(2) [OF ok that(2,3) _ _ that(1) t(1)] t(3,4) by simp
  have ne: "t \<noteq> c" using tc [of p] t(1,3,4) by auto
  have below: "table_at h al m root q = None" if q: "prefix (p @ [i]) q" "q \<noteq> p @ [i]" "path_ok q" for q
  proof -
    obtain j r where r: "q = (p @ [i]) @ j # r" using q(1,2) by (metis append_Nil2 list.exhaust prefix_def)
    show ?thesis by (rule no_link_no_path [OF t(2) nl(1) [of j]]) (use q(3) r in \<open>auto simp: prefix_def\<close>)
  qed
  have keep: "store ?m u j = store m u j"
    if "table_at h al m root q = Some u" "length q \<le> 3" "path_ok q" "q \<noteq> p @ [i]" "(q, j) \<noteq> (p, i)" for q u j
  proof -
    have "u \<in> live (pool m)" using pt_okD(1) [OF ok that(2,3,1)] .
    moreover have "u \<noteq> c" using tc [OF _ that(2,3)] that(1,4) by auto
    moreover have "\<not> (u = t \<and> j = i)" using tt [OF _ that(2,3)] that(1,5) by auto
    ultimately show ?thesis using m1(4) by (auto simp: clear_entry_def set_entry_store)
  qed
  have cleared: "\<not> is_valid h (store ?m t i)" "tte_address h (store ?m t i) = 0"
    using page_leaf_kind(4) [OF laws frame_address_0, of "store m1 t i"]
    by (simp_all add: clear_entry_def set_entry_store kind_of_iff)
  have path: "table_at h al ?m root q = (if q = p @ [i] then None else table_at h al m root q)"
    if q: "length q \<le> 3" "path_ok q" for q
  proof (cases "prefix (p @ [i]) q")
    case False
    have "table_at h al ?m root q = table_at h al m root q"
    proof (rule table_at_cong)
      fix p' j x
      assume p': "prefix (p' @ [j]) q" "table_at h al m root p' = Some x"
      obtain r where r: "q = p' @ [j] @ r" using p'(1) by (auto simp: prefix_def)
      have "p' \<noteq> p @ [i]" "(p', j) \<noteq> (p, i)" using False r p'(1) by (auto simp: prefix_def)
      then show "store ?m x j = store m x j" using keep [OF p'(2)] q r by simp
    qed
    with False show ?thesis by auto
  next
    case True
    have "table_at h al ?m root p = Some t"
    proof -
      have "table_at h al ?m root p = table_at h al m root p"
      proof (rule table_at_cong)
        fix p' j x
        assume p': "prefix (p' @ [j]) p" "table_at h al m root p' = Some x"
        obtain r where r: "p = p' @ [j] @ r" using p'(1) by (auto simp: prefix_def)
        have "p' \<noteq> p @ [i]" "(p', j) \<noteq> (p, i)" using r by (auto dest: arg_cong [of _ _ length])
        then show "store ?m x j = store m x j" using keep [OF p'(2)] t(3,4) r by auto
      qed
      with t(1) show ?thesis by simp
    qed
    then have "table_at h al ?m root q = None"
      using no_link_no_path [of h al ?m root p t i q] cleared(1) True by (simp add: is_link_def)
    then show ?thesis using below [OF True _ q(2)] by simp
  qed
  have "pt_ok h al (live (pool m1)) ?m root"
    unfolding pt_ok_def
  proof (intro conjI allI impI)
    fix q x
    assume "length q \<le> 3" "path_ok q" "table_at h al ?m root q = Some x"
    then show "x \<in> live (pool m1)"
      using pt_okD(1) [OF ok, of q x] path [of q] tc [of q] m1(3) by (auto split: if_splits)
  next
    fix q r x
    assume "length q \<le> 3" "path_ok q" "length r \<le> 3" "path_ok r"
      "table_at h al ?m root q = Some x" "table_at h al ?m root r = Some x"
    then show "q = r" using pt_okD(2) [OF ok, of q r x] path [of q] path [of r] by (auto split: if_splits)
  next
    fix q x j
    assume q: "length q < 3" "path_ok q" "j < TABLE_ENTRIES" "table_at h al ?m root q = Some x"
    then have x: "table_at h al m root q = Some x" "q \<noteq> p @ [i]" using path [of q] by (auto split: if_splits)
    show "entry_ok h (length q) (store ?m x j)"
    proof (cases "(q, j) = (p, i)")
      case True
      with x t(1) have "x = t" "j = i" by auto
      with cleared show ?thesis by (simp add: entry_ok_def)
    next
      case False
      then show ?thesis using pt_okD(3) [OF ok q(1-3) x(1)] keep [OF x(1) _ q(2) x(2) False] q(1) by simp
    qed
  qed
  moreover have "mmu_walk h al ?m root ix = mmu_walk h al m root ix" if ix: "length ix = 4" "path_ok ix" for ix
  proof -
    obtain w x y z where ix4: "ix = [w, x, y, z]" using ix(1) by (auto simp: numeral_eq_Suc length_Suc_conv)
    have oks: "path_ok [w, x, y]" "path_ok [w, x]" "z < TABLE_ENTRIES" "y < TABLE_ENTRIES" using ix(2) by (auto simp: ix4)
    show ?thesis
    proof (cases "[w, x, y] = p @ [i]")
      case True
      then have e: "p = [w, x]" "i = y" by auto
      have c3: "table_at h al m root [w, x, y] = Some c" "table_at h al m root [w, x] = Some t"
        using t(1,2) by (simp_all add: e)
      have "table_at h al ?m root [w, x, y] = None" "table_at h al ?m root [w, x] = Some t"
        using path [of "[w, x, y]"] path [of "[w, x]"] oks c3 by (simp_all add: e)
      then show ?thesis
        unfolding ix4 mmu_walk_paths using c3 nl(1) [OF oks(3)] cleared(1) by (simp add: e Let_def)
    next
      case F3: False
      have a3: "table_at h al ?m root [w, x, y] = table_at h al m root [w, x, y]"
        using path [of "[w, x, y]"] oks F3 by simp
      have k3: "store ?m u z = store m u z" if "table_at h al m root [w, x, y] = Some u" for u
        by (rule keep [OF that _ oks(1) F3]) (use t(3) in auto)
      show ?thesis
      proof (cases "[w, x] = p @ [i]")
        case True
        then have "p = [w]" "i = x" by auto
        then have "table_at h al m root [w, x] = Some c" "table_at h al ?m root [w, x] = None"
          using t(2) path [of "[w, x]"] oks by simp_all
        moreover have "table_at h al m root [w, x, y] = None"
          using below [of "[w, x, y]"] oks(1) F3 True [symmetric] by (simp add: prefix_def)
        ultimately show ?thesis unfolding ix4 mmu_walk_paths using a3 nl(2) [OF oks(4)] by (simp add: Let_def)
      next
        case F2: False
        have "table_at h al ?m root [w, x] = table_at h al m root [w, x]" using path [of "[w, x]"] oks F2 by simp
        moreover have "store ?m u y = store m u y" if "table_at h al m root [w, x] = Some u" for u
          using keep [OF that _ oks(2) F2, of y] F3 by auto
        ultimately show ?thesis unfolding ix4 mmu_walk_paths using a3 k3 by (simp split: option.splits)
      qed
    qed
  qed
  ultimately show ?thesis using m1 path keep by blast
qed

text \<open>States of the same tree with the same translations, the later one with no more tables.\<close>

definition settled :: "('e, 'ap, 'sh) tte_ops \<Rightarrow> u64 \<Rightarrow> nat list \<Rightarrow> ('e, 'a) pt_mem \<Rightarrow> ('e, 'a) pt_mem \<Rightarrow> bool" where
  "settled h root path m m' \<longleftrightarrow>
     pt_ok h al (live (pool m')) m' root \<and> ready (pool m') \<and> sheds h al live root path m m' \<and>
     (\<forall>ix. length ix = 4 \<longrightarrow> path_ok ix \<longrightarrow> mmu_walk h al m' root ix = mmu_walk h al m root ix)"

lemma settled_trans: "settled h root path a b \<Longrightarrow> settled h root path b c \<Longrightarrow> settled h root path a c"
  by (auto simp: settled_def elim: sheds_trans)

lemma prune_settled:
  assumes laws: "tte_laws h" and ok: "pt_ok h al (live (pool m)) m root" and ready: "ready (pool m)"
    and t: "table_at h al m root p = Some t" "table_at h al m root (p @ [i]) = Some c" "length p < 3" "path_ok p"
    and i: "i < TABLE_ENTRIES" and empty: "is_table_empty h c m" and path: "prefix (p @ [i]) path"
    and old: "no_new_empty h al root {p @ [i]} m0 m"
  shows "\<exists>m1. free_table al c m = Some m1 \<and> settled h root path m (clear_entry h t i m1) \<and>
    no_new_empty h al root {p} m0 (clear_entry h t i m1) \<and>
    (\<forall>q. length q \<le> 3 \<longrightarrow> path_ok q \<longrightarrow>
      table_at h al (clear_entry h t i m1) root q = (if q = p @ [i] then None else table_at h al m root q))"
proof -
  obtain m1 where m1: "free_table al c m = Some m1" "ready (pool m1)"
      "pt_ok h al (live (pool m1)) (clear_entry h t i m1) root" "live (pool m1) = live (pool m) - {c}"
    and at: "\<forall>q. length q \<le> 3 \<longrightarrow> path_ok q \<longrightarrow>
      table_at h al (clear_entry h t i m1) root q = (if q = p @ [i] then None else table_at h al m root q)"
    and keep: "\<forall>u q j. table_at h al m root q = Some u \<longrightarrow> length q \<le> 3 \<longrightarrow> path_ok q \<longrightarrow> q \<noteq> p @ [i] \<longrightarrow>
      (q, j) \<noteq> (p, i) \<longrightarrow> store (clear_entry h t i m1) u j = store m u j"
    and walk: "\<forall>ix. length ix = 4 \<longrightarrow> path_ok ix \<longrightarrow>
      mmu_walk h al (clear_entry h t i m1) root ix = mmu_walk h al m root ix"
    using prune_step [OF laws ok ready t i empty] by blast
  have pool: "pool (clear_entry h t i m1) = pool m1" by (simp add: clear_entry_def set_entry_store)
  have "lost h al root m (clear_entry h t i m1) = {c}"
  proof (intro equalityI subsetI)
    fix u
    assume "u \<in> {c}"
    then show "u \<in> lost h al root m (clear_entry h t i m1)"
      using at t i unfolding lost_def by (auto intro!: exI [of _ "p @ [i]"])
  qed (use at t in \<open>auto simp: lost_def split: if_splits\<close>)
  then have "sheds h al live root path m (clear_entry h t i m1)"
    using at path m1(4) pool unfolding sheds_def by simp
  then have "settled h root path m (clear_entry h t i m1)" using m1(2,3) walk pool by (simp add: settled_def)
  moreover have "is_table_empty h u m0"
    if q: "q \<noteq> []" "q \<noteq> p" "length q \<le> 3" "path_ok q" "table_at h al (clear_entry h t i m1) root q = Some u"
      and e: "is_table_empty h u (clear_entry h t i m1)" for q u
  proof -
    have u: "q \<noteq> p @ [i]" "table_at h al m root q = Some u" using at q(3-5) by (auto split: if_splits)
    then have "store (clear_entry h t i m1) u j = store m u j" for j using keep q(2-4) by blast
    then have "is_table_empty h u m" using e by (simp add: is_table_empty_def)
    then show ?thesis using old u q(1,3,4) unfolding no_new_empty_def by blast
  qed
  ultimately show ?thesis using m1(1) at unfolding no_new_empty_def by blast
qed

lemma prune_ok:
  assumes laws: "tte_laws h" and ok: "pt_ok h al (live (pool m)) m root" and ready: "ready (pool m)"
    and t: "table_at h al m root p = Some t" "table_at h al m root (p @ [i]) = Some c" "length p < 3" "path_ok p"
    and i: "i < TABLE_ENTRIES" and path: "prefix (p @ [i]) path" and old: "no_new_empty h al root {p @ [i]} m0 m"
    and up: "\<And>m'. settled h root path m m' \<Longrightarrow> no_new_empty h al root {p} m0 m' \<Longrightarrow>
      (\<And>q. length q \<le> length p \<Longrightarrow> path_ok q \<Longrightarrow> table_at h al m' root q = table_at h al m root q) \<Longrightarrow>
      \<exists>m''. upwards m' = Some m'' \<and> settled h root path m' m'' \<and> no_new_empty h al root {} m0 m''"
  shows "\<exists>m''. prune h al t i c upwards m = Some m'' \<and> settled h root path m m'' \<and> no_new_empty h al root {} m0 m''"
proof (cases "is_table_empty h c m")
  case False
  then have "no_new_empty h al root {} m0 m" using old t(2) unfolding no_new_empty_def by fastforce
  with False ok ready show ?thesis by (simp add: prune_def settled_def sheds_same)
next
  case True
  obtain m1 where m1: "free_table al c m = Some m1" "settled h root path m (clear_entry h t i m1)"
      "no_new_empty h al root {p} m0 (clear_entry h t i m1)"
    and at: "\<forall>q. length q \<le> 3 \<longrightarrow> path_ok q \<longrightarrow>
      table_at h al (clear_entry h t i m1) root q = (if q = p @ [i] then None else table_at h al m root q)"
    using prune_settled [OF laws ok ready t i True path old] by blast
  have "\<exists>m''. upwards (clear_entry h t i m1) = Some m'' \<and> settled h root path (clear_entry h t i m1) m'' \<and>
      no_new_empty h al root {} m0 m''"
  proof (rule up [OF m1(2,3)])
    fix q
    assume q: "length q \<le> length p" "path_ok q"
    then have "q \<noteq> p @ [i]" by auto
    with q at t(3) show "table_at h al (clear_entry h t i m1) root q = table_at h al m root q" by simp
  qed
  then show ?thesis using m1 True settled_trans [OF m1(2)] by (auto simp: prune_def)
qed

text \<open>The three tables below the root on the path of a page.\<close>

lemma prune_path:
  assumes laws: "tte_laws h" and ok: "pt_ok h al (live (pool m)) m root" "ready (pool m)"
    and paths: "table_at h al m root [i0] = Some t1" "table_at h al m root [i0, i1] = Some t2"
      "table_at h al m root [i0, i1, i2] = Some t3"
    and i: "i0 < TABLE_ENTRIES" "i1 < TABLE_ENTRIES" "i2 < TABLE_ENTRIES"
    and path: "prefix [i0, i1, i2] path" and old: "no_new_empty h al root {[i0, i1, i2]} m0 m"
  shows "\<exists>m''. prune h al t2 i2 t3 (prune h al t1 i1 t2 (prune h al root i0 t1 Some)) m = Some m'' \<and>
    settled h root path m m'' \<and> no_new_empty h al root {} m0 m''"
proof (rule prune_ok [OF laws ok, where p = "[i0, i1]"])
  fix m2
  assume s2: "settled h root path m m2" and n2: "no_new_empty h al root {[i0, i1]} m0 m2"
    and p2: "\<And>q. length q \<le> length [i0, i1] \<Longrightarrow> path_ok q \<Longrightarrow> table_at h al m2 root q = table_at h al m root q"
  have ok2: "pt_ok h al (live (pool m2)) m2 root" "ready (pool m2)" using s2 by (simp_all add: settled_def)
  show "\<exists>m''. prune h al t1 i1 t2 (prune h al root i0 t1 Some) m2 = Some m'' \<and> settled h root path m2 m'' \<and>
      no_new_empty h al root {} m0 m''"
  proof (rule prune_ok [OF laws ok2, where p = "[i0]"])
    fix m3
    assume s3: "settled h root path m2 m3" and n3: "no_new_empty h al root {[i0]} m0 m3"
      and p3: "\<And>q. length q \<le> length [i0] \<Longrightarrow> path_ok q \<Longrightarrow> table_at h al m3 root q = table_at h al m2 root q"
    have ok3: "pt_ok h al (live (pool m3)) m3 root" "ready (pool m3)" using s3 by (simp_all add: settled_def)
    show "\<exists>m''. prune h al root i0 t1 Some m3 = Some m'' \<and> settled h root path m3 m'' \<and> no_new_empty h al root {} m0 m''"
    proof (rule prune_ok [OF laws ok3, where p = "[]"])
      have "table_at h al m3 root [i0] = Some t1"
        using p3 [of "[i0]"] p2 [of "[i0]"] paths(1) i by (simp del: table_at_one)
      then show "table_at h al m3 root ([] @ [i0]) = Some t1" by (simp del: table_at_one)
      show "prefix ([] @ [i0]) path" using path by (auto simp: prefix_def)
    qed (use i n3 in \<open>auto simp: settled_def sheds_same no_new_empty_def\<close>)
  qed (use i p2 [of "[i0]"] p2 [of "[i0, i1]"] paths path n2 in \<open>auto simp: prefix_def simp del: table_at_one\<close>)
qed (use i paths path old in \<open>simp_all del: table_at_one\<close>)

lemma unmap_page_ok:
  assumes laws: "tte_laws h" and ok: "pt_ok h al (live (pool m)) m root" and ready: "ready (pool m)"
  shows "\<exists>m'. unmap_page h al root va m = Some m' \<and> pt_ok h al (live (pool m')) m' root \<and> ready (pool m') \<and>
    sheds h al live root (indices h va) m m' \<and> no_new_empty h al root {} m m' \<and>
    (\<forall>vb. translate h al m' root vb =
      (if same_page vb va \<and> (\<nexists>e. translate h al m root va = Some (1, e)) then None else translate h al m root vb))"
proof -
  let ?i = "calculate_index h va"
  have i: "slot_of h va k = Some (?i k)" "?i k < TABLE_ENTRIES" if "k < 4" for k
    using slot_of_laws [OF laws that] by blast+
  have same: "translate h al m root vb = translate h al m root va" if "same_page vb va" for vb
    using indices_same [OF laws, of vb va] that by (simp add: translate_def)
  have idle: ?thesis if "unmap_page h al root va m = Some m"
    "(\<exists>e. translate h al m root va = Some (1, e)) \<or> translate h al m root va = None"
    using that ok ready same by (auto simp: sheds_same no_new_empty_def)
  have walk: "translate h al m root va = mmu_walk h al m root [?i 0, ?i 1, ?i 2, ?i 3]"
    by (simp add: translate_def indices_list)
  show ?thesis
  proof (cases "table_at h al m root [?i 0, ?i 1, ?i 2]")
    case None
    have "unmap_page h al root va m = Some m"
      using None i by (auto simp: unmap_page_def Let_def table_at.simps is_link_def split: if_splits)
    moreover have "(\<exists>e. translate h al m root va = Some (1, e)) \<or> translate h al m root va = None"
      unfolding walk mmu_walk_paths using None by (auto simp: Let_def split: option.splits)
    ultimately show ?thesis by (rule idle)
  next
    case (Some t3)
    let ?t1 = "phys_to_dmap al (tte_address h (store m root (?i 0)))"
    let ?t2 = "phys_to_dmap al (tte_address h (store m ?t1 (?i 1)))"
    have t: "table_at h al m root [?i 0] = Some ?t1" "table_at h al m root [?i 0, ?i 1] = Some ?t2"
        "t3 = phys_to_dmap al (tte_address h (store m ?t2 (?i 2)))"
        "is_link h (store m root (?i 0))" "is_link h (store m ?t1 (?i 1))" "is_link h (store m ?t2 (?i 2))"
      using Some by (auto simp: table_at.simps split: if_splits)
    have tr: "translate h al m root va = (if is_link h (store m t3 (?i 3)) then Some (0, store m t3 (?i 3)) else None)"
      unfolding walk mmu_walk_paths using Some by simp
    have po: "path_ok [?i 0, ?i 1, ?i 2, ?i 3]" using i by simp
    show ?thesis
    proof (cases "is_valid h (store m t3 (?i 3))")
      case False
      then have "unmap_page h al root va m = Some m"
        using i t by (simp add: unmap_page_def Let_def is_link_def)
      then show ?thesis by (rule idle) (use False tr in \<open>simp add: is_link_def\<close>)
    next
      case True
      let ?e = "set_tte_address h 0 (set_is_valid h False (store m t3 (?i 3)))"
      let ?m = "set_entry t3 (?i 3) ?e m"
      have run: "unmap_page h al root va m =
          prune h al ?t2 (?i 2) t3 (prune h al ?t1 (?i 1) ?t2 (prune h al root (?i 0) ?t1 Some)) ?m"
        using i t True by (simp add: unmap_page_def Let_def is_link_def clear_entry_def)
      have cl: "\<not> is_link h ?e"
        using page_leaf_kind(4) [OF laws frame_address_0, of "store m t3 (?i 3)"] by (simp add: kind_of_iff is_link_def)
      note leaf = set_page_leaf [OF ok Some po, where e = ?e]
      have pool: "pool ?m = pool m" by (simp add: set_entry_store)
      have okm: "pt_ok h al (live (pool ?m)) ?m root" "ready (pool ?m)" using leaf(1) ready pool by simp_all
      have paths: "table_at h al ?m root [?i 0] = Some ?t1" "table_at h al ?m root [?i 0, ?i 1] = Some ?t2"
          "table_at h al ?m root [?i 0, ?i 1, ?i 2] = Some t3"
        using leaf(2) [of "[?i 0]"] leaf(2) [of "[?i 0, ?i 1]"] leaf(2) [of "[?i 0, ?i 1, ?i 2]"] t Some i
        by simp_all
      have at: "table_at h al ?m root q = table_at h al m root q" if "length q \<le> 3" "path_ok q" for q
        using leaf(2) that by simp
      have new: "no_new_empty h al root {[?i 0, ?i 1, ?i 2]} m ?m"
        unfolding no_new_empty_def
      proof (intro allI impI)
        fix q u
        assume q: "q \<notin> {[?i 0, ?i 1, ?i 2]}" "length q \<le> 3" "path_ok q" "table_at h al ?m root q = Some u"
          and e: "is_table_empty h u ?m"
        have "u \<noteq> t3" using pt_okD(2) [OF ok q(2,3), of "[?i 0, ?i 1, ?i 2]" t3] q at [OF q(2,3)] Some po by auto
        then show "is_table_empty h u m" using e by (simp add: is_table_empty_def set_entry_store)
      qed
      have "prefix [?i 0, ?i 1, ?i 2] (indices h va)" by (simp add: indices_list)
      from prune_path [OF laws okm paths _ _ _ this new] i run
      obtain m' where m': "unmap_page h al root va m = Some m'" and s: "settled h root (indices h va) ?m m'"
        and n: "no_new_empty h al root {} m m'" by auto
      have "sheds h al live root (indices h va) m ?m" using at pool by (simp add: sheds_same)
      then have sh: "sheds h al live root (indices h va) m m'" using s by (auto simp: settled_def elim: sheds_trans)
      have "translate h al m' root vb = (if same_page vb va then None else translate h al m root vb)" for vb
      proof -
        have "indices h vb = [?i 0, ?i 1, ?i 2, ?i 3] \<longleftrightarrow> same_page vb va"
          using indices_same [OF laws, of vb va] by (simp add: indices_list)
        moreover have "length (indices h vb) = 4" "path_ok (indices h vb)"
          using indices_ok [OF laws] by (simp_all add: indices_def)
        ultimately show ?thesis
          using s leaf(3) [of "indices h vb"] cl by (simp add: translate_def settled_def)
      qed
      moreover have "\<nexists>e. translate h al m root va = Some (1, e)" using tr by (auto split: if_splits)
      ultimately show ?thesis using m' s sh n pool by (auto simp: settled_def)
    qed
  qed
qed

text \<open>The tables of a subtree, and what it means to free it.\<close>

definition subtree :: "('e, 'ap, 'sh) tte_ops \<Rightarrow> ('e, 'a) pt_mem \<Rightarrow> u64 \<Rightarrow> nat list \<Rightarrow> u64 set" where
  "subtree h m root p = {t. \<exists>q. length (p @ q) \<le> 3 \<and> path_ok (p @ q) \<and> table_at h al m root (p @ q) = Some t}"

definition frees ::
    "('e, 'ap, 'sh) tte_ops \<Rightarrow> ('e, 'a) pt_mem \<Rightarrow> u64 \<Rightarrow> nat list \<Rightarrow> (('e, 'a) pt_mem \<Rightarrow> ('e, 'a) pt_mem option) \<Rightarrow> bool" where
  "frees h m root p f \<longleftrightarrow>
     (\<forall>m1. ready (pool m1) \<longrightarrow> subtree h m root p \<subseteq> live (pool m1) \<longrightarrow>
        (\<forall>x \<in> subtree h m root p. store m1 x = store m x) \<longrightarrow>
        (\<exists>m2. f m1 = Some m2 \<and> ready (pool m2) \<and> live (pool m2) = live (pool m1) - subtree h m root p \<and>
           (\<forall>u \<in> live (pool m2). store m2 u = store m1 u)))"

lemma subtree_leaf:
  assumes "table_at h al m root p = Some t" and "length p = 3" and "path_ok p"
  shows "subtree h m root p = {t}"
  using assms by (auto simp: subtree_def)

lemma subtree_node:
  assumes "table_at h al m root p = Some t" and "length p < 3" and "path_ok p"
  shows "subtree h m root p = insert t (\<Union>i < TABLE_ENTRIES. subtree h m root (p @ [i]))"
proof (rule set_eqI)
  fix x
  have "(\<exists>q. length (p @ q) \<le> 3 \<and> path_ok (p @ q) \<and> table_at h al m root (p @ q) = Some x) \<longleftrightarrow>
      x = t \<or> (\<exists>i q. length (p @ i # q) \<le> 3 \<and> path_ok (p @ i # q) \<and> table_at h al m root (p @ i # q) = Some x)"
    (is "(\<exists>q. ?P q) \<longleftrightarrow> _")
  proof
    assume "\<exists>q. ?P q"
    then obtain q where "?P q" by blast
    then show "x = t \<or> (\<exists>i q. ?P (i # q))" using assms(1) by (cases q) auto
  next
    assume "x = t \<or> (\<exists>i q. ?P (i # q))"
    then show "\<exists>q. ?P q" using assms by (metis append_Nil2 less_imp_le_nat)
  qed
  then show "x \<in> subtree h m root p \<longleftrightarrow> x \<in> insert t (\<Union>i < TABLE_ENTRIES. subtree h m root (p @ [i]))"
    by (auto simp: subtree_def)
qed

lemma subtree_unlinked:
  assumes "table_at h al m root p = Some t" and "\<not> is_link h (store m t i)"
  shows "subtree h m root (p @ [i]) = {}"
  using no_link_no_path [OF assms, of "(p @ [i]) @ _"] by (auto simp: subtree_def)

lemma subtree_apart:
  assumes ok: "pt_ok h al L m root" and "i \<noteq> j"
  shows "subtree h m root (p @ [i]) \<inter> subtree h m root (p @ [j]) = {}"
  using pt_okD(2) [OF ok] \<open>i \<noteq> j\<close> unfolding subtree_def by fastforce

lemma subtree_above:
  assumes ok: "pt_ok h al L m root" and "table_at h al m root p = Some t" and "length p < 3" and "path_ok p"
  shows "t \<notin> subtree h m root (p @ [i])"
  using pt_okD(2) [OF ok, of p "(p @ [i]) @ _" t] assms(2-4) unfolding subtree_def by fastforce

lemma free_l3_frees:
  assumes "table_at h al m root p = Some t" and "length p = 3" and "path_ok p"
  shows "frees h m root p (free_l3 h al t)"
  unfolding frees_def subtree_leaf [OF assms]
proof (intro allI impI)
  fix m1 :: "('e, 'a) pt_mem"
  assume m1: "ready (pool m1)" "{t} \<subseteq> live (pool m1)" "\<forall>x \<in> {t}. store m1 x = store m x"
  let ?f = "\<lambda>i m. let entry = store m t i in
    if \<not> is_valid h entry \<or> \<not> is_table h entry then Some m else Some (set_entry t i (set_is_valid h False entry) m)"
  have "\<exists>m'. each ?f is x = Some m' \<and> pool m' = pool x \<and> (\<forall>u. u \<noteq> t \<longrightarrow> store m' u = store x u)" for "is" x
    by (induction "is" arbitrary: x) (fastforce simp: Let_def set_entry_def)+
  then obtain m2 where m2: "each ?f [0..<TABLE_ENTRIES] m1 = Some m2" "pool m2 = pool m1"
      "\<And>u. u \<noteq> t \<Longrightarrow> store m2 u = store m1 u" by blast
  show "\<exists>m2. free_l3 h al t m1 = Some m2 \<and> ready (pool m2) \<and> live (pool m2) = live (pool m1) - {t} \<and>
      (\<forall>u \<in> live (pool m2). store m2 u = store m1 u)"
    using free_law [of m2 t] m1 m2 by (auto simp: free_l3_def)
qed

lemma free_level_frees:
  assumes ok: "pt_ok h al L m root" and t: "table_at h al m root p = Some t" "length p < 3" "path_ok p"
    and n: "n \<le> TABLE_ENTRIES" "\<And>i. n \<le> i \<Longrightarrow> i < TABLE_ENTRIES \<Longrightarrow> \<not> is_link h (store m t i)"
    and below: "\<And>i c. i < n \<Longrightarrow> table_at h al m root (p @ [i]) = Some c \<Longrightarrow> frees h m root (p @ [i]) (below c)"
  shows "frees h m root p (free_level h al below n t)"
  unfolding frees_def
proof (intro allI impI)
  fix m1 :: "('e, 'a) pt_mem"
  let ?S = "subtree h m root p" and ?s = "\<lambda>i. subtree h m root (p @ [i])"
  assume m1: "ready (pool m1)" "?S \<subseteq> live (pool m1)" "\<forall>x \<in> ?S. store m1 x = store m x"
  let ?f = "\<lambda>i m. let entry = store m t i in
    if \<not> is_valid h entry \<or> \<not> is_table h entry then Some m else below (phys_to_dmap al (tte_address h entry)) m"
  note node = subtree_node [OF t]
  have loop: "\<exists>m'. each ?f [0..<k] m1 = Some m' \<and> ready (pool m') \<and> live (pool m') = live (pool m1) - (\<Union>i < k. ?s i) \<and>
      (\<forall>u \<in> live (pool m'). store m' u = store m1 u)" if "k \<le> n" for k
    using that
  proof (induction k)
    case 0
    with m1 show ?case by simp
  next
    case (Suc k)
    then obtain mk where mk: "each ?f [0..<k] m1 = Some mk" "ready (pool mk)"
        "live (pool mk) = live (pool m1) - (\<Union>i < k. ?s i)" "\<forall>u \<in> live (pool mk). store mk u = store m1 u" by auto
    have k: "k < n" "k < TABLE_ENTRIES" using Suc.prems n(1) by auto
    have "t \<in> live (pool mk)"
      using mk(3) node m1(2) subtree_above [OF ok t] by auto
    then have e: "store mk t k = store m t k" using mk(4) m1(3) node by auto
    have app: "each ?f ([0..<k] @ [k]) m1 = ?f k mk"
      using mk(1) by (simp only: each_append each_one bind.bind_lunit)
    show ?case
    proof (cases "is_link h (store m t k)")
      case False
      then have "?f k mk = Some mk" by (simp add: e is_link_def)
      with False mk subtree_unlinked [OF t(1) False] app show ?thesis by (simp add: lessThan_Suc)
    next
      case True
      let ?c = "phys_to_dmap al (tte_address h (store m t k))"
      have c: "table_at h al m root (p @ [k]) = Some ?c" using t(1) True by (simp add: table_at_append)
      have inS: "?s k \<subseteq> ?S" unfolding node using k(2) by auto
      have "?s i \<inter> ?s k = {}" if "i < k" for i using subtree_apart [OF ok, of i k p] that by simp
      then have sub: "?s k \<subseteq> live (pool mk)" unfolding mk(3) using inS m1(2) by auto
      moreover have "\<forall>x \<in> ?s k. store mk x = store m x"
      proof
        fix x
        assume x: "x \<in> ?s k"
        have "x \<in> live (pool mk)" "x \<in> ?S" by (rule subsetD [OF sub x], rule subsetD [OF inS x])
        with mk(4) m1(3) show "store mk x = store m x" by simp
      qed
      ultimately obtain m2 where m2: "below ?c mk = Some m2" "ready (pool m2)" "live (pool m2) = live (pool mk) - ?s k"
          "\<forall>u \<in> live (pool m2). store m2 u = store mk u"
        using below [OF k(1) c] mk(2) unfolding frees_def by blast
      have "?f k mk = Some m2" using True m2(1) by (simp add: e is_link_def)
      moreover have "live (pool m2) = live (pool m1) - (\<Union>i < Suc k. ?s i)" using m2(3) mk(3) by (auto simp: lessThan_Suc)
      moreover have "\<forall>u \<in> live (pool m2). store m2 u = store m1 u" using m2(3,4) mk(4) by auto
      ultimately show ?thesis using app m2(2) by (simp add: upt_Suc_append)
    qed
  qed
  obtain m2 where m2: "each ?f [0..<n] m1 = Some m2" "ready (pool m2)" "live (pool m2) = live (pool m1) - (\<Union>i < n. ?s i)"
      "\<forall>u \<in> live (pool m2). store m2 u = store m1 u" using loop [of n] by blast
  have "?s i = {}" if "n \<le> i" "i < TABLE_ENTRIES" for i using subtree_unlinked [OF t(1) n(2) [OF that]] .
  then have "x \<in> ?s i \<Longrightarrow> i < TABLE_ENTRIES \<Longrightarrow> i < n" for x i by (metis empty_iff not_le)
  then have "x \<in> ?s i \<and> i < n \<longleftrightarrow> x \<in> ?s i \<and> i < TABLE_ENTRIES" for x i using n(1) by auto
  then have "(\<Union>i < n. ?s i) = (\<Union>i < TABLE_ENTRIES. ?s i)" by (intro set_eqI) (auto simp only: UN_iff lessThan_iff)
  with node have S: "?S = insert t (\<Union>i < n. ?s i)" by simp
  have "t \<in> live (pool m2)" using m2(3) m1(2) S subtree_above [OF ok t] by auto
  from free_law [OF m2(2) this] show "\<exists>m2. free_level h al below n t m1 = Some m2 \<and> ready (pool m2) \<and>
      live (pool m2) = live (pool m1) - ?S \<and> (\<forall>u \<in> live (pool m2). store m2 u = store m1 u)"
    using m2 S by (auto simp: free_level_def)
qed

lemma free_tables_frees:
  assumes ok: "pt_ok h al (live (pool m)) m root" and ready: "ready (pool m)"
    and low: "\<And>i. 2 \<le> i \<Longrightarrow> i < TABLE_ENTRIES \<Longrightarrow> \<not> is_link h (store m root i)"
  shows "\<exists>m'. free_tables h al root m = Some m' \<and> ready (pool m') \<and>
    live (pool m') = live (pool m) - subtree h m root [] \<and> (\<forall>u \<in> live (pool m'). store m' u = store m u)"
proof -
  have two: "2 \<le> TABLE_ENTRIES" by (simp add: TABLE_ENTRIES_def)
  have l2: "frees h m root p (free_level h al (free_l3 h al) TABLE_ENTRIES t)"
    if "table_at h al m root p = Some t" "length p = 2" "path_ok p" for p t
    by (rule free_level_frees [OF ok that(1)], use that in simp_all, rule free_l3_frees) simp_all
  have l1: "frees h m root p (free_level h al (free_level h al (free_l3 h al) TABLE_ENTRIES) TABLE_ENTRIES t)"
    if "table_at h al m root p = Some t" "length p = 1" "path_ok p" for p t
    by (rule free_level_frees [OF ok that(1)], use that in simp_all, rule l2) simp_all
  have whole: "frees h m root [] (free_tables h al root)"
    unfolding free_tables_def
    by (rule free_level_frees [OF ok _ _ _ two low], simp_all del: table_at_one, rule l1) (use two in simp_all)
  have "subtree h m root [] \<subseteq> live (pool m)" using pt_okD(1) [OF ok] by (auto simp: subtree_def)
  then show ?thesis using whole [unfolded frees_def, rule_format, OF ready] by simp
qed

end

end
