(* ===== verification/Kernel_Tables.thy ===== *)
theory Kernel_Tables
  imports Page_Mapper Page_Spec
begin

text \<open>
  The table allocator of the kernel (\<open>kernel/src/allocator/mod.rs\<close>) on top of the page allocator, and the
  translator of \<open>klib/src/allocator_support.rs\<close>: they keep the contract that the mapper relies on. The
  properties of the mapper are then stated for the tables of the kernel.
\<close>

section \<open>The allocator of the kernel\<close>

text \<open>\<open>blank\<close> is the entry whose eight bytes are zero. A null pointer is refused after the page is cleared.\<close>

definition kernel_alloc_table :: "'e \<Rightarrow> ('e, page_allocator) pt_mem \<Rightarrow> (u64 \<times> ('e, page_allocator) pt_mem) option" where
  "kernel_alloc_table blank m =
     do { (r, s) \<leftarrow> alloc_dmap_page (\<lambda>a. unat (phys_addr_to_dmap (of_nat a))) (pool m);
          case r of
            Inl _ \<Rightarrow> None
          | Inr raw_ptr \<Rightarrow>
              if raw_ptr = 0 then None
              else Some (of_nat raw_ptr, \<lparr>store = (store m)(of_nat raw_ptr := \<lambda>_. blank), pool = s\<rparr>) }"

definition kernel_free_table :: "u64 \<Rightarrow> ('e, page_allocator) pt_mem \<Rightarrow> ('e, page_allocator) pt_mem option" where
  "kernel_free_table t m = map_option (\<lambda>s. m\<lparr>pool := s\<rparr>) (free_pages (pool m) (unat t))"

definition kernel_tables :: "'e \<Rightarrow> ('e, page_allocator) table_ops" where
  "kernel_tables blank =
     \<lparr>alloc_table = kernel_alloc_table blank, free_table = kernel_free_table,
      phys_to_dmap = phys_addr_to_dmap, dmap_to_phys = dmap_addr_to_phys\<rparr>"

section \<open>The contract\<close>

text \<open>After the transition to the direct map all zones lie in it.\<close>

definition zones_mapped :: "page_allocator \<Rightarrow> nat list \<Rightarrow> bool" where
  "zones_mapped s zs \<longleftrightarrow>
     (\<forall>zp \<in> set zs. unat DMAP_START < z_base (zone_of s zp) \<and> z_base (zone_of s zp) mod PAGE_SIZE = 0 \<and>
        z_base (zone_of s zp) + npages s zp * PAGE_SIZE < 2 ^ 64)"

definition kernel_ready :: "page_allocator \<Rightarrow> bool" where
  "kernel_ready s \<longleftrightarrow> is_dmap s \<and> (\<exists>zs Ls. buddy_inv s zs Ls {} \<and> zones_mapped s zs)"

text \<open>The zones are a list, so the state determines them. The tables are the allocated single pages; the spare
  pages are those that no allocated block covers.\<close>

definition zone_chain :: "page_allocator \<Rightarrow> nat list" where
  "zone_chain s = (THE zs. zlist (zones s) (zone_head s) zs)"

definition kernel_live :: "page_allocator \<Rightarrow> u64 set" where
  "kernel_live s = {t. (unat t, 0) \<in> allocated s (zone_chain s)}"

definition used_pages :: "page_allocator \<Rightarrow> nat list \<Rightarrow> nat" where
  "used_pages s zs = (\<Sum>(zp, i, k) \<in> used_heads s zs. 2 ^ k)"

definition kernel_spare :: "page_allocator \<Rightarrow> nat" where
  "kernel_spare s = (\<Sum>zp \<in> set (zone_chain s). npages s zp) - used_pages s (zone_chain s)"

lemma zlist_unique: "zlist f p xs \<Longrightarrow> zlist f p ys \<Longrightarrow> xs = ys"
proof (induction xs arbitrary: p ys)
  case Nil
  then show ?case by (cases ys) auto
next
  case (Cons x xs)
  then show ?case by (cases ys) auto
qed

lemma zone_chain_eq:
  assumes "buddy_inv s zs Ls H"
  shows "zone_chain s = zs"
proof -
  have "zlist (zones s) (zone_head s) zs" using assms by (simp add: buddy_inv_def zones_wf_def)
  then show ?thesis unfolding zone_chain_def using zlist_unique by blast
qed

lemma kernel_live_eq: "buddy_inv s zs Ls H \<Longrightarrow> kernel_live s = {t. (unat t, 0) \<in> allocated s zs}"
  by (simp add: kernel_live_def zone_chain_eq)

text \<open>When no block is free, the allocated blocks cover all pages.\<close>

lemma exhausted:
  assumes inv: "buddy_inv s zs Ls {}" and none: "\<forall>k < MAX_ORDER. free_heads s zs {} k = {}"
  shows "(\<Sum>zp \<in> set zs. npages s zp) \<le> used_pages s zs"
proof -
  have po: "pages_ok s zs {}" using inv by (simp add: buddy_inv_def)
  have cover: "(SIGMA zp : set zs. {..<npages s zp}) \<subseteq> (\<Union>(zp, i, k) \<in> used_heads s zs. span zp i k)"
  proof
    fix x
    assume "x \<in> (SIGMA zp : set zs. {..<npages s zp})"
    then obtain zp q where x: "x = (zp, q)" "zp \<in> set zs" "q < npages s zp" by auto
    obtain i k v where t: "tile s zp i k v" "q \<in> {i ..< i + 2 ^ k}" by (rule pages_okD [OF po x(2,3)]) auto
    have k: "k < MAX_ORDER" "i < npages s zp" "2 ^ k dvd i" "byte s zp i = Some v"
      using tileD(1-3) [OF t(1)] tileD(5,6) [OF t(1), of i] by simp_all
    have "v \<noteq> free_byte k" using none k x(2) by (auto simp: free_heads_def)
    then have "(zp, i, k) \<in> used_heads s zs" using tileD(4) [OF t(1)] k x(2) by (simp add: used_heads_def)
    with t(2) x(1) show "x \<in> (\<Union>(zp, i, k) \<in> used_heads s zs. span zp i k)" by (force simp: span_def)
  qed
  have "(\<Sum>zp \<in> set zs. npages s zp) = card (SIGMA zp : set zs. {..<npages s zp})" by simp
  also have "\<dots> \<le> card (\<Union>(zp, i, k) \<in> used_heads s zs. span zp i k)"
    by (rule card_mono [OF _ cover]) (auto simp: finite_used_heads span_def)
  also have "\<dots> \<le> (\<Sum>x \<in> used_heads s zs. card (case x of (zp, i, k) \<Rightarrow> span zp i k))"
    by (rule card_UN_le [OF finite_used_heads])
  also have "\<dots> = used_pages s zs"
    unfolding used_pages_def by (rule sum.cong) (auto simp: span_def card_cartesian_product)
  finally show ?thesis .
qed

lemma kernel_alloc_spare:
  assumes ready: "kernel_ready (pool m)" and "0 < kernel_spare (pool m)"
  shows "kernel_alloc_table blank m \<noteq> None"
proof -
  obtain zs Ls where inv: "buddy_inv (pool m) zs Ls {}" and d: "is_dmap (pool m)"
    using ready by (auto simp: kernel_ready_def)
  have "\<not> (\<forall>k < MAX_ORDER. free_heads (pool m) zs {} k = {})"
    using exhausted [OF inv] assms(2) by (auto simp: kernel_spare_def zone_chain_eq [OF inv])
  then obtain r s where rs: "alloc_pages (pool m) 0 = Some (r, s)" "alloc_post (pool m) zs 0 r s"
    using alloc_pages_ok [OF inv, of 0] by (auto simp: MAX_ORDER_def split: if_splits)
  obtain zp i where p: "zp \<in> set zs" "r = page_addr (pool m) zp i" "is_dmap s"
    using rs(2) d by (auto simp: alloc_post_def same_frame_def)
  have "zones_wf (pool m) zs" using inv by (simp add: buddy_inv_def)
  then have "r \<noteq> 0" using p(1,2) by (auto simp: zones_wf_def page_addr_def ZONE_SIZE_def)
  with rs(1) p(3) show ?thesis by (simp add: kernel_alloc_table_def alloc_dmap_page_def alloc_page_def)
qed

lemma kernel_readyE:
  assumes "kernel_ready s"
  obtains zs Ls where "buddy_inv s zs Ls {}" "zones_mapped s zs" "is_dmap s"
  using assms by (auto simp: kernel_ready_def)

text \<open>Allocated pages: pages of the direct map.\<close>

lemma allocated_mapped:
  assumes inv: "buddy_inv s zs Ls {}" and z: "zones_mapped s zs" and a: "(a, k) \<in> allocated s zs"
  shows "unat DMAP_START < a \<and> a < 2 ^ 64 \<and> a mod PAGE_SIZE = 0"
proof -
  obtain zp i where h: "(zp, i, k) \<in> used_heads s zs" "a = page_addr s zp i" using a by (auto simp: allocated_def)
  then have zp: "zp \<in> set zs" "i < npages s zp" by (simp_all add: used_heads_def)
  have "i * PAGE_SIZE < npages s zp * PAGE_SIZE" using zp(2) by (simp add: PAGE_SIZE_val)
  with z zp(1) h(2) show ?thesis unfolding zones_mapped_def page_addr_def
    by (smt (verit) add_lessD1 mod_mult_self1 nat_add_left_cancel_less order_less_trans trans_less_add1)
qed

lemma same_frame_mapped:
  assumes "same_frame (s\<lparr>allocated_pages := n\<rparr>) s'"
  shows "zone_of s' zp = zone_of s zp" "npages s' zp = npages s zp" "is_dmap s' = is_dmap s"
    and "zones_mapped s' zs = zones_mapped s zs" and "page_addr s' zp i = page_addr s zp i"
  using assms by (simp_all add: same_frame_def zone_of_def npages_def zones_mapped_def page_addr_def)

lemma kernel_alloc:
  assumes ready: "kernel_ready (pool m)" and a: "kernel_alloc_table blank m = Some (t, m')"
  shows "kernel_ready (pool m') \<and> kernel_spare (pool m) \<le> Suc (kernel_spare (pool m')) \<and> t \<notin> kernel_live (pool m) \<and> kernel_live (pool m') = insert t (kernel_live (pool m)) \<and>
    (\<forall>i < TABLE_ENTRIES. store m' t i = blank) \<and> (\<forall>u \<in> kernel_live (pool m). store m' u = store m u)"
proof -
  obtain zs Ls where inv: "buddy_inv (pool m) zs Ls {}" and z: "zones_mapped (pool m) zs" and d: "is_dmap (pool m)"
    by (rule kernel_readyE [OF ready])
  obtain r s where rs: "alloc_pages (pool m) 0 = Some (r, s)"
      "if \<forall>k. 0 \<le> k \<and> k < MAX_ORDER \<longrightarrow> free_heads (pool m) zs {} k = {} then r = 0 \<and> s = pool m
       else alloc_post (pool m) zs 0 r s"
    using alloc_pages_ok [OF inv, of 0] by (auto simp: MAX_ORDER_def)
  have d': "is_dmap s" using rs(2) d by (auto simp: alloc_post_def same_frame_mapped(3) split: if_splits)
  have t: "r \<noteq> 0" "t = of_nat r" "m' = \<lparr>store = (store m)(of_nat r := \<lambda>_. blank), pool = s\<rparr>"
    using a rs(1) d' by (auto simp: kernel_alloc_table_def alloc_dmap_page_def alloc_page_def split: if_splits)
  then obtain zp i Ls' where p: "zp \<in> set zs" "r = page_addr (pool m) zp i" "buddy_inv s zs Ls' {}"
      "used_heads s zs = insert (zp, i, 0) (used_heads (pool m) zs)" "(zp, i, 0) \<notin> used_heads (pool m) zs"
      "same_frame ((pool m)\<lparr>allocated_pages := allocated_pages (pool m) + 2 ^ 0\<rparr>) s"
    using rs(2) by (auto simp: alloc_post_def split: if_splits)
  note fr = same_frame_mapped [OF p(6)]
  have al: "allocated s zs = insert (r, 0) (allocated (pool m) zs)"
    by (simp add: allocated_def p(4) fr p(2) case_prod_beta)
  have new: "(r, 0) \<notin> allocated (pool m) zs"
  proof
    assume "(r, 0) \<in> allocated (pool m) zs"
    then obtain zq j where q: "(zq, j, 0) \<in> used_heads (pool m) zs" "r = page_addr (pool m) zq j"
      by (auto simp: allocated_def)
    have wf: "zones_wf s zs" using p(3) by (simp add: buddy_inv_def)
    have u: "(zp, i, 0) \<in> used_heads s zs" "(zq, j, 0) \<in> used_heads s zs" using q(1) p(4) by simp_all
    have "(zp, i, 0 :: nat) = (zq, j, 0)"
      using inj_onD [OF inj_on_subset [OF allocated_inj [OF wf] used_heads_in] _ u] q(2) p(2) fr by simp
    with q(1) p(5) show False by simp
  qed
  have m: "unat DMAP_START < r" "r < 2 ^ 64" using allocated_mapped [OF p(3), of r 0] z fr(4) al by auto
  have u: "unat t = r" unfolding t(2) using m(2) by (simp add: unat_of_nat take_bit_nat_eq_self)
  have "kernel_ready s" using p(3) z d' fr(4) by (auto simp: kernel_ready_def)
  moreover have "kernel_spare (pool m) \<le> Suc (kernel_spare s)"
    by (simp add: kernel_spare_def zone_chain_eq [OF inv] zone_chain_eq [OF p(3)] used_pages_def p(4,5) fr(2) finite_used_heads)
  moreover have "kernel_live s = insert t (kernel_live (pool m))" "t \<notin> kernel_live (pool m)"
    using u new by (auto simp: kernel_live_eq [OF inv] kernel_live_eq [OF p(3)] al word_unat_eq_iff)
  ultimately show ?thesis using t by auto
qed

lemma kernel_free:
  assumes ready: "kernel_ready (pool m)" and t: "t \<in> kernel_live (pool m)"
  shows "\<exists>m'. kernel_free_table t m = Some m' \<and> kernel_ready (pool m') \<and>
    kernel_live (pool m') = kernel_live (pool m) - {t} \<and> (\<forall>u \<in> kernel_live (pool m) - {t}. store m' u = store m u)"
proof -
  obtain zs Ls where inv: "buddy_inv (pool m) zs Ls {}" and z: "zones_mapped (pool m) zs" and d: "is_dmap (pool m)"
    by (rule kernel_readyE [OF ready])
  have a: "(unat t, 0) \<in> allocated (pool m) zs" using t kernel_live_eq [OF inv] by simp
  then obtain zp i where h: "(zp, i, 0) \<in> used_heads (pool m) zs" "unat t = page_addr (pool m) zp i"
    by (auto simp: allocated_def)
  obtain s Ls' where s: "free_pages (pool m) (unat t) = Some s" "buddy_inv s zs Ls' {}"
      "same_frame ((pool m)\<lparr>allocated_pages := allocated_pages (pool m) - 2 ^ 0\<rparr>) s"
    using free_pages_ok [OF inv h(1)] unfolding h(2) [symmetric] by blast
  obtain s2 where s2: "free_pages (pool m) (unat t) = Some s2" "allocated s2 zs = allocated (pool m) zs - {(unat t, 0)}"
    using free_allocated [OF inv a] by blast
  have "s2 = s" using s(1) s2(1) by simp
  then have "kernel_live s = {x. (unat x, 0) \<in> allocated (pool m) zs \<and> unat x \<noteq> unat t}"
    using s2(2) unfolding kernel_live_eq [OF s(2)] by simp
  also have "\<dots> = kernel_live (pool m) - {t}"
    unfolding kernel_live_eq [OF inv] word_unat_eq_iff [symmetric] by blast
  finally have "kernel_live s = kernel_live (pool m) - {t}" .
  moreover have "kernel_ready s"
    unfolding kernel_ready_def using s(2) z d same_frame_mapped(3,4) [OF s(3)] by blast
  ultimately show ?thesis using s(1) by (simp add: kernel_free_table_def)
qed

text \<open>Pages of the direct map.\<close>

lemma dmap_page_reach:
  assumes m: "unat DMAP_START < unat t" "unat t mod PAGE_SIZE = 0"
  shows "phys_addr_to_dmap (dmap_addr_to_phys t) = t \<and> dmap_addr_to_phys t \<noteq> 0 \<and> frame_address (dmap_addr_to_phys t)"
proof -
  have lt: "unat t < 2 ^ 64" by (rule order.strict_trans2 [OF unsigned_less]) simp
  have "unat DMAP_START = 0xFFFF * 2 ^ 48" by (simp add: DMAP_START_def VA_WIDTH_def)
  then have "unat t div 2 ^ 48 = 0xFFFF" using m(1) lt by simp
  then have "unat (drop_bit 48 t) = 0xFFFF" by (simp only: unat_drop_bit_eq, simp add: drop_bit_eq_div)
  then have top: "drop_bit 48 t = 0xFFFF" by (simp only: word_unat_eq_iff) simp
  have high: "bit t n" if "48 \<le> n" "n < 64" for n
  proof -
    have "bit t n = bit (drop_bit 48 t) (n - 48)" using that by (simp add: bit_drop_bit_eq)
    also have "\<dots> = bit (mask 16 :: u64) (n - 48)" unfolding top by (simp add: mask_eq_exp_minus_1)
    finally show ?thesis using that by (simp add: bit_mask_iff less_diff_conv2)
  qed
  have phys: "dmap_addr_to_phys t = take_bit 48 t"
    unfolding dmap_addr_to_phys_def
    by (rule bit_word_eqI) (auto simp: bit_simps bit_DMAP_START dest: bit_imp_le_length)
  have rejoin: "take_bit 48 t OR DMAP_START = t"
    by (rule bit_word_eqI) (auto simp: bit_simps bit_DMAP_START high dest: bit_imp_le_length)
  have "\<not> is_kernel_address (take_bit 48 t)" by (simp add: bit_48_kernel bit_simps)
  then have r: "phys_addr_to_dmap (take_bit 48 t) = t" using rejoin by (simp add: phys_addr_to_dmap_def)
  moreover have "take_bit 48 t \<noteq> 0" using rejoin m(1) by auto
  moreover have "frame_address (take_bit 48 t)"
  proof -
    have "unat (take_bit 14 t) = 0" using m(2) by (simp only: unsigned_take_bit_eq, simp add: take_bit_eq_mod PAGE_SIZE_val)
    then have "take_bit 14 t = 0" by (simp add: unsigned_eq_0_iff)
    then have "take_bit 48 t AND PAGE_MASK = 0"
    proof -
      have "PAGE_MASK = mask 14" by (simp add: PAGE_MASK_def PAGE_SIZE_val mask_eq_exp_minus_1)
      then have "take_bit 48 t AND PAGE_MASK = take_bit 14 (take_bit 48 t)" by (simp only: take_bit_eq_mask)
      then show ?thesis using \<open>take_bit 14 t = 0\<close> by simp
    qed
    moreover have "unat (take_bit 48 t) < 2 ^ 48" by (simp only: unsigned_take_bit_eq take_bit_nat_less_exp)
    then have "take_bit 48 t < 2 ^ 48" by (simp add: word_less_nat_alt)
    ultimately show ?thesis by (simp add: frame_address_def)
  qed
  ultimately show ?thesis using phys by simp
qed

lemma kernel_reach:
  assumes "kernel_ready s" and t: "t \<in> kernel_live s"
  shows "phys_addr_to_dmap (dmap_addr_to_phys t) = t \<and> dmap_addr_to_phys t \<noteq> 0 \<and> frame_address (dmap_addr_to_phys t)"
proof -
  obtain zs Ls where inv: "buddy_inv s zs Ls {}" and z: "zones_mapped s zs" by (rule kernel_readyE [OF assms(1)])
  show ?thesis
    by (rule dmap_page_reach) (use allocated_mapped [OF inv z, of "unat t" 0] t in \<open>simp_all add: kernel_live_eq [OF inv]\<close>)
qed

interpretation ktab: table_source "kernel_tables blank" kernel_live kernel_ready kernel_spare blank for blank :: 'e
  by unfold_locales
    (simp_all only: kernel_tables_def table_ops.simps,
      (rule kernel_alloc kernel_alloc_spare kernel_free kernel_reach, assumption+)+)

section \<open>Page arithmetic\<close>

lemma page_mask_unat: "a AND PAGE_MASK = 0 \<longleftrightarrow> unat a mod PAGE_SIZE = 0"
proof -
  have "PAGE_MASK = mask 14" by (simp add: PAGE_MASK_def PAGE_SIZE_val mask_eq_exp_minus_1)
  then have "a AND PAGE_MASK = take_bit 14 a" by (simp only: take_bit_eq_mask)
  then have "a AND PAGE_MASK = 0 \<longleftrightarrow> unat (take_bit 14 a) = 0" by (simp add: unsigned_eq_0_iff)
  also have "unat (take_bit 14 a) = unat a mod PAGE_SIZE"
    by (simp only: unsigned_take_bit_eq) (simp add: take_bit_eq_mod PAGE_SIZE_val)
  finally show ?thesis .
qed

lemma frame_address_unat: "frame_address a \<longleftrightarrow> unat a mod PAGE_SIZE = 0 \<and> unat a < 2 ^ 48"
  unfolding frame_address_def page_mask_unat by (simp add: word_less_nat_alt)

lemma page_step_unat: "unat (a + push_bit PAGE_SHIFT (of_nat i) :: u64) = (unat a + i * PAGE_SIZE) mod 2 ^ 64"
proof -
  have "push_bit PAGE_SHIFT (of_nat i) = (of_nat (i * PAGE_SIZE) :: u64)"
    by (simp add: push_bit_eq_mult PAGE_SIZE_def)
  moreover have "a = of_nat (unat a)" by simp
  ultimately have "a + push_bit PAGE_SHIFT (of_nat i) = of_nat (unat a + i * PAGE_SIZE)" by (metis of_nat_add)
  then show ?thesis by (simp only: unat_of_nat) (simp add: take_bit_eq_mod)
qed

lemma page_number_unat: "unat (drop_bit PAGE_SHIFT (take_bit 48 a) :: u64) = unat a mod 2 ^ 48 div PAGE_SIZE"
  by (simp only: unat_drop_bit_eq unsigned_take_bit_eq) (simp add: take_bit_eq_mod drop_bit_eq_div PAGE_SIZE_def)

lemma pages_apart:
  assumes "va AND PAGE_MASK = 0" and "i < 2 ^ 34" and "j < 2 ^ 34"
    and "same_page (va + push_bit PAGE_SHIFT (of_nat i)) (va + push_bit PAGE_SHIFT (of_nat j))"
  shows "i = j"
proof -
  obtain v where v: "unat va = v * PAGE_SIZE" using assms(1) unfolding page_mask_unat
    by (auto simp: mod_eq_0_iff_dvd dvd_def mult.commute)
  have n: "unat (va + push_bit PAGE_SHIFT (of_nat k)) mod 2 ^ 48 div PAGE_SIZE = (v + k) mod 2 ^ 34" for k
  proof -
    have "unat (va + push_bit PAGE_SHIFT (of_nat k)) mod 2 ^ 48 = ((v * PAGE_SIZE + k * PAGE_SIZE) mod 2 ^ 64) mod 2 ^ 48"
      unfolding page_step_unat v ..
    also have "\<dots> = (v * PAGE_SIZE + k * PAGE_SIZE) mod 2 ^ 48"
      by (rule mod_mod_cancel) (rule le_imp_power_dvd, simp)
    also have "\<dots> = ((v + k) * PAGE_SIZE) mod (2 ^ 34 * PAGE_SIZE)"
      by (simp only: distrib_right PAGE_SIZE_def PAGE_SHIFT_def power_add [symmetric]) simp
    also have "\<dots> = ((v + k) mod 2 ^ 34) * PAGE_SIZE" by (rule mod_mult_mult2)
    finally show ?thesis by (simp add: PAGE_SIZE_val)
  qed
  have "(v + i) mod 2 ^ 34 = (v + j) mod 2 ^ 34"
    using assms(4) n [of i] n [of j] unfolding same_page_def word_unat_eq_iff page_number_unat by simp
  then have "x = y" if "(v + x) mod 2 ^ 34 = (v + y) mod 2 ^ 34" "x \<le> y" "y < 2 ^ 34" for x y :: nat
  proof -
    have "2 ^ 34 dvd (v + y) - (v + x)"
      by (rule mod_eq_dvd_iff_nat [THEN iffD1]) (use that in \<open>simp_all only: add_le_cancel_left\<close>)
    then have "2 ^ 34 dvd y - x" by simp
    with that show ?thesis by (auto dest: dvd_imp_le)
  qed
  then show ?thesis using assms(2,3) \<open>(v + i) mod 2 ^ 34 = (v + j) mod 2 ^ 34\<close> by (metis nle_le)
qed

section \<open>An entry type and an allocator\<close>

text \<open>For the witnesses: entries of 16 KiB granule tables as three fields, and a zone of eight pages in the direct map.\<close>

definition frame_bits :: "u64 \<Rightarrow> u64" where
  "frame_bits a = take_bit 48 a AND NOT PAGE_MASK"

lemma frame_bits_0 [simp]: "frame_bits 0 = 0"
  by (simp add: frame_bits_def)

lemma PAGE_MASK_bits: "PAGE_MASK = mask 14"
  by (simp add: PAGE_MASK_def PAGE_SIZE_val mask_eq_exp_minus_1)

lemma frame_bits_frame: "frame_address (frame_bits a)"
proof -
  have "frame_bits a AND PAGE_MASK = 0" by (simp add: frame_bits_def and.assoc)
  moreover have "take_bit 48 (frame_bits a) = frame_bits a"
    by (rule bit_word_eqI) (auto simp: frame_bits_def PAGE_MASK_bits bit_simps)
  then have "unat (frame_bits a) < 2 ^ 48" by (metis take_bit_nat_less_exp unsigned_take_bit_eq)
  ultimately show ?thesis by (simp add: frame_address_def word_less_nat_alt)
qed

lemma frame_bits_id: "frame_address a \<Longrightarrow> frame_bits a = a"
proof -
  assume a: "frame_address a"
  then have "unat a < 2 ^ 48" by (simp add: frame_address_def word_less_nat_alt)
  then have b: "take_bit 48 a = a"
    by (simp only: word_unat_eq_iff unsigned_take_bit_eq) (simp add: take_bit_nat_eq_self)
  have "a AND NOT PAGE_MASK = a"
  proof (rule bit_word_eqI)
    fix n
    assume "n < LENGTH(64)"
    have "\<not> bit (a AND PAGE_MASK) n" using a by (simp add: frame_address_def)
    then show "bit (a AND NOT PAGE_MASK) n = bit a n" using \<open>n < _\<close> by (auto simp: bit_simps)
  qed
  with b show ?thesis by (simp add: frame_bits_def)
qed

definition example_tte :: "(bool \<times> bool \<times> u64, unit, unit) tte_ops" where
  "example_tte =
     \<lparr>is_valid = fst, is_table = \<lambda>e. fst (snd e), tte_address = \<lambda>e. frame_bits (snd (snd e)),
      set_is_valid = \<lambda>b e. (b, snd e), set_is_table = \<lambda>e. (fst e, True, snd (snd e)),
      set_is_block = \<lambda>e. (fst e, False, snd (snd e)), set_tte_address = \<lambda>a e. (fst e, fst (snd e), a),
      set_access = \<lambda>e. e, set_access_permission = \<lambda>_ e. e, set_shareability = \<lambda>_ e. e, set_attr_index = \<lambda>_ e. e,
      set_executable = \<lambda>_ e. e, set_privileged_executable = \<lambda>_ e. e, new_table = \<lambda>a. (True, True, a),
      calculate_index = \<lambda>va level. unat (take_bit 11 (drop_bit (14 + 11 * (3 - level)) (take_bit 48 va)))\<rparr>"

lemma example_tte_laws: "tte_laws example_tte"
proof -
  have small: "unat (take_bit 11 x) < TABLE_ENTRIES" for x :: u64
    using take_bit_nat_less_exp [of 11 "unat x"] by (simp add: unsigned_take_bit_eq TABLE_ENTRIES_def)
  have pages: "(\<forall>level < 4. calculate_index example_tte va level = calculate_index example_tte vb level) \<longleftrightarrow>
      drop_bit 14 (take_bit 48 va) = drop_bit 14 (take_bit 48 vb)" (is "?L = ?R") for va vb
  proof
    assume ?R
    have "unat (take_bit 11 (drop_bit (14 + n) (take_bit 48 va))) = unat (take_bit 11 (drop_bit (14 + n) (take_bit 48 vb)))"
      for n
      using arg_cong [OF \<open>?R\<close>, of "\<lambda>x. unat (take_bit 11 (drop_bit n x))"] by (simp add: add.commute)
    then show ?L by (simp add: example_tte_def)
  next
    assume L: ?L
    show ?R
    proof (rule bit_word_eqI)
      fix n
      assume "n < LENGTH(64)"
      show "bit (drop_bit 14 (take_bit 48 va)) n = bit (drop_bit 14 (take_bit 48 vb)) n"
      proof (cases "n < 34")
        case True
        define q where "q = n div 11"
        have q: "q \<le> 3" "n = 11 * q + n mod 11" using True by (auto simp: q_def)
        have "take_bit 11 (drop_bit (14 + 11 * q) (take_bit 48 va)) = take_bit 11 (drop_bit (14 + 11 * q) (take_bit 48 vb))"
          using L [rule_format, of "3 - q"] q(1) by (simp add: example_tte_def word_unat_eq_iff)
        then have "bit (take_bit 11 (drop_bit (14 + 11 * q) (take_bit 48 va))) (n mod 11) =
            bit (take_bit 11 (drop_bit (14 + 11 * q) (take_bit 48 vb))) (n mod 11)" by simp
        moreover have "14 + 11 * q + n mod 11 = 14 + n" using q(2) by simp
        ultimately show ?thesis by (simp add: bit_take_bit_iff bit_drop_bit_eq)
      qed (simp add: bit_take_bit_iff bit_drop_bit_eq)
    qed
  qed
  show ?thesis
    unfolding tte_laws_def using small pages
    by (simp add: kind_of_def PAGE_SHIFT_def) (simp add: example_tte_def frame_bits_id)
qed

lemma buddy_inv_dmap: "buddy_inv (s\<lparr>is_dmap := b\<rparr>) zs Ls H = buddy_inv s zs Ls H"
  by (simp add: buddy_inv_def zones_wf_def free_lists_def pages_ok_def lists_ok_def block_at_def byte_def zone_of_def
      npages_def region_def page_addr_def free_heads_def)

lemma example_kernel: "\<exists>s. kernel_ready s \<and> kernel_spare s = 7"
proof -
  let ?d = "unat DMAP_START"
  have d: "?d = 0xFFFF * 2 ^ 48" by (simp add: DMAP_START_def VA_WIDTH_def)
  have inv: "buddy_inv pa_new [] (replicate MAX_ORDER []) {}"
    by (rule buddy_inv_empty) (simp_all add: pa_new_def)
  have n: "needed_pages 8 0 = Suc 0" "needed_pages 8 (Suc 0) = Suc 0" by (simp_all add: needed_pages_val)
  have "reserve_loop 8 0 = Some 1"
    by (subst reserve_loop_step, subst reserve_loop_step) (simp add: n)
  then have rl: "reserve_loop ((?d + 9 * PAGE_SIZE - (?d + PAGE_SIZE)) div PAGE_SIZE) 0 = Some 1"
    by (simp add: PAGE_SIZE_val)
  let ?zp = "?d + PAGE_SIZE + 1 * PAGE_SIZE - ZONE_SIZE"
  obtain s Ls where s: "add_range pa_new (?d + PAGE_SIZE) (?d + 9 * PAGE_SIZE) = Some s" "buddy_inv s [?zp] Ls {}"
      "used_heads s [?zp] = used_heads pa_new []"
      "zone_of s ?zp = new_zone pa_new (?d + PAGE_SIZE) 1 ((?d + 9 * PAGE_SIZE - (?d + PAGE_SIZE)) div PAGE_SIZE - 1)"
    using add_range_ok [OF inv _ _ _ rl] by (auto simp: PAGE_SIZE_val d)
  let ?s = "s\<lparr>is_dmap := True\<rparr>"
  have i: "buddy_inv ?s [?zp] Ls {}" using s(2) by (simp add: buddy_inv_dmap)
  have np: "npages ?s ?zp = 7" "z_base (zone_of ?s ?zp) = ?d + 2 * PAGE_SIZE"
    using s(4) by (simp_all add: npages_def zone_of_def new_zone_def PAGE_SIZE_val)
  have "used_heads ?s [?zp] = used_heads s [?zp]" by (simp add: used_heads_def npages_def zone_of_def byte_def)
  moreover have "used_heads pa_new [] = {}" by (simp add: used_heads_def)
  ultimately have "used_pages ?s [?zp] = 0" using s(3) by (simp add: used_pages_def)
  then have "kernel_spare ?s = 7" using np by (simp add: kernel_spare_def zone_chain_eq [OF i])
  moreover have "zones_mapped ?s [?zp]" using np by (simp add: zones_mapped_def d PAGE_SIZE_val)
  then have "kernel_ready ?s" unfolding kernel_ready_def using i by auto
  ultimately show ?thesis by blast
qed

text \<open>A fresh root with pages left.\<close>

lemma example_root:
  "\<exists>m root. kernel_ready (pool m) \<and> 6 \<le> kernel_spare (pool m) \<and>
     pt_ok example_tte (kernel_tables (False, False, 0)) (kernel_live (pool m)) m root \<and>
     (\<forall>va. translate example_tte (kernel_tables (False, False, 0)) m root va = None) \<and>
     (\<forall>i < TABLE_ENTRIES. store m root i = (False, False, 0))"
proof -
  let ?b = "(False, False, 0) :: bool \<times> bool \<times> u64"
  obtain s where s: "kernel_ready s" "kernel_spare s = 7" using example_kernel by blast
  define m where "m = \<lparr>store = (\<lambda>_ _. ?b), pool = s\<rparr>"
  have m: "kernel_ready (pool m)" "0 < kernel_spare (pool m)" using s by (simp_all add: m_def)
  obtain root m' where a: "alloc_table (kernel_tables ?b) m = Some (root, m')" using ktab.spare_law [OF m, of ?b] by auto
  have b: "\<not> is_valid example_tte ?b" "tte_address example_tte ?b = 0" by (simp_all add: example_tte_def)
  note new = ktab.alloc_law [OF m(1) a] and ok = ktab.fresh_root_ok [OF m(1) a b]
  have "length (indices example_tte va) = 4" "path_ok (indices example_tte va)" for va
    using indices_ok [OF example_tte_laws] by (simp_all add: indices_def)
  with ok have "translate example_tte (kernel_tables ?b) m' root va = None" for va by (simp add: translate_def)
  moreover have "6 \<le> kernel_spare (pool m')" using new s(2) by (simp add: m_def)
  ultimately show ?thesis using new ok(1) by blast
qed

section \<open>Properties\<close>

text \<open>C5: Mapping a page at an address that does not lie in a block, to a page-aligned frame below \<open>2 ^ 48\<close>, with at
  least three pages to spare, returns; afterwards the hardware translates every address of that page to the frame, with
  the attributes asked for, every other address as before, and the tables are still a tree of distinct live pages.\<close>

theorem kernel_map_page:
  assumes "tte_laws h" and "\<not> is_valid h blank" and "tte_address h blank = 0"
    and "kernel_ready (pool m)" and "3 \<le> kernel_spare (pool m)"
    and "pt_ok h (kernel_tables blank) (kernel_live (pool m)) m root" and "frame_address pa"
    and "\<nexists>e. translate h (kernel_tables blank) m root va = Some (1, e)"
  shows "\<exists>m' e. map_page h (kernel_tables blank) a root pa va m = Some m' \<and> kernel_ready (pool m') \<and>
    pt_ok h (kernel_tables blank) (kernel_live (pool m')) m' root \<and>
    kind_of h (set_leaf h a pa e) = (True, True, pa) \<and>
    (\<forall>vb. translate h (kernel_tables blank) m' root vb =
      (if same_page vb va then Some (0, set_leaf h a pa e) else translate h (kernel_tables blank) m root vb))"
proof -
  obtain m' where m': "map_page h (kernel_tables blank) a root pa va m = Some m'"
    using ktab.map_page_returns [OF assms(1,4,5)] by blast
  with ktab.map_page_ok [OF assms(1-3,6,4,7,8) m'] show ?thesis by blast
qed

theorem kernel_map_page_witness:
  "\<exists>m m' root e. translate example_tte (kernel_tables (False, False, 0)) m root 0x4000 = None \<and>
     map_page example_tte (kernel_tables (False, False, 0)) \<lparr>access = (), share = (), uxn = True, pxn = False, attr_index = 1\<rparr>
       root 0x80000000 0x4000 m = Some m' \<and>
     translate example_tte (kernel_tables (False, False, 0)) m' root 0x4008 = Some (0, e) \<and> tte_address example_tte e = 0x80000000"
proof -
  let ?b = "(False, False, 0) :: bool \<times> bool \<times> u64"
  obtain m root where m: "kernel_ready (pool m)" "6 \<le> kernel_spare (pool m)"
      "pt_ok example_tte (kernel_tables ?b) (kernel_live (pool m)) m root"
      "\<forall>va. translate example_tte (kernel_tables ?b) m root va = None" using example_root by blast
  have b: "\<not> is_valid example_tte ?b" "tte_address example_tte ?b = 0" by (simp_all add: example_tte_def)
  have f: "frame_address 0x80000000" by (simp add: frame_address_def PAGE_MASK_def PAGE_SIZE_val)
  have same: "same_page 0x4008 0x4000" by (simp add: same_page_def PAGE_SHIFT_def)
  have three: "3 \<le> kernel_spare (pool m)" using m(2) by simp
  have nb: "\<nexists>e. translate example_tte (kernel_tables ?b) m root 0x4000 = Some (1, e)" using m(4) by simp
  let ?a = "\<lparr>access = (), share = (), uxn = True, pxn = False, attr_index = 1\<rparr>"
  obtain m' e where r: "map_page example_tte (kernel_tables ?b) ?a root 0x80000000 0x4000 m = Some m'"
      "kind_of example_tte (set_leaf example_tte ?a 0x80000000 e) = (True, True, 0x80000000)"
      "\<forall>vb. translate example_tte (kernel_tables ?b) m' root vb =
        (if same_page vb 0x4000 then Some (0, set_leaf example_tte ?a 0x80000000 e)
         else translate example_tte (kernel_tables ?b) m root vb)"
    using kernel_map_page [OF example_tte_laws b m(1) three m(3) f nb, of ?a] by blast
  have t: "translate example_tte (kernel_tables ?b) m' root 0x4008 = Some (0, set_leaf example_tte ?a 0x80000000 e)"
    using r(3) same by simp
  have "tte_address example_tte (set_leaf example_tte ?a 0x80000000 e) = 0x80000000" using r(2) by (simp add: kind_of_iff)
  with m(4) r(1) t show ?thesis by blast
qed

text \<open>C6: Unmapping a page returns. Unless the page lies in a block, no address of it is translated afterwards; a page
  inside a block is left mapped; every other address is translated as before. The tables are still a tree of live pages.
  Only tables on the path of the page leave the tree, they are given back, nothing else is, and no table other than the
  root is left that has become empty.\<close>

theorem kernel_unmap_page:
  assumes "tte_laws h" and "kernel_ready (pool m)" and "pt_ok h (kernel_tables blank) (kernel_live (pool m)) m root"
  shows "\<exists>m'. unmap_page h (kernel_tables blank) root va m = Some m' \<and> kernel_ready (pool m') \<and>
    pt_ok h (kernel_tables blank) (kernel_live (pool m')) m' root \<and>
    sheds h (kernel_tables blank) kernel_live root (indices h va) m m' \<and>
    no_new_empty h (kernel_tables blank) root {} m m' \<and>
    (\<forall>vb. translate h (kernel_tables blank) m' root vb =
      (if same_page vb va \<and> (\<nexists>e. translate h (kernel_tables blank) m root va = Some (1, e)) then None
       else translate h (kernel_tables blank) m root vb))"
  using ktab.unmap_page_ok [OF assms(1,3,2)] by blast

theorem kernel_unmap_page_witness:
  "\<exists>m m1 m2 root. map_page example_tte (kernel_tables (False, False, 0))
       \<lparr>access = (), share = (), uxn = True, pxn = False, attr_index = 1\<rparr> root 0x80000000 0x4000 m = Some m1 \<and>
     unmap_page example_tte (kernel_tables (False, False, 0)) root 0x4000 m1 = Some m2 \<and>
     translate example_tte (kernel_tables (False, False, 0)) m1 root 0x4000 \<noteq> None \<and>
     translate example_tte (kernel_tables (False, False, 0)) m2 root 0x4000 = None"
proof -
  let ?b = "(False, False, 0) :: bool \<times> bool \<times> u64"
  let ?a = "\<lparr>access = (), share = (), uxn = True, pxn = False, attr_index = 1\<rparr>"
  obtain m root where m: "kernel_ready (pool m)" "6 \<le> kernel_spare (pool m)"
      "pt_ok example_tte (kernel_tables ?b) (kernel_live (pool m)) m root"
      "\<forall>va. translate example_tte (kernel_tables ?b) m root va = None" using example_root by blast
  have b: "\<not> is_valid example_tte ?b" "tte_address example_tte ?b = 0" by (simp_all add: example_tte_def)
  have f: "frame_address 0x80000000" by (simp add: frame_address_def PAGE_MASK_def PAGE_SIZE_val)
  have three: "3 \<le> kernel_spare (pool m)" using m(2) by simp
  have nb: "\<nexists>e. translate example_tte (kernel_tables ?b) m root 0x4000 = Some (1, e)" using m(4) by simp
  have same: "same_page va va" for va by (simp add: same_page_def)
  obtain m1 where m1: "map_page example_tte (kernel_tables ?b) ?a root 0x80000000 0x4000 m = Some m1"
    using ktab.map_page_returns [OF example_tte_laws m(1) three] by blast
  obtain e where ok: "pt_ok example_tte (kernel_tables ?b) (kernel_live (pool m1)) m1 root" "kernel_ready (pool m1)"
      "\<forall>vb. translate example_tte (kernel_tables ?b) m1 root vb =
        (if same_page vb 0x4000 then Some (0, set_leaf example_tte ?a 0x80000000 e)
         else translate example_tte (kernel_tables ?b) m root vb)"
    using ktab.map_page_ok [OF example_tte_laws b m(3,1) f nb m1] by blast
  have t: "translate example_tte (kernel_tables ?b) m1 root 0x4000 = Some (0, set_leaf example_tte ?a 0x80000000 e)"
    using ok(3) same by simp
  from kernel_unmap_page [OF example_tte_laws ok(2,1), where va = "0x4000"] obtain m2 where
      "unmap_page example_tte (kernel_tables ?b) root 0x4000 m1 = Some m2"
      "translate example_tte (kernel_tables ?b) m2 root 0x4000 = None" using t same by auto
  with m1 t show ?thesis by (metis option.distinct(1))
qed

text \<open>C27: Mapping a page at an address that lies in a block does not map it: the memory that the block maps is taken
  for a table of the last level, and its word at the page's index is overwritten with the entry of the page, which is
  the only change. Where that memory is no table, no translation changes.\<close>

theorem map_page_over_block:
  assumes "tte_laws h" and "pt_ok h (kernel_tables blank) (kernel_live (pool m)) m root"
    and "translate h (kernel_tables blank) m root va = Some (1, e)" and "frame_address pa"
    and "b = phys_addr_to_dmap (tte_address h e)" and "b \<notin> kernel_live (pool m)" and "i = calculate_index h va 3"
    and "w = set_leaf h a pa (set_is_table h (set_is_valid h True (store m b i)))"
  shows "map_page h (kernel_tables blank) a root pa va m = Some (set_entry b i w m) \<and> kind_of h w = (True, True, pa) \<and>
    store (set_entry b i w m) b i = w \<and>
    (\<forall>vb. translate h (kernel_tables blank) (set_entry b i w m) root vb = translate h (kernel_tables blank) m root vb)"
proof -
  have p: "phys_to_dmap (kernel_tables blank) = phys_addr_to_dmap" by (simp add: kernel_tables_def)
  have "length (indices h vb) = 4" "path_ok (indices h vb)" for vb
    using indices_ok [OF assms(1)] by (simp_all add: indices_def)
  then have "translate h (kernel_tables blank) (set_entry b i w m) root vb = translate h (kernel_tables blank) m root vb" for vb
    unfolding translate_def by (rule walk_outside [OF assms(2,6)])
  then show ?thesis
    using ktab.map_page_block [OF assms(1-3), of a pa] page_leaf_kind(1) [OF assms(1,4)] assms(5,7,8)
    by (simp add: Let_def p set_entry_store)
qed

theorem map_page_over_block_witness:
  "\<exists>m root e pa m'. translate example_tte (kernel_tables (False, False, 0)) m root 0x4000 = Some (1, e) \<and>
     map_page example_tte (kernel_tables (False, False, 0))
       \<lparr>access = (), share = (), uxn = True, pxn = False, attr_index = 1\<rparr> root pa 0x4000 m = Some m' \<and>
     store m' (phys_addr_to_dmap (tte_address example_tte e)) (calculate_index example_tte 0x4000 3) \<noteq>
       store m (phys_addr_to_dmap (tte_address example_tte e)) (calculate_index example_tte 0x4000 3) \<and>
     translate example_tte (kernel_tables (False, False, 0)) m' root 0x4000 = Some (1, e)"
proof -
  let ?b = "(False, False, 0) :: bool \<times> bool \<times> u64"
  let ?a = "\<lparr>access = (), share = (), uxn = True, pxn = False, attr_index = 1\<rparr>"
  obtain m root where m: "kernel_ready (pool m)" "6 \<le> kernel_spare (pool m)"
      "pt_ok example_tte (kernel_tables ?b) (kernel_live (pool m)) m root" using example_root by blast
  have b: "\<not> is_valid example_tte ?b" "tte_address example_tte ?b = 0" by (simp_all add: example_tte_def)
  have z: "frame_address 0" by simp
  have two: "2 \<le> kernel_spare (pool m)" using m(2) by simp
  obtain m1 where m1: "map_l2_block example_tte (kernel_tables ?b) ?a root 0 0x4000 m = Some m1"
    using ktab.map_l2_block_returns [OF example_tte_laws m(1) two] by blast
  obtain e where ok: "pt_ok example_tte (kernel_tables ?b) (kernel_live (pool m1)) m1 root" "kernel_ready (pool m1)"
      "kind_of example_tte (set_leaf example_tte ?a 0 e) = (True, False, 0)"
      "\<forall>vb. translate example_tte (kernel_tables ?b) m1 root vb =
        (if take 3 (indices example_tte vb) = take 3 (indices example_tte 0x4000) then Some (1, set_leaf example_tte ?a 0 e)
         else translate example_tte (kernel_tables ?b) m root vb)"
    using ktab.map_l2_block_ok [OF example_tte_laws b m(3,1) z m1] by blast
  have t: "translate example_tte (kernel_tables ?b) m1 root 0x4000 = Some (1, set_leaf example_tte ?a 0 e)" using ok(4) by simp
  have "DMAP_START \<notin> kernel_live (pool m1)"
    using kernel_reach [OF ok(2), of DMAP_START] by (auto simp: dmap_addr_to_phys_def)
  then have n: "phys_addr_to_dmap (tte_address example_tte (set_leaf example_tte ?a 0 e)) \<notin> kernel_live (pool m1)"
    using ok(3) by (simp add: kind_of_iff phys_addr_to_dmap_def is_kernel_address_def)
  let ?e = "set_leaf example_tte ?a 0 e" and ?i = "calculate_index example_tte 0x4000 3"
  let ?x = "phys_addr_to_dmap (tte_address example_tte ?e)"
  define pa :: u64 where "pa = (if tte_address example_tte (store m1 ?x ?i) = 0xC0000000 then 0x80000000 else 0xC0000000)"
  have f: "frame_address pa" by (simp add: pa_def frame_address_def PAGE_MASK_def PAGE_SIZE_val)
  define w where "w = set_leaf example_tte ?a pa (set_is_table example_tte (set_is_valid example_tte True (store m1 ?x ?i)))"
  note over = map_page_over_block [OF example_tte_laws ok(1) t f refl n refl w_def]
  have "w \<noteq> store m1 ?x ?i" using over by (auto simp: kind_of_iff pa_def split: if_splits)
  with over t show ?thesis by metis
qed

text \<open>C15: Mapping a page-aligned region of at least one page, no page of which lies in a block, to physical memory that
  ends at most at \<open>2 ^ 48\<close>, with three pages to spare for every page of it, returns. Afterwards the pages of the region
  are translated to the frames of the physical region, in order, and all other addresses are translated as before.\<close>

theorem kernel_map_region:
  assumes "tte_laws h" and "\<not> is_valid h blank" and "tte_address h blank = 0" and "kernel_ready (pool m)"
    and "pt_ok h (kernel_tables blank) (kernel_live (pool m)) m root"
    and "va AND PAGE_MASK = 0" and "pa AND PAGE_MASK = 0" and "sz AND PAGE_MASK = 0"
    and "of_nat PAGE_SIZE \<le> sz" and "unat pa + unat sz \<le> 2 ^ 48"
    and "3 * unat (drop_bit PAGE_SHIFT sz) \<le> kernel_spare (pool m)"
    and "\<forall>i < unat (drop_bit PAGE_SHIFT sz). \<nexists>e.
      translate h (kernel_tables blank) m root (va + push_bit PAGE_SHIFT (of_nat i)) = Some (1, e)"
  shows "\<exists>m'. map_region h (kernel_tables blank) a root pa va sz m = Some m' \<and> kernel_ready (pool m') \<and>
    pt_ok h (kernel_tables blank) (kernel_live (pool m')) m' root \<and>
    (\<forall>i < unat (drop_bit PAGE_SHIFT sz). \<exists>e.
       translate h (kernel_tables blank) m' root (va + push_bit PAGE_SHIFT (of_nat i)) = Some (0, e) \<and>
       kind_of h e = (True, True, pa + push_bit PAGE_SHIFT (of_nat i))) \<and>
    (\<forall>vb. (\<forall>i < unat (drop_bit PAGE_SHIFT sz). \<not> same_page vb (va + push_bit PAGE_SHIFT (of_nat i))) \<longrightarrow>
       translate h (kernel_tables blank) m' root vb = translate h (kernel_tables blank) m root vb)"
proof -
  let ?n = "unat (drop_bit PAGE_SHIFT sz)"
  have "?n = unat sz div PAGE_SIZE" by (simp only: unat_drop_bit_eq) (simp add: drop_bit_eq_div PAGE_SIZE_def)
  then have sz: "unat sz = ?n * PAGE_SIZE" using assms(8) unfolding page_mask_unat by auto
  have frames: "frame_address (pa + push_bit PAGE_SHIFT (of_nat i))" if "i < ?n" for i
  proof -
    have "i * PAGE_SIZE < unat sz" using that unfolding sz by (simp add: PAGE_SIZE_val)
    then have lt: "unat pa + i * PAGE_SIZE < 2 ^ 48" using assms(10) by linarith
    then have "unat (pa + push_bit PAGE_SHIFT (of_nat i)) = unat pa + i * PAGE_SIZE" unfolding page_step_unat by simp
    with lt assms(7) show ?thesis unfolding frame_address_unat page_mask_unat by simp
  qed
  have "?n \<le> 2 ^ 34" using assms(10) unfolding sz by (simp add: PAGE_SIZE_val)
  then have apart: "i = j" if "i < ?n" "j < ?n"
    "same_page (va + push_bit PAGE_SHIFT (of_nat i)) (va + push_bit PAGE_SHIFT (of_nat j))" for i j
    using pages_apart [OF assms(6) _ _ that(3)] that(1,2) by linarith
  obtain m' where run: "each (\<lambda>i. map_page h (kernel_tables blank) a root (pa + push_bit PAGE_SHIFT (of_nat i))
      (va + push_bit PAGE_SHIFT (of_nat i))) [0..<?n] m = Some m'"
    using ktab.map_pages_return [OF assms(1,4), of "[0..<?n]" blank a root "\<lambda>i. pa + push_bit PAGE_SHIFT (of_nat i)"
        "\<lambda>i. va + push_bit PAGE_SHIFT (of_nat i)"] assms(11) by auto
  then have "map_region h (kernel_tables blank) a root pa va sz m = Some m'"
    using assms(6-9) by (simp add: map_region_def not_less)
  moreover note ktab.map_pages_ok [OF assms(1-3) _ assms(5,4) _ run]
  ultimately show ?thesis using frames assms(12) apart by (simp add: atLeast0LessThan)
qed

theorem kernel_map_region_witness:
  "\<exists>m root m' e. map_region example_tte (kernel_tables (False, False, 0))
       \<lparr>access = (), share = (), uxn = True, pxn = False, attr_index = 1\<rparr> root 0x80000000 0x4000 0x8000 m = Some m' \<and>
     translate example_tte (kernel_tables (False, False, 0)) m' root 0x8000 = Some (0, e) \<and>
     tte_address example_tte e = 0x80004000"
proof -
  let ?b = "(False, False, 0) :: bool \<times> bool \<times> u64"
  let ?a = "\<lparr>access = (), share = (), uxn = True, pxn = False, attr_index = 1\<rparr>"
  obtain m root where m: "kernel_ready (pool m)" "6 \<le> kernel_spare (pool m)"
      "pt_ok example_tte (kernel_tables ?b) (kernel_live (pool m)) m root"
      "\<forall>va. translate example_tte (kernel_tables ?b) m root va = None" using example_root by blast
  have b: "\<not> is_valid example_tte ?b" "tte_address example_tte ?b = 0" by (simp_all add: example_tte_def)
  have n: "unat (drop_bit PAGE_SHIFT (0x8000 :: u64)) = 2" by (simp add: PAGE_SHIFT_def)
  have mask: "(0x4000 :: u64) AND PAGE_MASK = 0" "(0x80000000 :: u64) AND PAGE_MASK = 0" "(0x8000 :: u64) AND PAGE_MASK = 0"
      "of_nat PAGE_SIZE \<le> (0x8000 :: u64)" "unat (0x80000000 :: u64) + unat (0x8000 :: u64) \<le> 2 ^ 48"
    by (simp_all add: PAGE_MASK_def PAGE_SIZE_val)
  have six: "3 * unat (drop_bit PAGE_SHIFT (0x8000 :: u64)) \<le> kernel_spare (pool m)" using m(2) n by simp
  have nb: "\<forall>i < unat (drop_bit PAGE_SHIFT (0x8000 :: u64)). \<nexists>e.
      translate example_tte (kernel_tables ?b) m root (0x4000 + push_bit PAGE_SHIFT (of_nat i)) = Some (1, e)" using m(4) by simp
  obtain m' where m': "map_region example_tte (kernel_tables ?b) ?a root 0x80000000 0x4000 0x8000 m = Some m'"
      "\<forall>i < 2. \<exists>e. translate example_tte (kernel_tables ?b) m' root (0x4000 + push_bit PAGE_SHIFT (of_nat i)) = Some (0, e) \<and>
         kind_of example_tte e = (True, True, 0x80000000 + push_bit PAGE_SHIFT (of_nat i))"
    using kernel_map_region [OF example_tte_laws b m(1,3) mask six nb, of ?a] unfolding n by blast
  have "\<exists>e. translate example_tte (kernel_tables ?b) m' root 0x8000 = Some (0, e) \<and> tte_address example_tte e = 0x80004000"
    using m'(2) [rule_format, of 1] by (auto simp: PAGE_SHIFT_def kind_of_iff simp del: split_paired_Ex)
  with m'(1) show ?thesis by blast
qed

text \<open>C16: Freeing a tree of tables whose root uses only its first two entries gives back exactly the pages of the
  tree, each once, and leaves every other table as it was.\<close>

theorem kernel_free_tables:
  assumes "kernel_ready (pool m)" and "pt_ok h (kernel_tables blank) (kernel_live (pool m)) m root"
    and "\<forall>i. 2 \<le> i \<and> i < TABLE_ENTRIES \<longrightarrow> \<not> is_link h (store m root i)"
  shows "\<exists>m'. free_tables h (kernel_tables blank) root m = Some m' \<and> kernel_ready (pool m') \<and>
    kernel_live (pool m') = kernel_live (pool m) -
      {t. \<exists>q. length q \<le> 3 \<and> path_ok q \<and> table_at h (kernel_tables blank) m root q = Some t} \<and>
    (\<forall>u \<in> kernel_live (pool m'). store m' u = store m u)"
  using ktab.free_tables_frees [OF assms(2,1)] assms(3) by (simp add: ktab.subtree_def)

theorem kernel_free_tables_witness:
  "\<exists>m root m'. root \<in> kernel_live (pool m) \<and>
     free_tables example_tte (kernel_tables (False, False, 0)) root m = Some m' \<and> root \<notin> kernel_live (pool m')"
proof -
  let ?b = "(False, False, 0) :: bool \<times> bool \<times> u64"
  obtain s where s: "kernel_ready s" "kernel_spare s = 7" using example_kernel by blast
  define m where "m = \<lparr>store = (\<lambda>_ _. ?b), pool = s\<rparr>"
  have m: "kernel_ready (pool m)" "0 < kernel_spare (pool m)" using s by (simp_all add: m_def)
  obtain root m1 where a: "alloc_table (kernel_tables ?b) m = Some (root, m1)" using ktab.spare_law [OF m, of ?b] by auto
  have b: "\<not> is_valid example_tte ?b" "tte_address example_tte ?b = 0" by (simp_all add: example_tte_def)
  note new = ktab.alloc_law [OF m(1) a] and ok = ktab.fresh_root_ok(1) [OF m(1) a b]
  have nl: "\<forall>i. 2 \<le> i \<and> i < TABLE_ENTRIES \<longrightarrow> \<not> is_link example_tte (store m1 root i)" using new b by (simp add: is_link_def)
  obtain m2 where m2: "free_tables example_tte (kernel_tables ?b) root m1 = Some m2"
      "kernel_live (pool m2) = kernel_live (pool m1) -
        {t. \<exists>q. length q \<le> 3 \<and> path_ok q \<and> table_at example_tte (kernel_tables ?b) m1 root q = Some t}"
    using kernel_free_tables [OF _ ok nl] new by blast
  have "root \<in> {t. \<exists>q. length q \<le> 3 \<and> path_ok q \<and> table_at example_tte (kernel_tables ?b) m1 root q = Some t}"
    by (auto intro!: exI [of _ "[]"])
  then have "root \<notin> kernel_live (pool m2)" unfolding m2(2) by simp
  with m2(1) new show ?thesis by blast
qed

end
