(* ===== verification/User_Space.thy ===== *)
theory User_Space
  imports Kernel_Tables Mars_Effects
begin

text \<open>
  Address spaces, \<open>klib/src/vm/user\<close>: a descriptor with a reader-writer lock and the status of every entry for each
  page table page, the locking of a range of addresses by a cursor, and the operations of the cursor. The locks are
  those of \<open>Sync_Locks\<close>, here by what they promise: a reader waits for a writer, a writer for everybody. A call that
  waits for a lock is \<open>Inl Waits\<close>: as nobody else runs in the model, it waits until another thread lets go of the lock,
  and for ever when the caller itself holds it.
\<close>

section \<open>Page descriptors\<close>

datatype 'ap status = Invalid | Mapped usize 'ap | PrivateAnonymous 'ap

datatype status_category = CatAllocated | CatMapped | CatTemporarilyUnmapped

fun category :: "'ap status \<Rightarrow> status_category option" where
  "category (Mapped _ _) = Some CatMapped"
| "category (PrivateAnonymous _) = Some CatAllocated"
| "category Invalid = None"

record 'ap page_descriptor =
  d_readers :: nat
  d_writer :: bool
  d_meta :: "'ap status list option"

text \<open>The slice and the range of addresses it describes, once \<open>init\<close> was called.\<close>

type_synonym 'ap page_descriptors = "('ap page_descriptor list \<times> usize \<times> usize) option"

definition pd_new :: "'ap page_descriptors" where "pd_new = None"

definition pd_init ::
    "'ap page_descriptors \<Rightarrow> 'ap page_descriptor list \<Rightarrow> usize \<times> usize \<Rightarrow> 'ap page_descriptors option" where
  "pd_init pds descriptors r = (if pds = None then Some (Some (descriptors, r)) else None)"

definition get_page_descriptor :: "'ap page_descriptors \<Rightarrow> usize \<Rightarrow> nat option" where
  "get_page_descriptor pds pa =
     (case pds of
        None \<Rightarrow> None
      | Some (ds, lo, hi) \<Rightarrow>
          if \<not> (lo \<le> pa \<and> pa < hi) then None
          else let pfn = unat (drop_bit PAGE_SHIFT (pa - lo)) in if pfn < length ds then Some pfn else None)"

definition desc_at :: "'ap page_descriptors \<Rightarrow> nat \<Rightarrow> 'ap page_descriptor" where
  "desc_at pds i = fst (the pds) ! i"

definition set_desc :: "'ap page_descriptors \<Rightarrow> nat \<Rightarrow> 'ap page_descriptor \<Rightarrow> 'ap page_descriptors" where
  "set_desc pds i d = map_option (\<lambda>(ds, r). (ds[i := d], r)) pds"

text \<open>The shifts by a variable amount take it modulo the width.\<close>

definition level_shift :: "nat \<Rightarrow> nat" where
  "level_shift level = (PAGE_SHIFT + level * PAGE_INDEX_BITS) mod 64"

definition entry_index :: "usize \<Rightarrow> nat \<Rightarrow> nat" where
  "entry_index addr level = unat (drop_bit (level_shift level) addr AND (of_nat TABLE_ENTRIES - 1))"

definition entry_cover :: "nat \<Rightarrow> usize" where
  "entry_cover level = push_bit (level_shift level) 1"

section \<open>State and locks\<close>

datatype stop = Panics | Waits

type_synonym ('e, 'a, 'ap) user_mem = "('e, 'a \<times> 'ap page_descriptors) pt_mem"

type_synonym ('e, 'a, 'ap, 'r) user = "(('e, 'a, 'ap) user_mem, stop, 'r) run"

definition descs :: "('e, 'a, 'ap) user_mem \<Rightarrow> 'ap page_descriptors" where
  "descs m = snd (pool m)"

definition with_descs :: "'ap page_descriptors \<Rightarrow> ('e, 'a, 'ap) user_mem \<Rightarrow> ('e, 'a, 'ap) user_mem" where
  "with_descs pds m = m\<lparr>pool := (fst (pool m), pds)\<rparr>"

definition on_desc ::
    "usize \<Rightarrow> ('ap page_descriptor \<Rightarrow> bool) \<Rightarrow> ('ap page_descriptor \<Rightarrow> 'ap page_descriptor) \<Rightarrow> ('e, 'a, 'ap, unit) user" where
  "on_desc pa free f m =
     (case get_page_descriptor (descs m) pa of
        None \<Rightarrow> pfail Panics m
      | Some i \<Rightarrow>
          let d = desc_at (descs m) i in
          if free d then pret () (with_descs (set_desc (descs m) i (f d)) m) else pfail Waits m)"

definition lock_read :: "usize \<Rightarrow> ('e, 'a, 'ap, unit) user" where
  "lock_read pa = on_desc pa (\<lambda>d. \<not> d_writer d) (\<lambda>d. d\<lparr>d_readers := d_readers d + 1\<rparr>)"

definition unlock_read :: "usize \<Rightarrow> ('e, 'a, 'ap, unit) user" where
  "unlock_read pa = on_desc pa (\<lambda>_. True) (\<lambda>d. d\<lparr>d_readers := d_readers d - 1\<rparr>)"

definition unlocked :: "'ap page_descriptor \<Rightarrow> bool" where
  "unlocked d \<longleftrightarrow> \<not> d_writer d \<and> d_readers d = 0"

definition lock_write :: "usize \<Rightarrow> ('e, 'a, 'ap, unit) user" where
  "lock_write pa = on_desc pa unlocked (\<lambda>d. d\<lparr>d_writer := True\<rparr>)"

definition unlock_write :: "usize \<Rightarrow> ('e, 'a, 'ap, unit) user" where
  "unlock_write pa = on_desc pa (\<lambda>_. True) (\<lambda>d. d\<lparr>d_writer := False\<rparr>)"

text \<open>A statement that takes the write lock, changes the metadata and lets go of it.\<close>

definition write_meta :: "usize \<Rightarrow> ('ap status list option \<Rightarrow> 'ap status list option) \<Rightarrow> ('e, 'a, 'ap, unit) user" where
  "write_meta pa f = on_desc pa unlocked (\<lambda>d. d\<lparr>d_meta := f (d_meta d)\<rparr>)"

section \<open>The allocator of tables\<close>

text \<open>\<open>UserAllocator\<close>: the tables of another allocator, with their metadata cleared. A call that fails or waits does
  not return.\<close>

definition inner_mem :: "('e, 'a, 'ap) user_mem \<Rightarrow> ('e, 'a) pt_mem" where
  "inner_mem m = \<lparr>store = store m, pool = fst (pool m)\<rparr>"

definition outer_mem :: "('e, 'a) pt_mem \<Rightarrow> 'ap page_descriptors \<Rightarrow> ('e, 'a, 'ap) user_mem" where
  "outer_mem m pds = \<lparr>store = store m, pool = (pool m, pds)\<rparr>"

definition finishes :: "('e, 'a, 'ap, unit) user \<Rightarrow> ('e, 'a, 'ap) user_mem \<Rightarrow> ('e, 'a, 'ap) user_mem option" where
  "finishes f m = (case f m of Some (Inr _, m') \<Rightarrow> Some m' | _ \<Rightarrow> None)"

definition user_alloc_table ::
    "('e, 'a) table_ops \<Rightarrow> ('e, 'a, 'ap) user_mem \<Rightarrow> (u64 \<times> ('e, 'a, 'ap) user_mem) option" where
  "user_alloc_table al m =
     do { (ptr, m1) \<leftarrow> alloc_table al (inner_mem m);
          m2 \<leftarrow> finishes (write_meta (dmap_to_phys al ptr) (\<lambda>_. None)) (outer_mem m1 (descs m));
          Some (ptr, m2) }"

definition user_free_table ::
    "('e, 'a) table_ops \<Rightarrow> u64 \<Rightarrow> ('e, 'a, 'ap) user_mem \<Rightarrow> ('e, 'a, 'ap) user_mem option" where
  "user_free_table al table m =
     do { m1 \<leftarrow> finishes (write_meta (dmap_to_phys al table) (\<lambda>_. None)) m;
          m2 \<leftarrow> free_table al table (inner_mem m1);
          Some (outer_mem m2 (descs m1)) }"

definition user_allocator :: "('e, 'a) table_ops \<Rightarrow> ('e, 'a \<times> 'ap page_descriptors) table_ops" where
  "user_allocator al =
     \<lparr>alloc_table = user_alloc_table al, free_table = user_free_table al,
      phys_to_dmap = phys_to_dmap al, dmap_to_phys = dmap_to_phys al\<rparr>"

section \<open>Address spaces\<close>

record address_space =
  as_root :: "u64 option"
  max_level :: nat

definition from_root_table :: "nat option \<Rightarrow> u64 option \<Rightarrow> address_space" where
  "from_root_table level root = \<lparr>as_root = root, max_level = (case level of None \<Rightarrow> 3 | Some l \<Rightarrow> l)\<rparr>"

definition new_dangling :: "nat option \<Rightarrow> address_space" where
  "new_dangling level = from_root_table level None"

definition as_new ::
    "('e, 'a) table_ops \<Rightarrow> nat option \<Rightarrow> ('e, 'a, 'ap) user_mem \<Rightarrow> (address_space \<times> ('e, 'a, 'ap) user_mem) option" where
  "as_new al level m =
     do { (root, m1) \<leftarrow> user_alloc_table al m;
          Some (from_root_table level (Some root), m1) }"

definition as_init ::
    "('e, 'a) table_ops \<Rightarrow> address_space \<Rightarrow> ('e, 'a, 'ap) user_mem \<Rightarrow> (address_space \<times> ('e, 'a, 'ap) user_mem) option" where
  "as_init al sp m =
     (if as_root sp \<noteq> None then None
      else do { (table, m1) \<leftarrow> user_alloc_table al m;
                Some (sp\<lparr>as_root := Some table\<rparr>, m1) })"

definition init_from_table :: "address_space \<Rightarrow> u64 \<Rightarrow> address_space option" where
  "init_from_table sp table = (if as_root sp \<noteq> None then None else Some (sp\<lparr>as_root := Some table\<rparr>))"

text \<open>Dropping: \<open>free_frame\<close> is \<open>free_phys_page\<close> of the page allocator.\<close>

primrec drop_table ::
    "('e, 'ap, 'sh) tte_ops \<Rightarrow> ('e, 'a) table_ops \<Rightarrow> (usize \<Rightarrow> ('e, 'a) pt_mem \<Rightarrow> ('e, 'a) pt_mem option) \<Rightarrow>
     nat \<Rightarrow> u64 \<Rightarrow> ('e, 'a) pt_mem \<Rightarrow> ('e, 'a) pt_mem option" where
  "drop_table h al free_frame 0 table =
     each (\<lambda>i m.
       let pte = store m table i in
       if is_valid h pte then free_frame (tte_address h pte) m else Some m) [0..<TABLE_ENTRIES]"
| "drop_table h al free_frame (Suc level) table =
     each (\<lambda>i m.
       let pte = store m table i in
       if is_valid h pte then
         if is_table h pte then
           (let child = phys_to_dmap al (tte_address h pte) in
            if child \<noteq> 0 then drop_table h al free_frame level child m else Some m)
         else free_frame (tte_address h pte) m
       else Some m) [0..<TABLE_ENTRIES]"

definition as_drop ::
    "('e, 'ap, 'sh) tte_ops \<Rightarrow> ('e, 'a) table_ops \<Rightarrow> (usize \<Rightarrow> ('e, 'a) pt_mem \<Rightarrow> ('e, 'a) pt_mem option) \<Rightarrow>
     address_space \<Rightarrow> ('e, 'a) pt_mem \<Rightarrow> ('e, 'a) pt_mem option" where
  "as_drop h al free_frame sp m =
     do { root \<leftarrow> as_root sp; drop_table h al free_frame (max_level sp) root m }"

section \<open>Locking a range\<close>

record cursor =
  c_space :: address_space
  c_first :: usize
  c_last :: usize
  read_guards :: "usize list"
  write_guard :: "usize option"
  covering_pa :: usize
  covering_level :: nat

text \<open>\<open>range.end.saturating_sub(1)\<close>\<close>

definition last_in :: "usize \<Rightarrow> usize" where
  "last_in fin = (if fin = 0 then 0 else fin - 1)"

fun lock_loop ::
    "('e, 'ap, 'sh) tte_ops \<Rightarrow> ('e, 'a) table_ops \<Rightarrow> usize \<Rightarrow> usize \<Rightarrow> nat \<Rightarrow> usize \<Rightarrow> usize list \<Rightarrow>
     ('e, 'a, 'ap, nat \<times> usize \<times> usize list) user" where
  "lock_loop h al first fin 0 pa guards = pret (0, pa, guards)"
| "lock_loop h al first fin (Suc level) pa guards =
     (let start_i = entry_index first (Suc level); end_i = entry_index (last_in fin) (Suc level) in
      if start_i = end_i then
        pthen (lock_read pa) (\<lambda>m.
          let pte = store m (phys_to_dmap al pa) start_i in
          if is_valid h pte \<and> is_table h pte
          then lock_loop h al first fin level (tte_address h pte) (guards @ [pa]) m
          else pthen (unlock_read pa) (pret (Suc level, pa, guards)) m)
      else pret (Suc level, pa, guards))"

definition as_lock ::
    "('e, 'ap, 'sh) tte_ops \<Rightarrow> ('e, 'a) table_ops \<Rightarrow> address_space \<Rightarrow> usize \<Rightarrow> usize \<Rightarrow> ('e, 'a, 'ap, cursor) user" where
  "as_lock h al sp first fin =
     (case as_root sp of
        None \<Rightarrow> pfail Panics
      | Some root \<Rightarrow>
          pbind (lock_loop h al first fin (max_level sp) (dmap_to_phys al root) []) (\<lambda>(level, pa, guards).
          pthen (lock_write pa)
            (pret \<lparr>c_space = sp, c_first = first, c_last = fin, read_guards = guards, write_guard = Some pa,
                   covering_pa = pa, covering_level = level\<rparr>)))"

definition cursor_drop :: "cursor \<Rightarrow> ('e, 'a, 'ap, unit) user" where
  "cursor_drop c =
     pthen (case write_guard c of None \<Rightarrow> pret () | Some pa \<Rightarrow> unlock_write pa)
       (pfor (rev (read_guards c)) unlock_read)"

section \<open>Operations of the cursor\<close>

text \<open>The addresses of \<open>(start..end).step_by(PAGE_SIZE)\<close>.\<close>

definition page_steps :: "usize \<Rightarrow> usize \<Rightarrow> usize list" where
  "page_steps first fin =
     map (\<lambda>k. first + of_nat (k * PAGE_SIZE)) [0..<(unat fin - unat first + PAGE_SIZE - 1) div PAGE_SIZE]"

definition lift_step :: "(('e, 'a, 'ap) user_mem \<Rightarrow> ('e, 'a, 'ap) user_mem option) \<Rightarrow> ('e, 'a, 'ap, unit) user" where
  "lift_step f m = map_option (\<lambda>m'. (Inr (), m')) (f m)"

fun update_leaf_from ::
    "('e, 'ap, 'sh) tte_ops \<Rightarrow> ('e, 'a) table_ops \<Rightarrow> usize \<Rightarrow> 'ap status \<Rightarrow> nat \<Rightarrow> usize \<Rightarrow> ('e, 'a, 'ap, unit) user" where
  "update_leaf_from h al va st 0 pa =
     write_meta pa (\<lambda>meta.
       let arr = (case meta of None \<Rightarrow> replicate TABLE_ENTRIES Invalid | Some a \<Rightarrow> a) in
       Some (arr[entry_index va 0 := st]))"
| "update_leaf_from h al va st (Suc level) pa =
     (\<lambda>m. let pte = store m (phys_to_dmap al pa) (entry_index va (Suc level)) in
        if is_valid h pte \<and> is_table h pte then update_leaf_from h al va st level (tte_address h pte) m
        else pret () m)"

definition update_leaf_meta ::
    "('e, 'ap, 'sh) tte_ops \<Rightarrow> ('e, 'a) table_ops \<Rightarrow> cursor \<Rightarrow> usize \<Rightarrow> 'ap status \<Rightarrow> ('e, 'a, 'ap, unit) user" where
  "update_leaf_meta h al c va st = update_leaf_from h al va st (covering_level c) (covering_pa c)"

definition cursor_map ::
    "('e, 'ap, 'sh) tte_ops \<Rightarrow> ('e, 'a) table_ops \<Rightarrow> cursor \<Rightarrow> u64 \<Rightarrow> ('ap, 'sh) page_attrs \<Rightarrow> ('e, 'a, 'ap, unit) user" where
  "cursor_map h al c target_pa_start a =
     pfor (zip [0..<length (page_steps (c_first c) (c_last c))] (page_steps (c_first c) (c_last c))) (\<lambda>(k, va).
       let current_pa = target_pa_start + of_nat (k * PAGE_SIZE) in
       case as_root (c_space c) of
         None \<Rightarrow> pfail Panics
       | Some root \<Rightarrow>
           pthen (lift_step (map_page h (user_allocator al) a root current_pa va))
             (update_leaf_meta h al c va (Mapped current_pa (access a))))"

definition cursor_unmap ::
    "('e, 'ap, 'sh) tte_ops \<Rightarrow> ('e, 'a) table_ops \<Rightarrow> cursor \<Rightarrow> ('e, 'a, 'ap, unit) user" where
  "cursor_unmap h al c =
     pfor (page_steps (c_first c) (c_last c)) (\<lambda>va.
       case as_root (c_space c) of
         None \<Rightarrow> pfail Panics
       | Some root \<Rightarrow>
           pthen (lift_step (unmap_page h (user_allocator al) root va)) (update_leaf_meta h al c va Invalid))"

fun ensure_leaf_from ::
    "('e, 'ap, 'sh) tte_ops \<Rightarrow> ('e, 'a) table_ops \<Rightarrow> usize \<Rightarrow> nat \<Rightarrow> usize \<Rightarrow> ('e, 'a, 'ap) user_mem \<Rightarrow>
     ('e, 'a, 'ap) user_mem option" where
  "ensure_leaf_from h al va 0 pa m = Some m"
| "ensure_leaf_from h al va (Suc level) pa m =
     (let t = phys_to_dmap al pa; i = entry_index va (Suc level) in
      if is_valid h (store m t i) then ensure_leaf_from h al va level (tte_address h (store m t i)) m
      else do { (new, m1) \<leftarrow> user_alloc_table al m;
                let pte = new_table h (dmap_to_phys al new);
                ensure_leaf_from h al va level (tte_address h pte) (set_entry t i pte m1) })"

definition cursor_mark ::
    "('e, 'ap, 'sh) tte_ops \<Rightarrow> ('e, 'a) table_ops \<Rightarrow> cursor \<Rightarrow> 'ap status \<Rightarrow> ('e, 'a, 'ap, unit) user" where
  "cursor_mark h al c st =
     pfor (page_steps (c_first c) (c_last c)) (\<lambda>va.
       pthen (lift_step (ensure_leaf_from h al va (covering_level c) (covering_pa c))) (update_leaf_meta h al c va st))"

text \<open>\<open>query\<close> reads the metadata under the read lock of the leaf table.\<close>

definition read_meta :: "usize \<Rightarrow> ('e, 'a, 'ap, 'ap status list option) user" where
  "read_meta pa m =
     (case get_page_descriptor (descs m) pa of
        None \<Rightarrow> pfail Panics m
      | Some i \<Rightarrow>
          let d = desc_at (descs m) i in
          if d_writer d then pfail Waits m else pret (d_meta d) m)"

fun query_from ::
    "('e, 'ap, 'sh) tte_ops \<Rightarrow> ('e, 'a) table_ops \<Rightarrow> usize \<Rightarrow> nat \<Rightarrow> usize \<Rightarrow> ('e, 'a, 'ap, 'ap status) user" where
  "query_from h al va 0 pa =
     (\<lambda>m. let i = entry_index va 0 in
        if \<not> is_valid h (store m (phys_to_dmap al pa) i) then pret Invalid m
        else pbind (read_meta pa) (\<lambda>meta. pret (case meta of None \<Rightarrow> Invalid | Some a \<Rightarrow> a ! i)) m)"
| "query_from h al va (Suc level) pa =
     (\<lambda>m. let pte = store m (phys_to_dmap al pa) (entry_index va (Suc level)) in
        if \<not> is_valid h pte then pret Invalid m
        else query_from h al va level (tte_address h pte) m)"

definition cursor_query ::
    "('e, 'ap, 'sh) tte_ops \<Rightarrow> ('e, 'a) table_ops \<Rightarrow> cursor \<Rightarrow> usize \<Rightarrow> ('e, 'a, 'ap, 'ap status) user" where
  "cursor_query h al c va =
     (if \<not> (c_first c \<le> va \<and> va < c_last c) then pret Invalid
      else query_from h al va (covering_level c) (covering_pa c))"

section \<open>Locks that are held\<close>

definition read_held :: "('e, 'a, 'ap) user_mem \<Rightarrow> usize \<Rightarrow> bool" where
  "read_held m pa \<longleftrightarrow> (\<exists>i. get_page_descriptor (descs m) pa = Some i \<and> 0 < d_readers (desc_at (descs m) i))"

definition write_held :: "('e, 'a, 'ap) user_mem \<Rightarrow> usize \<Rightarrow> bool" where
  "write_held m pa \<longleftrightarrow> (\<exists>i. get_page_descriptor (descs m) pa = Some i \<and> d_writer (desc_at (descs m) i))"

lemma descriptor_bound: "get_page_descriptor pds pa = Some i \<Longrightarrow> \<exists>ds r. pds = Some (ds, r) \<and> i < length ds"
  by (auto simp: get_page_descriptor_def Let_def split: option.splits if_splits prod.splits)

lemma get_set_desc [simp]: "get_page_descriptor (set_desc pds i d) pa = get_page_descriptor pds pa"
  by (auto simp: get_page_descriptor_def set_desc_def split: option.splits)

lemma desc_at_set:
  assumes "get_page_descriptor pds pa = Some i"
  shows "desc_at (set_desc pds i d) j = (if j = i then d else desc_at pds j)"
  using descriptor_bound [OF assms] by (auto simp: desc_at_def set_desc_def)

lemma set_set_desc [simp]: "set_desc (set_desc pds i d) i d' = set_desc pds i d'"
  by (auto simp: set_desc_def split: option.splits intro: option.expand)

lemma set_same_desc: "set_desc pds i (desc_at pds i) = pds"
  by (cases pds) (auto simp: set_desc_def desc_at_def)

lemma descs_simps [simp]:
  "descs (with_descs pds m) = pds" "store (with_descs pds m) = store m" "with_descs pds (with_descs pds' m) = with_descs pds m"
  "with_descs (descs m) m = m" "descs (set_entry t i e m) = descs m"
  by (simp_all add: descs_def with_descs_def set_entry_def)

lemmas user_defs = lock_read_def unlock_read_def lock_write_def unlock_write_def on_desc_def pret_def pfail_def Let_def

text \<open>Changes of locks alone, and only of those that \<open>D\<close> names.\<close>

definition metas :: "'ap page_descriptors \<Rightarrow> ('ap status list option list \<times> usize \<times> usize) option" where
  "metas = map_option (\<lambda>(ds, r). (map d_meta ds, r))"

definition locks_only :: "nat option set \<Rightarrow> ('e, 'a, 'ap) user_mem \<Rightarrow> ('e, 'a, 'ap) user_mem \<Rightarrow> bool" where
  "locks_only D m m' \<longleftrightarrow>
     store m' = store m \<and> fst (pool m') = fst (pool m) \<and> metas (descs m') = metas (descs m) \<and>
     (\<forall>x. get_page_descriptor (descs m) x \<notin> D \<longrightarrow> read_held m' x = read_held m x \<and> write_held m' x = write_held m x)"

lemma get_metas: "metas pds = metas pds' \<Longrightarrow> get_page_descriptor pds x = get_page_descriptor pds' x"
proof -
  assume *: "metas pds = metas pds'"
  show ?thesis
  proof (cases pds)
    case None
    with * show ?thesis by (cases pds') (simp_all add: metas_def)
  next
    case (Some a)
    obtain ds lo hi where a: "a = (ds, lo, hi)" by (cases a)
    with * Some obtain ds' where "pds' = Some (ds', lo, hi)" "length ds' = length ds"
      by (cases pds') (auto simp: metas_def dest: map_eq_imp_length_eq)
    with Some a show ?thesis by (simp add: get_page_descriptor_def)
  qed
qed

lemma locks_only_refl: "locks_only D m m"
  by (simp add: locks_only_def)

lemma locks_only_trans: "locks_only D m m1 \<Longrightarrow> locks_only D m1 m2 \<Longrightarrow> locks_only D m m2"
  using get_metas unfolding locks_only_def by metis

lemma locks_only_mono: "locks_only D m m' \<Longrightarrow> D \<subseteq> D' \<Longrightarrow> locks_only D' m m'"
  unfolding locks_only_def by blast

lemma locks_only_set:
  assumes "get_page_descriptor (descs m) pa = Some i" and "d_meta d = d_meta (desc_at (descs m) i)"
  shows "locks_only {Some i} m (with_descs (set_desc (descs m) i d) m)"
proof -
  obtain ds r where ds: "descs m = Some (ds, r)" "i < length ds" using descriptor_bound [OF assms(1)] by blast
  have "(map d_meta ds)[i := d_meta d] = map d_meta ds"
    using assms(2) ds by (metis desc_at_def fst_conv list_update_id nth_map option.sel)
  then have "metas (set_desc (descs m) i d) = metas (descs m)" using ds by (simp add: metas_def set_desc_def map_update)
  moreover have "fst (pool (with_descs (set_desc (descs m) i d) m)) = fst (pool m)" by (simp add: with_descs_def)
  ultimately show ?thesis using desc_at_set [OF assms(1)] by (auto simp: locks_only_def read_held_def write_held_def)
qed

text \<open>What a statement on a descriptor did when it returned.\<close>

lemma on_desc_Some:
  assumes "on_desc pa g f m = Some (r, m')"
  shows "case get_page_descriptor (descs m) pa of
      None \<Rightarrow> r = Inl Panics \<and> m' = m
    | Some i \<Rightarrow> (if g (desc_at (descs m) i)
        then r = Inr () \<and> m' = with_descs (set_desc (descs m) i (f (desc_at (descs m) i))) m
        else r = Inl Waits \<and> m' = m)"
  using assms by (auto simp: user_defs split: option.splits if_splits)



lemma write_meta_waits: "write_held m pa \<Longrightarrow> write_meta pa f m = Some (Inl Waits, m)"
  by (auto simp: write_held_def write_meta_def user_defs unlocked_def)

lemma read_meta_waits: "write_held m pa \<Longrightarrow> read_meta pa m = Some (Inl Waits, m)"
  by (auto simp: write_held_def read_meta_def user_defs)

lemma lock_read_got:
  assumes "lock_read pa m = Some (Inr (), m')"
  shows "unlock_read pa m' = Some (Inr (), m)" "store m' = store m" "read_held m' pa"
    "read_held m x \<Longrightarrow> read_held m' x" "write_held m' x = write_held m x"
    "locks_only {get_page_descriptor (descs m) pa} m m'"
proof -
  obtain i where i: "get_page_descriptor (descs m) pa = Some i"
      and m': "m' = with_descs (set_desc (descs m) i ((desc_at (descs m) i)\<lparr>d_readers := d_readers (desc_at (descs m) i) + 1\<rparr>)) m"
    using on_desc_Some [OF assms [unfolded lock_read_def]] by (auto split: option.splits if_splits)
  note at = desc_at_set [OF i]
  show "store m' = store m" by (simp add: m')
  show "unlock_read pa m' = Some (Inr (), m)" by (simp add: m' user_defs i at set_same_desc)
  show "read_held m' pa" by (simp add: read_held_def m' i at)
  show "read_held m' x" if "read_held m x" using that by (auto simp: read_held_def m' at)
  show "write_held m' x = write_held m x" by (auto simp: write_held_def m' at)
  show "locks_only {get_page_descriptor (descs m) pa} m m'" unfolding i m' by (rule locks_only_set [OF i]) simp
qed

lemma lock_write_got:
  assumes "lock_write pa m = Some (Inr (), m')"
  shows "unlock_write pa m' = Some (Inr (), m)" "store m' = store m" "write_held m' pa" "read_held m' x = read_held m x"
    "locks_only {get_page_descriptor (descs m) pa} m m'"
proof -
  obtain i where i: "get_page_descriptor (descs m) pa = Some i" and u: "unlocked (desc_at (descs m) i)"
      and m': "m' = with_descs (set_desc (descs m) i ((desc_at (descs m) i)\<lparr>d_writer := True\<rparr>)) m"
    using on_desc_Some [OF assms [unfolded lock_write_def]] by (auto split: option.splits if_splits)
  note at = desc_at_set [OF i]
  have "(desc_at (descs m) i)\<lparr>d_writer := False\<rparr> = desc_at (descs m) i" using u by (simp add: unlocked_def)
  then show "unlock_write pa m' = Some (Inr (), m)" by (simp add: m' user_defs i at set_same_desc)
  show "store m' = store m" by (simp add: m')
  show "write_held m' pa" by (simp add: write_held_def m' i at)
  show "read_held m' x = read_held m x" by (auto simp: read_held_def m' at)
  show "locks_only {get_page_descriptor (descs m) pa} m m'" unfolding i m' by (rule locks_only_set [OF i]) simp
qed

section \<open>The walk of a lock\<close>

text \<open>The tables a walk passes, as a property of the memory: each has a table in the one entry that covers the range.\<close>

fun covers ::
    "('e, 'ap, 'sh) tte_ops \<Rightarrow> ('e, 'a) table_ops \<Rightarrow> (u64 \<Rightarrow> nat \<Rightarrow> 'e) \<Rightarrow> usize \<Rightarrow> usize \<Rightarrow> nat \<Rightarrow> usize \<Rightarrow> usize list \<Rightarrow>
     nat \<Rightarrow> usize \<Rightarrow> bool" where
  "covers h al S first fin level pa [] l p \<longleftrightarrow> l = level \<and> p = pa"
| "covers h al S first fin 0 pa (k # ks) l p \<longleftrightarrow> False"
| "covers h al S first fin (Suc level) pa (k # ks) l p \<longleftrightarrow>
     k = pa \<and> entry_index first (Suc level) = entry_index (last_in fin) (Suc level) \<and>
     is_link h (S (phys_to_dmap al pa) (entry_index first (Suc level))) \<and>
     covers h al S first fin level (tte_address h (S (phys_to_dmap al pa) (entry_index first (Suc level)))) ks l p"

text \<open>Why a walk ends above the last level.\<close>

definition stopped ::
    "('e, 'ap, 'sh) tte_ops \<Rightarrow> ('e, 'a) table_ops \<Rightarrow> (u64 \<Rightarrow> nat \<Rightarrow> 'e) \<Rightarrow> usize \<Rightarrow> usize \<Rightarrow> nat \<Rightarrow> usize \<Rightarrow> bool" where
  "stopped h al S first fin l p \<longleftrightarrow>
     l = 0 \<or> entry_index first l \<noteq> entry_index (last_in fin) l \<or> \<not> is_link h (S (phys_to_dmap al p) (entry_index first l))"

lemma lock_loop_ok:
  assumes "lock_loop h al first fin level pa guards m = Some (Inr (l, p, guards'), m')"
  shows "\<exists>ks. guards' = guards @ ks \<and> covers h al (store m) first fin level pa ks l p \<and> store m' = store m \<and>
    pfor (rev ks) unlock_read m' = Some (Inr (), m) \<and>
    (\<forall>k \<in> set ks. read_held m' k) \<and> (\<forall>x. read_held m x \<longrightarrow> read_held m' x) \<and>
    locks_only (get_page_descriptor (descs m) ` set ks) m m' \<and> stopped h al (store m) first fin l p"
  using assms
proof (induction level arbitrary: pa guards m)
  case 0
  then have "l = 0" "p = pa" "guards' = guards" "m' = m" by (simp_all add: pret_def)
  then show ?case by (intro exI [of _ "[]"]) (simp add: pret_def locks_only_refl stopped_def)
next
  case (Suc level)
  let ?i = "entry_index first (Suc level)"
  show ?case
  proof (cases "?i = entry_index (last_in fin) (Suc level)")
    case False
    with Suc.prems have "l = Suc level" "p = pa" "guards' = guards" "m' = m" by (simp_all add: pret_def)
    then show ?thesis using False by (intro exI [of _ "[]"]) (simp add: pret_def locks_only_refl stopped_def)
  next
    case True
    let ?e = "store m (phys_to_dmap al pa) ?i"
    from Suc.prems True obtain u m1 where r: "lock_read pa m = Some (Inr u, m1)"
        and k: "(let pte = store m1 (phys_to_dmap al pa) ?i in
          if is_valid h pte \<and> is_table h pte
          then lock_loop h al first fin level (tte_address h pte) (guards @ [pa]) m1
          else pthen (unlock_read pa) (pret (Suc level, pa, guards)) m1) = Some (Inr (l, p, guards'), m')"
      by (auto simp: Let_def elim: pbind_Inr)
    note got = lock_read_got [OF r [simplified]]
    show ?thesis
    proof (cases "is_valid h ?e \<and> is_table h ?e")
      case False
      with k got(1,2) have "l = Suc level" "p = pa" "guards' = guards" "m' = m"
        by (auto simp: Let_def pbind_def pret_def)
      then show ?thesis using False by (intro exI [of _ "[]"]) (simp add: pret_def locks_only_refl stopped_def is_link_def)
    next
      case link: True
      with k got(2) have run: "lock_loop h al first fin level (tte_address h ?e) (guards @ [pa]) m1 = Some (Inr (l, p, guards'), m')"
        by (simp add: Let_def)
      from Suc.IH [OF run] obtain ks where ks: "guards' = (guards @ [pa]) @ ks"
          "covers h al (store m1) first fin level (tte_address h ?e) ks l p" "store m' = store m1"
          "pfor (rev ks) unlock_read m' = Some (Inr (), m1)" "\<forall>k \<in> set ks. read_held m' k"
          "\<forall>x. read_held m1 x \<longrightarrow> read_held m' x"
          "locks_only (get_page_descriptor (descs m1) ` set ks) m1 m'" "stopped h al (store m1) first fin l p" by blast
      have same: "get_page_descriptor (descs m1) = get_page_descriptor (descs m)"
        using got(6) by (auto simp: locks_only_def intro: get_metas)
      have "locks_only (get_page_descriptor (descs m) ` set (pa # ks)) m m'"
        by (rule locks_only_trans [OF locks_only_mono [OF got(6)] locks_only_mono [OF ks(7)]]) (auto simp: same)
      note eff = this ks(8) [unfolded got(2)]
      have "pfor (rev (pa # ks)) unlock_read m' = Some (Inr (), m)"
        using ks(4) got(1) by (simp add: pfor_append pbind_def pret_def)
      then show ?thesis using ks(1-6) got(1-5) link True eff by (intro exI [of _ "pa # ks"]) (simp add: is_link_def)
    qed
  qed
qed

text \<open>The parts of a successful lock.\<close>

lemma as_lock_ok:
  assumes "as_lock h al sp first fin m = Some (Inr c, m')"
  obtains root m1 where "as_root sp = Some root"
    "covers h al (store m) first fin (max_level sp) (dmap_to_phys al root) (read_guards c) (covering_level c) (covering_pa c)"
    "store m' = store m" "\<forall>k \<in> set (read_guards c). read_held m' k" "write_held m' (covering_pa c)"
    "write_guard c = Some (covering_pa c)" "c_space c = sp" "c_first c = first" "c_last c = fin"
    "unlock_write (covering_pa c) m' = Some (Inr (), m1)"
    "pfor (rev (read_guards c)) unlock_read m1 = Some (Inr (), m)"
    "locks_only (get_page_descriptor (descs m) ` (set (read_guards c) \<union> {covering_pa c})) m m'"
    "stopped h al (store m) first fin (covering_level c) (covering_pa c)"
proof -
  obtain root where root: "as_root sp = Some root" using assms by (auto simp: as_lock_def pfail_def split: option.splits)
  from assms root obtain x m1 where loop: "lock_loop h al first fin (max_level sp) (dmap_to_phys al root) [] m = Some (Inr x, m1)"
      and rest: "(case x of (level, pa, guards) \<Rightarrow>
          pthen (lock_write pa)
            (pret \<lparr>c_space = sp, c_first = first, c_last = fin, read_guards = guards, write_guard = Some pa,
                   covering_pa = pa, covering_level = level\<rparr>)) m1 = Some (Inr c, m')"
    by (auto simp: as_lock_def elim: pbind_Inr)
  obtain l p gs where x: "x = (l, p, gs)" by (cases x)
  from rest x obtain u m2 where w: "lock_write p m1 = Some (Inr u, m2)"
      and c: "c = \<lparr>c_space = sp, c_first = first, c_last = fin, read_guards = gs, write_guard = Some p,
                   covering_pa = p, covering_level = l\<rparr>" "m' = m2"
    by (auto simp: pret_def elim: pbind_Inr)
  note got = lock_write_got [OF w [simplified]]
  obtain ks where ks: "gs = ks" "covers h al (store m) first fin (max_level sp) (dmap_to_phys al root) ks l p" "store m1 = store m"
      "pfor (rev ks) unlock_read m1 = Some (Inr (), m)" "\<forall>k \<in> set ks. read_held m1 k"
      "locks_only (get_page_descriptor (descs m) ` set ks) m m1" "stopped h al (store m) first fin l p"
    using lock_loop_ok [OF loop [unfolded x]] by auto
  have same: "get_page_descriptor (descs m1) = get_page_descriptor (descs m)"
    using ks(6) by (auto simp: locks_only_def intro: get_metas)
  have "locks_only (get_page_descriptor (descs m) ` (set ks \<union> {p})) m m'" unfolding c(2)
    by (rule locks_only_trans [OF locks_only_mono [OF ks(6)] locks_only_mono [OF got(5)]]) (auto simp: same)
  then show ?thesis using ks got(1-4) c root by (intro that [of root m1]) auto
qed

section \<open>Overlapping ranges\<close>

text \<open>The number of the piece of memory that an entry of a level covers.\<close>

definition piece :: "nat \<Rightarrow> usize \<Rightarrow> nat" where
  "piece level addr = unat addr div 2 ^ (PAGE_SHIFT + level * PAGE_INDEX_BITS)"


lemma entry_index_piece: "level \<le> 4 \<Longrightarrow> entry_index addr level = piece level addr mod TABLE_ENTRIES"
proof -
  assume "level \<le> 4"
  then have s: "level_shift level = PAGE_SHIFT + level * PAGE_INDEX_BITS"
    by (simp add: level_shift_def PAGE_SHIFT_def PAGE_INDEX_BITS_def)
  have "(of_nat TABLE_ENTRIES - 1 :: usize) = mask 11" by (simp add: TABLE_ENTRIES_def mask_eq_exp_minus_1)
  then have "entry_index addr level = unat (take_bit 11 (drop_bit (PAGE_SHIFT + level * PAGE_INDEX_BITS) addr))"
    by (simp only: entry_index_def s take_bit_eq_mask)
  also have "\<dots> = take_bit 11 (unat addr div 2 ^ (PAGE_SHIFT + level * PAGE_INDEX_BITS))"
    by (simp only: unsigned_take_bit_eq unat_drop_bit_eq) (simp only: drop_bit_eq_div)
  finally show ?thesis by (simp only: take_bit_eq_mod piece_def TABLE_ENTRIES_def) simp
qed











section \<open>What tables and their allocation leave alone\<close>

lemma frame_next_table:
  assumes "\<And>m t m'. I m \<Longrightarrow> alloc_table al m = Some (t, m') \<Longrightarrow> I m'" "\<And>t i e m. I m \<Longrightarrow> I (set_entry t i e m)"
    and "next_table h al f t i m = Some (n, m')" "I m"
  shows "I m'"
  using assms by (auto simp: next_table_def Let_def bind_eq_Some_conv split: if_splits)

lemma frame_map_page:
  assumes "\<And>m t m'. I m \<Longrightarrow> alloc_table al m = Some (t, m') \<Longrightarrow> I m'" "\<And>t i e m. I m \<Longrightarrow> I (set_entry t i e m)"
    and "map_page h al a root pa va m = Some m'" "I m"
  shows "I m'"
proof -
  from assms(3) obtain t i n1 m1 t1 i1 n2 m2 t2 i2 n3 m3 i3 e where
      "next_table h al (has_table h) t i m = Some (n1, m1)" "next_table h al (has_table h) t1 i1 m1 = Some (n2, m2)"
      "next_table h al (is_valid h) t2 i2 m2 = Some (n3, m3)" "m' = set_entry n3 i3 e m3"
    by (auto simp: map_page_def bind_eq_Some_conv)
  moreover have "I m2" if "next_table h al f t i m1 = Some (n, m2)" "I m1" for f t i m1 n m2
    by (rule frame_next_table [where I = I, OF _ _ that]) (use assms(1,2) in blast)+
  ultimately show ?thesis using assms(2,4) by metis
qed

lemma frame_prune:
  assumes "\<And>m t m'. I m \<Longrightarrow> free_table al t m = Some m' \<Longrightarrow> I m'" "\<And>t i e m. I m \<Longrightarrow> I (set_entry t i e m)"
    and "\<And>m m'. I m \<Longrightarrow> up m = Some m' \<Longrightarrow> I m'" "prune h al t i below up m = Some m'" "I m"
  shows "I m'"
proof (cases "is_table_empty h below m")
  case False
  with assms(4,5) show ?thesis by (simp add: prune_def)
next
  case True
  with assms(4) obtain m1 where "free_table al below m = Some m1" "up (clear_entry h t i m1) = Some m'"
    by (auto simp: prune_def bind_eq_Some_conv)
  then show ?thesis using assms(1,2,3,5) unfolding clear_entry_def by blast
qed

lemma frame_unmap_page:
  assumes f: "\<And>m t m'. I m \<Longrightarrow> free_table al t m = Some m' \<Longrightarrow> I m'" and e: "\<And>t i e m. I m \<Longrightarrow> I (set_entry t i e m)"
    and run: "unmap_page h al root va m = Some m'" and "I m"
  shows "I m'"
proof -
  have "m' = m \<or> (\<exists>a i b c j d k n x y. prune h al a i b (prune h al c j d (prune h al root k n Some)) (set_entry x y (
      set_tte_address h 0 (set_is_valid h False (store m x y))) m) = Some m')"
    using run unfolding unmap_page_def clear_entry_def Let_def by (auto simp: bind_eq_Some_conv split: if_splits)
  then show ?thesis
  proof (elim disjE exE)
    fix a i b c j d k n x y
    assume r: "prune h al a i b (prune h al c j d (prune h al root k n Some)) (set_entry x y (
      set_tte_address h 0 (set_is_valid h False (store m x y))) m) = Some m'"
    have p: "I m2" if "\<And>m m'. I m \<Longrightarrow> up m = Some m' \<Longrightarrow> I m'" "prune h al t i below up m1 = Some m2" "I m1" for t i below up m1 m2
      by (rule frame_prune [where I = I, OF _ _ _ that(2,3)]) (use f e that(1) in blast)+
    have 1: "I m2" if "prune h al root k n Some m1 = Some m2" "I m1" for m1 m2
      by (rule p [OF _ that]) simp
    have 2: "I m2" if "prune h al c j d (prune h al root k n Some) m1 = Some m2" "I m1" for m1 m2
      by (rule p [OF _ that]) (rule 1)
    show ?thesis by (rule p [OF _ r]) (rule 2, assumption+, rule e [OF \<open>I m\<close>])
  qed (use \<open>I m\<close> in simp)
qed

text \<open>The allocator of an address space changes no lock.\<close>

lemma outer_simps [simp]:
  "descs (outer_mem m pds) = pds" "store (outer_mem m pds) = store m" "fst (pool (outer_mem m pds)) = pool m"
  "store (inner_mem n) = store n" "pool (inner_mem n) = fst (pool n)"
  by (simp_all add: outer_mem_def descs_def inner_mem_def)

lemma write_meta_finishes:
  assumes "finishes (write_meta pa f) m = Some m'"
  shows "write_held m' x = write_held m x" "read_held m' x = read_held m x" "store m' = store m" "fst (pool m') = fst (pool m)"
proof -
  obtain r where run: "on_desc pa unlocked (\<lambda>d. d\<lparr>d_meta := f (d_meta d)\<rparr>) m = Some (Inr r, m')"
    using assms by (auto simp: finishes_def write_meta_def split: option.splits sum.splits)
  obtain i where i: "get_page_descriptor (descs m) pa = Some i"
      and m': "m' = with_descs (set_desc (descs m) i ((desc_at (descs m) i)\<lparr>d_meta := f (d_meta (desc_at (descs m) i))\<rparr>)) m"
    using on_desc_Some [OF run] by (auto split: option.splits if_splits)
  note at = desc_at_set [OF i]
  show "write_held m' x = write_held m x" by (auto simp: write_held_def m' at)
  show "read_held m' x = read_held m x" by (auto simp: read_held_def m' at)
  show "store m' = store m" "fst (pool m') = fst (pool m)" by (simp_all add: m' with_descs_def)
qed

lemma held_descs: "write_held m x = write_held m' x" if "descs m = descs m'"
  using that by (simp add: write_held_def)

lemma user_alloc_held:
  assumes "alloc_table (user_allocator al) m = Some (t, m')"
  shows "write_held m' x = write_held m x"
proof -
  obtain m1 pa where "finishes (write_meta pa (\<lambda>_. None)) (outer_mem m1 (descs m)) = Some m'"
    using assms by (auto simp: user_allocator_def user_alloc_table_def bind_eq_Some_conv)
  from write_meta_finishes(1) [OF this] show ?thesis by (simp add: write_held_def)
qed

lemma user_free_held:
  assumes "free_table (user_allocator al) t m = Some m'"
  shows "write_held m' x = write_held m x"
proof -
  obtain m1 m2 pa where "finishes (write_meta pa (\<lambda>_. None)) m = Some m1" "m' = outer_mem m2 (descs m1)"
    using assms by (auto simp: user_allocator_def user_free_table_def bind_eq_Some_conv)
  then show ?thesis using write_meta_finishes(1) [of pa "\<lambda>_. None" m m1 x] by (simp add: write_held_def)
qed

lemma set_entry_held: "write_held (set_entry t i e m) x = write_held m x"
  by (rule held_descs) simp

lemma map_page_held:
  assumes "map_page h (user_allocator al) a root pa va m = Some m'"
  shows "write_held m' x = write_held m x"
  by (rule frame_map_page [where I = "\<lambda>m'. write_held m' x = write_held m x", OF _ _ assms])
    (simp_all add: user_alloc_held set_entry_held)

lemma unmap_page_held:
  assumes "unmap_page h (user_allocator al) root va m = Some m'"
  shows "write_held m' x = write_held m x"
  by (rule frame_unmap_page [where I = "\<lambda>m'. write_held m' x = write_held m x", OF _ _ assms])
    (simp_all add: user_free_held set_entry_held)

lemma page_steps_Cons: "first < fin \<Longrightarrow> \<exists>vs. page_steps first fin = first # vs"
proof -
  assume "first < fin"
  then have "0 < (unat fin - unat first + PAGE_SIZE - 1) div PAGE_SIZE"
    by (simp add: word_less_nat_alt div_greater_zero_iff PAGE_SIZE_def)
  then show ?thesis by (simp add: page_steps_def upt_conv_Cons)
qed

text \<open>A leaf whose write lock is held cannot be updated.\<close>

lemma update_leaf_waits: "covering_level c = 0 \<Longrightarrow> write_held m (covering_pa c) \<Longrightarrow>
    update_leaf_meta h al c va st m = Some (Inl Waits, m)"
  by (simp add: update_leaf_meta_def write_meta_waits)

text \<open>For the witnesses: an address space of four levels whose tables lie one after the other, each with a table in its
  first entry, and a descriptor for every page.\<close>

definition example_pages :: "(bool \<times> bool \<times> u64, unit) table_ops" where
  "example_pages = \<lparr>alloc_table = (\<lambda>_. None), free_table = (\<lambda>_ _. None), phys_to_dmap = id, dmap_to_phys = id\<rparr>"

definition example_space :: address_space where
  "example_space = from_root_table None (Some 0x4000)"

definition example_user :: "(bool \<times> bool \<times> u64, unit, unit) user_mem" where
  "example_user =
     \<lparr>store = (\<lambda>t i. if i = 0 then (True, True, t + 0x4000) else (False, False, 0)),
      pool = ((), Some (
       [\<lparr>d_readers = 0, d_writer = False, d_meta = None\<rparr>, \<lparr>d_readers = 0, d_writer = False, d_meta = None\<rparr>,
        \<lparr>d_readers = 0, d_writer = False, d_meta = None\<rparr>, \<lparr>d_readers = 0, d_writer = False, d_meta = None\<rparr>,
        \<lparr>d_readers = 0, d_writer = False, d_meta = None\<rparr>], 0, 0x14000))\<rparr>"

lemma example_index: "entry_index 0 level = 0" "level \<le> 4 \<Longrightarrow> entry_index 0x3fff level = 0"
proof -
  show "entry_index 0 level = 0" by (simp add: entry_index_def)
  have "16383 div 2 ^ (PAGE_SHIFT + level * PAGE_INDEX_BITS) = (0::nat)"
    by (rule div_less, rule less_le_trans [of _ "2 ^ 14"]) (simp, rule power_increasing, simp_all add: PAGE_SHIFT_def)
  then show "entry_index 0x3fff level = 0" if "level \<le> 4"
    using that by (simp add: entry_index_piece piece_def)
qed

definition example_locked :: "(bool \<times> bool \<times> u64, unit, unit) user_mem" where
  "example_locked =
     example_user\<lparr>pool := ((), Some (
       [\<lparr>d_readers = 0, d_writer = False, d_meta = None\<rparr>, \<lparr>d_readers = 1, d_writer = False, d_meta = None\<rparr>,
        \<lparr>d_readers = 1, d_writer = False, d_meta = None\<rparr>, \<lparr>d_readers = 1, d_writer = False, d_meta = None\<rparr>,
        \<lparr>d_readers = 0, d_writer = True, d_meta = None\<rparr>], 0, 0x14000))\<rparr>"

definition example_cursor :: cursor where
  "example_cursor =
     \<lparr>c_space = example_space, c_first = 0, c_last = 0x4000, read_guards = [0x4000, 0x8000, 0xc000],
      write_guard = Some 0x10000, covering_pa = 0x10000, covering_level = 0\<rparr>"

lemma example_desc: "length ds = 5 \<Longrightarrow> get_page_descriptor (Some (ds, 0, 0x14000)) (of_nat k * 0x4000) = Some k" if "k < 5"
proof -
  have "k = 0 \<or> k = 1 \<or> k = 2 \<or> k = 3 \<or> k = 4" using that by auto
  then show "length ds = 5 \<Longrightarrow> ?thesis" by (elim disjE) (simp_all add: get_page_descriptor_def PAGE_SHIFT_def)
qed

lemmas example_descs = example_desc [of 1, simplified] example_desc [of 2, simplified] example_desc [of 3, simplified]
  example_desc [of 4, simplified]

lemma example_frames: "frame_bits 0x8000 = 0x8000" "frame_bits 0xc000 = 0xc000" "frame_bits 0x10000 = 0x10000"
  by (simp_all add: frame_bits_def PAGE_MASK_def PAGE_SIZE_val)

lemmas example_eval = example_frames example_pages_def example_space_def example_user_def from_root_table_def as_lock_def pbind_def
  on_desc_def lock_read_def lock_write_def desc_at_def set_desc_def descs_def with_descs_def
  pret_def pfail_def unlocked_def last_in_def example_index example_descs Let_def

lemma example_lock: "as_lock example_tte example_pages example_space 0 0x4000 example_user = Some (Inr example_cursor, example_locked)"
  by (simp add: example_eval example_tte_def numeral_3_eq_3 example_locked_def example_cursor_def)

section \<open>Guarantees of cursors\<close>

text \<open>C19: Dropping a cursor right after its lock gives back the memory and every lock exactly as they were.\<close>

theorem cursor_drop_restores:
  assumes "as_lock h al sp first fin m = Some (Inr c, m')"
  shows "cursor_drop c m' = Some (Inr (), m)"
proof (rule as_lock_ok [OF assms])
  fix root m1
  assume "write_guard c = Some (covering_pa c)" "unlock_write (covering_pa c) m' = Some (Inr (), m1)"
    "pfor (rev (read_guards c)) unlock_read m1 = Some (Inr (), m)"
  then show ?thesis by (simp add: cursor_drop_def pbind_def)
qed

theorem cursor_drop_restores_witness:
  "\<exists>c m'. as_lock example_tte example_pages example_space 0 0x4000 example_user = Some (Inr c, m') \<and> read_held m' 0x4000 \<and>
     cursor_drop c m' = Some (Inr (), example_user)"
proof -
  have "read_held example_locked 0x4000"
    by (simp add: read_held_def example_locked_def descs_def example_descs desc_at_def)
  with example_lock cursor_drop_restores [OF example_lock] show ?thesis by blast
qed



text \<open>C26: A cursor that covers its range by a last-level table can do nothing with it: mapping, unmapping and marking
  never return, and neither does a query for a mapped page. They take the lock that the cursor itself holds.\<close>

theorem cursor_leaf_deadlocks:
  assumes lock: "as_lock h al sp first fin m = Some (Inr c, m1)" and "covering_level c = 0" "first < fin"
  shows "(\<forall>pa a m2. cursor_map h al c pa a m1 \<noteq> Some (Inr (), m2)) \<and> (\<forall>m2. cursor_unmap h al c m1 \<noteq> Some (Inr (), m2)) \<and>
    (\<forall>st. cursor_mark h al c st m1 = Some (Inl Waits, m1)) \<and>
    (\<forall>va. first \<le> va \<longrightarrow> va < fin \<longrightarrow> is_valid h (store m1 (phys_to_dmap al (covering_pa c)) (entry_index va 0)) \<longrightarrow>
      cursor_query h al c va m1 = Some (Inl Waits, m1))"
proof (rule as_lock_ok [OF lock])
  fix root
  assume root: "as_root sp = Some root" and held: "write_held m1 (covering_pa c)"
    and c: "c_space c = sp" "c_first c = first" "c_last c = fin"
  obtain vs where vs: "page_steps first fin = first # vs" using page_steps_Cons [OF \<open>first < fin\<close>] by blast
  note waits = update_leaf_waits [OF \<open>covering_level c = 0\<close>]
  have "cursor_map h al c pa a m1 \<noteq> Some (Inr (), m2)" for pa a m2
  proof
    assume "cursor_map h al c pa a m1 = Some (Inr (), m2)"
    then obtain m3 m4 where "map_page h (user_allocator al) a root pa first m1 = Some m3"
        "update_leaf_meta h al c first (Mapped pa (access a)) m3 = Some (Inr (), m4)"
      by (auto simp: cursor_map_def c vs root upt_conv_Cons lift_step_def simp del: upt_Suc elim!: pbind_Inr)
    then show False using map_page_held [of h al a root pa first m1 m3 "covering_pa c"] held by (simp add: waits)
  qed
  moreover have "cursor_unmap h al c m1 \<noteq> Some (Inr (), m2)" for m2
  proof
    assume "cursor_unmap h al c m1 = Some (Inr (), m2)"
    then obtain m3 m4 where "unmap_page h (user_allocator al) root first m1 = Some m3"
        "update_leaf_meta h al c first Invalid m3 = Some (Inr (), m4)"
      by (auto simp: cursor_unmap_def c vs root lift_step_def elim!: pbind_Inr)
    then show False using unmap_page_held [of h al root first m1 m3 "covering_pa c"] held by (simp add: waits)
  qed
  moreover have "cursor_mark h al c st m1 = Some (Inl Waits, m1)" for st
    by (simp add: cursor_mark_def c vs pbind_def lift_step_def assms(2) waits held)
  moreover have "cursor_query h al c va m1 = Some (Inl Waits, m1)"
    if "first \<le> va" "va < fin" "is_valid h (store m1 (phys_to_dmap al (covering_pa c)) (entry_index va 0))" for va
    using that held by (simp add: cursor_query_def c assms(2) read_meta_waits pbind_def)
  ultimately show ?thesis by blast
qed

theorem cursor_leaf_deadlocks_witness:
  "\<exists>c m1. as_lock example_tte example_pages example_space 0 0x4000 example_user = Some (Inr c, m1) \<and> covering_level c = 0 \<and>
     cursor_mark example_tte example_pages c (PrivateAnonymous ()) m1 = Some (Inl Waits, m1) \<and>
     cursor_query example_tte example_pages c 0 m1 = Some (Inl Waits, m1)"
proof -
  have l: "covering_level example_cursor = 0" "(0 :: usize) < 0x4000" by (simp_all add: example_cursor_def)
  have v: "is_valid example_tte (store example_locked (phys_to_dmap example_pages (covering_pa example_cursor)) (entry_index 0 0))"
    by (simp add: example_tte_def example_locked_def example_user_def example_index)
  have "cursor_mark example_tte example_pages example_cursor (PrivateAnonymous ()) example_locked = Some (Inl Waits, example_locked)"
    "cursor_query example_tte example_pages example_cursor 0 example_locked = Some (Inl Waits, example_locked)"
    using cursor_leaf_deadlocks [OF example_lock l] l(2) v by simp_all
  with example_lock l(1) show ?thesis by blast
qed

end
