(* ===== verification/User_Maps.thy ===== *)
theory User_Maps
  imports User_Space
begin

text \<open>
  Mapping through a cursor, with all layers below it: the allocator of an address space keeps the contract of the
  allocator it wraps as long as the pages have descriptors, and the first mapping of a page by a cursor does what the
  mapper promises, records it in the page descriptors and can be queried.
\<close>

section \<open>Tables with descriptors\<close>

text \<open>The pages that tables come from, and the direct map on the addresses of entries.\<close>

locale described_supply = table_supply al live ready spare blank
  for al :: "('e, 'a) table_ops" and live :: "'a \<Rightarrow> u64 set" and ready :: "'a \<Rightarrow> bool" and spare :: "'a \<Rightarrow> nat" and blank :: 'e +
  fixes pages :: "'a \<Rightarrow> u64 set"
  assumes live_pages: "ready a \<Longrightarrow> live a \<subseteq> pages a"
    and pages_law: "ready (pool m) \<Longrightarrow> alloc_table al m = Some (t, m') \<Longrightarrow> pages (pool m') = pages (pool m)"
    and pages_reach: "ready a \<Longrightarrow> t \<in> pages a \<Longrightarrow> phys_to_dmap al (dmap_to_phys al t) = t \<and> frame_address (dmap_to_phys al t)"
    and frame_reach: "frame_address f \<Longrightarrow> dmap_to_phys al (phys_to_dmap al f) = f"

text \<open>Every page has a descriptor, whose lock nobody holds unless the page is in use; metadata arrays are full.\<close>

definition metas_ok :: "'ap page_descriptors \<Rightarrow> bool" where
  "metas_ok pds \<longleftrightarrow> (\<forall>ds r d a. pds = Some (ds, r) \<longrightarrow> d \<in> set ds \<longrightarrow> d_meta d = Some a \<longrightarrow> length a = TABLE_ENTRIES)"

definition described :: "('e, 'a) table_ops \<Rightarrow> u64 set \<Rightarrow> u64 set \<Rightarrow> 'ap page_descriptors \<Rightarrow> bool" where
  "described al P L pds \<longleftrightarrow>
     metas_ok pds \<and>
     (\<forall>t \<in> P. \<exists>i. get_page_descriptor pds (dmap_to_phys al t) = Some i \<and> (t \<notin> L \<longrightarrow> unlocked (desc_at pds i)))"

definition user_ready ::
    "('e, 'a) table_ops \<Rightarrow> ('a \<Rightarrow> u64 set) \<Rightarrow> ('a \<Rightarrow> bool) \<Rightarrow> ('a \<Rightarrow> u64 set) \<Rightarrow> 'a \<times> 'ap page_descriptors \<Rightarrow> bool" where
  "user_ready al live ready pages s \<longleftrightarrow> ready (fst s) \<and> described al (pages (fst s)) (live (fst s)) (snd s)"

lemma unlocked_held:
  assumes "get_page_descriptor (descs m) pa = Some i"
  shows "unlocked (desc_at (descs m) i) \<longleftrightarrow> \<not> read_held m pa \<and> \<not> write_held m pa"
  using assms by (auto simp: unlocked_def read_held_def write_held_def)

text \<open>Writing metadata where nobody holds the lock.\<close>

lemma write_meta_run:
  assumes "get_page_descriptor (descs m) pa = Some i" and "unlocked (desc_at (descs m) i)"
  shows "write_meta pa f m =
    Some (Inr (), with_descs (set_desc (descs m) i ((desc_at (descs m) i)\<lparr>d_meta := f (d_meta (desc_at (descs m) i))\<rparr>)) m)"
  using assms by (simp add: write_meta_def user_defs)

lemma write_meta_finished:
  assumes "finishes (write_meta pa f) m = Some m'"
  obtains i where "get_page_descriptor (descs m) pa = Some i"
    "m' = with_descs (set_desc (descs m) i ((desc_at (descs m) i)\<lparr>d_meta := f (d_meta (desc_at (descs m) i))\<rparr>)) m"
proof -
  obtain r where run: "on_desc pa unlocked (\<lambda>d. d\<lparr>d_meta := f (d_meta d)\<rparr>) m = Some (Inr r, m')"
    using assms by (auto simp: finishes_def write_meta_def split: option.splits sum.splits)
  then show ?thesis using on_desc_Some [OF run] that by (auto split: option.splits if_splits)
qed

lemma metas_ok_set:
  assumes "metas_ok pds" and "\<And>a. d_meta d = Some a \<Longrightarrow> length a = TABLE_ENTRIES"
  shows "metas_ok (set_desc pds i d)"
  using assms by (cases pds) (auto simp: metas_ok_def set_desc_def dest!: subsetD [OF set_update_subset_insert])

lemma described_set:
  assumes "described al P L pds" and "get_page_descriptor pds pa = Some i" and "\<And>a. d_meta d = Some a \<Longrightarrow> length a = TABLE_ENTRIES"
    and "unlocked d = unlocked (desc_at pds i)"
  shows "described al P L (set_desc pds i d)"
proof -
  have "unlocked (desc_at (set_desc pds i d) j) = unlocked (desc_at pds j)" for j
    using desc_at_set [OF assms(2), of d j] assms(4) by simp
  moreover have "metas_ok (set_desc pds i d)"
    by (rule metas_ok_set) (use assms(1,3) in \<open>simp_all add: described_def\<close>)
  ultimately show ?thesis using assms(1) by (simp add: described_def)
qed

lemma unlocked_meta [simp]: "unlocked (d\<lparr>d_meta := x\<rparr>) = unlocked d"
  by (simp add: unlocked_def)

lemma user_allocator_simps [simp]:
  "alloc_table (user_allocator al) = user_alloc_table al" "free_table (user_allocator al) = user_free_table al"
  "phys_to_dmap (user_allocator al) = phys_to_dmap al" "dmap_to_phys (user_allocator al) = dmap_to_phys al"
  by (simp_all add: user_allocator_def)

section \<open>Paths of walks\<close>

text \<open>The indices of the entry type are those of address spaces, and entries hold addresses of pages.\<close>

definition granule_laws :: "('e, 'ap, 'sh) tte_ops \<Rightarrow> bool" where
  "granule_laws h \<longleftrightarrow>
     (\<forall>va level. va < 2 ^ 48 \<longrightarrow> level < 4 \<longrightarrow> calculate_index h va level = entry_index va (3 - level)) \<and>
     (\<forall>e. frame_address (tte_address h e))"

definition index_path :: "usize \<Rightarrow> nat \<Rightarrow> nat \<Rightarrow> nat list" where
  "index_path va low high = map (entry_index va) (rev [low..<Suc high])"

lemma index_path_Suc: "low \<le> Suc high \<Longrightarrow> index_path va low (Suc high) = entry_index va (Suc high) # index_path va low high"
  by (simp add: index_path_def)

lemma index_path_empty [simp]: "index_path va (Suc l) l = []"
  by (simp add: index_path_def)

lemma index_path_append: "low \<le> Suc mid \<Longrightarrow> mid \<le> high \<Longrightarrow> index_path va (Suc mid) high @ index_path va low mid = index_path va low high"
  using upt_add_eq_append [of low "Suc mid" "high - mid"] by (simp add: index_path_def flip: map_append rev_append)

lemma entry_index_less: "level \<le> 4 \<Longrightarrow> entry_index va level < TABLE_ENTRIES"
  by (simp add: entry_index_piece TABLE_ENTRIES_def)

lemma index_path_ok: "high \<le> 4 \<Longrightarrow> path_ok (index_path va low high)"
  by (auto simp: index_path_def path_ok_def intro: entry_index_less)

lemma indices_path:
  assumes "granule_laws h" and "va < 2 ^ 48"
  shows "indices h va = index_path va 1 3 @ [entry_index va 0]"
  using assms by (simp add: granule_laws_def indices_list index_path_def upt_rec) (simp add: numeral_3_eq_3 numeral_2_eq_2)

lemma table_at_store: "store m' = store m \<Longrightarrow> table_at h al m' t q = table_at h al m t q"
  by (induction q arbitrary: t) (simp_all add: table_at.simps(2))

lemma mmu_walk_store: "store m' = store m \<Longrightarrow> mmu_walk h al m' t q = mmu_walk h al m t q"
  by (induction q arbitrary: t) (simp_all add: Let_def)

text \<open>A translation by a page goes through a last-level table.\<close>

lemma walk_leaf:
  assumes "mmu_walk h al m root (q @ [i]) = Some (0, e)" and "length q = 3"
  obtains t where "table_at h al m root q = Some t" "is_link h (store m t i)"
proof -
  obtain a b c where q: "q = [a, b, c]" using assms(2) by (auto simp: numeral_eq_Suc length_Suc_conv)
  show ?thesis using assms(1) that unfolding q append.simps mmu_walk_paths
    by (auto simp: Let_def split: option.splits if_splits)
qed

text \<open>The walk of a lock goes through tables of the tree.\<close>

lemma covers_path:
  fixes m :: "('e, 'a, 'ap) user_mem"
  assumes "covers h al (store m) va fin level pa ks l p" and frames: "\<forall>e. frame_address (tte_address h e)"
    and "frame_address pa" "table_at h (user_allocator al) m root q = Some (phys_to_dmap al pa)"
    and "path_ok q" "length q + level \<le> 3"
  shows "l \<le> level \<and> frame_address p \<and>
    table_at h (user_allocator al) m root (q @ index_path va (Suc l) level) = Some (phys_to_dmap al p) \<and>
    (\<forall>k \<in> set ks. frame_address k \<and> (\<exists>q'. path_ok q' \<and> length q' \<le> 3 \<and>
       table_at h (user_allocator al) m root q' = Some (phys_to_dmap al k)))"
  using assms(1,3-)
proof (induction level arbitrary: pa ks q)
  case 0
  then show ?case by (cases ks) simp_all
next
  case (Suc level)
  show ?case
  proof (cases ks)
    case Nil
    with Suc.prems show ?thesis by simp
  next
    case (Cons k ks')
    let ?i = "entry_index va (Suc level)"
    let ?e = "store m (phys_to_dmap al pa) ?i"
    from Suc.prems(1) Cons have k: "k = pa" and link: "is_link h ?e"
      and cov: "covers h al (store m) va fin level (tte_address h ?e) ks' l p" by auto
    have "Suc level \<le> 4" using Suc.prems(5) by simp
    then have i: "?i < TABLE_ENTRIES" by (rule entry_index_less)
    have "table_at h (user_allocator al) m root (q @ [?i]) = Some (phys_to_dmap al (tte_address h ?e))"
      using Suc.prems(3) link by (simp add: table_at_append)
    from Suc.IH [OF cov _ this] frames Suc.prems(4,5) i have "l \<le> level" "frame_address p"
        "table_at h (user_allocator al) m root ((q @ [?i]) @ index_path va (Suc l) level) = Some (phys_to_dmap al p)"
        "\<forall>k \<in> set ks'. frame_address k \<and> (\<exists>q'. path_ok q' \<and> length q' \<le> 3 \<and>
           table_at h (user_allocator al) m root q' = Some (phys_to_dmap al k))" by auto
    moreover have "\<exists>q'. path_ok q' \<and> length q' \<le> 3 \<and> table_at h (user_allocator al) m root q' = Some (phys_to_dmap al pa)"
      using Suc.prems(3-5) by auto
    ultimately show ?thesis using Suc.prems(2) by (simp add: Cons k index_path_Suc)
  qed
qed

text \<open>From the covering table down to the last level.\<close>

lemma walk_to_leaf:
  fixes m :: "('e, 'a, 'ap) user_mem"
  assumes "table_at h (user_allocator al) m (phys_to_dmap al pa) (index_path va 1 l) = Some t"
    and frames: "\<forall>e. frame_address (tte_address h e)" and "frame_address pa"
  shows "\<exists>p. frame_address p \<and> phys_to_dmap al p = t \<and>
    (\<forall>st. update_leaf_from h al va st l pa m = update_leaf_from h al va st 0 p m) \<and>
    query_from h al va l pa m = query_from h al va 0 p m"
  using assms(1,3)
proof (induction l arbitrary: pa)
  case 0
  then show ?case by (auto simp: index_path_def)
next
  case (Suc l)
  let ?e = "store m (phys_to_dmap al pa) (entry_index va (Suc l))"
  have "is_link h ?e" "table_at h (user_allocator al) m (phys_to_dmap al (tte_address h ?e)) (index_path va 1 l) = Some t"
    using Suc.prems(1) by (simp_all add: index_path_Suc table_at.simps(2) split: if_splits)
  with Suc.IH [of "tte_address h ?e"] frames show ?case by (auto simp: is_link_def Let_def)
qed

text \<open>The range of one page.\<close>

lemma page_range:
  assumes "va AND PAGE_MASK = 0" and "unat va + PAGE_SIZE \<le> 2 ^ 48"
  shows "va < va + of_nat PAGE_SIZE" "page_steps va (va + of_nat PAGE_SIZE) = [va]"
    "level \<le> 4 \<Longrightarrow> entry_index va level = entry_index (last_in (va + of_nat PAGE_SIZE)) level" "va < 2 ^ 48"
proof -
  let ?fin = "va + of_nat PAGE_SIZE"
  have u: "unat ?fin = unat va + PAGE_SIZE"
    using assms(2) by (simp add: unat_plus_if' PAGE_SIZE_val)
  then show lt: "va < ?fin" by (simp add: word_less_nat_alt)
  have "(unat ?fin - unat va + PAGE_SIZE - 1) div PAGE_SIZE = 1" unfolding u by (simp add: PAGE_SIZE_val)
  then show "page_steps va ?fin = [va]" by (simp add: page_steps_def)
  show "va < 2 ^ 48" using assms(2) by (simp add: word_less_nat_alt PAGE_SIZE_val)
  have "unat (last_in x) = unat x - 1" for x
    by (auto simp: last_in_def unat_sub_if' not_less_eq_eq Suc_le_eq unsigned_eq_0_iff)
  from this [of ?fin] have l: "unat (last_in ?fin) = unat va + (PAGE_SIZE - 1)" using u by (simp only: u) (simp add: PAGE_SIZE_val)
  obtain k where k: "unat va = k * PAGE_SIZE" using assms(1) unfolding page_mask_unat
    by (auto simp: mod_eq_0_iff_dvd dvd_def mult.commute)
  have "unat (last_in ?fin) div PAGE_SIZE = unat va div PAGE_SIZE"
    unfolding l k by (simp add: PAGE_SIZE_val)
  moreover have "piece level x = unat x div PAGE_SIZE div 2 ^ (level * PAGE_INDEX_BITS)" for x
    by (simp add: piece_def PAGE_SIZE_def power_add div_mult2_eq)
  ultimately show "level \<le> 4 \<Longrightarrow> entry_index va level = entry_index (last_in ?fin) level"
    by (simp add: entry_index_piece)
qed

text \<open>Different pages have different descriptors.\<close>

lemma descriptor_inj:
  assumes "get_page_descriptor pds x = Some i" "get_page_descriptor pds y = Some i" and "frame_address x" "frame_address y"
  shows "x = y"
proof -
  have le: "x = y" if g: "get_page_descriptor pds x = Some i" "get_page_descriptor pds y = Some i" "frame_address x" "frame_address y"
      "unat x \<le> unat y" for x y
  proof -
    obtain lo where lo: "lo \<le> x" "lo \<le> y" "unat (drop_bit PAGE_SHIFT (x - lo)) = i" "unat (drop_bit PAGE_SHIFT (y - lo)) = i"
      using g(1,2) by (auto simp: get_page_descriptor_def Let_def split: option.splits prod.splits if_splits)
    have d: "unat (z - lo) = unat z - unat lo" if "lo \<le> z" for z using that by (simp add: unat_sub_if' word_le_nat_alt)
    have "(unat x - unat lo) div PAGE_SIZE = (unat y - unat lo) div PAGE_SIZE"
      using lo(3,4) [unfolded unat_drop_bit_eq d [OF lo(1)] d [OF lo(2)]] by (simp only: drop_bit_eq_div PAGE_SIZE_def)
    then have "unat y - unat x < PAGE_SIZE"
      using lo(1,2) g(5) unfolding word_le_nat_alt PAGE_SIZE_val by linarith
    moreover obtain a b where "unat x = a * PAGE_SIZE" "unat y = b * PAGE_SIZE"
      using g(3,4) unfolding frame_address_unat by (auto simp: mod_eq_0_iff_dvd dvd_def mult.commute)
    ultimately have "unat x = unat y" using g(5) by (auto simp: PAGE_SIZE_val)
    then show ?thesis by (simp add: word_unat_eq_iff)
  qed
  show ?thesis using le [OF assms] le [OF assms(2,1,4,3)] by (metis nle_le)
qed

context described_supply
begin

lemma user_alloc_ok:
  assumes ready: "user_ready al live ready pages (pool m)" and run: "user_alloc_table al m = Some (t, m')"
  shows "user_ready al live ready pages (pool m')" "pages (fst (pool m')) = pages (fst (pool m))"
    "spare (fst (pool m)) \<le> Suc (spare (fst (pool m')))" "t \<notin> live (fst (pool m))"
    "live (fst (pool m')) = insert t (live (fst (pool m)))" "\<forall>i < TABLE_ENTRIES. store m' t i = blank"
    "\<forall>u \<in> live (fst (pool m)). store m' u = store m u"
    "read_held m' x = read_held m x" "write_held m' x = write_held m x"
proof -
  obtain m1 where m1: "alloc_table al (inner_mem m) = Some (t, m1)"
      and fin: "finishes (write_meta (dmap_to_phys al t) (\<lambda>_. None)) (outer_mem m1 (descs m)) = Some m'"
    using run by (auto simp: user_alloc_table_def bind_eq_Some_conv)
  have r: "ready (pool (inner_mem m))" using ready by (simp add: user_ready_def)
  note law = alloc_law [OF r m1] and same = pages_law [OF r m1] and eff = write_meta_finishes [OF fin]
  have m': "fst (pool m') = pool m1" "store m' = store m1" using eff(3,4) by simp_all
  show "pages (fst (pool m')) = pages (fst (pool m))" using same m' by simp
  show "spare (fst (pool m)) \<le> Suc (spare (fst (pool m')))" "t \<notin> live (fst (pool m))"
    "live (fst (pool m')) = insert t (live (fst (pool m)))" "\<forall>i < TABLE_ENTRIES. store m' t i = blank"
    "\<forall>u \<in> live (fst (pool m)). store m' u = store m u" using law m' by simp_all
  show "read_held m' x = read_held m x" "write_held m' x = write_held m x"
    using eff(1,2) by (simp_all add: read_held_def write_held_def)
  obtain i where i: "get_page_descriptor (descs m) (dmap_to_phys al t) = Some i"
      "descs m' = set_desc (descs m) i ((desc_at (descs m) i)\<lparr>d_meta := None\<rparr>)"
    by (rule write_meta_finished [OF fin]) simp
  have "described al (pages (fst (pool m))) (insert t (live (fst (pool m)))) (descs m)"
    using ready by (auto simp: user_ready_def described_def descs_def)
  then have "described al (pages (fst (pool m))) (insert t (live (fst (pool m)))) (descs m')"
    unfolding i(2) by (rule described_set [OF _ i(1)]) simp_all
  then show "user_ready al live ready pages (pool m')" using law same m' by (simp add: user_ready_def descs_def)
qed

lemma user_alloc_returns:
  assumes ready: "user_ready al live ready pages (pool m)" and "0 < spare (fst (pool m))"
  shows "user_alloc_table al m \<noteq> None"
proof -
  have r: "ready (pool (inner_mem m))" "0 < spare (pool (inner_mem m))" using assms by (simp_all add: user_ready_def)
  obtain t m1 where m1: "alloc_table al (inner_mem m) = Some (t, m1)" using spare_law [OF r] by auto
  note law = alloc_law [OF r(1) m1] and same = pages_law [OF r(1) m1]
  have "t \<in> pages (fst (pool m))" "t \<notin> live (fst (pool m))" using law live_pages [of "pool m1"] same by auto
  then obtain i where "get_page_descriptor (descs m) (dmap_to_phys al t) = Some i" "unlocked (desc_at (descs m) i)"
    using ready by (auto simp: user_ready_def described_def descs_def)
  then show ?thesis using m1 write_meta_run [of "outer_mem m1 (descs m)"] by (simp add: user_alloc_table_def finishes_def)
qed

lemma user_supply:
  "table_supply (user_allocator al) (\<lambda>s. live (fst s)) (user_ready al live ready pages) (\<lambda>s. spare (fst s)) blank"
proof
  fix m m' :: "('e, 'a, 'ap) user_mem" and t a
  show "user_ready al live ready pages (pool m) \<Longrightarrow> alloc_table (user_allocator al) m = Some (t, m') \<Longrightarrow>
    user_ready al live ready pages (pool m') \<and> spare (fst (pool m)) \<le> Suc (spare (fst (pool m'))) \<and>
    t \<notin> live (fst (pool m)) \<and> live (fst (pool m')) = insert t (live (fst (pool m))) \<and>
    (\<forall>i < TABLE_ENTRIES. store m' t i = blank) \<and> (\<forall>u \<in> live (fst (pool m)). store m' u = store m u)"
    using user_alloc_ok [of m t m'] by simp
  show "user_ready al live ready pages (pool m) \<Longrightarrow> 0 < spare (fst (pool m)) \<Longrightarrow> alloc_table (user_allocator al) m \<noteq> None"
    using user_alloc_returns [of m] by simp
next
  fix s :: "'a \<times> 'ap page_descriptors" and t
  show "user_ready al live ready pages s \<Longrightarrow> t \<in> live (fst s) \<Longrightarrow>
    phys_to_dmap (user_allocator al) (dmap_to_phys (user_allocator al) t) = t \<and>
    dmap_to_phys (user_allocator al) t \<noteq> 0 \<and> frame_address (dmap_to_phys (user_allocator al) t)"
    using reach_law [of "fst s" t] by (simp add: user_ready_def)
qed

text \<open>The locks of a cursor are those of tables in use.\<close>

lemma lock_ready:
  assumes "user_ready al live ready pages (pool m)" and D: "\<forall>k \<in> K. frame_address k \<and> phys_to_dmap al k \<in> live (fst (pool m))"
    and only: "locks_only (get_page_descriptor (descs m) ` K) m m1"
  shows "user_ready al live ready pages (pool m1)"
proof -
  let ?P = "pages (fst (pool m))" and ?L = "live (fst (pool m))"
  have r: "ready (fst (pool m))" and d: "described al ?P ?L (descs m)" using assms(1) by (simp_all add: user_ready_def descs_def)
  have same: "fst (pool m1) = fst (pool m)" "metas (descs m1) = metas (descs m)"
    "\<And>x. get_page_descriptor (descs m1) x = get_page_descriptor (descs m) x"
    using only get_metas by (auto simp: locks_only_def)
  have "metas_ok (descs m1)"
  proof -
    have "length a = TABLE_ENTRIES" if g: "descs m1 = Some (ds, r)" "e \<in> set ds" "d_meta e = Some a" for ds r e a
    proof -
      obtain ds' where ds': "descs m = Some (ds', r)" "map d_meta ds' = map d_meta ds"
        using same(2) g(1) by (cases "descs m") (auto simp: metas_def)
      have "Some a \<in> set (map d_meta ds')" using g ds'(2) by (metis image_eqI list.set_map)
      then show ?thesis using d ds'(1) by (auto simp: described_def metas_ok_def)
    qed
    then show ?thesis by (auto simp: metas_ok_def)
  qed
  moreover have "\<exists>i. get_page_descriptor (descs m1) (dmap_to_phys al t) = Some i \<and> (t \<notin> ?L \<longrightarrow> unlocked (desc_at (descs m1) i))"
    if t: "t \<in> ?P" for t
  proof -
    obtain i where i: "get_page_descriptor (descs m) (dmap_to_phys al t) = Some i" "t \<notin> ?L \<longrightarrow> unlocked (desc_at (descs m) i)"
      using d t by (auto simp: described_def)
    have "unlocked (desc_at (descs m1) i)" if nl: "t \<notin> ?L"
    proof -
      have "get_page_descriptor (descs m) k \<noteq> Some i" if k: "k \<in> K" for k
      proof
        assume "get_page_descriptor (descs m) k = Some i"
        then have "k = dmap_to_phys al t" using i(1) D k pages_reach [OF r t] by (auto intro: descriptor_inj)
        then show False using D k pages_reach [OF r t] nl by auto
      qed
      then have "get_page_descriptor (descs m) (dmap_to_phys al t) \<notin> get_page_descriptor (descs m) ` K" using i(1) by force
      then have "read_held m1 (dmap_to_phys al t) = read_held m (dmap_to_phys al t)"
        "write_held m1 (dmap_to_phys al t) = write_held m (dmap_to_phys al t)"
        using only unfolding locks_only_def by blast+
      then show ?thesis using i nl unlocked_held same(3) by metis
    qed
    then show ?thesis using i(1) same(3) by auto
  qed
  ultimately show ?thesis using r same by (simp add: user_ready_def described_def descs_def)
qed

text \<open>Recording the status of a page in the descriptor of its last-level table, and reading it back.\<close>

lemma leaf_recorded:
  fixes m :: "('e, 'a, 'ap) user_mem"
  assumes ready: "user_ready al live ready pages (pool m)" and t: "t \<in> pages (fst (pool m))"
    and p: "frame_address p" "phys_to_dmap al p = t" and free: "\<not> read_held m p" "\<not> write_held m p"
    and valid: "is_valid h (store m t (entry_index va 0))"
  shows "\<exists>m'. update_leaf_from h al va st 0 p m = Some (Inr (), m') \<and> store m' = store m \<and> fst (pool m') = fst (pool m) \<and>
    query_from h al va 0 p m' = Some (Inr st, m')"
proof -
  have d: "described al (pages (fst (pool m))) (live (fst (pool m))) (descs m)" using ready by (simp add: user_ready_def descs_def)
  have "dmap_to_phys al t = p" using frame_reach [OF p(1)] p(2) by simp
  then obtain i where i: "get_page_descriptor (descs m) p = Some i" using d t by (auto simp: described_def)
  let ?d = "desc_at (descs m) i"
  have u: "unlocked ?d" using unlocked_held [OF i] free by simp
  obtain ds rg where ds: "descs m = Some (ds, rg)" "i < length ds" using descriptor_bound [OF i] by blast
  then have "?d \<in> set ds" by (simp add: desc_at_def)
  then have len: "length a = TABLE_ENTRIES" if "d_meta ?d = Some a" for a
    using d ds(1) that by (auto simp: described_def metas_ok_def)
  define arr where "arr = (case d_meta ?d of None \<Rightarrow> replicate TABLE_ENTRIES Invalid | Some a \<Rightarrow> a)"
  have "length arr = TABLE_ENTRIES" using len by (simp add: arr_def split: option.splits)
  then have new: "arr[entry_index va 0 := st] ! entry_index va 0 = st" by (simp add: entry_index_less)
  let ?m = "with_descs (set_desc (descs m) i (?d\<lparr>d_meta := Some (arr[entry_index va 0 := st])\<rparr>)) m"
  have "update_leaf_from h al va st 0 p m = Some (Inr (), ?m)"
    using write_meta_run [OF i u] by (simp add: Let_def arr_def)
  moreover have "query_from h al va 0 p ?m = Some (Inr st, ?m)"
    using valid p(2) u new by (simp add: Let_def pbind_def read_meta_def i desc_at_set [OF i] unlocked_def pret_def)
  moreover have "fst (pool ?m) = fst (pool m)" by (simp add: with_descs_def)
  ultimately show ?thesis by (intro exI [of _ ?m]) simp
qed

text \<open>What mapping leaves alone besides tables.\<close>

lemma user_map_page_keeps:
  assumes "map_page h (user_allocator al) a root pa va m = Some m'" and "user_ready al live ready pages (pool m)"
  shows "pages (fst (pool m')) = pages (fst (pool m))" "read_held m' x = read_held m x" "write_held m' x = write_held m x"
proof -
  let ?I = "\<lambda>n. user_ready al live ready pages (pool n) \<and> pages (fst (pool n)) = pages (fst (pool m)) \<and>
    read_held n x = read_held m x \<and> write_held n x = write_held m x"
  have "?I m'"
  proof (rule frame_map_page [where I = ?I, OF _ _ assms(1)])
    show "?I n'" if "?I n" "alloc_table (user_allocator al) n = Some (t, n')" for n t n'
      using that user_alloc_ok [of n t n'] by simp
    show "?I (set_entry t i e n)" if "?I n" for t i e n
      using that by (simp add: set_entry_store read_held_def write_held_def)
  qed (use assms(2) in simp)
  then show "pages (fst (pool m')) = pages (fst (pool m))" "read_held m' x = read_held m x" "write_held m' x = write_held m x"
    by simp_all
qed

text \<open>The state after the lock of a page whose last-level table does not exist yet.\<close>

lemma page_locked:
  fixes m :: "('e, 'a, 'ap) user_mem"
  assumes frames: "\<forall>e. frame_address (tte_address h e)" and ready: "user_ready al live ready pages (pool m)"
    and ok: "pt_ok h (user_allocator al) (live (fst (pool m))) m root"
    and sp: "as_root sp = Some root" "max_level sp = 3" and va: "va AND PAGE_MASK = 0" "unat va + PAGE_SIZE \<le> 2 ^ 48"
    and lock: "as_lock h al sp va (va + of_nat PAGE_SIZE) m = Some (Inr c, m1)" and above: "0 < covering_level c"
  shows "user_ready al live ready pages (pool m1) \<and> store m1 = store m \<and> fst (pool m1) = fst (pool m) \<and>
    c_space c = sp \<and> c_first c = va \<and> c_last c = va + of_nat PAGE_SIZE \<and>
    covering_level c \<le> 3 \<and> frame_address (covering_pa c) \<and>
    table_at h (user_allocator al) m1 root (index_path va (Suc (covering_level c)) 3) = Some (phys_to_dmap al (covering_pa c)) \<and>
    table_at h (user_allocator al) m1 root (index_path va 1 3) = None"
proof -
  let ?U = "user_allocator al :: ('e, 'a \<times> 'ap page_descriptors) table_ops" and ?l = "covering_level c" and ?p = "covering_pa c"
  let ?fin = "va + of_nat PAGE_SIZE"
  have rl: "root \<in> live (fst (pool m))" using pt_okD(1) [OF ok, of "[]" root] by simp
  have "ready (fst (pool m))" using ready by (simp add: user_ready_def)
  note root = reach_law [OF this rl]
  obtain cov: "covers h al (store m) va ?fin 3 (dmap_to_phys al root) (read_guards c) ?l ?p" and st: "store m1 = store m"
      and c: "c_space c = sp" "c_first c = va" "c_last c = ?fin"
      and only: "locks_only (get_page_descriptor (descs m) ` (set (read_guards c) \<union> {?p})) m m1"
      and stop: "stopped h al (store m) va ?fin ?l ?p"
    by (rule as_lock_ok [OF lock]) (use sp in simp)
  have path: "?l \<le> 3" "frame_address ?p" "table_at h ?U m root (index_path va (Suc ?l) 3) = Some (phys_to_dmap al ?p)"
      and guards: "\<forall>k \<in> set (read_guards c). frame_address k \<and> (\<exists>q. path_ok q \<and> length q \<le> 3 \<and>
        table_at h ?U m root q = Some (phys_to_dmap al k))"
    using covers_path [OF cov frames, of root "[]"] root by simp_all
  have "length (index_path va (Suc ?l) 3) \<le> 3" "path_ok (index_path va (Suc ?l) 3)"
    by (simp add: index_path_def, simp add: index_path_ok)
  with guards path(2,3) pt_okD(1) [OF ok]
  have "\<forall>k \<in> set (read_guards c) \<union> {?p}. frame_address k \<and> phys_to_dmap al k \<in> live (fst (pool m))" by blast
  then have "user_ready al live ready pages (pool m1)" by (rule lock_ready [OF ready _ only])
  moreover have "table_at h ?U m root (index_path va 1 3) = None"
  proof -
    have split: "index_path va (Suc ?l) 3 @ index_path va 1 ?l = index_path va 1 3"
      using path(1) by (intro index_path_append) simp_all
    have "\<not> is_link h (store m (phys_to_dmap al ?p) (entry_index va ?l))"
      using stop above page_range(3) [OF va, of ?l] path(1) by (simp add: stopped_def)
    moreover have "index_path va 1 ?l = entry_index va ?l # index_path va 1 (?l - 1)"
      using above index_path_Suc [of 1 "?l - 1" va] by simp
    ultimately have "table_at h ?U m (phys_to_dmap al ?p) (index_path va 1 ?l) = None" by (simp only: table_at.simps(2) if_False)
    then show ?thesis unfolding split [symmetric] using path(3) by (simp add: table_at_append)
  qed
  ultimately show ?thesis using c st path only table_at_store [OF st, of h ?U] by (simp add: locks_only_def)
qed

text \<open>After the mapping: the new last-level table is reached from the covering table and nobody holds its lock.\<close>

lemma new_leaf:
  fixes m :: "('e, 'a, 'ap) user_mem"
  assumes frames: "\<forall>e. frame_address (tte_address h e)" and ready: "user_ready al live ready pages (pool m)"
    and run: "map_page h (user_allocator al) a root pa va m = Some m'"
    and ok': "pt_ok h (user_allocator al) (live (fst (pool m'))) m' root" "user_ready al live ready pages (pool m')"
    and gr: "grows h (user_allocator al) (\<lambda>s. live (fst s)) root m m'"
    and l: "l \<le> 3" "frame_address p" "table_at h (user_allocator al) m root (index_path va (Suc l) 3) = Some (phys_to_dmap al p)"
    and none: "table_at h (user_allocator al) m root (index_path va 1 3) = None"
    and walk: "mmu_walk h (user_allocator al) m' root (index_path va 1 3 @ [entry_index va 0]) = Some (0, e)"
  shows "\<exists>m2. update_leaf_from h al va st l p m' = Some (Inr (), m2) \<and> store m2 = store m' \<and> fst (pool m2) = fst (pool m') \<and>
    query_from h al va l p m2 = Some (Inr st, m2)"
proof -
  let ?U = "user_allocator al :: ('e, 'a \<times> 'ap page_descriptors) table_ops" and ?q = "index_path va 1 3"
  have q: "length ?q \<le> 3" "path_ok ?q" "length (index_path va (Suc l) 3) \<le> 3" "path_ok (index_path va (Suc l) 3)"
    by (simp_all add: index_path_ok) (simp_all add: index_path_def)
  have split: "index_path va (Suc l) 3 @ index_path va 1 l = ?q" using l(1) by (intro index_path_append) simp_all
  obtain t where t: "table_at h ?U m' root ?q = Some t" "is_link h (store m' t (entry_index va 0))"
    using walk by (rule walk_leaf) (simp add: index_path_def)
  have fresh: "t \<notin> live (fst (pool m))" using gr q(1,2) t(1) none unfolding grows_def by (metis option.distinct(1))
  have "table_at h ?U m' root (index_path va (Suc l) 3) = Some (phys_to_dmap al p)"
    using gr q(3,4) l(3) unfolding grows_def by metis
  then have down: "table_at h ?U m' (phys_to_dmap al p) (index_path va 1 l) = Some t"
    using t(1) unfolding split [symmetric] by (simp add: table_at_append)
  obtain p' where p': "frame_address p'" "phys_to_dmap al p' = t"
      "update_leaf_from h al va st l p m' = update_leaf_from h al va st 0 p' m'"
    using walk_to_leaf [OF down frames l(2)] by blast
  have tp: "dmap_to_phys al t = p'" using frame_reach [OF p'(1)] p'(2) by simp
  note keeps = user_map_page_keeps [OF run ready]
  have page: "t \<in> pages (fst (pool m'))"
    using pt_okD(1) [OF ok'(1) q(1,2) t(1)] live_pages [of "fst (pool m')"] ok'(2) by (auto simp: user_ready_def)
  then obtain i where "get_page_descriptor (descs m) p' = Some i" "unlocked (desc_at (descs m) i)"
    using ready fresh tp keeps(1) by (auto simp: user_ready_def described_def descs_def)
  then have "\<not> read_held m' p'" "\<not> write_held m' p'" using unlocked_held keeps(2,3) by blast+
  then obtain m2 where m2: "update_leaf_from h al va st 0 p' m' = Some (Inr (), m2)" "store m2 = store m'"
      "fst (pool m2) = fst (pool m')" "query_from h al va 0 p' m2 = Some (Inr st, m2)"
    using leaf_recorded [OF ok'(2) page p'(1,2)] t(2) unfolding is_link_def by blast
  have "table_at h ?U m2 (phys_to_dmap al p) (index_path va 1 l) = Some t" using down table_at_store [OF m2(2)] by metis
  then obtain p2 where "frame_address p2" "phys_to_dmap al p2 = t" "query_from h al va l p m2 = query_from h al va 0 p2 m2"
    using walk_to_leaf [OF _ frames l(2)] by blast
  then have "query_from h al va l p m2 = Some (Inr st, m2)" using m2(4) tp frame_reach by metis
  then show ?thesis using m2(1-3) p'(3) by metis
qed

lemma cursor_first_map:
  fixes m :: "('e, 'a, 'ap) user_mem"
  assumes laws: "tte_laws h" "granule_laws h" and blank: "\<not> is_valid h blank" "tte_address h blank = 0"
    and ready: "user_ready al live ready pages (pool m)" and spare: "3 \<le> spare (fst (pool m))"
    and ok: "pt_ok h (user_allocator al) (live (fst (pool m))) m root"
    and sp: "as_root sp = Some root" "max_level sp = 3" and va: "va AND PAGE_MASK = 0" "unat va + PAGE_SIZE \<le> 2 ^ 48"
    and nb: "\<nexists>e. translate h (user_allocator al) m root va = Some (1, e)" and pa: "frame_address pa"
    and lock: "as_lock h al sp va (va + of_nat PAGE_SIZE) m = Some (Inr c, m1)" and above: "0 < covering_level c"
  shows "\<exists>m2 e. cursor_map h al c pa a m1 = Some (Inr (), m2) \<and> kind_of h (set_leaf h a pa e) = (True, True, pa) \<and>
    pt_ok h (user_allocator al) (live (fst (pool m2))) m2 root \<and>
    (\<forall>vb. translate h (user_allocator al) m2 root vb =
      (if same_page vb va then Some (0, set_leaf h a pa e) else translate h (user_allocator al) m root vb)) \<and>
    cursor_query h al c va m2 = Some (Inr (Mapped pa (access a)), m2)"
proof -
  let ?U = "user_allocator al :: ('e, 'a \<times> 'ap page_descriptors) table_ops"
  note range = page_range [OF va]
  have frames: "\<forall>e. frame_address (tte_address h e)" using laws(2) by (simp add: granule_laws_def)
  have l: "user_ready al live ready pages (pool m1)" "store m1 = store m" "fst (pool m1) = fst (pool m)"
      "covering_level c \<le> 3" "frame_address (covering_pa c)"
      "table_at h ?U m1 root (index_path va (Suc (covering_level c)) 3) = Some (phys_to_dmap al (covering_pa c))"
      "table_at h ?U m1 root (index_path va 1 3) = None" and c: "c_space c = sp" "c_first c = va" "c_last c = va + of_nat PAGE_SIZE"
    using page_locked [OF frames ready ok sp va lock above] by blast+
  note walk = mmu_walk_store [OF l(2), of h ?U]
  have ok1: "pt_ok h ?U (live (fst (pool m1))) m1 root" using ok by (simp add: pt_ok_def table_at_store [OF l(2)] l(2,3))
  have nb1: "\<nexists>e. translate h ?U m1 root va = Some (1, e)" using nb by (simp add: translate_def walk)
  obtain m' where run: "map_page h ?U a root pa va m1 = Some m'"
    using table_supply.map_page_returns [OF user_supply laws(1) l(1), of a root pa va] spare l(3) by auto
  obtain e where ok': "pt_ok h ?U (live (fst (pool m'))) m' root" "user_ready al live ready pages (pool m')"
      and e: "kind_of h (set_leaf h a pa e) = (True, True, pa)"
      and tr: "\<forall>vb. translate h ?U m' root vb = (if same_page vb va then Some (0, set_leaf h a pa e) else translate h ?U m1 root vb)"
      and gr: "grows h ?U (\<lambda>s. live (fst s)) root m1 m'"
    using table_supply.map_page_all [OF user_supply laws(1) blank ok1 l(1) pa nb1 run] by blast
  have "translate h ?U m' root va = Some (0, set_leaf h a pa e)" using tr by (simp add: same_page_def)
  then have w: "mmu_walk h ?U m' root (index_path va 1 3 @ [entry_index va 0]) = Some (0, set_leaf h a pa e)"
    by (simp add: translate_def indices_path [OF laws(2) range(4)])
  obtain m2 where m2: "update_leaf_from h al va (Mapped pa (access a)) (covering_level c) (covering_pa c) m' = Some (Inr (), m2)"
      "store m2 = store m'" "fst (pool m2) = fst (pool m')"
      "query_from h al va (covering_level c) (covering_pa c) m2 = Some (Inr (Mapped pa (access a)), m2)"
    using new_leaf [OF frames l(1) run ok' gr l(4-7) w] by blast
  have "cursor_map h al c pa a m1 = Some (Inr (), m2)"
    using run m2(1) by (simp add: cursor_map_def c sp range(2) lift_step_def pbind_def update_leaf_meta_def pret_def)
  moreover have "cursor_query h al c va m2 = Some (Inr (Mapped pa (access a)), m2)"
    using range(1) m2(4) by (simp add: cursor_query_def c)
  moreover have "pt_ok h ?U (live (fst (pool m2))) m2 root"
    using ok'(1) by (simp add: pt_ok_def table_at_store [OF m2(2)] m2(2,3))
  ultimately show ?thesis
    using e tr by (intro exI [of _ m2] exI [of _ e]) (simp add: translate_def mmu_walk_store [OF m2(2)] walk)
qed

end

section \<open>The kernel\<close>

definition kernel_pages :: "page_allocator \<Rightarrow> u64 set" where
  "kernel_pages s = {t. \<exists>zp \<in> set (zone_chain s). \<exists>i < npages s zp. unat t = page_addr s zp i}"

lemma kernel_live_pages: "kernel_live s \<subseteq> kernel_pages s"
  by (auto simp: kernel_live_def kernel_pages_def allocated_def used_heads_def)

lemma kernel_alloc_pages:
  assumes ready: "kernel_ready (pool m)" and a: "kernel_alloc_table blank m = Some (t, m')"
  shows "kernel_pages (pool m') = kernel_pages (pool m)"
proof -
  obtain zs Ls where inv: "buddy_inv (pool m) zs Ls {}" by (rule kernel_readyE [OF ready])
  obtain r s where rs: "alloc_pages (pool m) 0 = Some (r, s)"
      "if \<forall>k. 0 \<le> k \<and> k < MAX_ORDER \<longrightarrow> free_heads (pool m) zs {} k = {} then r = 0 \<and> s = pool m
       else alloc_post (pool m) zs 0 r s"
    using alloc_pages_ok [OF inv, of 0] by (auto simp: MAX_ORDER_def)
  have "pool m' = s"
    using a rs(1) by (auto simp: kernel_alloc_table_def alloc_dmap_page_def alloc_page_def split: if_splits)
  moreover have "kernel_pages s = kernel_pages (pool m)"
  proof (cases "s = pool m")
    case False
    then obtain Ls' where p: "buddy_inv s zs Ls' {}" "same_frame ((pool m)\<lparr>allocated_pages := allocated_pages (pool m) + 2 ^ 0\<rparr>) s"
      using rs(2) by (auto simp: alloc_post_def split: if_splits)
    show ?thesis
      by (simp add: kernel_pages_def zone_chain_eq [OF p(1)] zone_chain_eq [OF inv] same_frame_mapped [OF p(2)])
  qed simp
  ultimately show ?thesis by simp
qed

lemma kernel_pages_reach:
  assumes "kernel_ready s" and t: "t \<in> kernel_pages s"
  shows "phys_addr_to_dmap (dmap_addr_to_phys t) = t \<and> frame_address (dmap_addr_to_phys t)"
proof -
  obtain zs Ls where inv: "buddy_inv s zs Ls {}" and z: "zones_mapped s zs" by (rule kernel_readyE [OF assms(1)])
  obtain zp i where p: "zp \<in> set zs" "i < npages s zp" "unat t = page_addr s zp i"
    using t by (auto simp: kernel_pages_def zone_chain_eq [OF inv])
  have "unat DMAP_START < unat t" "unat t mod PAGE_SIZE = 0"
    using z p(1,3) by (auto simp: zones_mapped_def page_addr_def)
  from dmap_page_reach [OF this] show ?thesis by blast
qed

lemma kernel_frame_reach: "frame_address f \<Longrightarrow> dmap_addr_to_phys (phys_addr_to_dmap f) = f"
  by (rule dmap_low) (simp add: frame_address_unat)

interpretation kdesc: described_supply "kernel_tables blank" kernel_live kernel_ready kernel_spare blank kernel_pages for blank :: 'e
  by unfold_locales
    (simp_all only: kernel_tables_def table_ops.simps kernel_live_pages kernel_alloc_pages kernel_pages_reach kernel_frame_reach)

text \<open>For the witness: a lock of an address space whose root has no table in the entry asked for.\<close>

lemma lock_root:
  assumes "as_root sp = Some root" "max_level sp = 3" and d: "get_page_descriptor (descs m) (dmap_to_phys al root) = Some i"
    and u: "unlocked (desc_at (descs m) i)"
    and nl: "\<not> is_link h (store m (phys_to_dmap al (dmap_to_phys al root)) (entry_index first 3))"
  shows "\<exists>c m1. as_lock h al sp first fin m = Some (Inr c, m1) \<and> covering_level c = 3"
proof -
  let ?pa = "dmap_to_phys al root"
  obtain m1 where r: "lock_read ?pa m = Some (Inr (), m1)" using d u by (simp add: user_defs unlocked_def)
  have "lock_loop h al first fin (Suc l) ?pa [] m = Some (Inr (Suc l, ?pa, []), m)"
    if "\<not> is_link h (store m (phys_to_dmap al ?pa) (entry_index first (Suc l)))" for l
    using that lock_read_got(1,2) [OF r] r by (auto simp: Let_def pbind_def pret_def is_link_def)
  from this [of 2] nl have "lock_loop h al first fin 3 ?pa [] m = Some (Inr (3, ?pa, []), m)" by simp
  moreover obtain m2 where "lock_write ?pa m = Some (Inr (), m2)" using d u by (simp add: user_defs)
  ultimately show ?thesis using assms(1,2) by (simp add: as_lock_def pbind_def pret_def)
qed

lemma mmu_walk_user: "mmu_walk h (user_allocator al) (outer_mem m pds) t q = mmu_walk h al m t q"
  by (induction q arbitrary: t) (simp_all add: Let_def)

lemma table_at_user: "table_at h (user_allocator al) (outer_mem m pds) t q = table_at h al m t q"
  by (induction q arbitrary: t) (simp_all add: table_at.simps(2))

definition all_descs :: "unit page_descriptors" where
  "all_descs = Some (replicate (2 ^ 34) \<lparr>d_readers = 0, d_writer = False, d_meta = None\<rparr>, 0, 2 ^ 48)"

lemma all_descs_frame:
  assumes "frame_address f"
  obtains i where "get_page_descriptor all_descs f = Some i" "unlocked (desc_at all_descs i)"
proof -
  have f: "unat f < 2 ^ 48" using assms by (simp add: frame_address_unat)
  then have "unat (drop_bit PAGE_SHIFT f) < 2 ^ 34"
    by (simp only: unat_drop_bit_eq) (simp add: drop_bit_eq_div PAGE_SHIFT_def)
  with f show ?thesis
    by (intro that [of "unat (drop_bit PAGE_SHIFT f)"])
      (simp_all add: all_descs_def get_page_descriptor_def word_less_nat_alt desc_at_def unlocked_def)
qed

lemma all_descs_ready:
  assumes "kernel_ready s"
  shows "user_ready (kernel_tables blank) kernel_live kernel_ready kernel_pages (s, all_descs)"
proof -
  have "\<exists>i. get_page_descriptor all_descs (dmap_addr_to_phys t) = Some i \<and> (t \<notin> kernel_live s \<longrightarrow> unlocked (desc_at all_descs i))"
    if "t \<in> kernel_pages s" for t
    using all_descs_frame kernel_pages_reach [OF assms that] by metis
  moreover have "metas_ok all_descs" by (simp add: metas_ok_def all_descs_def)
  ultimately show ?thesis using assms by (simp add: user_ready_def described_def kernel_tables_def)
qed

lemma example_tte_granule: "granule_laws example_tte"
proof -
  have "calculate_index example_tte va level = entry_index va (3 - level)" if va: "va < 2 ^ 48" "level < 4" for va level
  proof -
    have "take_bit 48 va = va"
      using va(1) by (simp only: word_unat_eq_iff unsigned_take_bit_eq) (simp add: take_bit_nat_eq_self word_less_nat_alt)
    then have "calculate_index example_tte va level = unat (take_bit 11 (drop_bit (14 + 11 * (3 - level)) va))"
      by (simp only: example_tte_def tte_ops.simps)
    also have "\<dots> = take_bit 11 (unat va div 2 ^ (14 + 11 * (3 - level)))"
      by (simp only: unsigned_take_bit_eq unat_drop_bit_eq) (simp only: drop_bit_eq_div)
    finally have "calculate_index example_tte va level = take_bit 11 (unat va div 2 ^ (14 + 11 * (3 - level)))" .
    then show ?thesis using entry_index_piece [of "3 - level" va]
      by (simp only: take_bit_eq_mod piece_def TABLE_ENTRIES_def PAGE_SHIFT_def PAGE_INDEX_BITS_def mult.commute) simp
  qed
  then show ?thesis by (simp add: granule_laws_def) (simp add: example_tte_def frame_bits_frame)
qed

section \<open>Mapping through a cursor\<close>

text \<open>C7: A cursor that locked one page, aligned, ending at most at \<open>2 ^ 48\<close> and in no block, and whose covering table
  is not of the last level, so that the page has no last-level table yet, maps it to a page-aligned frame below
  \<open>2 ^ 48\<close>: with three pages to spare the call returns, the hardware translates the page by the new entry and every
  other address as before, the tables stay well formed, and a query of the cursor answers with the frame and its
  permission.\<close>

theorem kernel_cursor_map:
  assumes "tte_laws h" "granule_laws h" "\<not> is_valid h blank" "tte_address h blank = 0"
    and "user_ready (kernel_tables blank) kernel_live kernel_ready kernel_pages (pool m)" "3 \<le> kernel_spare (fst (pool m))"
    and "pt_ok h (user_allocator (kernel_tables blank)) (kernel_live (fst (pool m))) m root"
    and "as_root sp = Some root" "max_level sp = 3" and "va AND PAGE_MASK = 0" "unat va + PAGE_SIZE \<le> 2 ^ 48"
    and "\<nexists>e. translate h (user_allocator (kernel_tables blank)) m root va = Some (1, e)" "frame_address pa"
    and "as_lock h (kernel_tables blank) sp va (va + of_nat PAGE_SIZE) m = Some (Inr c, m1)" "0 < covering_level c"
  shows "\<exists>m2 e. cursor_map h (kernel_tables blank) c pa a m1 = Some (Inr (), m2) \<and>
    kind_of h (set_leaf h a pa e) = (True, True, pa) \<and>
    pt_ok h (user_allocator (kernel_tables blank)) (kernel_live (fst (pool m2))) m2 root \<and>
    (\<forall>vb. translate h (user_allocator (kernel_tables blank)) m2 root vb =
      (if same_page vb va then Some (0, set_leaf h a pa e)
       else translate h (user_allocator (kernel_tables blank)) m root vb)) \<and>
    cursor_query h (kernel_tables blank) c va m2 = Some (Inr (Mapped pa (access a)), m2)"
  by (rule kdesc.cursor_first_map [OF assms])

theorem kernel_cursor_map_witness:
  "\<exists>sp m c m1 m2. as_lock example_tte (kernel_tables (False, False, 0)) sp 0x4000 0x8000 m = Some (Inr c, m1) \<and>
     cursor_map example_tte (kernel_tables (False, False, 0)) c 0x80000000
       \<lparr>access = (), share = (), uxn = True, pxn = False, attr_index = 1\<rparr> m1 = Some (Inr (), m2) \<and>
     cursor_query example_tte (kernel_tables (False, False, 0)) c 0x4000 m2 = Some (Inr (Mapped 0x80000000 ()), m2)"
proof -
  let ?b = "(False, False, 0) :: bool \<times> bool \<times> u64"
  let ?K = "kernel_tables ?b" and ?a = "\<lparr>access = (), share = (), uxn = True, pxn = False, attr_index = 1\<rparr>"
  obtain m root where m: "kernel_ready (pool m)" "6 \<le> kernel_spare (pool m)" "pt_ok example_tte ?K (kernel_live (pool m)) m root"
      "\<forall>va. translate example_tte ?K m root va = None" "\<forall>i < TABLE_ENTRIES. store m root i = ?b" using example_root by blast
  let ?m = "outer_mem m all_descs" and ?sp = "from_root_table None (Some root)"
  have sp: "as_root ?sp = Some root" "max_level ?sp = 3" by (simp_all add: from_root_table_def)
  have b: "\<not> is_valid example_tte ?b" "tte_address example_tte ?b = 0" by (simp_all add: example_tte_def)
  have r: "user_ready ?K kernel_live kernel_ready kernel_pages (pool ?m)" "3 \<le> kernel_spare (fst (pool ?m))"
    using all_descs_ready [OF m(1)] m(2) by (simp_all add: outer_mem_def)
  have ok: "pt_ok example_tte (user_allocator ?K) (kernel_live (fst (pool ?m))) ?m root"
    using m(3) by (simp add: pt_ok_def table_at_user)
  have nb: "\<nexists>e. translate example_tte (user_allocator ?K) ?m root 0x4000 = Some (1, e)"
    using m(4) by (simp add: translate_def mmu_walk_user)
  have va: "(0x4000 :: u64) AND PAGE_MASK = 0" "unat (0x4000 :: u64) + PAGE_SIZE \<le> 2 ^ 48" "frame_address 0x80000000"
    by (simp_all add: PAGE_MASK_def PAGE_SIZE_val frame_address_def)
  have "root \<in> kernel_live (pool m)" using pt_okD(1) [OF m(3), of "[]" root] by simp
  from kernel_reach [OF m(1) this] have reach: "phys_to_dmap ?K (dmap_to_phys ?K root) = root" "frame_address (dmap_to_phys ?K root)"
    by (simp_all add: kernel_tables_def)
  obtain i where "get_page_descriptor (descs ?m) (dmap_to_phys ?K root) = Some i" "unlocked (desc_at (descs ?m) i)"
    using all_descs_frame [OF reach(2)] by auto
  moreover have "\<not> is_link example_tte (store ?m (phys_to_dmap ?K (dmap_to_phys ?K root)) (entry_index 0x4000 3))"
    using m(5) b(1) entry_index_less [of 3] by (simp add: reach is_link_def)
  ultimately obtain c m1 where l: "as_lock example_tte ?K ?sp 0x4000 (0x4000 + of_nat PAGE_SIZE) ?m = Some (Inr c, m1)"
      "covering_level c = 3" using lock_root [OF sp] by blast
  have "0 < covering_level c" using l(2) by simp
  from kernel_cursor_map [OF example_tte_laws example_tte_granule b r ok sp va(1,2) nb va(3) l(1) this, of ?a] obtain m2 where
      "cursor_map example_tte ?K c 0x80000000 ?a m1 = Some (Inr (), m2)"
      "cursor_query example_tte ?K c 0x4000 m2 = Some (Inr (Mapped 0x80000000 ()), m2)" by auto
  moreover have "as_lock example_tte ?K ?sp 0x4000 0x8000 ?m = Some (Inr c, m1)" using l(1) by (simp add: PAGE_SIZE_val)
  ultimately show ?thesis by blast
qed

end
