(* ===== verification/Spec2Isabelle.thy ===== *)
theory Spec2Isabelle
  imports Gic_Registers Lpi_Alloc Block_Io Sleeping_Mutex Scheduler Page_Spec Aml_Devices Pcie_Devices Pcie_Msix User_Maps
begin

text \<open>
  A verification development of the Mars kernel, an operating system kernel for 64-bit Arm in Rust.

  \<^bold>\<open>The program.\<close> The library \<open>klib\<close> holds what is independent of the boot path: locks
  (\<open>klib/src/sync.rs\<close>), threads, processes and the scheduler (\<open>thread.rs\<close>, \<open>process.rs\<close>, \<open>scheduler.rs\<close>), the
  buddy allocator of physical pages (\<open>pm/page/mod.rs\<close>), translation tables (\<open>pm/page/mapper.rs\<close>), address spaces
  (\<open>vm/user\<close>), the block layer (\<open>block/mod.rs\<close>), the GICv3 interrupt controller (\<open>interrupt\<close>) and the device tree
  (\<open>hardware\<close>). The crate \<open>klib/models\<close> has typed access to memory-mapped registers. The kernel proper adds drivers
  for ACPI machine language (\<open>kernel/drivers/acpi-aml\<close>) and PCI Express (\<open>kernel/drivers/pcie\<close>), and the early
  initialisation that connects them. Firmware tables and the bus scan fill the device tree; a PCIe driver enables
  MSI-X through the interrupt controller, which takes interrupt numbers from the LPI allocator; address spaces change
  tables through the mapper, which takes table pages from the page allocator.

  \<^bold>\<open>Conventions.\<close> Machine integers are words of their width, and arithmetic wraps as in a release build wherever the
  source does not check it; addresses of the page allocator are naturals below \<open>2 ^ 64\<close>. A \<open>Result\<close> is a sum with
  \<open>Inl\<close> for \<open>Err\<close>. A panic, or a call that does not return, is \<open>None\<close>. Methods that act on a state are functions from
  the state, in \<open>Mars_Effects\<close> as transformers with errors that keep the state after an error. Loops that need not end
  are \<open>partial_function (option)\<close>, and that they return is then a theorem. Code of other crates and hardware are records
  of operations with named laws, and every law is instantiated in a witness.

  \<^bold>\<open>Shared theories.\<close> \<open>Mars_Prelude\<close> has the types, checked arithmetic, results and lemmas on words and lists;
  \<open>Mars_Effects\<close> the transformers, their loops and the rules for what every return of a method ensures.

  \<^bold>\<open>Memory.\<close>
  \<^item> \<open>Vm_Core\<close> models \<open>klib/src/vm/mod.rs\<close>: the geometry of pages, rounding, the direct map, memory regions. The
    direct map is a bijection on 48-bit addresses.
  \<^item> \<open>Page_Allocator\<close> models \<open>klib/src/pm/page/mod.rs\<close> with its linked lists in explicit memory. \<open>Page_Lists\<close>
    shows that the lists are lists, \<open>Page_Buddy\<close> states the invariant (the metadata bytes tile every zone with aligned
    blocks, the free lists hold exactly the free ones), \<open>Page_Ops\<close> shows that splitting, merging and carving keep it,
    and \<open>Page_Spec\<close> gives the contract: allocation returns a fresh block or null when there is none, freeing releases
    exactly the given block and refuses every other pointer, allocated blocks are disjoint. It also shows the two
    defects found: a region size for which \<open>add_range\<close> never ends, and traits that report exhaustion as success.
  \<^item> \<open>Page_Mapper\<close> models \<open>klib/src/pm/page/mapper.rs\<close>. Tables are memory. The locale \<open>table_supply\<close> is what mapping
    relies on (new tables are blank, nobody else's and reachable), \<open>table_source\<close> adds that tables can be given back.
    Against them, mapping and unmapping refine the walk of the hardware. \<open>Kernel_Tables\<close> models
    \<open>kernel/src/allocator/mod.rs\<close>, proves the contract for it from that of the page allocator, and states the
    properties for the tables of the kernel: a mapping changes the translation of its page and of no other, unmapping
    gives back exactly the tables that leave the tree and leaves none that became empty, a tree is freed completely. Mapping a page inside a block overwrites memory.
  \<^item> \<open>User_Space\<close> models \<open>klib/src/vm/user\<close>: page descriptors, the locking of a range and the cursor. Overlapping
    cursors exclude each other, dropping a cursor restores all locks, and the operations of a cursor on a last-level
    table wait for the lock that the cursor itself holds. \<open>User_Maps\<close> composes the layers: its locale
    \<open>described_supply\<close> says which pages tables come from, and gives the contract of the mapper to the allocator of an
    address space. On the kernel's allocator the first mapping of a page through a cursor succeeds and can be queried.

  \<^bold>\<open>Concurrency.\<close> \<open>Sync_Locks\<close> models the locks of \<open>klib/src/sync.rs\<close> as step relations over any number of threads, one
  atomic access per step; the locale \<open>exclusive_lock\<close> carries mutual exclusion from an invariant to reachable states,
  and the ticket lock refines a queue, wrap-around included. \<open>Sleeping_Mutex\<close> adds the sleeping mutex with
  \<open>block_current\<close>, and shows that it deadlocks with itself. \<open>Scheduler\<close> models threads, contexts, processes and
  run queues; \<open>schedule\<close> panics whenever it would switch.

  \<^bold>\<open>Registers and interrupts.\<close> \<open>Registers\<close> models the macros and fields of \<open>klib/models/src/memory/registers\<close>; a
  declaration that passes their compile-time check has independent fields, those of width 0 apart, and the locale \<open>field_type\<close> is what a field
  value must satisfy. \<open>Gic_Registers\<close> has every declaration of \<open>interrupt/gicv3/registers/gic.rs\<close>. \<open>Lpi_Alloc\<close>
  models \<open>lpi_alloc.rs\<close>: the least free number is returned. \<open>Gicv3_Driver\<close> models every method of
  \<open>interrupt/gicv3/mod.rs\<close>; \<open>Gicv3_Spec\<close> shows that no two events share an LPI, that the calls for message-signalled
  interrupts return, which command they put into the ring, and three defects. The poll of a command has the source's
  own bound \<open>MAX_SPINS\<close>.

  \<^bold>\<open>Devices.\<close> \<open>Device_Tree\<close> models \<open>klib/src/hardware\<close> and \<open>cpu_interface.rs\<close>; its locale \<open>device_sink\<close> is what a scan
  needs of the tree. \<open>Aml_Parser\<close> and \<open>Aml_Devices\<close> model \<open>kernel/drivers/acpi-aml\<close> and the walk over the DSDT in
  \<open>kernel/src/earlyinit/acpi.rs\<close>: parsing stays in its slice and makes progress on every input, and building the tree
  is safe for all bytes. \<open>Pcie_Config\<close> and \<open>Pcie_Devices\<close> model \<open>kernel/drivers/pcie\<close>: the configuration window,
  capabilities, base address registers and the bus scan. \<open>Pcie_Msix\<close> models \<open>interrupt.rs\<close> against the locale
  \<open>msi_controller\<close>, interpreted on the GICv3 driver: \<open>enable_msix\<close> programs exactly the vectors asked for. \<open>Block_Io\<close>
  models \<open>klib/src/block/mod.rs\<close>: requests return and stay inside their partitions, and the access counts of a provider cover
  those of its consumers, drops of adapters and partitions included. A call goes through at most as many providers as
  there are, so their number bounds the depth of the recursion.

  \<^bold>\<open>Not modelled.\<close> \<open>PageAllocator::transition_dmap\<close> and the slab allocator \<open>vm/slab.rs\<close>, which rewrite raw
  pointers in place; the handlers for MADT, MCFG, GTDT and FADT in \<open>earlyinit/acpi.rs\<close> and the table readers in
  \<open>kernel/drivers/acpi\<close>, which cast firmware memory to packed structs; the memory map in \<open>earlyinit/mem.rs\<close>,
  \<open>platform.rs\<close>, \<open>smp.rs\<close>, \<open>mmu.rs\<close>, \<open>gicv3.rs\<close>, exceptions and the timer, which sequence the boot over UEFI data,
  assembly and system registers; the virtual file system \<open>klib/src/vfs\<close>, whose inode operations no code implements
  and which nothing calls; the boot loader, which runs on UEFI services; logging and console output; host tools and
  procedural macros. The memory model is sequential consistency, interrupts do not preempt the operations that are
  modelled as one step, and the heap never runs out of memory for the bookkeeping of the drivers.
\<close>

end
